(* ===== verification/C_Prelude.thy ===== *)
theory C_Prelude
  imports Main "HOL-Library.Word"
begin

text \<open>
  Shared vocabulary of the development: results of fallible C functions, NUL-terminated
  strings, the decimal conversions of \<open>sprintf\<close> and \<open>atol\<close>, and byte regions of files and
  buffers. Every component theory imports this one.
\<close>

named_theorems c_exec \<open>symbolic execution of results and system calls\<close>
named_theorems region \<open>facts on byte regions under overwriting\<close>

section \<open>Results\<close>

text \<open>A C function that may leave the normal path returns a sum: \<open>Inl\<close> is the abnormal exit.\<close>

definition bindR :: "'e + 'a \<Rightarrow> ('a \<Rightarrow> 'e + 'b) \<Rightarrow> 'e + 'b" where
  "bindR m f = (case m of Inl e \<Rightarrow> Inl e | Inr x \<Rightarrow> f x)"

lemma bindR_Inr [simp, c_exec]: "bindR (Inr x) f = f x"
  by (simp add: bindR_def)

lemma bindR_Inl [simp, c_exec]: "bindR (Inl e) f = Inl e"
  by (simp add: bindR_def)

lemma bindR_eq_Inr: "bindR m f = Inr y \<longleftrightarrow> (\<exists>x. m = Inr x \<and> f x = Inr y)"
  by (cases m) auto

lemma bindR_assoc: "bindR (bindR m f) g = bindR m (\<lambda>x. bindR (f x) g)"
  by (cases m) auto

text \<open>
  The abnormal ends of a program: a dereference of a pointer to no object, an access outside
  a buffer, an exit through a logging or error function, and a loop that has used up the fuel
  it was given.
\<close>

datatype fault = Segv | Overflow | Log_exit string | Hangs

section \<open>Signed machine integers\<close>

definition wrap32 :: "int \<Rightarrow> int" where
  "wrap32 x = (x + 2 ^ 31) mod 2 ^ 32 - 2 ^ 31"

definition wrap64 :: "int \<Rightarrow> int" where
  "wrap64 x = (x + 2 ^ 63) mod 2 ^ 64 - 2 ^ 63"

lemma wrap32_id: "- (2 ^ 31) \<le> x \<Longrightarrow> x < 2 ^ 31 \<Longrightarrow> wrap32 x = x"
  by (simp add: wrap32_def)

lemma wrap64_id: "- (2 ^ 63) \<le> x \<Longrightarrow> x < 2 ^ 63 \<Longrightarrow> wrap64 x = x"
  by (simp add: wrap64_def)

section \<open>C strings\<close>

definition NUL :: char where "NUL = CHR 0x00"
definition NEWLINE :: char where "NEWLINE = CHR 0x0A"
definition SPACE :: char where "SPACE = CHR 0x20"

text \<open>The C string that starts at the first byte of a buffer.\<close>

definition cstr :: "string \<Rightarrow> string" where
  "cstr b = takeWhile (\<lambda>c. c \<noteq> NUL) b"

text \<open>\<open>strchr\<close>, cut at the first occurrence: the text before it and the text after it.\<close>

fun strchr :: "string \<Rightarrow> char \<Rightarrow> (string \<times> string) option" where
  "strchr [] c = None"
| "strchr (x # xs) c =
     (if x = c then Some ([], xs)
      else map_option (\<lambda>(a, b). (x # a, b)) (strchr xs c))"

lemma cstr_NUL_free [simp]: "NUL \<notin> set s \<Longrightarrow> cstr s = s"
  unfolding cstr_def takeWhile_eq_all_conv by metis

lemma cstr_append_NUL [simp]: "NUL \<notin> set s \<Longrightarrow> cstr (s @ NUL # t) = s"
  unfolding cstr_def by (subst takeWhile_append2) auto

lemma NUL_notin_cstr [simp]: "NUL \<notin> set (cstr b)"
  by (auto simp: cstr_def dest: set_takeWhileD)

lemma length_cstr_le: "length (cstr b) \<le> length b"
  by (simp add: cstr_def length_takeWhile_le)

lemma strchr_append [simp]: "c \<notin> set a \<Longrightarrow> strchr (a @ c # b) c = Some (a, b)"
  by (induction a) auto

lemma strchr_None_iff: "strchr s c = None \<longleftrightarrow> c \<notin> set s"
  by (induction s) auto

lemma strchr_Some: "strchr s c = Some (a, b) \<Longrightarrow> s = a @ c # b \<and> c \<notin> set a"
  by (induction s arbitrary: a b) (auto split: if_splits)

section \<open>Decimal numerals\<close>

definition isspace :: "char \<Rightarrow> bool" where
  "isspace c \<longleftrightarrow> (let n = of_char c :: nat in n = 32 \<or> 9 \<le> n \<and> n \<le> 13)"

definition isdigit :: "char \<Rightarrow> bool" where
  "isdigit c \<longleftrightarrow> (let n = of_char c :: nat in 48 \<le> n \<and> n \<le> 57)"

definition digit :: "nat \<Rightarrow> char" where
  "digit d = char_of (48 + d)"

text \<open>\<open>dec n\<close> is the text \<open>sprintf("%d", n)\<close> writes for a non-negative number.\<close>

fun dec :: "nat \<Rightarrow> string" where
  "dec n = (if n < 10 then [digit n] else dec (n div 10) @ [digit (n mod 10)])"

declare dec.simps [simp del]

definition dec_int :: "int \<Rightarrow> string" where
  "dec_int i = (if i < 0 then CHR ''-'' # dec (nat (- i)) else dec (nat i))"

text \<open>The field width of \<open>"%*d"\<close>: blanks on the left, never a truncation.\<close>

definition pad :: "nat \<Rightarrow> string \<Rightarrow> string" where
  "pad w s = replicate (w - length s) SPACE @ s"

definition digits_val :: "string \<Rightarrow> nat" where
  "digits_val s = foldl (\<lambda>v c. 10 * v + (of_char c - 48)) 0 s"

text \<open>
  \<open>atol\<close> (\<open>atoi\<close> keeps 32 bits of it): leading white space, an optional sign, the digits up
  to the first other character; the value is clamped to the range of a 64-bit \<open>long\<close>, as the
  C library's \<open>strtol\<close> does.
\<close>

definition atol :: "string \<Rightarrow> int" where
  "atol s =
     (let t = dropWhile isspace s;
          neg = (case t of c # _ \<Rightarrow> c = CHR ''-'' | [] \<Rightarrow> False);
          u = (case t of c # r \<Rightarrow> if c = CHR ''-'' \<or> c = CHR ''+'' then r else t | [] \<Rightarrow> t);
          v = int (digits_val (takeWhile isdigit u))
      in if neg then max (- (2 ^ 63)) (- v) else min (2 ^ 63 - 1) v)"

definition atoi :: "string \<Rightarrow> int" where
  "atoi s = wrap32 (atol s)"

lemma of_char_digit [simp]: "d < 10 \<Longrightarrow> of_char (digit d) = 48 + d"
  by (simp add: digit_def)

lemma isdigit_digit [simp]: "d < 10 \<Longrightarrow> isdigit (digit d)"
  by (simp add: isdigit_def)

lemma set_dec_digits: "c \<in> set (dec n) \<Longrightarrow> isdigit c"
proof (induction n rule: dec.induct)
  case (1 n)
  then show ?case
    by (cases "n < 10") (auto simp: dec.simps [of n])
qed

lemma dec_not_Nil [simp]: "dec n \<noteq> []"
  by (subst dec.simps) simp

lemma digits_val_snoc: "digits_val (s @ [c]) = 10 * digits_val s + (of_char c - 48)"
  by (simp add: digits_val_def)

lemma digits_val_dec [simp]: "digits_val (dec n) = n"
proof (induction n rule: dec.induct)
  case (1 n)
  show ?case
  proof (cases "n < 10")
    case True
    then show ?thesis by (simp add: dec.simps [of n] digits_val_def)
  next
    case False
    with "1.IH" show ?thesis
      by (simp add: dec.simps [of n] digits_val_snoc)
  qed
qed

lemma dec_inject [simp]: "dec m = dec n \<longleftrightarrow> m = n"
  by (metis digits_val_dec)

lemma isdigit_facts:
  "isdigit c \<Longrightarrow> c \<noteq> CHR ''-''" "isdigit c \<Longrightarrow> c \<noteq> CHR ''+''" "isdigit c \<Longrightarrow> c \<noteq> CHR '':''"
  "isdigit c \<Longrightarrow> c \<noteq> NUL" "isdigit c \<Longrightarrow> c \<noteq> NEWLINE" "isdigit c \<Longrightarrow> c \<noteq> SPACE"
  "isdigit c \<Longrightarrow> \<not> isspace c"
  by (auto simp: isdigit_def isspace_def NUL_def NEWLINE_def SPACE_def Let_def)

lemma dec_chars [simp]:
  "CHR '':'' \<notin> set (dec n)" "NUL \<notin> set (dec n)" "NEWLINE \<notin> set (dec n)" "SPACE \<notin> set (dec n)"
  using set_dec_digits isdigit_facts by blast+

lemma isspace_SPACE [simp]: "isspace SPACE"
  by (simp add: isspace_def SPACE_def)

lemma takeWhile_isdigit_dec:
  "(t = [] \<or> \<not> isdigit (hd t)) \<Longrightarrow> takeWhile isdigit (dec n @ t) = dec n"
  by (cases t) (auto simp: takeWhile_append set_dec_digits)

text \<open>Reading back a number printed in a field of any width.\<close>

lemma dropWhile_pad_dec: "dropWhile isspace (pad w (dec n) @ t) = dec n @ t"
proof -
  have "\<not> isspace (hd (dec n))"
    using set_dec_digits isdigit_facts(7) by (metis dec_not_Nil hd_in_set)
  then have *: "dropWhile isspace (dec n @ t) = dec n @ t"
    by (cases "dec n") auto
  have "dropWhile isspace (replicate k SPACE @ dec n @ t) = dec n @ t" for k
    by (induction k) (auto simp: *)
  then show ?thesis by (simp add: pad_def)
qed

lemma atol_pad_dec [simp]:
  assumes "n < 2 ^ 63"
  shows "atol (pad w (dec n)) = int n"
proof -
  have d: "dropWhile isspace (pad w (dec n)) = dec n"
    using dropWhile_pad_dec [of w n "[]"] by simp
  obtain c r where cr: "dec n = c # r" by (cases "dec n") auto
  then have c: "c \<noteq> CHR ''-''" "c \<noteq> CHR ''+''"
    using set_dec_digits [of c n] isdigit_facts(1,2) [of c] by auto
  have tw: "takeWhile isdigit (dec n) = dec n"
    using takeWhile_isdigit_dec [of "[]" n] by simp
  have v: "digits_val (takeWhile isdigit (c # r)) = n"
    using tw digits_val_dec [of n] by (simp only: cr)
  have "int n < 2 ^ 63"
    using assms by (metis of_nat_less_iff of_nat_numeral of_nat_power)
  then show ?thesis
    unfolding atol_def Let_def d by (simp add: cr v c del: takeWhile.simps)
qed

lemma atol_dec [simp]: "n < 2 ^ 63 \<Longrightarrow> atol (dec n) = int n"
  using atol_pad_dec [of n 0] by (simp add: pad_def)

lemma length_pad: "length (pad w s) = max w (length s)"
  by (simp add: pad_def)

lemma set_pad: "set (pad w s) \<subseteq> insert SPACE (set s)"
  by (auto simp: pad_def)

lemma length_dec_le: "n < 10 ^ k \<Longrightarrow> 0 < k \<Longrightarrow> length (dec n) \<le> k"
proof (induction n arbitrary: k rule: dec.induct)
  case (1 n)
  show ?case
  proof (cases "n < 10")
    case True
    with "1.prems" show ?thesis by (simp add: dec.simps [of n])
  next
    case False
    with "1.prems" obtain j where j: "k = Suc j" "0 < j"
      by (cases k; cases "k - 1") auto
    with "1.prems" have "n div 10 < 10 ^ j"
      by (simp add: div_less_iff_less_mult mult.commute)
    with False "1.IH" j show ?thesis by (simp add: dec.simps [of n])
  qed
qed

lemma length_dec_int: "\<bar>p\<bar> < 10 ^ 10 \<Longrightarrow> length (dec_int p) \<le> 11"
proof -
  assume "\<bar>p\<bar> < 10 ^ 10"
  then have "nat \<bar>p\<bar> < 10 ^ 10" by (simp add: nat_less_iff)
  then have "length (dec (nat \<bar>p\<bar>)) \<le> 10" by (rule length_dec_le) simp
  then show "length (dec_int p) \<le> 11" by (cases "p < 0") (simp_all add: dec_int_def)
qed

lemma wrap32_bounds: "- (2 ^ 31) \<le> wrap32 x" "wrap32 x < 2 ^ 31"
proof -
  have "0 \<le> (x + 2 ^ 31) mod 2 ^ 32" "(x + 2 ^ 31) mod 2 ^ 32 < 2 ^ 32" by simp_all
  then show "- (2 ^ 31) \<le> wrap32 x" "wrap32 x < 2 ^ 31" by (simp_all add: wrap32_def)
qed

lemma length_dec_pos [simp]: "0 < length (dec n)"
  by simp

section \<open>Byte regions\<close>

text \<open>\<open>seg bs off s\<close>: the bytes of \<open>bs\<close> from offset \<open>off\<close> on begin with \<open>s\<close>.\<close>

definition seg :: "string \<Rightarrow> nat \<Rightarrow> string \<Rightarrow> bool" where
  "seg bs off s \<longleftrightarrow> off + length s \<le> length bs \<and> take (length s) (drop off bs) = s"

text \<open>A write at an offset: a hole behind the end of the file reads as NUL bytes.\<close>

definition overwrite :: "string \<Rightarrow> nat \<Rightarrow> string \<Rightarrow> string" where
  "overwrite bs off s = take off bs @ replicate (off - length bs) NUL @ s @ drop (off + length s) bs"

lemma length_overwrite [simp]:
  "length (overwrite bs off s) = max (length bs) (off + length s)"
  by (simp add: overwrite_def)

lemma seg_length: "seg bs off s \<Longrightarrow> off + length s \<le> length bs"
  by (simp add: seg_def)

lemma seg_nth: "seg bs off s \<Longrightarrow> i < length s \<Longrightarrow> bs ! (off + i) = s ! i"
  by (metis add_leE nth_drop nth_take seg_def)

lemma seg_iff_nth:
  "seg bs off s \<longleftrightarrow> off + length s \<le> length bs \<and> (\<forall>i < length s. bs ! (off + i) = s ! i)"
  by (auto simp: seg_def list_eq_iff_nth_eq)

lemma seg_append: "seg bs off (s @ t) \<longleftrightarrow> seg bs off s \<and> seg bs (off + length s) t"
  by (auto simp: seg_iff_nth nth_append add.assoc less_diff_conv2)
    (metis add_diff_inverse_nat add_less_cancel_left)

lemma nth_overwrite:
  "off \<le> length bs \<Longrightarrow> i < length (overwrite bs off s) \<Longrightarrow>
     overwrite bs off s ! i = (if off \<le> i \<and> i < off + length s then s ! (i - off) else bs ! i)"
  by (auto simp: overwrite_def nth_append min_def)

lemma seg_overwrite_same [region]: "off \<le> length bs \<Longrightarrow> seg (overwrite bs off s) off s"
  by (auto simp: seg_iff_nth nth_overwrite)

lemma seg_overwrite_other [region]:
  assumes "seg bs o1 t" "off \<le> length bs" "o1 + length t \<le> off \<or> off + length s \<le> o1"
  shows "seg (overwrite bs off s) o1 t"
  using assms by (auto simp: seg_iff_nth nth_overwrite)

section \<open>Lines of a file\<close>

text \<open>\<open>fgets\<close>: up to the newline, or as much as the buffer holds.\<close>

definition fgets :: "nat \<Rightarrow> string \<Rightarrow> (string \<times> string) option" where
  "fgets n s =
     (if s = [] then None
      else
        let b = take (n - 1) s; l = takeWhile (\<lambda>c. c \<noteq> NEWLINE) b
        in if length l < length b then Some (l @ [NEWLINE], drop (length l + 1) s)
           else Some (b, drop (n - 1) s))"

lemma fgets_shrinks: "fgets n s = Some (l, r) \<Longrightarrow> 1 < n \<Longrightarrow> length r < length s"
proof -
  assume a: "fgets n s = Some (l, r)" "1 < n"
  then have "s \<noteq> []" "r = drop (n - 1) s \<or> (\<exists>k. r = drop (k + 1) s)" by (auto simp: fgets_def Let_def split: if_split_asm)
  then show "length r < length s" using a(2) by (cases s) auto
qed

lemma fgets_append: "fgets n s = Some (l, r) \<Longrightarrow> s = l @ r"
proof -
  assume f: "fgets n s = Some (l, r)"
  define bf where "bf = take (n - 1) s"
  define w where "w = takeWhile (\<lambda>c. c \<noteq> NEWLINE) bf"
  have E: "fgets n s = (if s = [] then None else if length w < length bf then Some (w @ [NEWLINE], drop (length w + 1) s)
      else Some (bf, drop (n - 1) s))" by (simp only: fgets_def Let_def bf_def w_def)
  show "s = l @ r"
  proof (cases "length w < length bf")
    case True
    then have n: "bf ! length w = NEWLINE" using nth_length_takeWhile [of "\<lambda>c. c \<noteq> NEWLINE" bf] unfolding w_def by blast
    have wb: "w = take (length w) bf" unfolding w_def by (rule takeWhile_eq_take)
    have "take (Suc (length w)) bf = w @ [NEWLINE]" using take_Suc_conv_app_nth [OF True] n wb by simp
    moreover have "take (Suc (length w)) bf = take (Suc (length w)) s" using True by (simp add: bf_def)
    moreover have "l = w @ [NEWLINE]" "r = drop (Suc (length w)) s"
      using f True unfolding E by (auto split: if_split_asm)
    ultimately show ?thesis by (metis append_take_drop_id)
  next
    case False
    then have "l = bf" "r = drop (n - 1) s"
      using f unfolding E by (auto split: if_split_asm)
    then show ?thesis by (simp add: bf_def)
  qed
qed

lemma fgets_position:
  assumes "fgets n (drop pos f) = Some (l, r)" "1 < n"
  shows "0 < length l" "pos + length l \<le> length f" "r = drop (pos + length l) f"
proof -
  have a: "drop pos f = l @ r" "length r < length (drop pos f)" using fgets_append [OF assms(1)] fgets_shrinks [OF assms] by simp_all
  then have "length (drop pos f) = length l + length r" by simp
  then have n: "length f - pos = length l + length r" "length r < length f - pos" using a(2) by simp_all
  show "0 < length l" "pos + length l \<le> length f" using n by linarith+
  have "drop (length l) (drop pos f) = r" unfolding a(1) by simp
  then show "r = drop (pos + length l) f" by (simp add: add.commute)
qed

lemma fgets_line:
  assumes "NEWLINE \<notin> set l" "length l < n - 1"
  shows "fgets n (l @ NEWLINE # r) = Some (l @ [NEWLINE], r)"
proof -
  obtain k where k: "n - 1 - length l = Suc k" using assms(2) by (cases "n - 1 - length l") auto
  have "take (n - 1) (l @ NEWLINE # r) = l @ NEWLINE # take k r" using assms(2) k by simp
  moreover have "takeWhile (\<lambda>c. c \<noteq> NEWLINE) (l @ NEWLINE # take k r) = l"
    using assms(1) by (metis (mono_tags, lifting) append_Nil2 takeWhile_append2 takeWhile.simps(2))
  ultimately show ?thesis by (simp add: fgets_def Let_def)
qed

end
