(* ===== verification/C_File.thy ===== *)
theory C_File
  imports C_Prelude
begin

text \<open>
  Open files of a Unix process: the bytes of the file and the file offset, with \<open>lseek\<close>,
  \<open>read\<close> and \<open>write\<close> as the source uses them. A read returns what is there, possibly less
  than asked; a write at an offset overwrites and extends.
\<close>

datatype whence = SEEK_SET | SEEK_CUR | SEEK_END

record ofile =
  fbytes :: string
  fpos :: nat

text \<open>\<open>lseek\<close>: the new offset, or -1 (and no change) when it would be negative.\<close>

definition sys_lseek :: "int \<Rightarrow> whence \<Rightarrow> ofile \<Rightarrow> int \<times> ofile" where
  "sys_lseek off wh f =
     (let base = (case wh of SEEK_SET \<Rightarrow> 0 | SEEK_CUR \<Rightarrow> int (fpos f)
                           | SEEK_END \<Rightarrow> int (length (fbytes f)));
          p = base + off
      in if p < 0 then (- 1, f) else (p, f\<lparr>fpos := nat p\<rparr>))"

definition sys_read :: "nat \<Rightarrow> ofile \<Rightarrow> string \<times> ofile" where
  "sys_read n f =
     (let s = take n (drop (fpos f) (fbytes f)) in (s, f\<lparr>fpos := fpos f + length s\<rparr>))"

definition sys_write :: "string \<Rightarrow> ofile \<Rightarrow> ofile" where
  "sys_write s f = f\<lparr>fbytes := overwrite (fbytes f) (fpos f) s, fpos := fpos f + length s\<rparr>"

lemma lseek_SET [c_exec]: "sys_lseek (int off) SEEK_SET f = (int off, f\<lparr>fpos := off\<rparr>)"
  by (simp add: sys_lseek_def)

lemma lseek_SET_0 [c_exec]: "sys_lseek 0 SEEK_SET f = (0, f\<lparr>fpos := 0\<rparr>)"
  by (simp add: sys_lseek_def)

lemma lseek_CUR [c_exec]: "sys_lseek 0 SEEK_CUR f = (int (fpos f), f)"
  by (simp add: sys_lseek_def)

lemma lseek_END [c_exec]:
  "sys_lseek 0 SEEK_END f = (int (length (fbytes f)), f\<lparr>fpos := length (fbytes f)\<rparr>)"
  by (simp add: sys_lseek_def)

text \<open>Reading exactly the text found at the current offset.\<close>

lemma read_seg [c_exec]:
  "seg (fbytes f) (fpos f) s \<Longrightarrow> sys_read (length s) f = (s, f\<lparr>fpos := fpos f + length s\<rparr>)"
  by (simp add: sys_read_def seg_def)

lemma fbytes_read [simp]: "fbytes (snd (sys_read n f)) = fbytes f"
  by (simp add: sys_read_def Let_def)

end
