(* ===== verification/Db.thy ===== *)
theory Db
  imports C_File
begin

text \<open>
  Model of the key/value database library \<open>apue.2e/db/db.c\<close>: the index file (a free-list
  pointer, a table of hash chain pointers, then variable-length index records linked by ASCII
  offsets), the data file, the \<open>DB\<close> structure and every function of the library, at the level
  of the bytes of the two files. Functions of the source that start with an underscore carry
  their name without it. A call of \<open>err_dump\<close> or \<open>err_quit\<close> ends the process; it is the left
  result, with the message of the source.
\<close>

section \<open>Constants and state\<close>

definition IDXLEN_SZ :: nat where "IDXLEN_SZ = 4"
definition SEP :: char where "SEP = CHR '':''"
definition PTR_SZ :: nat where "PTR_SZ = 6"
definition PTR_MAX :: int where "PTR_MAX = 999999"
definition NHASH_DEF :: nat where "NHASH_DEF = 137"
definition FREE_OFF :: int where "FREE_OFF = 0"
definition HASH_OFF :: int where "HASH_OFF = int PTR_SZ"
definition IDXLEN_MIN :: int where "IDXLEN_MIN = 6"
definition IDXLEN_MAX :: int where "IDXLEN_MAX = 1024"
definition DATLEN_MIN :: int where "DATLEN_MIN = 2"
definition DATLEN_MAX :: int where "DATLEN_MAX = 1024"
definition DB_INSERT :: int where "DB_INSERT = 1"
definition DB_REPLACE :: int where "DB_REPLACE = 2"
definition DB_STORE :: int where "DB_STORE = 3"

text \<open>
  The ways a call can fail to return: \<open>err_dump\<close> and \<open>err_quit\<close> end the process,
  \<open>Smashed\<close> is a write behind the end of a buffer, \<open>Loops\<close> a chain of the index file that
  runs in a circle.
\<close>

datatype db_exit = Dump string | Quit string | Smashed | Loops

datatype db_file = Idx | Dat
datatype lock_type = F_RDLCK | F_WRLCK

text \<open>A region locked with \<open>fcntl\<close>: file, offset and length (0 means to the end of the file).\<close>

type_synonym lock_region = "db_file \<times> int \<times> nat"

text \<open>
  The kernel as the library sees it: whether a blocking lock request is granted and whether a
  write of the given length at the given offset goes through in full.
\<close>

record kernel =
  grants :: "db_file \<Rightarrow> int \<Rightarrow> bool"
  writes :: "db_file \<Rightarrow> nat \<Rightarrow> nat \<Rightarrow> bool"

text \<open>
  The structure \<open>DB\<close>, with the two open files behind its descriptors and the record locks the
  process holds through them. The buffers hold C strings: the library only ever uses them as
  such.
\<close>

record db =
  idxfd :: int
  datfd :: int
  idxbuf :: string
  datbuf :: string
  name :: string
  idxoff :: int
  idxlen :: int
  datoff :: int
  datlen :: int
  ptrval :: int
  ptroff :: int
  chainoff :: int
  hashoff :: int
  nhash :: nat
  cnt_delok :: "64 word"
  cnt_delerr :: "64 word"
  cnt_fetchok :: "64 word"
  cnt_fetcherr :: "64 word"
  cnt_nextrec :: "64 word"
  cnt_stor1 :: "64 word"
  cnt_stor2 :: "64 word"
  cnt_stor3 :: "64 word"
  cnt_stor4 :: "64 word"
  cnt_storerr :: "64 word"
  idxf :: ofile
  datf :: ofile
  held :: "(lock_type \<times> lock_region) list"
  kern :: kernel

type_synonym 'a db_result = "db_exit + ('a \<times> db)"

section \<open>System calls on the two files\<close>

definition db_lseek :: "db_file \<Rightarrow> int \<Rightarrow> whence \<Rightarrow> db \<Rightarrow> int \<times> db" where
  "db_lseek fd off wh db =
     (case fd of
        Idx \<Rightarrow> (let (r, f) = sys_lseek off wh (idxf db) in (r, db\<lparr>idxf := f\<rparr>))
      | Dat \<Rightarrow> (let (r, f) = sys_lseek off wh (datf db) in (r, db\<lparr>datf := f\<rparr>)))"

definition db_read :: "db_file \<Rightarrow> nat \<Rightarrow> db \<Rightarrow> string \<times> db" where
  "db_read fd n db =
     (case fd of
        Idx \<Rightarrow> (let (s, f) = sys_read n (idxf db) in (s, db\<lparr>idxf := f\<rparr>))
      | Dat \<Rightarrow> (let (s, f) = sys_read n (datf db) in (s, db\<lparr>datf := f\<rparr>)))"

text \<open>A write that does not go through in full ends in the message of its caller.\<close>

definition db_write :: "db_file \<Rightarrow> string \<Rightarrow> string \<Rightarrow> db \<Rightarrow> db_exit + db" where
  "db_write fd s msg db =
     (let f = (case fd of Idx \<Rightarrow> idxf db | Dat \<Rightarrow> datf db)
      in if writes (kern db) fd (fpos f) (length s)
         then (case fd of Idx \<Rightarrow> Inr (db\<lparr>idxf := sys_write s f\<rparr>)
                        | Dat \<Rightarrow> Inr (db\<lparr>datf := sys_write s f\<rparr>))
         else Inl (Dump msg))"

definition lockw :: "lock_type \<Rightarrow> db_file \<Rightarrow> int \<Rightarrow> nat \<Rightarrow> string \<Rightarrow> db \<Rightarrow> db_exit + db" where
  "lockw ty fd off len msg db =
     (if grants (kern db) fd off then Inr (db\<lparr>held := (ty, fd, off, len) # held db\<rparr>)
      else Inl (Dump msg))"

definition un_lock :: "db_file \<Rightarrow> int \<Rightarrow> nat \<Rightarrow> string \<Rightarrow> db \<Rightarrow> db_exit + db" where
  "un_lock fd off len msg db =
     (if grants (kern db) fd off
      then Inr (db\<lparr>held := filter (\<lambda>(ty, r). r \<noteq> (fd, off, len)) (held db)\<rparr>)
      else Inl (Dump msg))"

section \<open>Hashing and reading\<close>

text \<open>\<open>char\<close> is a signed byte; the sum wraps at the width of \<open>unsigned long\<close>.\<close>

definition char_val :: "char \<Rightarrow> int" where
  "char_val c = sint (word_of_int (of_char c) :: 8 word)"

fun hash_sum :: "nat \<Rightarrow> string \<Rightarrow> 64 word \<Rightarrow> 64 word" where
  "hash_sum i [] hval = hval"
| "hash_sum i (c # cs) hval = hash_sum (Suc i) cs (hval + word_of_int (char_val c * int i))"

definition db_hash :: "nat \<Rightarrow> string \<Rightarrow> nat" where
  "db_hash n key = unat (hash_sum 1 key 0) mod n"

definition db_readptr :: "int \<Rightarrow> db \<Rightarrow> int db_result" where
  "db_readptr offset db =
     (let (r, db) = db_lseek Idx offset SEEK_SET db
      in if r = - 1 then Inl (Dump ''_db_readptr: lseek error to ptr field'')
         else
           let (asciiptr, db) = db_read Idx PTR_SZ db
           in if length asciiptr \<noteq> PTR_SZ then Inl (Dump ''_db_readptr: read error of ptr field'')
              else Inr (atol (cstr asciiptr), db))"

text \<open>
  \<open>_db_readidx\<close> splits in two: the fixed-size front of the record (which may meet the end of
  the file when \<open>db_nextrec\<close> asks) and the text of the record.
\<close>

definition db_parseidx :: "string \<Rightarrow> db \<Rightarrow> int db_result" where
  "db_parseidx rec db =
     (if last rec \<noteq> NEWLINE then Inl (Dump ''_db_readidx: missing newline'')
      else case strchr (cstr (butlast rec)) SEP of
        None \<Rightarrow> Inl (Dump ''_db_readidx: missing first separator'')
      | Some (key, ptr1) \<Rightarrow>
          (case strchr ptr1 SEP of
             None \<Rightarrow> Inl (Dump ''_db_readidx: missing second separator'')
           | Some (ascoff, ptr2) \<Rightarrow>
               if SEP \<in> set ptr2 then Inl (Dump ''_db_readidx: too many separators'')
               else
                 let doff = atol ascoff; dlen = atol ptr2
                 in if doff < 0 then Inl (Dump ''_db_readidx: starting offset < 0'')
                    else if dlen \<le> 0 \<or> DATLEN_MAX < dlen
                    then Inl (Dump ''_db_readidx: invalid length'')
                    else Inr (ptrval db, db\<lparr>idxbuf := key, datoff := doff, datlen := dlen\<rparr>)))"

definition db_readidx :: "int \<Rightarrow> db \<Rightarrow> int db_result" where
  "db_readidx offset db =
     (let (r, db) = db_lseek Idx offset (if offset = 0 then SEEK_CUR else SEEK_SET) db;
          db = db\<lparr>idxoff := r\<rparr>
      in if r = - 1 then Inl (Dump ''_db_readidx: lseek error'')
         else
           let (front, db) = db_read Idx (PTR_SZ + IDXLEN_SZ) db
           in if length front \<noteq> PTR_SZ + IDXLEN_SZ
              then (if front = [] \<and> offset = 0 then Inr (- 1, db)
                    else Inl (Dump ''_db_readidx: readv error of index record''))
              else
                let db = db\<lparr>ptrval := atol (cstr (take PTR_SZ front))\<rparr>;
                    len = atol (cstr (drop PTR_SZ front));
                    db = db\<lparr>idxlen := len\<rparr>
                in if len < IDXLEN_MIN \<or> IDXLEN_MAX < len
                   then Inl (Dump ''_db_readidx: invalid length'')
                   else
                     let (rec, db) = db_read Idx (nat len) db
                     in if length rec \<noteq> nat len
                        then Inl (Dump ''_db_readidx: read error of index record'')
                        else db_parseidx rec db)"

definition db_readdat :: "db \<Rightarrow> string db_result" where
  "db_readdat db =
     (let (r, db) = db_lseek Dat (datoff db) SEEK_SET db
      in if r = - 1 then Inl (Dump ''_db_readdat: lseek error'')
         else
           let (rec, db) = db_read Dat (nat (datlen db)) db
           in if length rec \<noteq> nat (datlen db) then Inl (Dump ''_db_readdat: read error'')
              else if last rec \<noteq> NEWLINE then Inl (Dump ''_db_readdat: missing newline'')
              else let db = db\<lparr>datbuf := cstr (butlast rec)\<rparr> in Inr (datbuf db, db))"

section \<open>Writing\<close>

definition db_writedat :: "string \<Rightarrow> int \<Rightarrow> whence \<Rightarrow> db \<Rightarrow> db_exit + db" where
  "db_writedat data offset wh db =
     bindR (if wh = SEEK_END
            then lockw F_WRLCK Dat 0 0 ''_db_writedat: writew_lock error'' db else Inr db) (\<lambda>db.
     let (r, db) = db_lseek Dat offset wh db; db = db\<lparr>datoff := r\<rparr>
     in if r = - 1 then Inl (Dump ''_db_writedat: lseek error'')
        else
          let db = db\<lparr>datlen := int (length data) + 1\<rparr>
          in bindR (db_write Dat (data @ [NEWLINE]) ''_db_writedat: writev error of data record'' db)
               (\<lambda>db. if wh = SEEK_END then un_lock Dat 0 0 ''_db_writedat: un_lock error'' db
                     else Inr db))"

text \<open>
  The text of the index record is built in \<open>idxbuf\<close>, a buffer of \<open>IDXLEN_MAX + 2\<close> bytes,
  before its length is checked.
\<close>

definition idx_text :: "string \<Rightarrow> int \<Rightarrow> int \<Rightarrow> string" where
  "idx_text key doff dlen = key @ [SEP] @ dec_int doff @ [SEP] @ dec_int dlen @ [NEWLINE]"

definition db_writeidx :: "string \<Rightarrow> int \<Rightarrow> whence \<Rightarrow> int \<Rightarrow> db \<Rightarrow> db_exit + db" where
  "db_writeidx key offset wh ptr db =
     (let db = db\<lparr>ptrval := ptr\<rparr>
      in if ptr < 0 \<or> PTR_MAX < ptr then Inl (Quit ''_db_writeidx: invalid ptr'')
         else
           let txt = idx_text key (datoff db) (datlen db); len = int (length txt)
           in if IDXLEN_MAX + 2 < len + 1 then Inl Smashed
              else
                let db = db\<lparr>idxbuf := txt\<rparr>
                in if len < IDXLEN_MIN \<or> IDXLEN_MAX < len
                   then Inl (Dump ''_db_writeidx: invalid length'')
                   else
                     let asciiptrlen = pad PTR_SZ (dec_int ptr) @ pad IDXLEN_SZ (dec_int len);
                         lockoff = int ((nhash db + 1) * PTR_SZ + 1)
                     in bindR (if wh = SEEK_END
                               then lockw F_WRLCK Idx lockoff 0 ''_db_writeidx: writew_lock error'' db
                               else Inr db) (\<lambda>db.
                        let (r, db) = db_lseek Idx offset wh db; db = db\<lparr>idxoff := r\<rparr>
                        in if r = - 1 then Inl (Dump ''_db_writeidx: lseek error'')
                           else bindR (db_write Idx (asciiptrlen @ txt)
                                        ''_db_writeidx: writev error of index record'' db)
                                  (\<lambda>db. if wh = SEEK_END
                                        then un_lock Idx lockoff 0 ''_db_writeidx: un_lock error'' db
                                        else Inr db)))"

definition db_writeptr :: "int \<Rightarrow> int \<Rightarrow> db \<Rightarrow> db_exit + db" where
  "db_writeptr offset ptr db =
     (if ptr < 0 \<or> PTR_MAX < ptr then Inl (Quit ''_db_writeptr: invalid ptr'')
      else
        let asciiptr = pad PTR_SZ (dec_int ptr);
            (r, db) = db_lseek Idx offset SEEK_SET db
        in if r = - 1 then Inl (Dump ''_db_writeptr: lseek error to ptr field'')
           else db_write Idx asciiptr ''_db_writeptr: write error of ptr field'' db)"

section \<open>Searching\<close>

text \<open>
  The loop of \<open>_db_find_and_lock\<close>. The file does not change while it runs, so each round is
  determined by the offset it starts from; a chain that does not end after as many rounds as
  the index file has bytes has come back to an offset it has seen.
\<close>

fun find_loop :: "nat \<Rightarrow> string \<Rightarrow> int \<Rightarrow> db \<Rightarrow> int db_result" where
  "find_loop fuel key offset db =
     (if offset = 0 then Inr (0, db)
      else case fuel of
        0 \<Rightarrow> Inl Loops
      | Suc fuel' \<Rightarrow>
          bindR (db_readidx offset db) (\<lambda>(nextoffset, db).
          if idxbuf db = key then Inr (offset, db)
          else find_loop fuel' key nextoffset (db\<lparr>ptroff := offset\<rparr>)))"

declare find_loop.simps [simp del]

definition db_find_and_lock :: "string \<Rightarrow> bool \<Rightarrow> db \<Rightarrow> int db_result" where
  "db_find_and_lock key writelock db =
     (let db = db\<lparr>chainoff := int (db_hash (nhash db) key * PTR_SZ) + hashoff db\<rparr>;
          db = db\<lparr>ptroff := chainoff db\<rparr>
      in bindR (if writelock
                then lockw F_WRLCK Idx (chainoff db) 1 ''_db_find_and_lock: writew_lock error'' db
                else lockw F_RDLCK Idx (chainoff db) 1 ''_db_find_and_lock: readw_lock error'' db)
           (\<lambda>db. bindR (db_readptr (ptroff db) db) (\<lambda>(offset, db).
                 bindR (find_loop (length (fbytes (idxf db))) key offset db) (\<lambda>(offset, db).
                 Inr (if offset = 0 then - 1 else 0, db)))))"

text \<open>The loop of \<open>_db_findfree\<close>: the first free record with the given key and data lengths.\<close>

fun findfree_loop :: "nat \<Rightarrow> int \<Rightarrow> int \<Rightarrow> int \<Rightarrow> int \<Rightarrow> db \<Rightarrow> (int \<times> int) db_result" where
  "findfree_loop fuel keylen dlen saveoffset offset db =
     (if offset = 0 then Inr ((saveoffset, 0), db)
      else case fuel of
        0 \<Rightarrow> Inl Loops
      | Suc fuel' \<Rightarrow>
          bindR (db_readidx offset db) (\<lambda>(nextoffset, db).
          if int (length (idxbuf db)) = keylen \<and> datlen db = dlen
          then Inr ((saveoffset, offset), db)
          else findfree_loop fuel' keylen dlen offset nextoffset db))"

declare findfree_loop.simps [simp del]

definition db_findfree :: "int \<Rightarrow> int \<Rightarrow> db \<Rightarrow> int db_result" where
  "db_findfree keylen dlen db =
     bindR (lockw F_WRLCK Idx FREE_OFF 1 ''_db_findfree: writew_lock error'' db) (\<lambda>db.
     bindR (db_readptr FREE_OFF db) (\<lambda>(offset, db).
     bindR (findfree_loop (length (fbytes (idxf db))) keylen dlen FREE_OFF offset db)
       (\<lambda>((saveoffset, offset), db).
     bindR (if offset = 0 then Inr (- 1, db)
            else bindR (db_writeptr saveoffset (ptrval db) db) (\<lambda>db. Inr (0, db))) (\<lambda>(rc, db).
     bindR (un_lock Idx FREE_OFF 1 ''_db_findfree: un_lock error'' db) (\<lambda>db. Inr (rc, db))))))"

section \<open>The operations\<close>

definition db_dodelete :: "db \<Rightarrow> db_exit + db" where
  "db_dodelete db =
     (let db = db\<lparr>datbuf := replicate (nat (datlen db - 1)) SPACE,
                  idxbuf := replicate (length (idxbuf db)) SPACE\<rparr>
      in bindR (lockw F_WRLCK Idx FREE_OFF 1 ''_db_dodelete: writew_lock error'' db) (\<lambda>db.
         bindR (db_writedat (datbuf db) (datoff db) SEEK_SET db) (\<lambda>db.
         bindR (db_readptr FREE_OFF db) (\<lambda>(freeptr, db).
         let saveptr = ptrval db
         in bindR (db_writeidx (idxbuf db) (idxoff db) SEEK_SET freeptr db) (\<lambda>db.
            bindR (db_writeptr FREE_OFF (idxoff db) db) (\<lambda>db.
            bindR (db_writeptr (ptroff db) saveptr db) (\<lambda>db.
            un_lock Idx FREE_OFF 1 ''_db_dodelete: un_lock error'' db)))))))"

definition db_fetch :: "string \<Rightarrow> db \<Rightarrow> string option db_result" where
  "db_fetch key db =
     bindR (db_find_and_lock key False db) (\<lambda>(rc, db).
     bindR (if rc < 0 then Inr (None, db\<lparr>cnt_fetcherr := cnt_fetcherr db + 1\<rparr>)
            else bindR (db_readdat db) (\<lambda>(ptr, db).
                 Inr (Some ptr, db\<lparr>cnt_fetchok := cnt_fetchok db + 1\<rparr>))) (\<lambda>(ptr, db).
     bindR (un_lock Idx (chainoff db) 1 ''db_fetch: un_lock error'' db) (\<lambda>db. Inr (ptr, db))))"

definition db_delete :: "string \<Rightarrow> db \<Rightarrow> int db_result" where
  "db_delete key db =
     bindR (db_find_and_lock key True db) (\<lambda>(rc, db).
     bindR (if rc = 0
            then bindR (db_dodelete db) (\<lambda>db. Inr (0, db\<lparr>cnt_delok := cnt_delok db + 1\<rparr>))
            else Inr (- 1, db\<lparr>cnt_delerr := cnt_delerr db + 1\<rparr>)) (\<lambda>(rc, db).
     bindR (un_lock Idx (chainoff db) 1 ''db_delete: un_lock error'' db) (\<lambda>db. Inr (rc, db))))"

text \<open>
  The three ways \<open>db_store\<close> writes a record: a new one (appended or in a free record), a
  replacement of another length, a replacement of the same length.
\<close>

definition store_new :: "string \<Rightarrow> string \<Rightarrow> db \<Rightarrow> db_exit + db" where
  "store_new key data db =
     bindR (db_readptr (chainoff db) db) (\<lambda>(ptr, db).
     bindR (db_findfree (int (length key)) (int (length data) + 1) db) (\<lambda>(rc, db).
     if rc < 0
     then bindR (db_writedat data 0 SEEK_END db) (\<lambda>db.
          bindR (db_writeidx key 0 SEEK_END ptr db) (\<lambda>db.
          bindR (db_writeptr (chainoff db) (idxoff db) db) (\<lambda>db.
          Inr (db\<lparr>cnt_stor1 := cnt_stor1 db + 1\<rparr>))))
     else bindR (db_writedat data (datoff db) SEEK_SET db) (\<lambda>db.
          bindR (db_writeidx key (idxoff db) SEEK_SET ptr db) (\<lambda>db.
          bindR (db_writeptr (chainoff db) (idxoff db) db) (\<lambda>db.
          Inr (db\<lparr>cnt_stor2 := cnt_stor2 db + 1\<rparr>))))))"

definition store_replace :: "string \<Rightarrow> string \<Rightarrow> db \<Rightarrow> db_exit + db" where
  "store_replace key data db =
     (if int (length data) + 1 \<noteq> datlen db
      then bindR (db_dodelete db) (\<lambda>db.
           bindR (db_readptr (chainoff db) db) (\<lambda>(ptr, db).
           bindR (db_writedat data 0 SEEK_END db) (\<lambda>db.
           bindR (db_writeidx key 0 SEEK_END ptr db) (\<lambda>db.
           bindR (db_writeptr (chainoff db) (idxoff db) db) (\<lambda>db.
           Inr (db\<lparr>cnt_stor3 := cnt_stor3 db + 1\<rparr>))))))
      else bindR (db_writedat data (datoff db) SEEK_SET db) (\<lambda>db.
           Inr (db\<lparr>cnt_stor4 := cnt_stor4 db + 1\<rparr>)))"

definition db_store :: "string \<Rightarrow> string \<Rightarrow> int \<Rightarrow> db \<Rightarrow> int db_result" where
  "db_store key data flag db =
     (if flag \<noteq> DB_INSERT \<and> flag \<noteq> DB_REPLACE \<and> flag \<noteq> DB_STORE then Inr (- 1, db)
      else if int (length data) + 1 < DATLEN_MIN \<or> DATLEN_MAX < int (length data) + 1
      then Inl (Dump ''db_store: invalid data length'')
      else bindR (db_find_and_lock key True db) (\<lambda>(rc, db).
           bindR (if rc < 0
                  then (if flag = DB_REPLACE
                        then Inr (- 1, db\<lparr>cnt_storerr := cnt_storerr db + 1\<rparr>)
                        else bindR (store_new key data db) (\<lambda>db. Inr (0, db)))
                  else (if flag = DB_INSERT
                        then Inr (1, db\<lparr>cnt_storerr := cnt_storerr db + 1\<rparr>)
                        else bindR (store_replace key data db) (\<lambda>db. Inr (0, db))))
             (\<lambda>(rc, db).
           bindR (un_lock Idx (chainoff db) 1 ''db_store: un_lock error'' db) (\<lambda>db.
           Inr (rc, db)))))"

definition db_rewind :: "db \<Rightarrow> db_exit + db" where
  "db_rewind db =
     (let offset = int ((nhash db + 1) * PTR_SZ);
          (r, db) = db_lseek Idx (offset + 1) SEEK_SET db;
          db = db\<lparr>idxoff := r\<rparr>
      in if r = - 1 then Inl (Dump ''db_rewind: lseek error'') else Inr db)"

text \<open>
  The loop of \<open>db_nextrec\<close> over the index records from the current offset; \<open>False\<close> is the end
  of the file. Every round moves the offset on, so the rounds are bounded by the file's length.
\<close>

fun nextrec_loop :: "nat \<Rightarrow> db \<Rightarrow> bool db_result" where
  "nextrec_loop fuel db =
     bindR (db_readidx 0 db) (\<lambda>(ptr, db).
     if ptr < 0 then Inr (False, db)
     else if (\<forall>c \<in> set (idxbuf db). c = SPACE)
     then (case fuel of 0 \<Rightarrow> Inl Loops | Suc fuel' \<Rightarrow> nextrec_loop fuel' db)
     else Inr (True, db))"

declare nextrec_loop.simps [simp del]

definition db_nextrec :: "db \<Rightarrow> (string \<times> string) option db_result" where
  "db_nextrec db =
     bindR (lockw F_RDLCK Idx FREE_OFF 1 ''db_nextrec: readw_lock error'' db) (\<lambda>db.
     bindR (nextrec_loop (length (fbytes (idxf db))) db) (\<lambda>(found, db).
     bindR (if found
            then (let key = idxbuf db
                  in bindR (db_readdat db) (\<lambda>(ptr, db).
                     Inr (Some (key, ptr), db\<lparr>cnt_nextrec := cnt_nextrec db + 1\<rparr>)))
            else Inr (None, db)) (\<lambda>(res, db).
     bindR (un_lock Idx FREE_OFF 1 ''db_nextrec: un_lock error'' db) (\<lambda>db. Inr (res, db)))))"

section \<open>Opening and closing\<close>

record open_flags =
  o_creat :: bool
  o_trunc :: bool
  o_excl :: bool

text \<open>
  \<open>open\<close> on a directory of named files: the descriptor \<open>fd\<close> it returns and the directory
  after it; \<open>None\<close> is the return value -1. \<open>allow\<close> is the permission check of the kernel.
\<close>

definition sys_open ::
  "(string \<Rightarrow> bool) \<Rightarrow> open_flags \<Rightarrow> string \<Rightarrow> (string \<rightharpoonup> string) \<Rightarrow> bool \<times> (string \<rightharpoonup> string)" where
  "sys_open allow fl nm fs =
     (if \<not> allow nm then (False, fs)
      else case fs nm of
        None \<Rightarrow> if o_creat fl then (True, fs(nm \<mapsto> [])) else (False, fs)
      | Some s \<Rightarrow>
          if o_creat fl \<and> o_excl fl then (False, fs)
          else if o_trunc fl then (True, fs(nm \<mapsto> [])) else (True, fs))"

definition db_alloc :: "kernel \<Rightarrow> db" where
  "db_alloc k =
     \<lparr>idxfd = - 1, datfd = - 1, idxbuf = [], datbuf = [], name = [], idxoff = 0, idxlen = 0,
      datoff = 0, datlen = 0, ptrval = 0, ptroff = 0, chainoff = 0, hashoff = 0, nhash = 0,
      cnt_delok = 0, cnt_delerr = 0, cnt_fetchok = 0, cnt_fetcherr = 0, cnt_nextrec = 0,
      cnt_stor1 = 0, cnt_stor2 = 0, cnt_stor3 = 0, cnt_stor4 = 0, cnt_storerr = 0,
      idxf = \<lparr>fbytes = [], fpos = 0\<rparr>, datf = \<lparr>fbytes = [], fpos = 0\<rparr>, held = [], kern = k\<rparr>"

text \<open>What \<open>_db_free\<close> gives back, in its order: open descriptors, then the buffers.\<close>

datatype release = Close int | FreeIdxbuf | FreeDatbuf | FreeName | FreeDb

definition db_free :: "db \<Rightarrow> release list" where
  "db_free db =
     (if 0 \<le> idxfd db then [Close (idxfd db)] else []) @
     (if 0 \<le> datfd db then [Close (datfd db)] else []) @
     [FreeIdxbuf, FreeDatbuf, FreeName, FreeDb]"

definition db_close :: "db \<Rightarrow> release list" where
  "db_close db = db_free db"

text \<open>The text that initialises an empty index file: zero pointers and a newline.\<close>

definition init_table :: string where
  "init_table = concat (replicate (NHASH_DEF + 1) (pad PTR_SZ (dec_int 0))) @ [NEWLINE]"

text \<open>
  \<open>db_open\<close>: \<open>Inr (None, _)\<close> is the NULL return. The directory is the one after both
  \<open>open\<close> calls; \<open>fd1\<close> and \<open>fd2\<close> are the descriptors the kernel hands out.
\<close>

definition db_open ::
  "kernel \<Rightarrow> (string \<Rightarrow> bool) \<Rightarrow> int \<Rightarrow> int \<Rightarrow> string \<Rightarrow> open_flags \<Rightarrow> (string \<rightharpoonup> string) \<Rightarrow>
     db_exit + (db option \<times> (string \<rightharpoonup> string))" where
  "db_open k allow fd1 fd2 pathname fl fs =
     (let db = (db_alloc k)\<lparr>nhash := NHASH_DEF, hashoff := HASH_OFF\<rparr>;
          idxname = pathname @ ''.idx'';
          datname = pathname @ ''.dat'';
          (ok1, fs) = sys_open allow fl idxname fs;
          (ok2, fs) = sys_open allow fl datname fs;
          db = db\<lparr>name := datname,
                  idxfd := (if ok1 then fd1 else - 1), datfd := (if ok2 then fd2 else - 1),
                  idxf := \<lparr>fbytes = (case fs idxname of Some s \<Rightarrow> s | None \<Rightarrow> []), fpos = 0\<rparr>,
                  datf := \<lparr>fbytes = (case fs datname of Some s \<Rightarrow> s | None \<Rightarrow> []), fpos = 0\<rparr>\<rparr>
      in if idxfd db < 0 \<or> datfd db < 0 then Inr (None, fs)
         else
           bindR (if o_creat fl \<and> o_trunc fl
                  then bindR (lockw F_WRLCK Idx 0 0 ''db_open: writew_lock error'' db) (\<lambda>db.
                       bindR (if fbytes (idxf db) = []
                              then db_write Idx init_table ''db_open: index file init write error'' db
                              else Inr db) (\<lambda>db.
                       un_lock Idx 0 0 ''db_open: un_lock error'' db))
                  else Inr db) (\<lambda>db.
           bindR (db_rewind db) (\<lambda>db. Inr (Some db, fs))))"

end
