(* ===== verification/Db_Layout.thy ===== *)
theory Db_Layout
  imports Db
begin

text \<open>
  The byte level of the database library. \<open>layout db P B\<close> says what the bytes of the two files
  mean: \<open>P\<close> gives the value of every chain pointer field (the free-list pointer, the hash table
  and the front of every index record) by its offset, \<open>B\<close> the key, data offset and data of the
  index record at an offset. The lemmas show that each reading function returns what the
  layout says and that each writing function changes it in exactly one place.
\<close>

section \<open>Layout of the files\<close>

record body =
  bkey :: string
  boff :: nat
  bdata :: string

type_synonym heap = "nat \<Rightarrow> nat"
type_synonym bodies = "nat \<rightharpoonup> body"

definition hslot :: "nat \<Rightarrow> nat" where
  "hslot h = 6 + 6 * h"

text \<open>Offset of the first index record: behind the pointers and the newline.\<close>

definition TBL :: nat where
  "TBL = 829"

definition body_text :: "body \<Rightarrow> string" where
  "body_text b = idx_text (bkey b) (int (boff b)) (int (length (bdata b)) + 1)"

definition rsize :: "body \<Rightarrow> nat" where
  "rsize b = 10 + length (body_text b)"

definition tail_text :: "body \<Rightarrow> string" where
  "tail_text b = pad 4 (dec (length (body_text b))) @ body_text b"

definition key_ok :: "string \<Rightarrow> bool" where
  "key_ok k \<longleftrightarrow> SEP \<notin> set k \<and> NUL \<notin> set k"

definition body_ok :: "body \<Rightarrow> bool" where
  "body_ok b \<longleftrightarrow> key_ok (bkey b) \<and> NUL \<notin> set (bdata b) \<and> length (bdata b) < 1024 \<and>
     boff b < 2 ^ 63 \<and> 6 \<le> length (body_text b) \<and> length (body_text b) \<le> 1024"

definition is_slot :: "bodies \<Rightarrow> nat \<Rightarrow> bool" where
  "is_slot B s \<longleftrightarrow> s = 0 \<or> (\<exists>h < NHASH_DEF. s = hslot h) \<or> s \<in> dom B"

definition kern_ok :: "kernel \<Rightarrow> bool" where
  "kern_ok k \<longleftrightarrow> (\<forall>fd off. grants k fd off) \<and> (\<forall>fd p n. writes k fd p n)"

definition rec_at :: "string \<Rightarrow> string \<Rightarrow> nat \<Rightarrow> body \<Rightarrow> bool" where
  "rec_at idx dat s b \<longleftrightarrow> body_ok b \<and> TBL \<le> s \<and> s \<le> 999999 \<and>
     seg idx (s + 6) (tail_text b) \<and> seg dat (boff b) (bdata b @ [NEWLINE])"

definition disjoint_recs :: "bodies \<Rightarrow> bool" where
  "disjoint_recs B \<longleftrightarrow> (\<forall>s s' b b'. B s = Some b \<longrightarrow> B s' = Some b' \<longrightarrow> s < s' \<longrightarrow> s + rsize b \<le> s')"

definition disjoint_data :: "bodies \<Rightarrow> bool" where
  "disjoint_data B \<longleftrightarrow> (\<forall>s s' b b'. B s = Some b \<longrightarrow> B s' = Some b' \<longrightarrow> s \<noteq> s' \<longrightarrow>
     boff b + length (bdata b) < boff b' \<or> boff b' + length (bdata b') < boff b)"

text \<open>The index records follow each other without a gap up to the end of the file.\<close>

definition tiled :: "nat \<Rightarrow> bodies \<Rightarrow> bool" where
  "tiled n B \<longleftrightarrow> (TBL \<in> dom B \<or> n = TBL) \<and>
     (\<forall>s b. B s = Some b \<longrightarrow> s + rsize b \<in> dom B \<or> s + rsize b = n)"

definition layout :: "db \<Rightarrow> heap \<Rightarrow> bodies \<Rightarrow> bool" where
  "layout db P B \<longleftrightarrow> kern_ok (kern db) \<and> nhash db = NHASH_DEF \<and> hashoff db = HASH_OFF \<and>
     TBL \<le> length (fbytes (idxf db)) \<and>
     (\<forall>s. is_slot B s \<longrightarrow> P s \<le> 999999 \<and> seg (fbytes (idxf db)) s (pad 6 (dec (P s)))) \<and>
     (\<forall>s b. B s = Some b \<longrightarrow> rec_at (fbytes (idxf db)) (fbytes (datf db)) s b) \<and>
     disjoint_recs B \<and> disjoint_data B \<and> tiled (length (fbytes (idxf db))) B"

text \<open>The scratch fields of the structure and the file offsets, blanked out.\<close>

definition scrub :: "db \<Rightarrow> db" where
  "scrub db = db\<lparr>idxbuf := [], datbuf := [], idxoff := 0, idxlen := 0, datoff := 0, datlen := 0,
     ptrval := 0, ptroff := 0, idxf := (idxf db)\<lparr>fpos := 0\<rparr>, datf := (datf db)\<lparr>fpos := 0\<rparr>\<rparr>"

text \<open>The state \<open>_db_readidx\<close> leaves when it has read the record at \<open>s\<close>.\<close>

definition read_state :: "nat \<Rightarrow> nat \<Rightarrow> body \<Rightarrow> db \<Rightarrow> db" where
  "read_state s p b db = db\<lparr>idxoff := int s, ptrval := int p, idxlen := int (length (body_text b)),
     idxbuf := bkey b, datoff := int (boff b), datlen := int (length (bdata b)) + 1,
     idxf := (idxf db)\<lparr>fpos := s + rsize b\<rparr>\<rparr>"

section \<open>Numbers in fields\<close>

lemma dec_int_of_nat [simp]: "dec_int (int n) = dec n"
  by (simp add: dec_int_def)

lemma dec_int_Suc [simp]: "dec_int (int n + 1) = dec (Suc n)"
  using dec_int_of_nat [of "Suc n"] by (simp add: add.commute del: dec_int_of_nat)

lemma length_ptr_field [simp]: "n \<le> 999999 \<Longrightarrow> length (pad 6 (dec n)) = 6"
  using length_dec_le [of n 6] by (simp add: length_pad)

lemma length_len_field [simp]: "n \<le> 1024 \<Longrightarrow> length (pad 4 (dec n)) = 4"
  using length_dec_le [of n 4] by (simp add: length_pad)

lemma NUL_notin_field [simp]: "NUL \<notin> set (pad w (dec n))"
proof -
  have "NUL \<noteq> SPACE" by (simp add: SPACE_def NUL_def)
  then show ?thesis using set_pad [of w "dec n"] by auto
qed

lemma body_text_eq:
  "body_text b = bkey b @ SEP # dec (boff b) @ SEP # dec (Suc (length (bdata b))) @ [NEWLINE]"
  by (simp add: body_text_def idx_text_def)

lemma length_tail_text: "body_ok b \<Longrightarrow> length (tail_text b) = 4 + length (body_text b)"
  by (simp add: tail_text_def body_ok_def)

lemma body_ok_rsize: "body_ok b \<Longrightarrow> rsize b = 6 + length (tail_text b)"
  by (simp add: length_tail_text rsize_def)

lemma body_text_cong:
  "length (bkey b) = length (bkey b') \<Longrightarrow> boff b = boff b' \<Longrightarrow>
   length (bdata b) = length (bdata b') \<Longrightarrow> length (body_text b) = length (body_text b')"
  by (simp add: body_text_eq)

section \<open>Facts of the layout\<close>

lemma layout_scrub: "layout (scrub db) P B = layout db P B"
  by (simp add: layout_def scrub_def)

lemma layout_cong: "scrub db = scrub db' \<Longrightarrow> layout db P B = layout db' P B"
  using layout_scrub by metis

lemma scrub_keeps [simp]:
  "fbytes (idxf (scrub db)) = fbytes (idxf db)" "fbytes (datf (scrub db)) = fbytes (datf db)"
  "held (scrub db) = held db" "kern (scrub db) = kern db" "nhash (scrub db) = nhash db"
  "hashoff (scrub db) = hashoff db" "chainoff (scrub db) = chainoff db"
  by (simp_all add: scrub_def)

lemma scrub_fields:
  assumes "scrub db = scrub db'"
  shows "fbytes (idxf db) = fbytes (idxf db')" "fbytes (datf db) = fbytes (datf db')"
    "held db = held db'" "kern db = kern db'" "nhash db = nhash db'" "hashoff db = hashoff db'"
    "chainoff db = chainoff db'"
  using assms scrub_keeps [of db] scrub_keeps [of db'] by simp_all

lemma scrub_read_state [simp]: "scrub (read_state s p b db) = scrub db"
  by (simp add: scrub_def read_state_def)

lemma layoutD:
  assumes "layout db P B"
  shows "grants (kern db) fd off" "writes (kern db) fd p n" "nhash db = NHASH_DEF"
    "hashoff db = HASH_OFF" "TBL \<le> length (fbytes (idxf db))"
    "disjoint_recs B" "disjoint_data B" "tiled (length (fbytes (idxf db))) B"
  using assms by (auto simp: layout_def kern_ok_def)

lemma layout_slot:
  assumes "layout db P B" "is_slot B s"
  shows "P s \<le> 999999" "seg (fbytes (idxf db)) s (pad 6 (dec (P s)))"
    "s + 6 \<le> length (fbytes (idxf db))"
proof -
  show 1: "P s \<le> 999999" "seg (fbytes (idxf db)) s (pad 6 (dec (P s)))"
    using assms by (auto simp: layout_def)
  then show "s + 6 \<le> length (fbytes (idxf db))"
    using seg_length by fastforce
qed

lemma layout_rec: "layout db P B \<Longrightarrow> B s = Some b \<Longrightarrow> rec_at (fbytes (idxf db)) (fbytes (datf db)) s b"
  by (simp add: layout_def)

lemma is_slot_cases:
  assumes "is_slot B s"
  obtains (low) "s + 6 < TBL" | (rec) b where "B s = Some b"
  using assms by (auto simp: is_slot_def hslot_def TBL_def NHASH_DEF_def)

lemma is_slot_rec [simp, intro]: "B s = Some b \<Longrightarrow> is_slot B s"
  by (auto simp: is_slot_def)

lemma is_slot_0 [simp, intro]: "is_slot B 0"
  by (simp add: is_slot_def)

lemma is_slot_hslot [simp, intro]: "h < NHASH_DEF \<Longrightarrow> is_slot B (hslot h)"
  by (auto simp: is_slot_def)

lemma is_slot_upd: "is_slot (B(s \<mapsto> b)) t \<longleftrightarrow> t = s \<or> is_slot B t"
  by (auto simp: is_slot_def)

text \<open>Two different pointer fields, and a pointer field and a record's text, never overlap.\<close>

lemma slot_slot_disjoint:
  assumes "layout db P B" "is_slot B s" "is_slot B t" "s \<noteq> t"
  shows "s + 6 \<le> t \<or> t + 6 \<le> s"
proof -
  have hd: "s + 6 \<le> t \<or> t + 6 \<le> s" if "s \<noteq> t" "\<exists>h. s = hslot h \<or> s = 0" "\<exists>h. t = hslot h \<or> t = 0"
  proof -
    from that obtain i j where "s = 6 * i" "t = 6 * j"
      by (auto simp: hslot_def) (metis mult.commute mult_Suc_right mult_0_right)+
    with \<open>s \<noteq> t\<close> show ?thesis by auto
  qed
  have rr: "s + 6 \<le> t" if "B s = Some b" "s < t" "is_slot B t" for s t b
  proof (cases "t \<in> dom B")
    case True
    with that layoutD(6) [OF assms(1)] show ?thesis
      by (fastforce simp: disjoint_recs_def rsize_def)
  next
    case False
    with that layout_rec [OF assms(1) that(1)] show ?thesis
      by (auto simp: is_slot_def hslot_def TBL_def NHASH_DEF_def rec_at_def)
  qed
  show ?thesis
  proof (cases "s \<in> dom B \<or> t \<in> dom B")
    case False
    with assms hd show ?thesis by (auto simp: is_slot_def)
  next
    case True
    have lowrec: "u + 6 \<le> v" if "u \<notin> dom B" "is_slot B u" "v \<in> dom B" for u v
      using that layout_rec [OF assms(1), of v]
      by (auto simp: is_slot_def hslot_def TBL_def NHASH_DEF_def rec_at_def)
    from True assms rr lowrec show ?thesis
      by (metis domD linorder_neqE_nat)
  qed
qed

lemma slot_tail_disjoint:
  assumes "layout db P B" "is_slot B s" "B t = Some b"
  shows "s + 6 \<le> t + 6 \<or> t + rsize b \<le> s"
proof (cases "s \<le> t")
  case False
  then have "\<not> s + 6 < TBL"
    using layout_rec [OF assms(1,3)] by (auto simp: rec_at_def)
  then obtain b' where "B s = Some b'"
    using assms(2) by (auto elim: is_slot_cases)
  with False assms(3) layoutD(6) [OF assms(1)] show ?thesis
    by (auto simp: disjoint_recs_def)
qed simp

section \<open>Reading\<close>

lemma readptr_layout [c_exec]:
  assumes "layout db P B" "is_slot B s"
  shows "db_readptr (int s) db = Inr (int (P s), db\<lparr>idxf := (idxf db)\<lparr>fpos := s + 6\<rparr>\<rparr>)"
proof -
  note s = layout_slot [OF assms]
  have rd: "sys_read 6 (idxf db\<lparr>fpos := s\<rparr>) = (pad 6 (dec (P s)), idxf db\<lparr>fpos := s + 6\<rparr>)"
    using read_seg [of "idxf db\<lparr>fpos := s\<rparr>" "pad 6 (dec (P s))"] s by simp
  show ?thesis
    using s(1) rd
    by (simp add: db_readptr_def db_lseek_def lseek_SET db_read_def PTR_SZ_def)
qed

lemma parse_body:
  assumes "body_ok b"
  shows "db_parseidx (body_text b) db =
    Inr (ptrval db, db\<lparr>idxbuf := bkey b, datoff := int (boff b), datlen := int (length (bdata b)) + 1\<rparr>)"
proof -
  let ?front = "bkey b @ SEP # dec (boff b) @ SEP # dec (Suc (length (bdata b)))"
  have bt: "body_text b = ?front @ [NEWLINE]"
    by (simp add: body_text_eq)
  have nul: "NUL \<notin> set ?front"
    using assms by (simp add: body_ok_def key_ok_def) (simp add: SEP_def NUL_def)
  have s1: "strchr ?front SEP = Some (bkey b, dec (boff b) @ SEP # dec (Suc (length (bdata b))))"
    using assms by (simp add: body_ok_def key_ok_def)
  have s2: "strchr (dec (boff b) @ SEP # dec (Suc (length (bdata b)))) SEP =
      Some (dec (boff b), dec (Suc (length (bdata b))))"
    by (simp add: SEP_def)
  have len: "Suc (length (bdata b)) < 2 ^ 63" "Suc (length (bdata b)) \<le> 1024"
    using assms by (auto simp: body_ok_def)
  have sep: "SEP \<notin> set (dec (Suc (length (bdata b))))"
    by (simp add: SEP_def)
  have fr: "last (body_text b) = NEWLINE" "cstr (butlast (body_text b)) = ?front"
    using cstr_NUL_free [OF nul] by (simp_all only: bt last_snoc butlast_snoc)
  have "boff b < 2 ^ 63" using assms by (simp add: body_ok_def)
  then show ?thesis
    unfolding db_parseidx_def fr s1 option.case prod.case s2
    using len by (simp add: sep DATLEN_MAX_def)
qed

lemma readidx_front:
  assumes L: "layout db P B" and b: "B s = Some b"
  shows "sys_read 10 (idxf db\<lparr>fpos := s\<rparr>) =
      (pad 6 (dec (P s)) @ pad 4 (dec (length (body_text b))), idxf db\<lparr>fpos := s + 10\<rparr>)"
    and "sys_read (length (body_text b)) (idxf db\<lparr>fpos := s + 10\<rparr>) =
      (body_text b, idxf db\<lparr>fpos := s + rsize b\<rparr>)"
proof -
  note p = layout_slot [OF L is_slot_rec [of B s b, OF b]]
  note r = layout_rec [OF L b, unfolded rec_at_def]
  have len: "length (body_text b) \<le> 1024"
    using r by (simp add: body_ok_def)
  let ?f = "pad 6 (dec (P s)) @ pad 4 (dec (length (body_text b)))"
  have "seg (fbytes (idxf db)) s ?f"
    using p r by (simp add: seg_append tail_text_def)
  then show "sys_read 10 (idxf db\<lparr>fpos := s\<rparr>) = (?f, idxf db\<lparr>fpos := s + 10\<rparr>)"
    using read_seg [of "idxf db\<lparr>fpos := s\<rparr>" ?f] p(1) len by simp
  have "seg (fbytes (idxf db)) (s + 10) (body_text b)"
    using r len by (simp add: seg_append tail_text_def add.commute)
  then show "sys_read (length (body_text b)) (idxf db\<lparr>fpos := s + 10\<rparr>) =
      (body_text b, idxf db\<lparr>fpos := s + rsize b\<rparr>)"
    using read_seg [of "idxf db\<lparr>fpos := s + 10\<rparr>" "body_text b"] by (simp add: rsize_def add.assoc)
qed

text \<open>The record at \<open>s\<close>, asked for by its offset or met at the current file offset.\<close>

lemma readidx_layout:
  assumes L: "layout db P B" and b: "B s = Some b"
    and off: "offset = int s \<or> offset = 0 \<and> fpos (idxf db) = s"
  shows "db_readidx offset db = Inr (int (P s), read_state s (P s) b db)"
proof -
  note p = layout_slot [OF L is_slot_rec [of B s b, OF b]]
  note r = layout_rec [OF L b, unfolded rec_at_def]
  have s0: "int s \<noteq> 0" using r by (simp add: TBL_def)
  have bok: "body_ok b" using r by simp
  have len: "length (body_text b) \<le> 1024" "6 \<le> length (body_text b)"
    using bok by (auto simp: body_ok_def)
  have sk: "db_lseek Idx offset (if offset = 0 then SEEK_CUR else SEEK_SET) db =
      (int s, db\<lparr>idxf := (idxf db)\<lparr>fpos := s\<rparr>\<rparr>)"
    using off s0 by (auto simp: db_lseek_def lseek_SET lseek_CUR)
  have len63: "length (body_text b) < 2 ^ 63" "P s < 2 ^ 63"
    using len p(1) by simp_all
  show ?thesis
    using len p(1) readidx_front [OF L b] len63
    by (simp add: db_readidx_def sk db_read_def PTR_SZ_def IDXLEN_SZ_def IDXLEN_MIN_def
        IDXLEN_MAX_def parse_body [OF bok] read_state_def)
qed

lemma readdat_layout:
  assumes L: "layout db P B" and b: "B s = Some b"
    and d: "datoff db = int (boff b)" "datlen db = int (length (bdata b)) + 1"
  shows "\<exists>db'. db_readdat db = Inr (bdata b, db') \<and> scrub db' = scrub db"
proof -
  note r = layout_rec [OF L b, unfolded rec_at_def]
  let ?t = "bdata b @ [NEWLINE]"
  have n: "nat (datlen db) = length ?t" using d by simp
  have rd: "sys_read (length ?t) (datf db\<lparr>fpos := boff b\<rparr>) = (?t, datf db\<lparr>fpos := boff b + length ?t\<rparr>)"
    using read_seg [of "datf db\<lparr>fpos := boff b\<rparr>" ?t] r by simp
  have "NUL \<notin> set (bdata b)" using r by (simp add: body_ok_def)
  then have "db_readdat db = Inr (bdata b, db\<lparr>datf := datf db\<lparr>fpos := boff b + length ?t\<rparr>,
      datbuf := bdata b\<rparr>)"
    unfolding db_readdat_def db_lseek_def db_read_def
    using rd n d by (simp add: lseek_SET del: length_append)
  then show ?thesis by (simp add: scrub_def)
qed

section \<open>Writing\<close>

text \<open>The effect of a write on the two files.\<close>

definition put_idx :: "nat \<Rightarrow> string \<Rightarrow> db \<Rightarrow> db" where
  "put_idx s t db = db\<lparr>idxf := \<lparr>fbytes = overwrite (fbytes (idxf db)) s t, fpos = s + length t\<rparr>\<rparr>"

definition put_dat :: "nat \<Rightarrow> string \<Rightarrow> db \<Rightarrow> db" where
  "put_dat s t db = db\<lparr>datf := \<lparr>fbytes = overwrite (fbytes (datf db)) s t, fpos = s + length t\<rparr>\<rparr>"

lemma sys_write_at: "sys_write t (f\<lparr>fpos := s\<rparr>) = \<lparr>fbytes = overwrite (fbytes f) s t, fpos = s + length t\<rparr>"
  by (cases f) (simp add: sys_write_def)

lemma kern_okD [simp]: "kern_ok k \<Longrightarrow> grants k fd off" "kern_ok k \<Longrightarrow> writes k fd p n"
  by (simp_all add: kern_ok_def)

lemma writeptr_exec:
  assumes "kern_ok (kern db)" "v \<le> 999999"
  shows "db_writeptr (int s) (int v) db = Inr (put_idx s (pad 6 (dec v)) db)"
  using assms
  by (simp add: db_writeptr_def db_lseek_def lseek_SET db_write_def sys_write_at put_idx_def
      PTR_MAX_def PTR_SZ_def)

lemma writedat_exec:
  assumes "kern_ok (kern db)"
  shows "db_writedat data (int off) SEEK_SET db =
    Inr (put_dat off (data @ [NEWLINE]) (db\<lparr>datoff := int off, datlen := int (length data) + 1\<rparr>))"
  using assms
  by (simp add: db_writedat_def db_lseek_def lseek_SET db_write_def sys_write_at put_dat_def)

lemma writedat_append_exec:
  assumes "kern_ok (kern db)" "\<forall>ty. (ty, Dat, 0, 0) \<notin> set (held db)"
  shows "db_writedat data 0 SEEK_END db =
    Inr (put_dat (length (fbytes (datf db))) (data @ [NEWLINE])
          (db\<lparr>datoff := int (length (fbytes (datf db))), datlen := int (length data) + 1\<rparr>))"
proof -
  have "filter (\<lambda>(ty, r). r \<noteq> (Dat, 0, 0)) (held db) = held db"
    using assms(2) by (auto simp: filter_id_conv)
  with assms(1) show ?thesis
    by (simp add: db_writedat_def db_lseek_def lseek_END db_write_def sys_write_at put_dat_def
        lockw_def un_lock_def)
qed

lemma writeidx_exec:
  assumes "kern_ok (kern db)" "v \<le> 999999" "datoff db = int (boff b)"
    "datlen db = int (length (bdata b)) + 1" "6 \<le> length (body_text b)" "length (body_text b) \<le> 1024"
  shows "db_writeidx (bkey b) (int s) SEEK_SET (int v) db =
    Inr (put_idx s (pad 6 (dec v) @ tail_text b)
          (db\<lparr>ptrval := int v, idxbuf := body_text b, idxoff := int s\<rparr>))"
proof -
  have t: "idx_text (bkey b) (int (boff b)) (int (length (bdata b)) + 1) = body_text b"
    by (simp add: body_text_def)
  show ?thesis
    using assms
    by (simp add: db_writeidx_def Let_def t db_lseek_def lseek_SET db_write_def sys_write_at put_idx_def
        PTR_MAX_def PTR_SZ_def IDXLEN_MAX_def IDXLEN_MIN_def IDXLEN_SZ_def tail_text_def)
qed

lemma writeidx_append_exec:
  assumes "kern_ok (kern db)" "v \<le> 999999" "datoff db = int (boff b)"
    "datlen db = int (length (bdata b)) + 1" "6 \<le> length (body_text b)" "length (body_text b) \<le> 1024"
    "nhash db = NHASH_DEF" "\<forall>ty. (ty, Idx, int TBL, 0) \<notin> set (held db)"
  shows "db_writeidx (bkey b) 0 SEEK_END (int v) db =
    Inr (put_idx (length (fbytes (idxf db))) (pad 6 (dec v) @ tail_text b)
          (db\<lparr>ptrval := int v, idxbuf := body_text b, idxoff := int (length (fbytes (idxf db)))\<rparr>))"
proof -
  have t: "idx_text (bkey b) (int (boff b)) (int (length (bdata b)) + 1) = body_text b"
    by (simp add: body_text_def)
  have "filter (\<lambda>(ty, r). r \<noteq> (Idx, 829, 0)) (held db) = held db"
    using assms(8) by (auto simp: filter_id_conv TBL_def)
  then show ?thesis
    using assms
    by (simp add: db_writeidx_def Let_def t db_lseek_def lseek_END db_write_def sys_write_at put_idx_def
        PTR_MAX_def PTR_SZ_def IDXLEN_MAX_def IDXLEN_MIN_def IDXLEN_SZ_def tail_text_def
        lockw_def un_lock_def NHASH_DEF_def)
qed

text \<open>A pointer field rewritten.\<close>

lemma layout_put_ptr:
  assumes L: "layout db P B" and s: "is_slot B s" and v: "v \<le> 999999"
  shows "layout (put_idx s (pad 6 (dec v)) db) (P(s := v)) B"
proof -
  let ?idx = "fbytes (idxf db)" and ?t = "pad 6 (dec v)"
  note S = layout_slot [OF L s]
  have len: "length (overwrite ?idx s ?t) = length ?idx"
    using S(3) v by simp
  have ptr: "P' \<le> 999999 \<and> seg (overwrite ?idx s ?t) u (pad 6 (dec P'))"
    if "is_slot B u" "P' = (P(s := v)) u" for u P'
  proof (cases "u = s")
    case True
    with that v S(3) seg_overwrite_same [of s ?idx ?t] show ?thesis by simp
  next
    case False
    with slot_slot_disjoint [OF L s that(1)] layout_slot [OF L that(1)] that v S(3)
    show ?thesis by (auto intro!: seg_overwrite_other)
  qed
  have rec: "rec_at (overwrite ?idx s ?t) (fbytes (datf db)) u b" if "B u = Some b" for u b
    using layout_rec [OF L that] slot_tail_disjoint [OF L s that] body_ok_rsize [of b] v S(3)
    by (auto simp: rec_at_def intro!: seg_overwrite_other)
  from L ptr rec len show ?thesis
    by (simp add: layout_def put_idx_def)
qed

text \<open>The data of a record overwritten by data of the same length.\<close>

lemma layout_put_data:
  assumes L: "layout db P B" and b: "B s = Some b"
    and d: "length d = length (bdata b)" "NUL \<notin> set d"
  shows "layout (put_dat (boff b) (d @ [NEWLINE]) db) P (B(s \<mapsto> b\<lparr>bdata := d\<rparr>))"
proof -
  let ?dat = "fbytes (datf db)" and ?b = "b\<lparr>bdata := d\<rparr>"
  note R = layout_rec [OF L b, unfolded rec_at_def]
  have off: "boff b + length (d @ [NEWLINE]) \<le> length ?dat"
    using R d seg_length by fastforce
  have bt: "body_text ?b = body_text b" "tail_text ?b = tail_text b" "rsize ?b = rsize b"
    using d by (simp_all add: body_text_def tail_text_def rsize_def)
  have bok: "body_ok ?b"
    using R d bt(1) by (simp add: body_ok_def)
  have "rec_at (fbytes (idxf db)) (overwrite ?dat (boff b) (d @ [NEWLINE])) u c"
    if "(B(s \<mapsto> ?b)) u = Some c" for u c
  proof (cases "u = s")
    case True
    with that R bok bt off show ?thesis
      using seg_overwrite_same [of "boff b" ?dat "d @ [NEWLINE]"] by (auto simp: rec_at_def)
  next
    case False
    with that have c: "B u = Some c" by simp
    with False b layoutD(7) [OF L] have "boff b + length (bdata b) < boff c \<or> boff c + length (bdata c) < boff b"
      by (auto simp: disjoint_data_def)
    with layout_rec [OF L c] off d show ?thesis
      by (auto simp: rec_at_def intro!: seg_overwrite_other)
  qed
  moreover have "is_slot (B(s \<mapsto> ?b)) u = is_slot B u" for u
    using b by (auto simp: is_slot_def)
  moreover have "disjoint_recs (B(s \<mapsto> ?b))" "disjoint_data (B(s \<mapsto> ?b))"
    "tiled (length (fbytes (idxf db))) (B(s \<mapsto> ?b))"
    using layoutD(6-8) [OF L] b bt(3) d(1)
    by (auto simp: disjoint_recs_def disjoint_data_def tiled_def)
  ultimately show ?thesis
    using L by (simp add: layout_def put_dat_def)
qed

text \<open>An index record rewritten in place: a new chain pointer and a key of the same length.\<close>

lemma layout_put_rec:
  assumes L: "layout db P B" and b: "B s = Some b" and v: "v \<le> 999999"
    and k: "length k = length (bkey b)" "key_ok k"
  shows "layout (put_idx s (pad 6 (dec v) @ tail_text (b\<lparr>bkey := k\<rparr>)) db) (P(s := v))
           (B(s \<mapsto> b\<lparr>bkey := k\<rparr>))"
proof -
  let ?idx = "fbytes (idxf db)" and ?b = "b\<lparr>bkey := k\<rparr>"
  let ?t = "pad 6 (dec v) @ tail_text ?b"
  note R = layout_rec [OF L b, unfolded rec_at_def]
  have bl: "length (body_text ?b) = length (body_text b)"
    using k by (intro body_text_cong) simp_all
  have bok: "body_ok ?b"
    using R k bl by (simp add: body_ok_def)
  have lt: "length ?t = rsize b" "rsize ?b = rsize b"
    using v length_tail_text [OF bok] bl by (simp_all add: rsize_def)
  have end_s: "s + rsize b \<le> length ?idx"
    using R body_ok_rsize [of b] seg_length by fastforce
  have new: "seg (overwrite ?idx s ?t) s (pad 6 (dec v))" "seg (overwrite ?idx s ?t) (s + 6) (tail_text ?b)"
    using seg_overwrite_same [of s ?idx ?t] end_s v by (simp_all add: seg_append)
  have slots: "is_slot (B(s \<mapsto> ?b)) u = is_slot B u" for u
    using b by (auto simp: is_slot_def)
  have ptr: "(P(s := v)) u \<le> 999999 \<and> seg (overwrite ?idx s ?t) u (pad 6 (dec ((P(s := v)) u)))"
    if "is_slot B u" for u
  proof (cases "u = s")
    case False
    with slot_slot_disjoint [OF L that is_slot_rec [of B s b, OF b]] slot_tail_disjoint [OF L that b]
    have "u + 6 \<le> s \<or> s + rsize b \<le> u" by auto
    with layout_slot [OF L that] False lt(1) end_s show ?thesis
      by (auto intro!: seg_overwrite_other)
  qed (use v new in simp)
  have rec: "rec_at (overwrite ?idx s ?t) (fbytes (datf db)) u c" if "(B(s \<mapsto> ?b)) u = Some c" for u c
  proof (cases "u = s")
    case True
    with that R bok new show ?thesis by (auto simp: rec_at_def)
  next
    case False
    with that have c: "B u = Some c" by simp
    from False b c layoutD(6) [OF L] have "u + rsize c \<le> s \<or> s + rsize b \<le> u"
      unfolding disjoint_recs_def by (metis linorder_neqE_nat)
    with layout_rec [OF L c] body_ok_rsize [of c] lt(1) end_s show ?thesis
      by (auto simp: rec_at_def intro!: seg_overwrite_other)
  qed
  have "disjoint_recs (B(s \<mapsto> ?b))" "disjoint_data (B(s \<mapsto> ?b))" "tiled (length ?idx) (B(s \<mapsto> ?b))"
    using layoutD(6-8) [OF L] b lt(2)
    by (auto simp: disjoint_recs_def disjoint_data_def tiled_def)
  moreover have "length (overwrite ?idx s ?t) = length ?idx"
    using lt(1) end_s by simp
  ultimately show ?thesis
    using L ptr rec slots by (simp add: layout_def put_idx_def)
qed

text \<open>A record appended at the ends of the two files.\<close>

lemma disjoint_recs_upd:
  assumes "disjoint_recs B" and e: "\<And>u c. B u = Some c \<Longrightarrow> u + rsize c \<le> n"
  shows "disjoint_recs (B(n \<mapsto> b))"
  unfolding disjoint_recs_def
proof (intro allI impI)
  fix s s' c c'
  assume a: "(B(n \<mapsto> b)) s = Some c" "(B(n \<mapsto> b)) s' = Some c'" "s < s'"
  show "s + rsize c \<le> s'"
  proof (cases "s = n")
    case True
    with a have "B s' = Some c'" by simp
    with e [of s' c'] a(3) True show ?thesis by simp
  next
    case False
    then have "B s = Some c" using a(1) by simp
    with a False assms(1) e [of s c] show ?thesis
      by (cases "s' = n") (auto simp: disjoint_recs_def)
  qed
qed

lemma disjoint_data_upd:
  assumes "disjoint_data B" and e: "\<And>u c. B u = Some c \<Longrightarrow> boff c + length (bdata c) < boff b"
  shows "disjoint_data (B(n \<mapsto> b))"
  unfolding disjoint_data_def
proof (intro allI impI)
  fix s s' c c'
  assume a: "(B(n \<mapsto> b)) s = Some c" "(B(n \<mapsto> b)) s' = Some c'" "s \<noteq> s'"
  show "boff c + length (bdata c) < boff c' \<or> boff c' + length (bdata c') < boff c"
  proof (cases "s = n \<or> s' = n")
    case True
    with a e [of s c] e [of s' c'] show ?thesis by auto
  next
    case False
    with a have "B s = Some c" "B s' = Some c'" by auto
    with a(3) assms(1) show ?thesis unfolding disjoint_data_def by blast
  qed
qed

lemma layout_append:
  assumes L: "layout db P B" and v: "v \<le> 999999" and b: "body_ok b" "boff b = length (fbytes (datf db))"
    and n: "n = length (fbytes (idxf db))" "n \<le> 999999"
  shows "layout (put_idx n (pad 6 (dec v) @ tail_text b) (put_dat (boff b) (bdata b @ [NEWLINE]) db))
           (P(n := v)) (B(n \<mapsto> b))"
proof -
  let ?idx = "fbytes (idxf db)" and ?dat = "fbytes (datf db)"
  let ?t = "pad 6 (dec v) @ tail_text b" and ?d = "bdata b @ [NEWLINE]"
  have lt: "length ?t = rsize b"
    using v length_tail_text [OF b(1)] by (simp add: rsize_def)
  have new: "seg (overwrite ?idx n ?t) n (pad 6 (dec v))" "seg (overwrite ?idx n ?t) (n + 6) (tail_text b)"
    "seg (overwrite ?dat (boff b) ?d) (boff b) ?d"
    using seg_overwrite_same [of n ?idx ?t] seg_overwrite_same [of "boff b" ?dat ?d] n b v
    by (simp_all add: seg_append)
  have slot_n: "u + 6 \<le> n" if "is_slot B u" for u
    using layout_slot(3) [OF L that] n by simp
  have rec_end: "u + rsize c \<le> n" "boff c + length (bdata c) < boff b" if "B u = Some c" for u c
  proof -
    note R = layout_rec [OF L that, unfolded rec_at_def]
    from R have "u + 6 + length (tail_text c) \<le> length ?idx"
      "boff c + length (bdata c @ [NEWLINE]) \<le> length ?dat"
      by (blast intro: seg_length)+
    with R body_ok_rsize [of c] n(1) b(2)
    show "u + rsize c \<le> n" "boff c + length (bdata c) < boff b" by simp_all
  qed
  have ptr: "(P(n := v)) u \<le> 999999 \<and> seg (overwrite ?idx n ?t) u (pad 6 (dec ((P(n := v)) u)))"
    if "is_slot (B(n \<mapsto> b)) u" for u
  proof (cases "u = n")
    case False
    with that have "is_slot B u" by (simp add: is_slot_upd)
    with layout_slot [OF L this] slot_n [OF this] False n(1) show ?thesis
      by (auto intro!: seg_overwrite_other)
  qed (use v new in simp)
  have rec: "rec_at (overwrite ?idx n ?t) (overwrite ?dat (boff b) ?d) u c" if "(B(n \<mapsto> b)) u = Some c" for u c
  proof (cases "u = n")
    case True
    with that new b n layoutD(5) [OF L] show ?thesis by (auto simp: rec_at_def)
  next
    case False
    with that have c: "B u = Some c" by simp
    with layout_rec [OF L c] rec_end [OF c] body_ok_rsize [of c] n(1) b(2) show ?thesis
      by (auto simp: rec_at_def intro!: seg_overwrite_other)
  qed
  have dr: "disjoint_recs (B(n \<mapsto> b))"
    using layoutD(6) [OF L] disjoint_recs_upd rec_end(1) by blast
  have dd: "disjoint_data (B(n \<mapsto> b))"
    using layoutD(7) [OF L] disjoint_data_upd rec_end(2) by blast
  have tl: "tiled (n + rsize b) (B(n \<mapsto> b))"
    using layoutD(8) [OF L] n(1) by (auto simp: tiled_def)
  have "length (overwrite ?idx n ?t) = n + rsize b"
    using lt n by simp
  with L ptr rec dr dd tl layoutD(5) [OF L] n(1) show ?thesis
    by (simp add: layout_def put_idx_def put_dat_def)
qed

end
