(* ===== verification/Db_Chain.thy ===== *)
theory Db_Chain
  imports Db_Layout
begin

text \<open>
  The linked lists of the index file, above the bytes: \<open>lst P s xs\<close> says that the pointer field
  at \<open>s\<close> leads through the records at the offsets \<open>xs\<close> to a zero pointer. The free list and the
  137 hash chains are the lists \<open>ls\<close>, numbered 0 to 137, with the free list last; \<open>chains\<close> says
  that they share no record and hold every record but the detached ones \<open>X\<close>.
\<close>

section \<open>Lists in the pointer heap\<close>

primrec lst :: "heap \<Rightarrow> nat \<Rightarrow> nat list \<Rightarrow> bool" where
  "lst P s [] \<longleftrightarrow> P s = 0"
| "lst P s (x # xs) \<longleftrightarrow> P s = x \<and> x \<noteq> 0 \<and> lst P x xs"

lemma lst_upd [simp]: "u \<noteq> s \<Longrightarrow> u \<notin> set xs \<Longrightarrow> lst (P(u := v)) s xs = lst P s xs"
  by (induction xs arbitrary: s) auto

lemma lst_nonzero: "lst P s xs \<Longrightarrow> 0 \<notin> set xs"
  by (induction xs arbitrary: s) auto

text \<open>Unlinking a record: the pointer that led to it takes the record's own pointer.\<close>

lemma lst_unlink:
  "lst P s (ys @ x # zs) \<Longrightarrow> distinct (s # ys @ x # zs) \<Longrightarrow>
     lst (P(last (s # ys) := P x)) s (ys @ zs)"
proof (induction ys arbitrary: s)
  case Nil
  then show ?case by (cases zs) (auto simp: fun_upd_same simp del: fun_upd_apply)
next
  case (Cons y ys)
  from Cons.prems have "lst P y (ys @ x # zs)" "distinct (y # ys @ x # zs)" by simp_all
  then have "lst (P(last (y # ys) := P x)) y (ys @ zs)" by (rule Cons.IH)
  moreover have "last (y # ys) \<noteq> s"
    using Cons.prems(2) last_in_set [of "y # ys"] by auto
  moreover have "last (s # y # ys) = last (y # ys)" by simp
  ultimately show ?case
    using Cons.prems by (simp only: append_Cons lst.simps fun_upd_other not_sym) blast
qed

lemma lst_push: "lst P s xs \<Longrightarrow> x \<noteq> 0 \<Longrightarrow> x \<noteq> s \<Longrightarrow> x \<notin> set xs \<Longrightarrow> s \<notin> set xs \<Longrightarrow>
    lst (P(x := P s, s := x)) s (x # xs)"
proof -
  assume a: "lst P s xs" "x \<noteq> 0" "x \<noteq> s" "x \<notin> set xs" "s \<notin> set xs"
  then have "lst (P(x := P s)) x xs"
    by (cases xs) auto
  with a show ?thesis by simp
qed

section \<open>The free list and the hash chains\<close>

definition slot :: "nat \<Rightarrow> nat" where
  "slot i = (if i = NHASH_DEF then 0 else hslot i)"

abbreviation FREE :: nat where
  "FREE \<equiv> NHASH_DEF"

definition keyof :: "bodies \<Rightarrow> nat \<Rightarrow> string" where
  "keyof B x = bkey (the (B x))"

definition dataof :: "bodies \<Rightarrow> nat \<Rightarrow> string" where
  "dataof B x = bdata (the (B x))"

definition blank :: "string \<Rightarrow> bool" where
  "blank k \<longleftrightarrow> (\<forall>c \<in> set k. c = SPACE)"

definition keys_ok :: "bodies \<Rightarrow> (nat \<Rightarrow> nat list) \<Rightarrow> bool" where
  "keys_ok B ls \<longleftrightarrow>
     (\<forall>i < NHASH_DEF. (\<forall>x \<in> set (ls i). db_hash NHASH_DEF (keyof B x) = i) \<and>
        distinct (map (keyof B) (ls i))) \<and>
     (\<forall>x \<in> set (ls FREE). blank (keyof B x))"

definition chains :: "heap \<Rightarrow> bodies \<Rightarrow> (nat \<Rightarrow> nat list) \<Rightarrow> nat set \<Rightarrow> bool" where
  "chains P B ls X \<longleftrightarrow>
     (\<forall>i \<le> NHASH_DEF. lst P (slot i) (ls i) \<and> distinct (ls i) \<and> set (ls i) \<inter> X = {}) \<and>
     (\<forall>i \<le> NHASH_DEF. \<forall>j \<le> NHASH_DEF. i \<noteq> j \<longrightarrow> set (ls i) \<inter> set (ls j) = {}) \<and>
     (\<Union>i \<le> NHASH_DEF. set (ls i)) \<union> X = dom B \<and> keys_ok B ls"

definition high :: "bodies \<Rightarrow> bool" where
  "high B \<longleftrightarrow> (\<forall>x \<in> dom B. TBL \<le> x)"

lemma layout_high: "layout db P B \<Longrightarrow> high B"
  by (auto simp: high_def rec_at_def dest!: layout_rec)

lemma slot_low [simp]: "i \<le> NHASH_DEF \<Longrightarrow> slot i < TBL"
  by (auto simp: slot_def hslot_def TBL_def NHASH_DEF_def)

lemma slot_inj: "i \<le> NHASH_DEF \<Longrightarrow> j \<le> NHASH_DEF \<Longrightarrow> slot i = slot j \<longleftrightarrow> i = j"
  by (auto simp: slot_def hslot_def NHASH_DEF_def)

lemma is_slot_slot [simp]: "i \<le> NHASH_DEF \<Longrightarrow> is_slot B (slot i)"
  by (auto simp: slot_def)

lemma slot_notin:
  assumes "high B" "i \<le> NHASH_DEF"
  shows "slot i \<notin> dom B"
proof
  assume "slot i \<in> dom B"
  with assms(1) have "TBL \<le> slot i" by (simp add: high_def)
  with slot_low [OF assms(2)] show False by simp
qed

lemma chains_sub: "chains P B ls X \<Longrightarrow> i \<le> NHASH_DEF \<Longrightarrow> set (ls i) \<subseteq> dom B"
  by (auto simp: chains_def)

lemma chainsD:
  assumes "chains P B ls X"
  shows "i \<le> NHASH_DEF \<Longrightarrow> lst P (slot i) (ls i)" "i \<le> NHASH_DEF \<Longrightarrow> distinct (ls i)"
    "i \<le> NHASH_DEF \<Longrightarrow> x \<in> set (ls i) \<Longrightarrow> x \<notin> X"
    "i \<le> NHASH_DEF \<Longrightarrow> j \<le> NHASH_DEF \<Longrightarrow> i \<noteq> j \<Longrightarrow> x \<in> set (ls i) \<Longrightarrow> x \<notin> set (ls j)"
    "keys_ok B ls" "X \<subseteq> dom B"
  using assms unfolding chains_def by blast+

text \<open>A pointer field that belongs to no list but the \<open>i\<close>-th does not matter to the others.\<close>

lemma other_list:
  assumes C: "chains P B ls X" and H: "high B" and ij: "i \<le> NHASH_DEF" "j \<le> NHASH_DEF" "i \<noteq> j"
    and u: "u = slot i \<or> u \<in> set (ls i) \<or> u \<in> X"
  shows "lst (P(u := v)) (slot j) (ls j) = lst P (slot j) (ls j)"
proof (rule lst_upd)
  show "u \<noteq> slot j"
    using u ij slot_inj slot_notin [OF H ij(2)] chains_sub [OF C ij(1)] chainsD(6) [OF C] by blast
  show "u \<notin> set (ls j)"
    using u chainsD(4) [OF C ij] chainsD(3) [OF C ij(2)] slot_notin [OF H ij(1)]
      chains_sub [OF C ij(2)] by blast
qed

section \<open>Moves between the lists\<close>

lemma Un_lists_upd:
  assumes "i \<le> (n :: nat)"
  shows "(\<Union>j \<le> n. set ((ls(i := l)) j)) = set l \<union> (\<Union>j \<in> {..n} - {i}. set (ls j))"
proof -
  have "{..n} = insert i ({..n} - {i})" using assms by auto
  then have "(\<Union>j \<le> n. set ((ls(i := l)) j)) =
      set ((ls(i := l)) i) \<union> (\<Union>j \<in> {..n} - {i}. set ((ls(i := l)) j))"
    by (metis UN_insert)
  then show ?thesis by simp
qed

lemma Un_lists_split:
  "i \<le> (n :: nat) \<Longrightarrow> (\<Union>j \<le> n. set (ls j)) = set (ls i) \<union> (\<Union>j \<in> {..n} - {i}. set (ls j))"
  using Un_lists_upd [of i n ls "ls i"] by simp

lemma keys_ok_remove: "keys_ok B ls \<Longrightarrow> ls i = ys @ x # zs \<Longrightarrow> keys_ok B (ls(i := ys @ zs))"
proof -
  assume K: "keys_ok B ls" and i: "ls i = ys @ x # zs"
  have "distinct (map (keyof B) (ys @ x # zs))" if "i < NHASH_DEF"
    using K i that unfolding keys_ok_def by metis
  with K i show ?thesis by (auto simp: keys_ok_def)
qed

lemma chains_unlink:
  assumes C: "chains P B ls X" and H: "high B" and i: "i \<le> NHASH_DEF" "ls i = ys @ x # zs"
  shows "chains (P(last (slot i # ys) := P x)) B (ls(i := ys @ zs)) (insert x X)"
proof -
  let ?u = "last (slot i # ys)" and ?ls = "ls(i := ys @ zs)"
  have u: "?u = slot i \<or> ?u \<in> set (ls i)"
    using i(2) last_in_set [of ys] by auto
  have dist: "distinct (slot i # ys @ x # zs)"
    using chainsD(2) [OF C i(1)] slot_notin [OF H i(1)] chains_sub [OF C i(1)] i(2) by auto
  have "lst P (slot i) (ys @ x # zs)"
    using chainsD(1) [OF C i(1)] i(2) by simp
  then have li: "lst (P(?u := P x)) (slot i) (ys @ zs)"
    using dist by (rule lst_unlink)
  have l: "lst (P(?u := P x)) (slot j) (?ls j)" if "j \<le> NHASH_DEF" for j
    using li other_list [OF C H i(1) that] u chainsD(1) [OF C that] by auto
  have d: "distinct (?ls j)" "set (?ls j) \<inter> insert x X = {}" if j: "j \<le> NHASH_DEF" for j
  proof -
    show "distinct (?ls j)"
      using chainsD(2) [OF C j] i(2) by auto
    have "x \<notin> set (?ls j)"
      using chainsD(2,4) [OF C j] chainsD(2) [OF C i(1)] i chainsD(4) [OF C i(1) j, of x] by auto
    moreover have "set (?ls j) \<inter> X = {}"
      using chainsD(3) [OF C j] i(2) by auto
    ultimately show "set (?ls j) \<inter> insert x X = {}" by auto
  qed
  have p: "set (?ls j) \<inter> set (?ls k) = {}" if "j \<le> NHASH_DEF" "k \<le> NHASH_DEF" "j \<noteq> k" for j k
    using chainsD(4) [OF C that] that i(2) by (cases "j = i"; cases "k = i") auto
  have "(\<Union>j \<le> NHASH_DEF. set (?ls j)) \<union> insert x X = (\<Union>j \<le> NHASH_DEF. set (ls j)) \<union> X"
    unfolding Un_lists_upd [OF i(1)] Un_lists_split [OF i(1), of ls] i(2) by auto
  also have "\<dots> = dom B" using C by (simp add: chains_def)
  finally show ?thesis
    using l d p keys_ok_remove [OF chainsD(5) [OF C] i(2)] by (simp add: chains_def)
qed

lemma chains_link:
  assumes C: "chains P B ls X" and H: "high B" and i: "i \<le> NHASH_DEF" and x: "x \<in> X"
    and k: "i < NHASH_DEF \<Longrightarrow> db_hash NHASH_DEF (keyof B x) = i \<and> keyof B x \<notin> keyof B ` set (ls i)"
      "i = FREE \<Longrightarrow> blank (keyof B x)"
  shows "chains (P(x := P (slot i), slot i := x)) B (ls(i := x # ls i)) (X - {x})"
proof -
  let ?P = "P(x := P (slot i), slot i := x)" and ?ls = "ls(i := x # ls i)"
  have xB: "x \<in> dom B" using x chainsD(6) [OF C] by blast
  have x0: "x \<noteq> 0" "x \<noteq> slot i" "slot i \<notin> set (ls i)"
    using xB H slot_notin [OF H i] chains_sub [OF C i] unfolding high_def TBL_def by fastforce+
  have xi: "x \<notin> set (ls j)" if "j \<le> NHASH_DEF" for j
    using chainsD(3) [OF C that] x by blast
  have l: "lst ?P (slot j) (?ls j)" if "j \<le> NHASH_DEF" for j
  proof (cases "j = i")
    case True
    then show ?thesis
      using lst_push [OF chainsD(1) [OF C i] x0(1,2) xi [OF i] x0(3)] by simp
  next
    case False
    have "x \<noteq> slot j" using slot_notin [OF H that] xB by blast
    then have "lst (P(x := P (slot i))) (slot j) (ls j)"
      using xi [OF that] chainsD(1) [OF C that] by simp
    moreover have "slot i \<noteq> slot j" "slot i \<notin> set (ls j)"
      using False slot_inj [OF i that] slot_notin [OF H i] chains_sub [OF C that] by auto
    ultimately show ?thesis using False by simp
  qed
  have d: "distinct (?ls j)" "set (?ls j) \<inter> (X - {x}) = {}" if "j \<le> NHASH_DEF" for j
    using chainsD(2,3) [OF C that] xi [OF that] by auto
  have p: "set (?ls j) \<inter> set (?ls m) = {}" if "j \<le> NHASH_DEF" "m \<le> NHASH_DEF" "j \<noteq> m" for j m
    using chainsD(4) [OF C that] xi that by auto
  have "(\<Union>j \<le> NHASH_DEF. set (?ls j)) \<union> (X - {x}) = (\<Union>j \<le> NHASH_DEF. set (ls j)) \<union> X"
    unfolding Un_lists_upd [OF i] Un_lists_split [OF i, of ls] using x by auto
  also have "\<dots> = dom B" using C by (simp add: chains_def)
  finally have u: "(\<Union>j \<le> NHASH_DEF. set (?ls j)) \<union> (X - {x}) = dom B" .
  have "keys_ok B ?ls"
    using chainsD(5) [OF C] k by (auto simp: keys_ok_def)
  with l d p u show ?thesis by (simp add: chains_def)
qed

text \<open>A detached record may be rewritten, and new ones may be added, freely.\<close>

lemma keys_ok_upd:
  "keys_ok B ls \<Longrightarrow> (\<And>i. i \<le> NHASH_DEF \<Longrightarrow> x \<notin> set (ls i)) \<Longrightarrow> keys_ok (B(x \<mapsto> b)) ls"
proof -
  assume K: "keys_ok B ls" and x: "\<And>i. i \<le> NHASH_DEF \<Longrightarrow> x \<notin> set (ls i)"
  have *: "keyof (B(x \<mapsto> b)) y = keyof B y" if "y \<in> set (ls i)" "i \<le> NHASH_DEF" for y i
    using x [OF that(2)] that(1) by (auto simp: keyof_def)
  then have "map (keyof (B(x \<mapsto> b))) (ls i) = map (keyof B) (ls i)" if "i \<le> NHASH_DEF" for i
    using that by (auto intro: map_cong)
  then have "distinct (map (keyof (B(x \<mapsto> b))) (ls i)) = distinct (map (keyof B) (ls i))"
    if "i \<le> NHASH_DEF" for i
    using that by metis
  with K * show ?thesis by (simp add: keys_ok_def)
qed

lemma chains_detached:
  assumes C: "chains P B ls X" and H: "high B" and x: "x \<in> X \<or> x \<notin> dom B" "TBL \<le> x"
  shows "chains (P(x := v)) (B(x \<mapsto> b)) ls (insert x X)"
proof -
  have xi: "x \<notin> set (ls i)" if "i \<le> NHASH_DEF" for i
    using chainsD(3) [OF C that] chains_sub [OF C that] x(1) by blast
  have l: "lst (P(x := v)) (slot i) (ls i)" if "i \<le> NHASH_DEF" for i
    using chainsD(1) [OF C that] xi [OF that] slot_low [OF that] x(2) by simp
  have "(\<Union>i \<le> NHASH_DEF. set (ls i)) \<union> insert x X = dom (B(x \<mapsto> b))"
    using C by (auto simp: chains_def)
  with C l xi keys_ok_upd [OF chainsD(5) [OF C] xi] show ?thesis
    by (auto simp: chains_def)
qed

text \<open>New data under the same key changes no list.\<close>

lemma keyof_same: "B x = Some b \<Longrightarrow> bkey b' = bkey b \<Longrightarrow> keyof (B(x \<mapsto> b')) = keyof B"
  by (auto simp: keyof_def)

lemma chains_data:
  assumes C: "chains P B ls X" and x: "B x = Some b" "bkey b' = bkey b"
  shows "chains P (B(x \<mapsto> b')) ls X"
proof -
  have "dom (B(x \<mapsto> b')) = dom B" using x(1) by auto
  then show ?thesis
    using C keyof_same [of B x b b', OF x] by (simp add: chains_def keys_ok_def del: dom_fun_upd)
qed

section \<open>The map a database stands for\<close>

definition absmap :: "bodies \<Rightarrow> (nat \<Rightarrow> nat list) \<Rightarrow> string \<Rightarrow> string option" where
  "absmap B ls k = map_of (map (\<lambda>x. (keyof B x, dataof B x)) (ls (db_hash NHASH_DEF k))) k"

lemma db_hash_less [simp]: "db_hash NHASH_DEF k < NHASH_DEF"
  by (simp add: db_hash_def NHASH_DEF_def)

lemma absmap_None: "absmap B ls k = None \<longleftrightarrow> k \<notin> keyof B ` set (ls (db_hash NHASH_DEF k))"
  by (auto simp: absmap_def map_of_eq_None_iff image_image)

lemma absmap_found:
  assumes "keys_ok B ls" "h = db_hash NHASH_DEF k" "ls h = ys @ x # zs" "keyof B x = k"
  shows "absmap B ls k = Some (dataof B x)"
    and "absmap B (ls(h := ys @ zs)) = (absmap B ls)(k := None)"
proof -
  have "h < NHASH_DEF" using assms(2) by simp
  with assms(1,3) have d: "distinct (map (keyof B) (ys @ x # zs))"
    unfolding keys_ok_def by metis
  then have n: "k \<notin> keyof B ` set ys" "k \<notin> keyof B ` set zs"
    using assms(4) by auto
  then have none: "map_of (map (\<lambda>x. (keyof B x, dataof B x)) ys) k = None"
    "map_of (map (\<lambda>x. (keyof B x, dataof B x)) zs) k = None"
    by (auto simp: map_of_eq_None_iff image_image)
  show "absmap B ls k = Some (dataof B x)"
    using none assms by (simp add: absmap_def map_add_def)
  show "absmap B (ls(h := ys @ zs)) = (absmap B ls)(k := None)"
  proof
    fix j
    show "absmap B (ls(h := ys @ zs)) j = ((absmap B ls)(k := None)) j"
      using none assms by (cases "j = k") (auto simp: absmap_def map_add_def split: option.splits)
  qed
qed

lemma absmap_push:
  assumes "h = db_hash NHASH_DEF k" "keyof B x = k"
  shows "absmap B (ls(h := x # ls h)) = (absmap B ls)(k \<mapsto> dataof B x)"
  using assms by (auto simp: absmap_def fun_eq_iff)

lemma absmap_free [simp]: "absmap B (ls(FREE := xs)) = absmap B ls"
proof
  fix k
  have "db_hash NHASH_DEF k \<noteq> FREE" using db_hash_less [of k] by (metis less_irrefl)
  then show "absmap B (ls(FREE := xs)) k = absmap B ls k" by (simp add: absmap_def)
qed

lemma absmap_cong:
  assumes "\<And>i x. i < NHASH_DEF \<Longrightarrow> x \<in> set (ls i) \<Longrightarrow> keyof B x = keyof B' x \<and> dataof B x = dataof B' x"
  shows "absmap B ls = absmap B' ls"
proof
  fix k
  have "map (\<lambda>x. (keyof B x, dataof B x)) (ls (db_hash NHASH_DEF k)) =
      map (\<lambda>x. (keyof B' x, dataof B' x)) (ls (db_hash NHASH_DEF k))"
    using assms [OF db_hash_less] by simp
  then show "absmap B ls k = absmap B' ls k" by (simp only: absmap_def)
qed

lemma absmap_upd_other:
  assumes "\<And>i. i < NHASH_DEF \<Longrightarrow> x \<notin> set (ls i)"
  shows "absmap (B(x \<mapsto> b)) ls = absmap B ls"
proof (rule absmap_cong)
  fix i y
  assume "i < NHASH_DEF" "y \<in> set (ls i)"
  then have "y \<noteq> x" using assms by blast
  then show "keyof (B(x \<mapsto> b)) y = keyof B y \<and> dataof (B(x \<mapsto> b)) y = dataof B y"
    by (simp add: keyof_def dataof_def)
qed

end
