(* ===== verification/Db_Correct.thy ===== *)
theory Db_Correct
  imports Db_Chain
begin

text \<open>
  The operations of the database library against the map they promise: \<open>db_rel db m\<close> relates a
  \<open>DB\<close> structure and the bytes of its files to a finite map from keys to data. The theory shows
  what the searches find, what a deletion and each kind of store do to the lists of the index
  file, and that the operations refine lookup, update and removal on the map.
\<close>

definition db_rel :: "db \<Rightarrow> (string \<rightharpoonup> string) \<Rightarrow> bool" where
  "db_rel db m \<longleftrightarrow> held db = [] \<and>
     (\<exists>P B ls. layout db P B \<and> chains P B ls {} \<and> m = absmap B ls)"

text \<open>The structure after a search has read the record \<open>x\<close> that the field \<open>prev\<close> points to.\<close>

definition located :: "heap \<Rightarrow> bodies \<Rightarrow> nat \<Rightarrow> db \<Rightarrow> bool" where
  "located P B x db \<longleftrightarrow> idxoff db = int x \<and> ptrval db = int (P x) \<and> idxbuf db = keyof B x \<and>
     datoff db = int (boff (the (B x))) \<and> datlen db = int (length (dataof B x)) + 1"

lemma located_read_state: "B x = Some b \<Longrightarrow> located P B x (read_state x (P x) b db)"
  by (simp add: located_def read_state_def keyof_def dataof_def)

lemma readidx_located:
  assumes "layout db P B" "x \<in> dom B"
  obtains db' where "db_readidx (int x) db = Inr (int (P x), db')" "scrub db' = scrub db"
    "located P B x db'" "ptroff db' = ptroff db" "chainoff db' = chainoff db"
proof -
  from assms(2) obtain b where b: "B x = Some b" by auto
  show thesis
  proof (rule that)
    show "db_readidx (int x) db = Inr (int (P x), read_state x (P x) b db)"
      using readidx_layout [OF assms(1), of x b "int x"] b by simp
    show "located P B x (read_state x (P x) b db)"
      using located_read_state b by blast
  qed (simp_all add: read_state_def scrub_def)
qed

section \<open>Searching\<close>

lemma find_loop_found:
  assumes "layout db P B" "lst P s (ys @ x # zs)" "set (ys @ x # zs) \<subseteq> dom B"
    "\<forall>y \<in> set ys. keyof B y \<noteq> k" "keyof B x = k" "length ys < fuel" "ptroff db = int s"
  shows "\<exists>db'. find_loop fuel k (int (P s)) db = Inr (int x, db') \<and> scrub db' = scrub db \<and>
    located P B x db' \<and> ptroff db' = int (last (s # ys))"
  using assms
proof (induction ys arbitrary: s db fuel)
  case Nil
  then obtain f where f: "fuel = Suc f" by (cases fuel) auto
  have x: "P s = x" "x \<noteq> 0" "x \<in> dom B" using Nil.prems by auto
  from readidx_located [OF Nil.prems(1) x(3)] obtain db' where
    "db_readidx (int x) db = Inr (int (P x), db')" "scrub db' = scrub db"
    "located P B x db'" "ptroff db' = ptroff db" by metis
  with f x Nil.prems(5,7) show ?case
    by (subst find_loop.simps) (simp add: located_def)
next
  case (Cons y ys)
  then obtain f where f: "fuel = Suc f" by (cases fuel) auto
  have y: "P s = y" "y \<noteq> 0" "y \<in> dom B" "lst P y (ys @ x # zs)" using Cons.prems by auto
  from readidx_located [OF Cons.prems(1) y(3)] obtain db1 where
    r: "db_readidx (int y) db = Inr (int (P y), db1)" "scrub db1 = scrub db" "located P B y db1"
    by metis
  let ?db = "db1\<lparr>ptroff := int y\<rparr>"
  have s: "scrub ?db = scrub db" using r(2) by (simp add: scrub_def)
  then have "layout ?db P B" using layout_cong Cons.prems(1) by blast
  then obtain db' where "find_loop f k (int (P y)) ?db = Inr (int x, db')"
    "scrub db' = scrub ?db" "located P B x db'" "ptroff db' = int (last (y # ys))"
    using Cons.IH [of ?db y f] y(4) Cons.prems f by auto
  moreover have "idxbuf db1 \<noteq> k" using r(3) Cons.prems(4) by (simp add: located_def)
  ultimately show ?case
    using f y(1,2) r(1) s by (subst find_loop.simps) simp
qed

lemma find_loop_missing:
  assumes "layout db P B" "lst P s xs" "set xs \<subseteq> dom B" "k \<notin> keyof B ` set xs" "length xs \<le> fuel"
  shows "\<exists>db'. find_loop fuel k (int (P s)) db = Inr (0, db') \<and> scrub db' = scrub db"
  using assms
proof (induction xs arbitrary: s db fuel)
  case Nil
  then show ?case by (subst find_loop.simps) simp
next
  case (Cons y ys)
  then obtain f where f: "fuel = Suc f" by (cases fuel) auto
  have y: "P s = y" "y \<noteq> 0" "y \<in> dom B" "lst P y ys" using Cons.prems by auto
  from readidx_located [OF Cons.prems(1) y(3)] obtain db1 where
    r: "db_readidx (int y) db = Inr (int (P y), db1)" "scrub db1 = scrub db" "located P B y db1"
    by metis
  let ?db = "db1\<lparr>ptroff := int y\<rparr>"
  have s: "scrub ?db = scrub db" using r(2) by (simp add: scrub_def)
  then have "layout ?db P B" using layout_cong Cons.prems(1) by blast
  then obtain db' where "find_loop f k (int (P y)) ?db = Inr (0, db')" "scrub db' = scrub ?db"
    using Cons.IH [of ?db y f] y(4) Cons.prems f by auto
  moreover have "idxbuf db1 \<noteq> k" using r(3) Cons.prems(4) by (auto simp: located_def)
  ultimately show ?case
    using f y(1,2) r(1) s by (subst find_loop.simps) simp
qed

text \<open>A list without repetition of record offsets is shorter than the index file.\<close>

lemma chain_short:
  assumes "layout db P B" "distinct xs" "set xs \<subseteq> dom B"
  shows "length xs < length (fbytes (idxf db))"
proof -
  have "set xs \<subseteq> {6 ..< length (fbytes (idxf db))}"
  proof
    fix x assume "x \<in> set xs"
    with assms(3) have d: "is_slot B x" "x \<in> dom B" by (auto simp: is_slot_def)
    then have "TBL \<le> x" using layout_high [OF assms(1)] unfolding high_def by blast
    then show "x \<in> {6 ..< length (fbytes (idxf db))}"
      using layout_slot(3) [OF assms(1) d(1)] by (simp add: TBL_def)
  qed
  then have "card (set xs) \<le> length (fbytes (idxf db)) - 6"
    by (metis card_mono card_atLeastLessThan finite_atLeastLessThan)
  then show ?thesis
    using assms(2) layoutD(5) [OF assms(1)] by (simp add: distinct_card TBL_def)
qed

definition lock_mode :: "bool \<Rightarrow> lock_type" where
  "lock_mode w = (if w then F_WRLCK else F_RDLCK)"

text \<open>The structure with the hash chain of a key locked, as \<open>_db_find_and_lock\<close> leaves it.\<close>

definition locked :: "string \<Rightarrow> bool \<Rightarrow> db \<Rightarrow> db" where
  "locked k w db = db\<lparr>chainoff := int (hslot (db_hash NHASH_DEF k)),
     held := (lock_mode w, Idx, int (hslot (db_hash NHASH_DEF k)), 1) # held db\<rparr>"

lemma find_and_lock_start:
  assumes L: "layout db P B" and h: "h = db_hash NHASH_DEF k"
  obtains db1 where "layout db1 P B" "scrub db1 = scrub (locked k w db)" "ptroff db1 = int (hslot h)"
    "db_find_and_lock k w db =
       bindR (find_loop (length (fbytes (idxf db1))) k (int (P (hslot h))) db1)
         (\<lambda>(offset, db). Inr (if offset = 0 then - 1 else 0, db))"
proof -
  let ?a = "db\<lparr>chainoff := int (hslot h), ptroff := int (hslot h),
              held := (lock_mode w, Idx, int (hslot h), 1) # held db\<rparr>"
  let ?b = "?a\<lparr>idxf := (idxf db)\<lparr>fpos := hslot h + 6\<rparr>\<rparr>"
  have hl: "h < NHASH_DEF" using h by simp
  have co: "int (db_hash (nhash db) k) * int PTR_SZ + hashoff db = int (hslot h)"
    using layoutD(3,4) [OF L] h by (simp add: PTR_SZ_def HASH_OFF_def hslot_def)
  have La: "layout ?a P B" using L by (simp add: layout_def)
  have r: "db_readptr (int (hslot h)) ?a = Inr (int (P (hslot h)), ?b)"
    using readptr_layout [OF La is_slot_hslot [OF hl]] by simp
  have "db_find_and_lock k w db =
       bindR (find_loop (length (fbytes (idxf ?b))) k (int (P (hslot h))) ?b)
         (\<lambda>(offset, db). Inr (if offset = 0 then - 1 else 0, db))"
    using layoutD(1) [OF L] r
    by (cases w) (simp_all add: db_find_and_lock_def co lockw_def lock_mode_def)
  moreover have "scrub ?b = scrub (locked k w db)"
    using h by (simp add: scrub_def locked_def)
  moreover have "layout ?b P B" using La by (simp add: layout_def)
  ultimately show thesis by (intro that [of ?b]) simp_all
qed

lemma find_and_lock_found:
  assumes L: "layout db P B" and C: "chains P B ls X" and h: "h = db_hash NHASH_DEF k"
    and k: "k \<in> keyof B ` set (ls h)"
  obtains db' ys x zs where "db_find_and_lock k w db = Inr (0, db')"
    "scrub db' = scrub (locked k w db)" "ls h = ys @ x # zs" "keyof B x = k" "located P B x db'"
    "ptroff db' = int (last (slot h # ys))" "x \<noteq> 0"
proof -
  have hl: "h < NHASH_DEF" "h \<le> NHASH_DEF" using h by (simp_all add: less_imp_le)
  then have sh: "slot h = hslot h" by (simp add: slot_def)
  from k have "\<exists>x \<in> set (ls h). keyof B x = k" by auto
  then obtain ys x zs where split: "ls h = ys @ x # zs" "keyof B x = k" "\<forall>y \<in> set ys. keyof B y \<noteq> k"
    using split_list_first_prop [of "ls h" "\<lambda>x. keyof B x = k"] by blast
  from find_and_lock_start [OF L h, of w] obtain db1 where db1: "layout db1 P B"
    "scrub db1 = scrub (locked k w db)" "ptroff db1 = int (hslot h)"
    "db_find_and_lock k w db =
       bindR (find_loop (length (fbytes (idxf db1))) k (int (P (hslot h))) db1)
         (\<lambda>(offset, db). Inr (if offset = 0 then - 1 else 0, db))" by metis
  have sub: "set (ys @ x # zs) \<subseteq> dom B" "lst P (hslot h) (ys @ x # zs)"
    using chains_sub [OF C hl(2)] chainsD(1) [OF C hl(2)] split(1) sh by auto
  have "length (ls h) < length (fbytes (idxf db1))"
    using chain_short [OF db1(1) chainsD(2) [OF C hl(2)] chains_sub [OF C hl(2)]] .
  then have "length ys < length (fbytes (idxf db1))" using split(1) by simp
  from find_loop_found [OF db1(1) sub(2,1) split(3,2) this db1(3)] obtain db' where
    "find_loop (length (fbytes (idxf db1))) k (int (P (hslot h))) db1 = Inr (int x, db')"
    "scrub db' = scrub db1" "located P B x db'" "ptroff db' = int (last (hslot h # ys))" by blast
  moreover have "x \<noteq> 0" using lst_nonzero [OF sub(2)] by auto
  ultimately show thesis
    using db1 split sh by (intro that [of db' ys x zs]) simp_all
qed

lemma find_and_lock_missing:
  assumes L: "layout db P B" and C: "chains P B ls X" and h: "h = db_hash NHASH_DEF k"
    and k: "k \<notin> keyof B ` set (ls h)"
  obtains db' where "db_find_and_lock k w db = Inr (- 1, db')" "scrub db' = scrub (locked k w db)"
proof -
  have hl: "h < NHASH_DEF" "h \<le> NHASH_DEF" using h by (simp_all add: less_imp_le)
  from find_and_lock_start [OF L h, of w] obtain db1 where db1: "layout db1 P B"
    "scrub db1 = scrub (locked k w db)"
    "db_find_and_lock k w db =
       bindR (find_loop (length (fbytes (idxf db1))) k (int (P (hslot h))) db1)
         (\<lambda>(offset, db). Inr (if offset = 0 then - 1 else 0, db))" by metis
  have l: "lst P (hslot h) (ls h)" using chainsD(1) [OF C hl(2)] hl(1) by (simp add: slot_def)
  have "length (ls h) \<le> length (fbytes (idxf db1))"
    using chain_short [OF db1(1) chainsD(2) [OF C hl(2)] chains_sub [OF C hl(2)]] by simp
  from find_loop_missing [OF db1(1) l chains_sub [OF C hl(2)] k this] db1 show thesis
    by (auto intro: that)
qed

section \<open>Fetching\<close>

lemma layout_frame [simp]:
  "layout (db\<lparr>held := hl\<rparr>) P B = layout db P B"
  "layout (db\<lparr>cnt_fetchok := c\<rparr>) P B = layout db P B"
  "layout (db\<lparr>cnt_fetcherr := c\<rparr>) P B = layout db P B"
  "layout (db\<lparr>cnt_delok := c\<rparr>) P B = layout db P B"
  "layout (db\<lparr>cnt_delerr := c\<rparr>) P B = layout db P B"
  "layout (db\<lparr>cnt_storerr := c\<rparr>) P B = layout db P B"
  "layout (db\<lparr>cnt_stor1 := c\<rparr>) P B = layout db P B"
  "layout (db\<lparr>cnt_stor2 := c\<rparr>) P B = layout db P B"
  "layout (db\<lparr>cnt_stor3 := c\<rparr>) P B = layout db P B"
  "layout (db\<lparr>cnt_stor4 := c\<rparr>) P B = layout db P B"
  "layout (db\<lparr>cnt_nextrec := c\<rparr>) P B = layout db P B"
  "layout (locked k w db) P B = layout db P B"
  by (simp_all add: layout_def locked_def)

text \<open>The state between the search and the release of the chain's lock.\<close>

definition chain_held :: "db \<Rightarrow> bool" where
  "chain_held db \<longleftrightarrow> (\<exists>ty h. h < NHASH_DEF \<and> chainoff db = int (hslot h) \<and>
     held db = [(ty, Idx, int (hslot h), 1)])"

lemma chain_held_locked:
  assumes "scrub db' = scrub (locked k w db)" "held db = []"
  shows "chain_held db'" "chainoff db' = int (hslot (db_hash NHASH_DEF k))"
proof -
  note f = scrub_fields [OF assms(1)]
  show "chainoff db' = int (hslot (db_hash NHASH_DEF k))"
    using f(7) by (simp add: locked_def)
  then show "chain_held db'"
    using f(3) assms(2) db_hash_less [of k] unfolding chain_held_def
    by (intro exI [of _ "lock_mode w"] exI [of _ "db_hash NHASH_DEF k"]) (simp add: locked_def)
qed

lemma unlock_chain:
  assumes "layout db P B" "chain_held db"
  shows "un_lock Idx (chainoff db) 1 msg db = Inr (db\<lparr>held := []\<rparr>)"
  using assms layoutD(1) [OF assms(1)] by (auto simp: chain_held_def un_lock_def)

lemma db_relE:
  assumes "db_rel db m"
  obtains P B ls where "layout db P B" "chains P B ls {}" "m = absmap B ls" "held db = []"
  using assms by (auto simp: db_rel_def)

lemma db_relI: "layout db P B \<Longrightarrow> chains P B ls {} \<Longrightarrow> m = absmap B ls \<Longrightarrow> held db = [] \<Longrightarrow> db_rel db m"
  by (auto simp: db_rel_def)

lemma fetch_rel:
  assumes "db_rel db m"
  shows "\<exists>db'. db_fetch k db = Inr (m k, db') \<and> db_rel db' m \<and>
    fbytes (idxf db') = fbytes (idxf db) \<and> fbytes (datf db') = fbytes (datf db)"
proof -
  from assms obtain P B ls where L: "layout db P B" and C: "chains P B ls {}"
    and m: "m = absmap B ls" and hd: "held db = []" by (rule db_relE)
  let ?h = "db_hash NHASH_DEF k"
  show ?thesis
  proof (cases "k \<in> keyof B ` set (ls ?h)")
    case True
    from find_and_lock_found [OF L C refl True, of False] obtain db1 ys x zs where
      f: "db_find_and_lock k False db = Inr (0, db1)" "scrub db1 = scrub (locked k False db)"
      "ls ?h = ys @ x # zs" "keyof B x = k" "located P B x db1" by metis
    have L1: "layout db1 P B" using layout_cong [OF f(2)] L by simp
    have "x \<in> dom B" using chains_sub [OF C less_imp_le [OF db_hash_less [of k]]] f(3) by simp
    then obtain b where b: "B x = Some b" by auto
    from readdat_layout [OF L1 b] f(5) b obtain db2 where
      r: "db_readdat db1 = Inr (bdata b, db2)" "scrub db2 = scrub db1"
      by (auto simp: located_def dataof_def)
    have L2: "layout db2 P B" using layout_cong [OF r(2)] L1 by simp
    let ?db = "db2\<lparr>cnt_fetchok := cnt_fetchok db2 + 1\<rparr>"
    have s2: "scrub db2 = scrub (locked k False db)" using r(2) f(2) by simp
    then have "chain_held db2" using chain_held_locked hd by blast
    then have "un_lock Idx (chainoff ?db) 1 ''db_fetch: un_lock error'' ?db = Inr (?db\<lparr>held := []\<rparr>)"
      using unlock_chain [of ?db P B] L2 by (simp add: chain_held_def)
    moreover have "m k = Some (bdata b)"
      using absmap_found(1) [OF chainsD(5) [OF C] refl f(3,4)] m b by (simp add: dataof_def)
    moreover have "db_rel (?db\<lparr>held := []\<rparr>) m"
      using L2 C m by (intro db_relI) simp_all
    ultimately show ?thesis
      using f(1) r(1) scrub_fields(1,2) [OF s2] by (simp add: db_fetch_def locked_def)
  next
    case False
    from find_and_lock_missing [OF L C refl False, of False] obtain db1 where
      f: "db_find_and_lock k False db = Inr (- 1, db1)" "scrub db1 = scrub (locked k False db)"
      by metis
    have L1: "layout db1 P B" using layout_cong [OF f(2)] L by simp
    let ?db = "db1\<lparr>cnt_fetcherr := cnt_fetcherr db1 + 1\<rparr>"
    have "chain_held db1" using chain_held_locked f(2) hd by blast
    then have "un_lock Idx (chainoff ?db) 1 ''db_fetch: un_lock error'' ?db = Inr (?db\<lparr>held := []\<rparr>)"
      using unlock_chain [of ?db P B] L1 by (simp add: chain_held_def)
    moreover have "m k = None" using False m absmap_None by metis
    moreover have "db_rel (?db\<lparr>held := []\<rparr>) m"
      using L1 C m by (intro db_relI) simp_all
    ultimately show ?thesis
      using f(1) scrub_fields(1,2) [OF f(2)] by (simp add: db_fetch_def locked_def)
  qed
qed

section \<open>Deleting\<close>

definition blanks :: "string \<Rightarrow> string" where
  "blanks s = replicate (length s) SPACE"

definition wipe :: "body \<Rightarrow> body" where
  "wipe b = b\<lparr>bkey := blanks (bkey b), bdata := blanks (bdata b)\<rparr>"

lemma blanks_facts [simp]:
  "length (blanks s) = length s" "key_ok (blanks s)" "NUL \<notin> set (blanks s)" "blank (blanks s)"
  by (auto simp: blanks_def key_ok_def SEP_def SPACE_def NUL_def blank_def)

lemma dodelete_layout:
  assumes L: "layout db P B" and b: "B x = Some b" and loc: "located P B x db"
    and u: "ptroff db = int u" "is_slot B u" "u \<noteq> x" "u \<noteq> 0"
    and hd: "\<forall>ty. (ty, Idx, 0, 1) \<notin> set (held db)"
  shows "\<exists>db'. db_dodelete db = Inr db' \<and> layout db' (P(x := P 0, 0 := x, u := P x)) (B(x \<mapsto> wipe b)) \<and>
    held db' = held db \<and> chainoff db' = chainoff db \<and>
    length (fbytes (idxf db')) = length (fbytes (idxf db)) \<and>
    length (fbytes (datf db')) = length (fbytes (datf db))"
proof -
  note K = layoutD(1,2) [OF L]
  note R = layout_rec [OF L b, unfolded rec_at_def body_ok_def]
  have x: "x \<le> 999999" "x \<noteq> 0" using R by (simp_all add: TBL_def)
  have P: "P 0 \<le> 999999" "P x \<le> 999999"
    using layout_slot(1) [OF L] b by (auto intro: is_slot_rec)
  let ?b1 = "b\<lparr>bdata := blanks (bdata b)\<rparr>"
  define db1 where "db1 = db\<lparr>datbuf := blanks (bdata b), idxbuf := blanks (bkey b),
    held := (F_WRLCK, Idx, 0, 1) # held db\<rparr>"
  define db2 where "db2 = put_dat (boff b) (blanks (bdata b) @ [NEWLINE])
    (db1\<lparr>datoff := int (boff b), datlen := int (length (bdata b)) + 1\<rparr>)"
  define db3 where "db3 = db2\<lparr>idxf := (idxf db2)\<lparr>fpos := 6\<rparr>\<rparr>"
  define db4 where "db4 = put_idx x (pad 6 (dec (P 0)) @ tail_text (wipe b))
    (db3\<lparr>ptrval := int (P 0), idxbuf := body_text (wipe b), idxoff := int x\<rparr>)"
  define db5 where "db5 = put_idx 0 (pad 6 (dec x)) db4"
  define db6 where "db6 = put_idx u (pad 6 (dec (P x))) db5"
  have kern: "kern_ok (kern db)" using L by (simp add: layout_def)
  have L1: "layout (db1\<lparr>datoff := int (boff b), datlen := int (length (bdata b)) + 1\<rparr>) P B"
    using L by (simp add: layout_def db1_def)
  have L2: "layout db2 P (B(x \<mapsto> ?b1))"
    unfolding db2_def using L1 b by (rule layout_put_data) simp_all
  have L3: "layout (db3\<lparr>ptrval := int (P 0), idxbuf := body_text (wipe b), idxoff := int x\<rparr>) P (B(x \<mapsto> ?b1))"
    using L2 by (simp add: layout_def db3_def)
  have w: "wipe b = ?b1\<lparr>bkey := blanks (bkey b)\<rparr>" by (simp add: wipe_def)
  have "layout db4 (P(x := P 0)) (B(x \<mapsto> ?b1, x \<mapsto> wipe b))"
    using layout_put_rec [OF L3, of x ?b1 "P 0" "blanks (bkey b)"] P by (simp add: db4_def w)
  then have L4: "layout db4 (P(x := P 0)) (B(x \<mapsto> wipe b))" by simp
  have L5: "layout db5 (P(x := P 0, 0 := x)) (B(x \<mapsto> wipe b))"
    unfolding db5_def using L4 by (rule layout_put_ptr) (use x in simp_all)
  have L6: "layout db6 (P(x := P 0, 0 := x, u := P x)) (B(x \<mapsto> wipe b))"
    unfolding db6_def using L5 by (rule layout_put_ptr) (use u P in \<open>simp_all add: is_slot_upd\<close>)
  have e1: "lockw F_WRLCK Idx FREE_OFF 1 ''_db_dodelete: writew_lock error''
      (db\<lparr>datbuf := replicate (nat (datlen db - 1)) SPACE,
         idxbuf := replicate (length (idxbuf db)) SPACE\<rparr>) = Inr db1"
    using K(1) loc b
    by (simp add: lockw_def db1_def FREE_OFF_def located_def keyof_def dataof_def blanks_def)
  have e2: "db_writedat (datbuf db1) (datoff db1) SEEK_SET db1 = Inr db2"
    using writedat_exec [of db1 "blanks (bdata b)" "boff b"] kern loc b
    by (simp add: db2_def db1_def located_def)
  have e3: "db_readptr FREE_OFF db2 = Inr (int (P 0), db3)"
    using readptr_layout [OF L2, of 0] by (simp add: db3_def FREE_OFF_def)
  have saved: "ptrval db3 = int (P x)" "idxoff db3 = int x" "idxbuf db3 = bkey (wipe b)"
    "idxoff db4 = int x" "idxoff db5 = int x" "ptroff db5 = int u"
    using loc u(1) by (simp_all add: db5_def db4_def db3_def db2_def db1_def put_dat_def put_idx_def
        located_def wipe_def)
  have lens: "6 \<le> length (body_text (wipe b))" "length (body_text (wipe b)) \<le> 1024"
    using R body_text_cong [of "wipe b" b] by (simp_all add: wipe_def)
  have e4: "db_writeidx (idxbuf db3) (idxoff db3) SEEK_SET (int (P 0)) db3 = Inr db4"
    using writeidx_exec [of db3 "P 0" "wipe b" x] kern P lens saved
    by (simp add: db4_def db3_def db2_def db1_def put_dat_def wipe_def)
  have kern4: "kern_ok (kern db4)" "kern_ok (kern db5)"
    using kern by (simp_all add: db5_def db4_def db3_def db2_def db1_def put_dat_def put_idx_def)
  have e5: "db_writeptr FREE_OFF (idxoff db4) db4 = Inr db5"
    using writeptr_exec [of db4 x 0] kern4 x saved by (simp add: db5_def FREE_OFF_def)
  have e6: "db_writeptr (ptroff db5) (int (P x)) db5 = Inr db6"
    using writeptr_exec [of db5 "P x" u] kern4 P saved by (simp add: db6_def)
  have h6: "held db6 = (F_WRLCK, Idx, 0, 1) # held db" "chainoff db6 = chainoff db" "kern db6 = kern db"
    by (simp_all add: db6_def db5_def db4_def db3_def db2_def db1_def put_dat_def put_idx_def)
  have fl: "filter (\<lambda>(ty, r). r \<noteq> (Idx, 0, 1)) (held db) = held db"
    using hd by (auto simp: filter_id_conv)
  have e7: "un_lock Idx FREE_OFF 1 ''_db_dodelete: un_lock error'' db6 = Inr (db6\<lparr>held := held db\<rparr>)"
    using K(1) h6 fl by (simp add: un_lock_def FREE_OFF_def)
  have "db_dodelete db = Inr (db6\<lparr>held := held db\<rparr>)"
    by (simp only: db_dodelete_def Let_def e1 e2 e3 e4 e5 e6 e7 saved(1) bindR_Inr prod.case)
  moreover have "length (fbytes (idxf db6)) = length (fbytes (idxf db))"
    "length (fbytes (datf db6)) = length (fbytes (datf db))"
  proof -
    have "x + 6 + length (tail_text b) \<le> length (fbytes (idxf db))"
      "boff b + length (bdata b @ [NEWLINE]) \<le> length (fbytes (datf db))"
      using layout_rec [OF L b] unfolding rec_at_def by (blast intro: seg_length)+
    moreover have "length (tail_text (wipe b)) = length (tail_text b)"
      using body_text_cong [of "wipe b" b] by (simp add: tail_text_def wipe_def)
    ultimately show "length (fbytes (idxf db6)) = length (fbytes (idxf db))"
      "length (fbytes (datf db6)) = length (fbytes (datf db))"
      using layout_slot(3) [OF L u(2)] layout_slot(3) [OF L is_slot_0] P x
      by (simp_all add: db6_def db5_def db4_def db3_def db2_def db1_def put_dat_def put_idx_def)
  qed
  ultimately show ?thesis using L6 h6 by simp
qed

lemma prev_slot:
  assumes C: "chains P B ls X" and H: "high B" and h: "h \<le> NHASH_DEF" "ls h = ys @ x # zs"
  shows "h \<noteq> FREE \<Longrightarrow> last (slot h # ys) \<noteq> 0" "last (slot h # ys) \<noteq> x" "is_slot B (last (slot h # ys))"
proof -
  have sub: "set ys \<subseteq> dom B" "x \<in> dom B" using chains_sub [OF C h(1)] h(2) by auto
  have nz: "0 \<notin> set ys" using lst_nonzero [OF chainsD(1) [OF C h(1)]] h(2) by simp
  have "x \<notin> set ys" using chainsD(2) [OF C h(1)] h(2) by auto
  moreover have "slot h \<noteq> x" using slot_notin [OF H h(1)] sub(2) by blast
  moreover have u: "last (slot h # ys) = slot h \<or> last (slot h # ys) \<in> set ys"
    using last_in_set [of ys] by auto
  ultimately show "last (slot h # ys) \<noteq> x" by metis
  show "last (slot h # ys) \<noteq> 0" if "h \<noteq> FREE"
    using u
  proof
    assume "last (slot h # ys) \<in> set ys"
    with nz show ?thesis by metis
  qed (use that in \<open>simp add: slot_def hslot_def\<close>)
  from u show "is_slot B (last (slot h # ys))"
  proof
    assume "last (slot h # ys) \<in> set ys"
    with sub(1) show ?thesis by (meson domD is_slot_rec subsetD)
  qed (use h(1) in \<open>simp only: is_slot_slot\<close>)
qed

lemma delete_chains:
  assumes C: "chains P B ls {}" and H: "high B" and b: "B x = Some b"
    and h: "h < NHASH_DEF" "ls h = ys @ x # zs" and u: "u = last (slot h # ys)"
  shows "chains (P(x := P 0, 0 := x, u := P x)) (B(x \<mapsto> wipe b)) (ls(h := ys @ zs, FREE := x # ls FREE)) {}"
proof -
  let ?P = "P(u := P x)" and ?ls = "ls(h := ys @ zs)"
  have hle: "h \<le> NHASH_DEF" using h(1) by simp
  have xT: "TBL \<le> x" using H b unfolding high_def by blast
  have u0: "u \<noteq> 0" "u \<noteq> x"
    using prev_slot [OF C H hle h(2)] h(1) u by simp_all
  have C1: "chains ?P B ?ls {x}"
    using chains_unlink [OF C H hle h(2)] u by simp
  have "chains (?P(x := P 0)) (B(x \<mapsto> wipe b)) ?ls (insert x {x})"
    using C1 H by (rule chains_detached) (use xT in simp_all)
  then have C2: "chains (?P(x := P 0)) (B(x \<mapsto> wipe b)) ?ls {x}" by simp
  have H2: "high (B(x \<mapsto> wipe b))" using H xT by (simp add: high_def)
  have "chains (?P(x := P 0, x := (?P(x := P 0)) (slot FREE), slot FREE := x)) (B(x \<mapsto> wipe b))
      (?ls(FREE := x # ?ls FREE)) ({x} - {x})"
    using C2 H2 by (rule chains_link) (simp_all add: keyof_def wipe_def)
  moreover have "?P(x := P 0, x := (?P(x := P 0)) (slot FREE), slot FREE := x) =
      P(x := P 0, 0 := x, u := P x)"
    using u0 xT by (auto simp: slot_def TBL_def)
  moreover have "?ls(FREE := x # ?ls FREE) = ls(h := ys @ zs, FREE := x # ls FREE)"
    using h(1) by simp
  ultimately show ?thesis by simp
qed

lemma dodelete_rel:
  assumes L: "layout db P B" and C: "chains P B ls {}" and hd: "chain_held db"
    and k: "h = db_hash NHASH_DEF k" "ls h = ys @ x # zs" "keyof B x = k"
    and loc: "located P B x db" "ptroff db = int (last (slot h # ys))"
  obtains db' P' B' ls' where "db_dodelete db = Inr db'" "layout db' P' B'" "chains P' B' ls' {}"
    "absmap B' ls' = (absmap B ls)(k := None)" "held db' = held db" "chainoff db' = chainoff db"
    "length (fbytes (idxf db')) = length (fbytes (idxf db))"
    "length (fbytes (datf db')) = length (fbytes (datf db))"
proof -
  let ?u = "last (slot h # ys)"
  have h: "h < NHASH_DEF" "h \<le> NHASH_DEF" using k(1) by (simp_all add: less_imp_le)
  have H: "high B" using layout_high [OF L] .
  have xd: "x \<in> dom B" using chains_sub [OF C h(2)] k(2) by simp
  then obtain b where b: "B x = Some b" by auto
  have u: "?u \<noteq> 0" "?u \<noteq> x" "is_slot B ?u"
    using prev_slot [OF C H h(2) k(2)] h(1) by simp_all
  have "\<forall>ty. (ty, Idx, 0, 1) \<notin> set (held db)"
    using hd by (auto simp: chain_held_def hslot_def)
  from dodelete_layout [OF L b loc u(3,2,1) this] obtain db' where
    D: "db_dodelete db = Inr db'" "layout db' (P(x := P 0, 0 := x, ?u := P x)) (B(x \<mapsto> wipe b))"
    "held db' = held db" "chainoff db' = chainoff db"
    "length (fbytes (idxf db')) = length (fbytes (idxf db))"
    "length (fbytes (datf db')) = length (fbytes (datf db))" by blast
  have C': "chains (P(x := P 0, 0 := x, ?u := P x)) (B(x \<mapsto> wipe b)) (ls(h := ys @ zs, FREE := x # ls FREE)) {}"
    using C H b h(1) k(2) refl by (rule delete_chains)
  have "x \<notin> set ((ls(h := ys @ zs)) i)" if "i < NHASH_DEF" for i
    using chainsD(2) [OF C h(2)] chainsD(4) [OF C h(2), of i x] that k(2) by auto
  then have "absmap (B(x \<mapsto> wipe b)) (ls(h := ys @ zs)) = absmap B (ls(h := ys @ zs))"
    by (rule absmap_upd_other)
  also have "\<dots> = (absmap B ls)(k := None)"
    using chainsD(5) [OF C] k by (rule absmap_found(2))
  finally have A: "absmap (B(x \<mapsto> wipe b)) (ls(h := ys @ zs, FREE := x # ls FREE)) = (absmap B ls)(k := None)"
    by simp
  show thesis
    using that [OF D(1,2) C' A D(3-6)] .
qed

text \<open>The operations but \<open>db_store\<close> leave the lengths of both files.\<close>

definition same_size :: "db \<Rightarrow> db \<Rightarrow> bool" where
  "same_size db db' \<longleftrightarrow> length (fbytes (idxf db')) = length (fbytes (idxf db)) \<and>
     length (fbytes (datf db')) = length (fbytes (datf db))"

lemma same_size_scrub: "scrub db' = scrub (locked k w db) \<Longrightarrow> same_size db db'"
  using scrub_fields(1,2) [of db' "locked k w db"] by (simp add: same_size_def locked_def)

lemma delete_rel:
  assumes "db_rel db m"
  shows "\<exists>db'. db_delete k db = Inr (if m k = None then - 1 else 0, db') \<and> db_rel db' (m(k := None)) \<and>
    same_size db db'"
proof -
  from assms obtain P B ls where L: "layout db P B" and C: "chains P B ls {}"
    and m: "m = absmap B ls" and hd: "held db = []" by (rule db_relE)
  let ?h = "db_hash NHASH_DEF k"
  show ?thesis
  proof (cases "k \<in> keyof B ` set (ls ?h)")
    case True
    from find_and_lock_found [OF L C refl True, of True] obtain db1 ys x zs where
      f: "db_find_and_lock k True db = Inr (0, db1)" "scrub db1 = scrub (locked k True db)"
      "ls ?h = ys @ x # zs" "keyof B x = k" "located P B x db1" "ptroff db1 = int (last (slot ?h # ys))"
      by metis
    have L1: "layout db1 P B" using layout_cong [OF f(2)] L by simp
    have ch: "chain_held db1" using chain_held_locked f(2) hd by blast
    from dodelete_rel [OF L1 C ch refl f(3,4,5,6)] obtain db2 P' B' ls' where
      D: "db_dodelete db1 = Inr db2" "layout db2 P' B'" "chains P' B' ls' {}"
      "absmap B' ls' = (absmap B ls)(k := None)" "held db2 = held db1" "chainoff db2 = chainoff db1"
      "length (fbytes (idxf db2)) = length (fbytes (idxf db1))"
      "length (fbytes (datf db2)) = length (fbytes (datf db1))" by metis
    let ?db = "db2\<lparr>cnt_delok := cnt_delok db2 + 1\<rparr>"
    have "chain_held ?db" using ch D(5,6) by (simp add: chain_held_def)
    then have "un_lock Idx (chainoff ?db) 1 ''db_delete: un_lock error'' ?db = Inr (?db\<lparr>held := []\<rparr>)"
      using unlock_chain [of ?db P' B'] D(2) by simp
    moreover have "m k \<noteq> None" using True m absmap_None by metis
    moreover have "db_rel (?db\<lparr>held := []\<rparr>) (m(k := None))"
      using D(2,3,4) m by (intro db_relI [of _ P' B' ls']) simp_all
    moreover have "same_size db (?db\<lparr>held := []\<rparr>)"
      using same_size_scrub [OF f(2)] D(7,8) by (simp add: same_size_def)
    ultimately show ?thesis
      using f(1) D(1) by (simp add: db_delete_def)
  next
    case False
    from find_and_lock_missing [OF L C refl False, of True] obtain db1 where
      f: "db_find_and_lock k True db = Inr (- 1, db1)" "scrub db1 = scrub (locked k True db)"
      by metis
    have L1: "layout db1 P B" using layout_cong [OF f(2)] L by simp
    let ?db = "db1\<lparr>cnt_delerr := cnt_delerr db1 + 1\<rparr>"
    have "chain_held ?db" using chain_held_locked(1) [OF f(2) hd] by (simp add: chain_held_def)
    then have "un_lock Idx (chainoff ?db) 1 ''db_delete: un_lock error'' ?db = Inr (?db\<lparr>held := []\<rparr>)"
      using unlock_chain [of ?db P B] L1 by simp
    moreover have none: "m k = None" using False m absmap_None by metis
    moreover have "m(k := None) = m" using none by (simp add: fun_upd_idem)
    moreover have "db_rel (?db\<lparr>held := []\<rparr>) m"
      using L1 C m by (intro db_relI) simp_all
    moreover have "same_size db (?db\<lparr>held := []\<rparr>)"
      using same_size_scrub [OF f(2)] by (simp add: same_size_def)
    ultimately show ?thesis
      using f(1) by (simp add: db_delete_def)
  qed
qed


end
