(* ===== verification/Db_Store.thy ===== *)
theory Db_Store
  imports Db_Correct
begin

text \<open>
  \<open>db_store\<close> of \<open>db.c\<close>: the search of the free list, the append and the reuse of a freed
  record, and the replacement of a record. Each keeps the chains of the index file and maps
  the stored key to the stored data in the database's contents.
\<close>

section \<open>The free list\<close>

lemma findfree_loop_spec:
  assumes "layout db P B" "lst P s xs" "set xs \<subseteq> dom B" "length xs \<le> fuel"
  shows "(\<exists>so db'. findfree_loop fuel kl dl (int s) (int (P s)) db = Inr ((so, 0), db') \<and>
      scrub db' = scrub db) \<or>
    (\<exists>ys x zs db'. xs = ys @ x # zs \<and>
      findfree_loop fuel kl dl (int s) (int (P s)) db = Inr ((int (last (s # ys)), int x), db') \<and>
      scrub db' = scrub db \<and> located P B x db' \<and>
      int (length (keyof B x)) = kl \<and> int (length (dataof B x)) + 1 = dl)"
  using assms
proof (induction xs arbitrary: s fuel db)
  case Nil
  then show ?case by (simp add: findfree_loop.simps)
next
  case (Cons y xs)
  then obtain fuel' where f: "fuel = Suc fuel'" by (cases fuel) auto
  from Cons.prems have y: "P s = y" "y \<noteq> 0" "lst P y xs" "y \<in> dom B" by auto
  from readidx_located [OF Cons.prems(1) y(4)] obtain db1 where
    r: "db_readidx (int y) db = Inr (int (P y), db1)" "scrub db1 = scrub db" "located P B y db1"
    by metis
  have L1: "layout db1 P B" using layout_cong [OF r(2)] Cons.prems(1) by simp
  show ?case
  proof (cases "int (length (keyof B y)) = kl \<and> int (length (dataof B y)) + 1 = dl")
    case True
    then have "findfree_loop fuel kl dl (int s) (int (P s)) db = Inr ((int (last (s # [])), int y), db1)"
      using r(1,3) y f by (simp add: findfree_loop.simps located_def)
    then show ?thesis using r True by blast
  next
    case False
    then have step: "findfree_loop fuel kl dl (int s) (int (P s)) db =
        findfree_loop fuel' kl dl (int y) (int (P y)) db1"
      using r(1,3) y f by (auto simp: findfree_loop.simps [of "Suc fuel'"] located_def)
    have "length xs \<le> fuel'" "set xs \<subseteq> dom B" using Cons.prems f by auto
    from Cons.IH [OF L1 y(3) this(2,1)] show ?thesis
    proof
      assume "\<exists>so db'. findfree_loop fuel' kl dl (int y) (int (P y)) db1 = Inr ((so, 0), db') \<and>
        scrub db' = scrub db1"
      then show ?thesis using step r(2) by metis
    next
      assume "\<exists>ys x zs db'. xs = ys @ x # zs \<and>
        findfree_loop fuel' kl dl (int y) (int (P y)) db1 = Inr ((int (last (y # ys)), int x), db') \<and>
        scrub db' = scrub db1 \<and> located P B x db' \<and>
        int (length (keyof B x)) = kl \<and> int (length (dataof B x)) + 1 = dl"
      then obtain ys x zs db' where i: "xs = ys @ x # zs"
        "findfree_loop fuel' kl dl (int y) (int (P y)) db1 = Inr ((int (last (y # ys)), int x), db')"
        "scrub db' = scrub db1" "located P B x db'"
        "int (length (keyof B x)) = kl" "int (length (dataof B x)) + 1 = dl" by blast
      have "y # xs = (y # ys) @ x # zs" "last (s # y # ys) = last (y # ys)" using i(1) by simp_all
      then show ?thesis using i step r(2) by metis
    qed
  qed
qed

lemma lock_free_list:
  assumes "layout db P B"
  shows "lockw ty Idx FREE_OFF 1 msg db = Inr (db\<lparr>held := (ty, Idx, 0, 1) # held db\<rparr>)"
    "\<forall>t. (t, Idx, 0, 1) \<notin> set hl \<Longrightarrow> held db = (ty, Idx, 0, 1) # hl \<Longrightarrow>
       un_lock Idx FREE_OFF 1 msg db = Inr (db\<lparr>held := hl\<rparr>)"
proof -
  show "lockw ty Idx FREE_OFF 1 msg db = Inr (db\<lparr>held := (ty, Idx, 0, 1) # held db\<rparr>)"
    using layoutD(1) [OF assms] by (simp add: lockw_def FREE_OFF_def)
  assume h: "\<forall>t. (t, Idx, 0, 1) \<notin> set hl" "held db = (ty, Idx, 0, 1) # hl"
  have "filter (\<lambda>(ty, r). r \<noteq> (Idx, 0, 1)) hl = hl"
    using h(1) by (auto simp: filter_id_conv)
  then show "un_lock Idx FREE_OFF 1 msg db = Inr (db\<lparr>held := hl\<rparr>)"
    using layoutD(1) [OF assms] h(2) by (simp add: un_lock_def FREE_OFF_def)
qed

lemma chain_held_free: "chain_held db \<Longrightarrow> (t, Idx, 0, 1) \<notin> set (held db)"
  by (auto simp: chain_held_def hslot_def)

definition findfree_finish :: "(int \<times> int) \<times> db \<Rightarrow> int db_result" where
  "findfree_finish = (\<lambda>((so, offset), db).
     bindR (if offset = 0 then Inr (- 1, db)
            else bindR (db_writeptr so (ptrval db) db) (\<lambda>db. Inr (0, db))) (\<lambda>(rc, db).
     bindR (un_lock Idx FREE_OFF 1 ''_db_findfree: un_lock error'' db) (\<lambda>db. Inr (rc, db))))"

lemma findfree_start:
  assumes L: "layout db P B"
  obtains db1 where "layout db1 P B" "scrub db1 = scrub (db\<lparr>held := (F_WRLCK, Idx, 0, 1) # held db\<rparr>)"
    "db_findfree kl dl db =
       bindR (findfree_loop (length (fbytes (idxf db1))) kl dl (int 0) (int (P 0)) db1) findfree_finish"
proof -
  let ?a = "db\<lparr>held := (F_WRLCK, Idx, 0, 1) # held db\<rparr>"
  define b where "b = ?a\<lparr>idxf := (idxf db)\<lparr>fpos := 6\<rparr>\<rparr>"
  have La: "layout ?a P B" using L by simp
  have r: "db_readptr FREE_OFF ?a = Inr (int (P 0), b)"
    using readptr_layout [OF La is_slot_0] by (simp add: FREE_OFF_def b_def)
  have Lb: "layout b P B" using L by (simp add: layout_def b_def)
  have sb: "scrub b = scrub ?a" by (simp add: scrub_def b_def)
  have "db_findfree kl dl db =
      bindR (findfree_loop (length (fbytes (idxf b))) kl dl FREE_OFF (int (P 0)) b) findfree_finish"
    unfolding db_findfree_def lock_free_list(1) [OF L] bindR_Inr r prod.case findfree_finish_def ..
  then show thesis
    using that [OF Lb sb] by (simp add: FREE_OFF_def)
qed

text \<open>
  \<open>_db_findfree\<close> either finds no free record of the lengths asked for and changes nothing on
  disk, or takes the record off the free list and leaves its position in the handle.
\<close>

definition free_taken ::
  "heap \<Rightarrow> bodies \<Rightarrow> (nat \<Rightarrow> nat list) \<Rightarrow> int \<Rightarrow> int \<Rightarrow> db \<Rightarrow> db \<Rightarrow> bool" where
  "free_taken P B ls kl dl db db' \<longleftrightarrow>
     (\<exists>ys x zs P'. ls FREE = ys @ x # zs \<and> layout db' P' B \<and>
        chains P' B (ls(FREE := ys @ zs)) {x} \<and> (\<forall>h < NHASH_DEF. P' (hslot h) = P (hslot h)) \<and>
        idxoff db' = int x \<and> datoff db' = int (boff (the (B x))) \<and>
        int (length (keyof B x)) = kl \<and> int (length (dataof B x)) + 1 = dl \<and>
        held db' = held db \<and> chainoff db' = chainoff db \<and> same_size db db')"

lemma findfree_spec:
  assumes L: "layout db P B" and C: "chains P B ls {}" and hd: "chain_held db"
  shows "(\<exists>db'. db_findfree kl dl db = Inr (- 1, db') \<and> scrub db' = scrub db) \<or>
    (\<exists>db'. db_findfree kl dl db = Inr (0, db') \<and> free_taken P B ls kl dl db db')"
proof -
  from findfree_start [OF L] obtain db1 where L1: "layout db1 P B"
    and s1: "scrub db1 = scrub (db\<lparr>held := (F_WRLCK, Idx, 0, 1) # held db\<rparr>)" and
    e: "db_findfree kl dl db =
       bindR (findfree_loop (length (fbytes (idxf db1))) kl dl (int 0) (int (P 0)) db1) findfree_finish"
    by blast
  have nh: "\<forall>t. (t, Idx, 0, 1) \<notin> set (held db)" using chain_held_free [OF hd] by blast
  have sl: "slot FREE = 0" by (simp add: slot_def)
  have l: "lst P 0 (ls FREE)" using chainsD(1) [OF C, of FREE] sl by simp
  have d: "set (ls FREE) \<subseteq> dom B" using chains_sub [OF C, of FREE] by simp
  have f: "length (ls FREE) \<le> length (fbytes (idxf db1))"
    using chain_short [OF L1 chainsD(2) [OF C order_refl] d] by simp
  from findfree_loop_spec [OF L1 l d f] show ?thesis
  proof
    assume "\<exists>so db'. findfree_loop (length (fbytes (idxf db1))) kl dl (int 0) (int (P 0)) db1 =
      Inr ((so, 0), db') \<and> scrub db' = scrub db1"
    then obtain so db2 where r: "findfree_loop (length (fbytes (idxf db1))) kl dl (int 0) (int (P 0)) db1 =
      Inr ((so, 0), db2)" "scrub db2 = scrub db1" by blast
    have L2: "layout db2 P B" using layout_cong [OF r(2)] L1 by simp
    have "held db2 = (F_WRLCK, Idx, 0, 1) # held db"
      using scrub_fields(3) [OF r(2)] scrub_fields(3) [OF s1] by simp
    from lock_free_list(2) [OF L2 nh this]
    have "db_findfree kl dl db = Inr (- 1, db2\<lparr>held := held db\<rparr>)"
      using e r(1) by (simp add: findfree_finish_def)
    moreover have "scrub (db2\<lparr>held := held db\<rparr>) = (scrub db2)\<lparr>held := held db\<rparr>"
      by (simp add: scrub_def)
    moreover have "(scrub db2)\<lparr>held := held db\<rparr> = scrub db"
      using r(2) s1 by (simp add: scrub_def)
    ultimately show ?thesis by simp
  next
    assume "\<exists>ys x zs db'. ls FREE = ys @ x # zs \<and>
      findfree_loop (length (fbytes (idxf db1))) kl dl (int 0) (int (P 0)) db1 =
        Inr ((int (last (0 # ys)), int x), db') \<and>
      scrub db' = scrub db1 \<and> located P B x db' \<and>
      int (length (keyof B x)) = kl \<and> int (length (dataof B x)) + 1 = dl"
    then obtain ys x zs db2 where x: "ls FREE = ys @ x # zs" and
      r: "findfree_loop (length (fbytes (idxf db1))) kl dl (int 0) (int (P 0)) db1 =
        Inr ((int (last (0 # ys)), int x), db2)"
      and s2: "scrub db2 = scrub db1" and loc: "located P B x db2" and
      len: "int (length (keyof B x)) = kl" "int (length (dataof B x)) + 1 = dl" by blast
    let ?u = "last (0 # ys)"
    have L2: "layout db2 P B" using layout_cong [OF s2] L1 by simp
    have H: "high B" using layout_high [OF L] .
    have u: "is_slot B ?u" "?u \<noteq> x"
      using prev_slot(2,3) [OF C H order_refl x] sl by simp_all
    have x0: "x \<noteq> 0" using lst_nonzero [OF l] x by auto
    have xs: "is_slot B x" using d x by (auto intro: is_slot_rec)
    have Px: "P x \<le> 999999" using layout_slot [OF L2 xs] by simp
    have pv: "ptrval db2 = int (P x)" using loc by (simp add: located_def)
    define db3 where "db3 = put_idx ?u (pad 6 (dec (P x))) db2"
    have K2: "kern_ok (kern db2)" using L2 by (simp add: layout_def)
    have w: "db_writeptr (int ?u) (ptrval db2) db2 = Inr db3"
      using writeptr_exec [OF K2 Px] pv by (simp add: db3_def)
    have L3: "layout db3 (P(?u := P x)) B"
      using layout_put_ptr [OF L2 u(1) Px] by (simp add: db3_def)
    have "held db3 = (F_WRLCK, Idx, 0, 1) # held db"
      using scrub_fields(3) [OF s2] scrub_fields(3) [OF s1] by (simp add: db3_def put_idx_def)
    from lock_free_list(2) [OF L3 nh this]
    have res: "db_findfree kl dl db = Inr (0, db3\<lparr>held := held db\<rparr>)"
      using e r w x0 by (simp add: findfree_finish_def)
    have "hslot h \<noteq> ?u" if "h < NHASH_DEF" for h
    proof -
      have "set ys \<subseteq> dom B" using d x by auto
      then have "?u = 0 \<or> ?u \<in> dom B" using last_in_set [of ys] by (cases ys) auto
      moreover have "hslot h \<notin> dom B" using slot_notin [OF H, of h] that by (simp add: slot_def)
      moreover have "hslot h \<noteq> 0" by (simp add: hslot_def)
      ultimately show ?thesis by metis
    qed
    then have "\<forall>h < NHASH_DEF. (P(?u := P x)) (hslot h) = P (hslot h)" by simp
    moreover have "chains (P(?u := P x)) B (ls(FREE := ys @ zs)) {x}"
      using chains_unlink [OF C H order_refl x] sl by simp
    moreover have "idxoff db3 = int x" "datoff db3 = int (boff (the (B x)))" "chainoff db3 = chainoff db"
      using loc scrub_fields(7) [OF s2] scrub_fields(7) [OF s1]
      by (simp_all add: db3_def put_idx_def located_def)
    moreover have "same_size db (db3\<lparr>held := held db\<rparr>)"
      using scrub_fields(1,2) [OF s2] scrub_fields(1,2) [OF s1] layout_slot(3) [OF L2 u(1)] Px
      by (simp add: same_size_def db3_def put_idx_def)
    ultimately have "free_taken P B ls kl dl db (db3\<lparr>held := held db\<rparr>)"
      unfolding free_taken_def using x L3 len
      by (intro exI [of _ ys] exI [of _ x] exI [of _ zs] exI [of _ "P(?u := P x)"]) simp
    with res show ?thesis by blast
  qed
qed

section \<open>Putting a record at the head of its chain\<close>

definition key_fits :: "string \<Rightarrow> bool" where
  "key_fits k \<longleftrightarrow> key_ok k \<and> k \<noteq> [] \<and> length k \<le> 990"

definition data_fits :: "string \<Rightarrow> bool" where
  "data_fits d \<longleftrightarrow> NUL \<notin> set d \<and> d \<noteq> [] \<and> length d < 1024"

definition room :: "db \<Rightarrow> bool" where
  "room db \<longleftrightarrow> length (fbytes (idxf db)) \<le> 999999 \<and> length (fbytes (datf db)) < 10 ^ 18"

text \<open>
  What storing \<open>d\<close> under the key \<open>k\<close> leaves: consistent files and chains, whose contents are
  the old ones with the key mapped to the data.
\<close>

definition stored :: "(string \<rightharpoonup> string) \<Rightarrow> db \<Rightarrow> db \<Rightarrow> bool" where
  "stored m db db' \<longleftrightarrow> (\<exists>P B ls. layout db' P B \<and> chains P B ls {} \<and> absmap B ls = m) \<and>
     held db' = held db \<and> chainoff db' = chainoff db"

text \<open>Storing a record adds at most one index record and one data record to the files.\<close>

definition grown :: "db \<Rightarrow> db \<Rightarrow> bool" where
  "grown db db' \<longleftrightarrow> length (fbytes (idxf db')) \<le> length (fbytes (idxf db)) + 1034 \<and>
     length (fbytes (datf db')) \<le> length (fbytes (datf db)) + 1024"

lemma grown_trans: "same_size db db1 \<Longrightarrow> grown db1 db2 \<Longrightarrow> grown db db2"
    "grown db db1 \<Longrightarrow> same_size db1 db2 \<Longrightarrow> grown db db2" "same_size db db1 \<Longrightarrow> grown db db1"
  by (simp_all add: same_size_def grown_def)

lemma attach_rel:
  assumes L: "layout db P B" and C: "chains P B ls {x}" and h: "h = db_hash NHASH_DEF k"
    and x: "keyof B x = k" "P x = P (hslot h)" and new: "absmap B ls k = None"
    and co: "chainoff db = int (hslot h)"
  shows "\<exists>db'. db_writeptr (chainoff db) (int x) db = Inr db' \<and>
    stored ((absmap B ls)(k \<mapsto> dataof B x)) db db' \<and> same_size db db'"
proof -
  have hl: "h < NHASH_DEF" "h \<le> NHASH_DEF" using h by (simp_all add: less_imp_le)
  have xd: "x \<in> dom B" using chainsD(6) [OF C] by simp
  have "x \<le> 999999" using layout_rec [OF L] xd by (auto simp: rec_at_def)
  note x9 = this
  have sl: "slot h = hslot h" using hl by (simp add: slot_def)
  have K: "kern_ok (kern db)" using L by (simp add: layout_def)
  let ?db = "put_idx (hslot h) (pad 6 (dec x)) db"
  have w: "db_writeptr (chainoff db) (int x) db = Inr ?db"
    using writeptr_exec [OF K x9] co by simp
  have L': "layout ?db (P(hslot h := x)) B"
    using layout_put_ptr [OF L is_slot_hslot [OF hl(1)] x9] .
  have "keyof B x \<notin> keyof B ` set (ls h)" using new absmap_None x(1) h by metis
  then have "chains (P(x := P (slot h), slot h := x)) B (ls(h := x # ls h)) ({x} - {x})"
    using chains_link [OF C layout_high [OF L] hl(2), of x] x(1) h hl(1) by simp
  then have "chains (P(hslot h := x)) B (ls(h := x # ls h)) {}"
    using x(2) sl by (simp add: fun_upd_idem)
  moreover have "absmap B (ls(h := x # ls h)) = (absmap B ls)(k \<mapsto> dataof B x)"
    using h x(1) by (rule absmap_push)
  ultimately have "stored ((absmap B ls)(k \<mapsto> dataof B x)) db ?db"
    using L' by (auto simp: stored_def put_idx_def)
  moreover have "same_size db ?db"
    using layout_slot(3) [OF L is_slot_hslot [OF hl(1)]] x9 by (simp add: same_size_def put_idx_def)
  ultimately show ?thesis using w by blast
qed

lemma fits_body_ok:
  assumes "key_fits k" "data_fits d" "off < 10 ^ 18"
  shows "body_ok \<lparr>bkey = k, boff = off, bdata = d\<rparr>"
proof -
  have "length (dec off) \<le> 18" using assms(3) by (intro length_dec_le) simp_all
  moreover have "length (dec (Suc (length d))) \<le> 4"
    using assms(2) by (intro length_dec_le) (simp_all add: data_fits_def)
  moreover have "1 \<le> length k" using assms(1) by (cases k) (auto simp: key_fits_def)
  moreover have "1 \<le> length (dec off)" "1 \<le> length (dec (Suc (length d)))"
    using dec_not_Nil by (simp_all add: Suc_leI)
  ultimately show ?thesis
    using assms by (auto simp: body_ok_def body_text_eq key_fits_def data_fits_def)
qed

lemma layout_weak [simp]:
  "layout (put_idx s t (db\<lparr>ptrval := a, idxbuf := c, idxoff := e\<rparr>)) P B = layout (put_idx s t db) P B"
  "layout (put_idx s t (put_dat s' t' (db\<lparr>datoff := a, datlen := e\<rparr>))) P B =
     layout (put_idx s t (put_dat s' t' db)) P B"
  "layout (put_dat s' t' (db\<lparr>datoff := a, datlen := e\<rparr>)) P B = layout (put_dat s' t' db) P B"
  by (simp_all add: layout_def put_idx_def put_dat_def)

lemma append_rel:
  assumes L: "layout db P B" and C: "chains P B ls {}" and h: "h = db_hash NHASH_DEF k"
    and new: "absmap B ls k = None" and co: "chainoff db = int (hslot h)" and hd: "chain_held db"
    and fit: "key_fits k" "data_fits d" "room db"
  shows "\<exists>db1 db2 db3. db_writedat d 0 SEEK_END db = Inr db1 \<and>
    db_writeidx k 0 SEEK_END (int (P (hslot h))) db1 = Inr db2 \<and>
    db_writeptr (chainoff db2) (idxoff db2) db2 = Inr db3 \<and>
    stored ((absmap B ls)(k \<mapsto> d)) db db3 \<and> grown db db3"
proof -
  let ?n = "length (fbytes (idxf db))" and ?o = "length (fbytes (datf db))"
  let ?v = "P (hslot h)"
  define b where "b = \<lparr>bkey = k, boff = ?o, bdata = d\<rparr>"
  have bf: "bkey b = k" "boff b = ?o" "bdata b = d" by (simp_all add: b_def)
  have bok: "body_ok b" using fits_body_ok [OF fit(1,2)] fit(3) by (simp add: b_def room_def)
  have h137: "h < NHASH_DEF" using h by simp
  have v: "?v \<le> 999999" using layout_slot [OF L is_slot_hslot [OF h137]] by simp
  have K: "kern_ok (kern db)" using L by (simp add: layout_def)
  have nh: "\<forall>ty. (ty, Dat, 0, 0) \<notin> set (held db)" "\<forall>ty. (ty, Idx, int TBL, 0) \<notin> set (held db)"
    using hd by (auto simp: chain_held_def)
  define db1 where "db1 = put_dat ?o (d @ [NEWLINE]) (db\<lparr>datoff := int ?o, datlen := int (length d) + 1\<rparr>)"
  have f1: "kern db1 = kern db" "nhash db1 = nhash db" "held db1 = held db" "chainoff db1 = chainoff db"
    "idxf db1 = idxf db" "datoff db1 = int ?o" "datlen db1 = int (length d) + 1"
    by (simp_all add: db1_def put_dat_def)
  have e1: "db_writedat d 0 SEEK_END db = Inr db1"
    using writedat_append_exec [OF K nh(1)] by (simp add: db1_def)
  define db2 where "db2 = put_idx ?n (pad 6 (dec ?v) @ tail_text b)
      (db1\<lparr>ptrval := int ?v, idxbuf := body_text b, idxoff := int ?n\<rparr>)"
  have f2: "held db2 = held db" "chainoff db2 = chainoff db" "idxoff db2 = int ?n"
    using f1 by (simp_all add: db2_def put_idx_def)
  have e2: "db_writeidx k 0 SEEK_END (int ?v) db1 = Inr db2"
    using writeidx_append_exec [of db1 ?v b] bok K v nh(2) layoutD(3) [OF L]
    by (simp add: f1 bf body_ok_def db2_def)
  have n9: "?n \<le> 999999" using fit(3) by (simp add: room_def)
  have L2: "layout db2 (P(?n := ?v)) (B(?n \<mapsto> b))"
    using layout_append [OF L v bok bf(2) refl n9] by (simp add: db2_def db1_def bf)
  have nd: "?n \<notin> dom B"
  proof
    assume "?n \<in> dom B"
    then have "is_slot B ?n" by (auto intro: is_slot_rec)
    from layout_slot(3) [OF L this] show False by simp
  qed
  have T: "TBL \<le> ?n" using layoutD(5) [OF L] .
  have C2: "chains (P(?n := ?v)) (B(?n \<mapsto> b)) ls {?n}"
    using chains_detached [OF C layout_high [OF L], of ?n] nd T by simp
  have "hslot h \<noteq> ?n" using slot_low [of h] h137 T by (simp add: slot_def)
  then have "(P(?n := ?v)) ?n = (P(?n := ?v)) (hslot h)" by simp
  note attach = attach_rel [OF L2 C2 h _ this]
  have ab: "absmap (B(?n \<mapsto> b)) ls = absmap B ls"
    using nd chains_sub [OF C] by (intro absmap_upd_other) (meson less_imp_le subsetD)
  have "\<exists>db'. db_writeptr (chainoff db2) (int ?n) db2 = Inr db' \<and>
    stored ((absmap B ls)(k \<mapsto> d)) db2 db' \<and> same_size db2 db'"
    using attach new co f2(2) by (simp add: ab keyof_def dataof_def bf)
  moreover have "grown db db2"
    using v bok fit(2) length_tail_text [OF bok]
    by (simp add: grown_def db2_def db1_def put_idx_def put_dat_def body_ok_def data_fits_def)
  ultimately show ?thesis
    using e1 e2 f2 by (auto simp: stored_def intro: grown_trans)
qed

lemma reuse_rel:
  assumes L: "layout db P B" and C: "chains P B ls {x}" and h: "h = db_hash NHASH_DEF k"
    and b: "B x = Some b" and new: "absmap B ls k = None" and co: "chainoff db = int (hslot h)"
    and off: "idxoff db = int x" "datoff db = int (boff b)"
    and len: "length k = length (bkey b)" "length d = length (bdata b)"
    and fit: "key_fits k" "data_fits d"
  shows "\<exists>db1 db2 db3. db_writedat d (datoff db) SEEK_SET db = Inr db1 \<and>
    db_writeidx k (idxoff db1) SEEK_SET (int (P (hslot h))) db1 = Inr db2 \<and>
    db_writeptr (chainoff db2) (idxoff db2) db2 = Inr db3 \<and>
    stored ((absmap B ls)(k \<mapsto> d)) db db3 \<and> grown db db3"
proof -
  let ?v = "P (hslot h)" and ?b = "b\<lparr>bdata := d\<rparr>" and ?c = "b\<lparr>bdata := d, bkey := k\<rparr>"
  have h137: "h < NHASH_DEF" using h by simp
  have v: "?v \<le> 999999" using layout_slot [OF L is_slot_hslot [OF h137]] by simp
  have K: "kern_ok (kern db)" using L by (simp add: layout_def)
  define db1 where "db1 = put_dat (boff b) (d @ [NEWLINE])
      (db\<lparr>datoff := int (boff b), datlen := int (length d) + 1\<rparr>)"
  have f1: "kern db1 = kern db" "held db1 = held db" "chainoff db1 = chainoff db"
    "idxoff db1 = idxoff db" "datoff db1 = int (boff b)" "datlen db1 = int (length d) + 1"
    by (simp_all add: db1_def put_dat_def)
  have e1: "db_writedat d (datoff db) SEEK_SET db = Inr db1"
    using writedat_exec [OF K] off by (simp add: db1_def)
  have nul: "NUL \<notin> set d" using fit(2) by (simp add: data_fits_def)
  have L1: "layout db1 P (B(x \<mapsto> ?b))"
    using layout_put_data [OF L b len(2) nul] by (simp add: db1_def)
  have b1: "(B(x \<mapsto> ?b)) x = Some ?b" by simp
  have kok: "key_ok k" using fit(1) by (simp add: key_fits_def)
  define db2 where "db2 = put_idx x (pad 6 (dec ?v) @ tail_text ?c)
      (db1\<lparr>ptrval := int ?v, idxbuf := body_text ?c, idxoff := int x\<rparr>)"
  have L2: "layout db2 (P(x := ?v)) (B(x \<mapsto> ?c))"
    using layout_put_rec [OF L1 b1 v _ kok] len(1) by (simp add: db2_def del: fun_upd_apply)
  have "rec_at (fbytes (idxf db2)) (fbytes (datf db2)) x ?c" using layout_rec [OF L2, of x ?c] by simp
  then have cok: "body_ok ?c" by (simp add: rec_at_def)
  have f2: "held db2 = held db" "chainoff db2 = chainoff db" "idxoff db2 = int x"
    using f1 by (simp_all add: db2_def put_idx_def)
  have e2: "db_writeidx k (idxoff db1) SEEK_SET (int ?v) db1 = Inr db2"
    using writeidx_exec [of db1 ?v ?c x] cok K v off by (simp add: f1 body_ok_def db2_def)
  have T: "TBL \<le> x" using layout_high [OF L] b by (auto simp: high_def)
  have C2: "chains (P(x := ?v)) (B(x \<mapsto> ?c)) ls {x}"
    using chains_detached [OF C layout_high [OF L], of x] T by simp
  have "hslot h \<noteq> x" using slot_low [of h] h137 T by (simp add: slot_def)
  then have "(P(x := ?v)) x = (P(x := ?v)) (hslot h)" by simp
  note attach = attach_rel [OF L2 C2 h _ this]
  have "x \<notin> set (ls i)" if "i < NHASH_DEF" for i
    using chainsD(3) [OF C, of i x] that by auto
  then have ab: "absmap (B(x \<mapsto> ?c)) ls = absmap B ls" by (rule absmap_upd_other)
  have "\<exists>db'. db_writeptr (chainoff db2) (int x) db2 = Inr db' \<and>
    stored ((absmap B ls)(k \<mapsto> d)) db2 db' \<and> same_size db2 db'"
    using attach new co f2(2) by (simp add: ab keyof_def dataof_def)
  moreover have "grown db db2"
  proof (rule grown_trans(3))
    have "rec_at (fbytes (idxf db)) (fbytes (datf db)) x b" using layout_rec [OF L b] .
    then have "boff b + length (bdata b @ [NEWLINE]) \<le> length (fbytes (datf db))"
      "x + 6 + length (tail_text b) \<le> length (fbytes (idxf db))" "body_ok b"
      unfolding rec_at_def using seg_length by blast+
    moreover have "length (body_text ?c) = length (body_text b)"
      using len by (intro body_text_cong) simp_all
    ultimately show "same_size db db2"
      using v len(2) length_tail_text [OF cok] length_tail_text [of b]
      by (simp add: same_size_def db2_def db1_def put_idx_def put_dat_def)
  qed
  ultimately show ?thesis
    using e1 e2 f2 by (auto simp: stored_def intro: grown_trans)
qed

section \<open>Storing\<close>

lemma store_new_rel:
  assumes L: "layout db P B" and C: "chains P B ls {}" and h: "h = db_hash NHASH_DEF k"
    and new: "absmap B ls k = None" and co: "chainoff db = int (hslot h)" and hd: "chain_held db"
    and fit: "key_fits k" "data_fits d" "room db"
  shows "\<exists>db'. store_new k d db = Inr db' \<and> stored ((absmap B ls)(k \<mapsto> d)) db db' \<and> grown db db'"
proof -
  let ?v = "P (hslot h)"
  have h137: "h < NHASH_DEF" using h by simp
  define db0 where "db0 = db\<lparr>idxf := (idxf db)\<lparr>fpos := hslot h + 6\<rparr>\<rparr>"
  have e0: "db_readptr (chainoff db) db = Inr (int ?v, db0)"
    using readptr_layout [OF L is_slot_hslot [OF h137]] co by (simp add: db0_def)
  have s0: "scrub db0 = scrub db" by (simp add: db0_def scrub_def)
  have L0: "layout db0 P B" using layout_cong [OF s0] L by simp
  have f0: "held db0 = held db" "chainoff db0 = chainoff db" by (simp_all add: db0_def)
  have hd0: "chain_held db0" using hd by (simp add: chain_held_def f0)
  from findfree_spec [OF L0 C hd0, of "int (length k)" "int (length d) + 1"] show ?thesis
  proof
    assume "\<exists>db'. db_findfree (int (length k)) (int (length d) + 1) db0 = Inr (- 1, db') \<and>
      scrub db' = scrub db0"
    then obtain db1 where e1: "db_findfree (int (length k)) (int (length d) + 1) db0 = Inr (- 1, db1)"
      and s1: "scrub db1 = scrub db" using s0 by metis
    have L1: "layout db1 P B" using layout_cong [OF s1] L by simp
    note f1 = scrub_fields [OF s1]
    have "chain_held db1" "room db1" "chainoff db1 = int (hslot h)"
      using hd fit(3) co by (simp_all add: chain_held_def room_def f1)
    from append_rel [OF L1 C h new this(3,1) fit(1,2) this(2)] obtain db2 db3 db4 where
      e2: "db_writedat d 0 SEEK_END db1 = Inr db2" and
      e3: "db_writeidx k 0 SEEK_END (int ?v) db2 = Inr db3" and
      e4: "db_writeptr (chainoff db3) (idxoff db3) db3 = Inr db4" and
      st: "stored ((absmap B ls)(k \<mapsto> d)) db1 db4" "grown db1 db4" by blast
    have "store_new k d db = Inr (db4\<lparr>cnt_stor1 := cnt_stor1 db4 + 1\<rparr>)"
      by (simp add: store_new_def e0 e1 e2 e3 e4)
    moreover have "stored ((absmap B ls)(k \<mapsto> d)) db (db4\<lparr>cnt_stor1 := cnt_stor1 db4 + 1\<rparr>)"
      using st f1(3,7) by (simp add: stored_def)
    moreover have "grown db (db4\<lparr>cnt_stor1 := cnt_stor1 db4 + 1\<rparr>)"
      using st(2) f1(1,2) by (simp add: grown_def)
    ultimately show ?thesis by blast
  next
    assume "\<exists>db'. db_findfree (int (length k)) (int (length d) + 1) db0 = Inr (0, db') \<and>
      free_taken P B ls (int (length k)) (int (length d) + 1) db0 db'"
    then obtain db1 ys x zs P' where
      e1: "db_findfree (int (length k)) (int (length d) + 1) db0 = Inr (0, db1)"
      and x: "ls FREE = ys @ x # zs" and L1: "layout db1 P' B"
      and C1: "chains P' B (ls(FREE := ys @ zs)) {x}"
      and P': "\<forall>h < NHASH_DEF. P' (hslot h) = P (hslot h)"
      and off: "idxoff db1 = int x" "datoff db1 = int (boff (the (B x)))"
      and len: "int (length (keyof B x)) = int (length k)" "int (length (dataof B x)) + 1 = int (length d) + 1"
      and f1: "held db1 = held db0" "chainoff db1 = chainoff db0" "same_size db0 db1"
      unfolding free_taken_def by blast
    have "x \<in> dom B" using chainsD(6) [OF C1] by simp
    then obtain b where b: "B x = Some b" by blast
    have "absmap B (ls(FREE := ys @ zs)) k = None" "chainoff db1 = int (hslot h)"
      "datoff db1 = int (boff b)" "length k = length (bkey b)" "length d = length (bdata b)"
      using new f1(2) f0(2) co off b len by (simp_all add: keyof_def dataof_def)
    from reuse_rel [OF L1 C1 h b this(1,2) off(1) this(3,4,5) fit(1,2)] obtain db2 db3 db4 where
      e2: "db_writedat d (datoff db1) SEEK_SET db1 = Inr db2" and
      e3: "db_writeidx k (idxoff db2) SEEK_SET (int ?v) db2 = Inr db3" and
      e4: "db_writeptr (chainoff db3) (idxoff db3) db3 = Inr db4" and
      st: "stored ((absmap B ls)(k \<mapsto> d)) db1 db4" "grown db1 db4"
      using P' h137 by auto
    have "store_new k d db = Inr (db4\<lparr>cnt_stor2 := cnt_stor2 db4 + 1\<rparr>)"
      by (simp add: store_new_def e0 e1 e2 e3 e4)
    moreover have "stored ((absmap B ls)(k \<mapsto> d)) db (db4\<lparr>cnt_stor2 := cnt_stor2 db4 + 1\<rparr>)"
      using st f1 f0 by (simp add: stored_def)
    moreover have "grown db (db4\<lparr>cnt_stor2 := cnt_stor2 db4 + 1\<rparr>)"
      using st(2) f1(3) by (simp add: grown_def same_size_def db0_def)
    ultimately show ?thesis by blast
  qed
qed

lemma replace_same_rel:
  assumes L: "layout db P B" and C: "chains P B ls {}" and h: "h = db_hash NHASH_DEF k"
    and x: "ls h = ys @ x # zs" "keyof B x = k" "located P B x db"
    and d: "int (length d) + 1 = datlen db" "data_fits d"
  shows "\<exists>db'. store_replace k d db = Inr db' \<and> stored ((absmap B ls)(k \<mapsto> d)) db db' \<and> grown db db'"
proof -
  have hl: "h \<le> NHASH_DEF" using h by (simp add: less_imp_le)
  have "x \<in> dom B" using chains_sub [OF C hl] x(1) by auto
  then obtain b where b: "B x = Some b" by blast
  have o: "datoff db = int (boff b)" "length d = length (bdata b)"
    using x(3) d(1) b by (simp_all add: located_def dataof_def)
  have K: "kern_ok (kern db)" using L by (simp add: layout_def)
  have nul: "NUL \<notin> set d" using d(2) by (simp add: data_fits_def)
  let ?b = "b\<lparr>bdata := d\<rparr>"
  define db1 where "db1 = put_dat (boff b) (d @ [NEWLINE])
      (db\<lparr>datoff := int (boff b), datlen := int (length d) + 1\<rparr>)"
  have e1: "db_writedat d (datoff db) SEEK_SET db = Inr db1"
    using writedat_exec [OF K] o by (simp add: db1_def)
  have L1: "layout db1 P (B(x \<mapsto> ?b))"
    using layout_put_data [OF L b o(2) nul] by (simp add: db1_def)
  have C1: "chains P (B(x \<mapsto> ?b)) ls {}" using C b by (rule chains_data) simp
  let ?ls = "ls(h := ys @ zs)"
  have dj: "x \<notin> set (?ls i)" if "i < NHASH_DEF" for i
    using chainsD(2) [OF C hl] chainsD(4) [OF C hl, of i x] that x(1) by auto
  have k: "keyof (B(x \<mapsto> ?b)) x = k" using x(2) b by (simp add: keyof_def)
  have o1: "(absmap B ls)(k := None) = absmap B ?ls"
    using absmap_found(2) [OF chainsD(5) [OF C] h x(1,2)] by simp
  have o2: "(absmap (B(x \<mapsto> ?b)) ls)(k := None) = absmap (B(x \<mapsto> ?b)) ?ls"
    using absmap_found(2) [OF chainsD(5) [OF C1] h x(1) k] by simp
  have o3: "absmap (B(x \<mapsto> ?b)) ?ls = absmap B ?ls" using dj by (rule absmap_upd_other)
  have s1: "absmap (B(x \<mapsto> ?b)) ls k = Some d"
    using absmap_found(1) [OF chainsD(5) [OF C1] h x(1) k] by (simp add: dataof_def)
  have "absmap (B(x \<mapsto> ?b)) ls = (absmap (B(x \<mapsto> ?b)) ls)(k := None, k \<mapsto> d)"
    using s1 by (simp add: fun_upd_idem)
  also have "\<dots> = (absmap B ls)(k := None, k \<mapsto> d)" by (simp only: o1 o2 o3)
  finally have ab: "absmap (B(x \<mapsto> ?b)) ls = (absmap B ls)(k \<mapsto> d)" by simp
  have "store_replace k d db = Inr (db1\<lparr>cnt_stor4 := cnt_stor4 db1 + 1\<rparr>)"
    using d(1) by (simp add: store_replace_def e1)
  moreover have "stored ((absmap B ls)(k \<mapsto> d)) db (db1\<lparr>cnt_stor4 := cnt_stor4 db1 + 1\<rparr>)"
    unfolding stored_def using L1 C1 ab
    by (intro conjI exI [of _ P] exI [of _ "B(x \<mapsto> ?b)"] exI [of _ ls]) (simp_all add: db1_def put_dat_def)
  moreover have "grown db (db1\<lparr>cnt_stor4 := cnt_stor4 db1 + 1\<rparr>)"
  proof -
    have "boff b + length (bdata b @ [NEWLINE]) \<le> length (fbytes (datf db))"
      using layout_rec [OF L b] unfolding rec_at_def using seg_length by blast
    then show ?thesis using o(2) by (simp add: grown_def db1_def put_dat_def)
  qed
  ultimately show ?thesis by blast
qed

lemma replace_other_rel:
  assumes L: "layout db P B" and C: "chains P B ls {}" and h: "h = db_hash NHASH_DEF k"
    and x: "ls h = ys @ x # zs" "keyof B x = k" "located P B x db" "ptroff db = int (last (slot h # ys))"
    and co: "chainoff db = int (hslot h)" and hd: "chain_held db"
    and d: "int (length d) + 1 \<noteq> datlen db" and fit: "key_fits k" "data_fits d" "room db"
  shows "\<exists>db'. store_replace k d db = Inr db' \<and> stored ((absmap B ls)(k \<mapsto> d)) db db' \<and> grown db db'"
proof -
  have h137: "h < NHASH_DEF" using h by simp
  from dodelete_rel [OF L C hd h x] obtain db1 P' B' ls' where
    e1: "db_dodelete db = Inr db1" and L1: "layout db1 P' B'" and C1: "chains P' B' ls' {}" and
    ab: "absmap B' ls' = (absmap B ls)(k := None)" and
    f1: "held db1 = held db" "chainoff db1 = chainoff db"
    "length (fbytes (idxf db1)) = length (fbytes (idxf db))"
    "length (fbytes (datf db1)) = length (fbytes (datf db))" by blast
  define db2 where "db2 = db1\<lparr>idxf := (idxf db1)\<lparr>fpos := hslot h + 6\<rparr>\<rparr>"
  have e2: "db_readptr (chainoff db1) db1 = Inr (int (P' (hslot h)), db2)"
    using readptr_layout [OF L1 is_slot_hslot [OF h137]] co f1(2) by (simp add: db2_def)
  have "scrub db2 = scrub db1" by (simp add: db2_def scrub_def)
  then have L2: "layout db2 P' B'" using layout_cong L1 by blast
  have f2: "held db2 = held db" "chainoff db2 = chainoff db" "room db2"
    using f1 fit(3) by (simp_all add: db2_def room_def)
  have "chainoff db2 = int (hslot h)" "chain_held db2" "absmap B' ls' k = None"
    using co hd ab f2 by (simp_all add: chain_held_def)
  from append_rel [OF L2 C1 h this(3,1,2) fit(1,2) f2(3)] obtain db3 db4 db5 where
    e3: "db_writedat d 0 SEEK_END db2 = Inr db3" and
    e4: "db_writeidx k 0 SEEK_END (int (P' (hslot h))) db3 = Inr db4" and
    e5: "db_writeptr (chainoff db4) (idxoff db4) db4 = Inr db5" and
    st: "stored ((absmap B' ls')(k \<mapsto> d)) db2 db5" "grown db2 db5" by blast
  have "store_replace k d db = Inr (db5\<lparr>cnt_stor3 := cnt_stor3 db5 + 1\<rparr>)"
    using d by (simp add: store_replace_def e1 e2 e3 e4 e5)
  moreover have "stored ((absmap B ls)(k \<mapsto> d)) db (db5\<lparr>cnt_stor3 := cnt_stor3 db5 + 1\<rparr>)"
    using st f2(1,2) ab by (simp add: stored_def)
  moreover have "grown db (db5\<lparr>cnt_stor3 := cnt_stor3 db5 + 1\<rparr>)"
    using st(2) f1(3,4) by (simp add: grown_def db2_def)
  ultimately show ?thesis by blast
qed

text \<open>The return value of \<open>db_store\<close> and the contents it leaves, by flag and presence of the key.\<close>

definition store_result :: "int \<Rightarrow> bool \<Rightarrow> int" where
  "store_result flag present =
     (if flag = DB_INSERT \<and> present then 1 else if flag = DB_REPLACE \<and> \<not> present then - 1 else 0)"

definition store_map :: "string \<Rightarrow> string \<Rightarrow> int \<Rightarrow> (string \<rightharpoonup> string) \<Rightarrow> (string \<rightharpoonup> string)" where
  "store_map k d flag m = (if store_result flag (m k \<noteq> None) = 0 then m(k \<mapsto> d) else m)"

definition store_flag :: "int \<Rightarrow> bool" where
  "store_flag flag \<longleftrightarrow> flag = DB_INSERT \<or> flag = DB_REPLACE \<or> flag = DB_STORE"

lemma stored_rel:
  assumes "stored m db db'" "chain_held db"
  shows "\<exists>db''. un_lock Idx (chainoff db') 1 msg db' = Inr db'' \<and> db_rel db'' m \<and> same_size db' db''"
proof -
  from assms(1) obtain P B ls where s: "layout db' P B" "chains P B ls {}" "absmap B ls = m"
    and f: "held db' = held db" "chainoff db' = chainoff db" unfolding stored_def by blast
  have "chain_held db'" using assms(2) f by (simp add: chain_held_def)
  from unlock_chain [OF s(1) this, of msg] s show ?thesis
    by (auto intro!: db_relI [of _ P B ls] simp: same_size_def)
qed

lemma store_body:
  assumes "db_rel db m" and fit: "key_fits k" "data_fits d" "room db" and flag: "store_flag flag"
  obtains db1 rc db2 where "db_find_and_lock k True db = Inr (rc, db1)" "chain_held db1"
    "(if rc < 0
      then (if flag = DB_REPLACE then Inr (- 1, db1\<lparr>cnt_storerr := cnt_storerr db1 + 1\<rparr>)
            else bindR (store_new k d db1) (\<lambda>db. Inr (0, db)))
      else (if flag = DB_INSERT then Inr (1, db1\<lparr>cnt_storerr := cnt_storerr db1 + 1\<rparr>)
            else bindR (store_replace k d db1) (\<lambda>db. Inr (0, db)))) =
     Inr (store_result flag (m k \<noteq> None), db2)"
    "stored (store_map k d flag m) db1 db2" "grown db db2"
proof -
  from assms(1) obtain P B ls where L: "layout db P B" and C: "chains P B ls {}"
    and m: "m = absmap B ls" and hd: "held db = []" by (rule db_relE)
  let ?h = "db_hash NHASH_DEF k"
  have ne: "DB_INSERT \<noteq> DB_REPLACE" by (simp add: DB_INSERT_def DB_REPLACE_def)
  show thesis
  proof (cases "k \<in> keyof B ` set (ls ?h)")
    case True
    from find_and_lock_found [OF L C refl True, of True] obtain db1 ys x zs where
      f: "db_find_and_lock k True db = Inr (0, db1)" "scrub db1 = scrub (locked k True db)"
      "ls ?h = ys @ x # zs" "keyof B x = k" "located P B x db1" "ptroff db1 = int (last (slot ?h # ys))"
      by metis
    have L1: "layout db1 P B" using layout_cong [OF f(2)] L by simp
    note ch = chain_held_locked [OF f(2) hd]
    have r1: "room db1" using fit(3) scrub_fields(1,2) [OF f(2)] by (simp add: room_def locked_def)
    have mk: "m k \<noteq> None" using True m absmap_None by metis
    show thesis
    proof (cases "flag = DB_INSERT")
      case True
      have "stored m db1 (db1\<lparr>cnt_storerr := cnt_storerr db1 + 1\<rparr>)"
        "grown db (db1\<lparr>cnt_storerr := cnt_storerr db1 + 1\<rparr>)"
        using L1 C m same_size_scrub [OF f(2)] by (auto simp: stored_def grown_def same_size_def)
      then show thesis
        using that [OF f(1) ch(1)] True mk by (simp add: store_result_def store_map_def)
    next
      case False
      have "\<exists>db'. store_replace k d db1 = Inr db' \<and> stored ((absmap B ls)(k \<mapsto> d)) db1 db' \<and>
          grown db1 db'"
        using replace_same_rel [OF L1 C refl f(3,4,5) _ fit(2)]
          replace_other_rel [OF L1 C refl f(3-6) ch(2,1) _ fit(1,2) r1] by blast
      then show thesis
        using that [OF f(1) ch(1)] False mk m grown_trans(1) [OF same_size_scrub [OF f(2)]]
        by (auto simp: store_result_def store_map_def)
    qed
  next
    case False
    from find_and_lock_missing [OF L C refl False, of True] obtain db1 where
      f: "db_find_and_lock k True db = Inr (- 1, db1)" "scrub db1 = scrub (locked k True db)"
      by metis
    have L1: "layout db1 P B" using layout_cong [OF f(2)] L by simp
    note ch = chain_held_locked [OF f(2) hd]
    have r1: "room db1" using fit(3) scrub_fields(1,2) [OF f(2)] by (simp add: room_def locked_def)
    have mk: "m k = None" using False m absmap_None by metis
    show thesis
    proof (cases "flag = DB_REPLACE")
      case True
      have "stored m db1 (db1\<lparr>cnt_storerr := cnt_storerr db1 + 1\<rparr>)"
        "grown db (db1\<lparr>cnt_storerr := cnt_storerr db1 + 1\<rparr>)"
        using L1 C m same_size_scrub [OF f(2)] by (auto simp: stored_def grown_def same_size_def)
      then show thesis
        using that [OF f(1) ch(1)] True mk ne by (simp add: store_result_def store_map_def)
    next
      case nr: False
      have "\<exists>db'. store_new k d db1 = Inr db' \<and> stored ((absmap B ls)(k \<mapsto> d)) db1 db' \<and>
          grown db1 db'"
        using store_new_rel [OF L1 C refl _ ch(2,1) fit(1,2) r1] mk m by simp
      then show thesis
        using that [OF f(1) ch(1)] nr mk m grown_trans(1) [OF same_size_scrub [OF f(2)]]
        by (auto simp: store_result_def store_map_def)
    qed
  qed
qed

lemma store_rel:
  assumes "db_rel db m" and fit: "key_fits k" "data_fits d" "room db" and flag: "store_flag flag"
  shows "\<exists>db'. db_store k d flag db = Inr (store_result flag (m k \<noteq> None), db') \<and>
    db_rel db' (store_map k d flag m) \<and> grown db db'"
proof -
  have g: "\<not> (flag \<noteq> DB_INSERT \<and> flag \<noteq> DB_REPLACE \<and> flag \<noteq> DB_STORE)"
    using flag by (auto simp: store_flag_def)
  have "1 \<le> length d" using fit(2) by (cases d) (auto simp: data_fits_def)
  then have l: "\<not> (int (length d) + 1 < DATLEN_MIN \<or> DATLEN_MAX < int (length d) + 1)"
    using fit(2) by (simp add: data_fits_def DATLEN_MIN_def DATLEN_MAX_def)
  obtain db1 rc db2 where b: "db_find_and_lock k True db = Inr (rc, db1)" "chain_held db1"
    "(if rc < 0
      then (if flag = DB_REPLACE then Inr (- 1, db1\<lparr>cnt_storerr := cnt_storerr db1 + 1\<rparr>)
            else bindR (store_new k d db1) (\<lambda>db. Inr (0, db)))
      else (if flag = DB_INSERT then Inr (1, db1\<lparr>cnt_storerr := cnt_storerr db1 + 1\<rparr>)
            else bindR (store_replace k d db1) (\<lambda>db. Inr (0, db)))) =
     Inr (store_result flag (m k \<noteq> None), db2)"
    "stored (store_map k d flag m) db1 db2" "grown db db2"
    using store_body [OF assms] .
  obtain db3 where u: "un_lock Idx (chainoff db2) 1 ''db_store: un_lock error'' db2 = Inr db3"
    "db_rel db3 (store_map k d flag m)" "same_size db2 db3" using stored_rel [OF b(4,2)] by metis
  have "db_store k d flag db = Inr (store_result flag (m k \<noteq> None), db3)"
    unfolding db_store_def by (simp only: g l if_False b(1) bindR_Inr prod.case b(3) u(1))
  with u(2) grown_trans(2) [OF b(5) u(3)] show ?thesis by blast
qed

end
