(* ===== verification/Kv.thy ===== *)
theory Kv
  imports C_Prelude
begin

text \<open>
  The interface of a store of key/value strings as its clients see it: a representation
  relation to a finite map, and what \<open>fetch\<close>, \<open>delete\<close> and \<open>store\<close> promise over it. The
  client lemmas hold for every implementation; \<open>Db_Scan\<close> interprets the locale on \<open>db.c\<close>.
\<close>

text \<open>
  The meaning of a flag of \<open>store\<close> is given by its result: 0 when the pair is written, anything
  else when the store is left as it was.
\<close>

datatype kv_op = Fetch string | Delete string | Store string string int

datatype kv_out = Fetched "string option" | Status int

definition run_op ::
  "(string \<Rightarrow> 's \<Rightarrow> 'e + string option \<times> 's) \<Rightarrow> (string \<Rightarrow> 's \<Rightarrow> 'e + int \<times> 's) \<Rightarrow>
     (string \<Rightarrow> string \<Rightarrow> int \<Rightarrow> 's \<Rightarrow> 'e + int \<times> 's) \<Rightarrow> kv_op \<Rightarrow> 's \<Rightarrow> 'e + kv_out \<times> 's" where
  "run_op fetch delete store x s =
     (case x of
        Fetch k \<Rightarrow> bindR (fetch k s) (\<lambda>(r, s). Inr (Fetched r, s))
      | Delete k \<Rightarrow> bindR (delete k s) (\<lambda>(r, s). Inr (Status r, s))
      | Store k d flag \<Rightarrow> bindR (store k d flag s) (\<lambda>(r, s). Inr (Status r, s)))"

primrec run_ops ::
  "(string \<Rightarrow> 's \<Rightarrow> 'e + string option \<times> 's) \<Rightarrow> (string \<Rightarrow> 's \<Rightarrow> 'e + int \<times> 's) \<Rightarrow>
     (string \<Rightarrow> string \<Rightarrow> int \<Rightarrow> 's \<Rightarrow> 'e + int \<times> 's) \<Rightarrow> kv_op list \<Rightarrow> 's \<Rightarrow> 'e + kv_out list \<times> 's" where
  "run_ops fetch delete store [] s = Inr ([], s)"
| "run_ops fetch delete store (x # xs) s =
     bindR (run_op fetch delete store x s) (\<lambda>(r, s).
     bindR (run_ops fetch delete store xs s) (\<lambda>(rs, s). Inr (r # rs, s)))"

text \<open>The same operations on the abstract map.\<close>

definition map_op :: "(int \<Rightarrow> bool \<Rightarrow> int) \<Rightarrow> kv_op \<Rightarrow> (string \<rightharpoonup> string) \<Rightarrow> kv_out \<times> (string \<rightharpoonup> string)" where
  "map_op res x m =
     (case x of
        Fetch k \<Rightarrow> (Fetched (m k), m)
      | Delete k \<Rightarrow> (Status (if m k = None then - 1 else 0), m(k := None))
      | Store k d flag \<Rightarrow>
          (Status (res flag (m k \<noteq> None)), if res flag (m k \<noteq> None) = 0 then m(k \<mapsto> d) else m))"

primrec map_ops ::
  "(int \<Rightarrow> bool \<Rightarrow> int) \<Rightarrow> kv_op list \<Rightarrow> (string \<rightharpoonup> string) \<Rightarrow> kv_out list \<times> (string \<rightharpoonup> string)" where
  "map_ops res [] m = ([], m)"
| "map_ops res (x # xs) m =
     (let (r, m) = map_op res x m; (rs, m) = map_ops res xs m in (r # rs, m))"

definition stores :: "kv_op list \<Rightarrow> nat" where
  "stores xs = length (filter (\<lambda>x. case x of Store _ _ _ \<Rightarrow> True | _ \<Rightarrow> False) xs)"

definition op_ok :: "(string \<Rightarrow> string \<Rightarrow> int \<Rightarrow> bool) \<Rightarrow> kv_op \<Rightarrow> bool" where
  "op_ok fits x = (case x of Store k d flag \<Rightarrow> fits k d flag | _ \<Rightarrow> True)"

locale kv =
  fixes rel :: "'s \<Rightarrow> (string \<rightharpoonup> string) \<Rightarrow> bool"
    and avail :: "nat \<Rightarrow> 's \<Rightarrow> bool"
    and fits :: "string \<Rightarrow> string \<Rightarrow> int \<Rightarrow> bool"
    and res :: "int \<Rightarrow> bool \<Rightarrow> int"
    and fetch :: "string \<Rightarrow> 's \<Rightarrow> 'e + string option \<times> 's"
    and delete :: "string \<Rightarrow> 's \<Rightarrow> 'e + int \<times> 's"
    and store :: "string \<Rightarrow> string \<Rightarrow> int \<Rightarrow> 's \<Rightarrow> 'e + int \<times> 's"
  assumes fetch_law: "rel s m \<Longrightarrow> avail n s \<Longrightarrow> \<exists>s'. fetch k s = Inr (m k, s') \<and> rel s' m \<and> avail n s'"
    and delete_law: "rel s m \<Longrightarrow> avail n s \<Longrightarrow>
      \<exists>s'. delete k s = Inr (if m k = None then - 1 else 0, s') \<and> rel s' (m(k := None)) \<and> avail n s'"
    and store_law: "rel s m \<Longrightarrow> avail (Suc n) s \<Longrightarrow> fits k d flag \<Longrightarrow>
      \<exists>s'. store k d flag s = Inr (res flag (m k \<noteq> None), s') \<and>
        rel s' (if res flag (m k \<noteq> None) = 0 then m(k \<mapsto> d) else m) \<and> avail n s'"
begin

lemma run_op_refines:
  assumes "rel s m" "avail (stores [x] + n) s" "op_ok fits x"
  shows "\<exists>s'. run_op fetch delete store x s = Inr (fst (map_op res x m), s') \<and>
    rel s' (snd (map_op res x m)) \<and> avail n s'"
proof (cases x)
  case (Fetch k)
  then show ?thesis using fetch_law [OF assms(1), of n k] assms(2)
    by (auto simp: run_op_def map_op_def stores_def)
next
  case (Delete k)
  then show ?thesis using delete_law [OF assms(1), of n k] assms(2)
    by (auto simp: run_op_def map_op_def stores_def)
next
  case (Store k d flag)
  have a: "avail (Suc n) s" and f: "fits k d flag"
    using assms(2,3) by (simp_all add: Store stores_def op_ok_def)
  from store_law [OF assms(1) a f] show ?thesis
    by (auto simp: run_op_def map_op_def Store)
qed

text \<open>A sequence of operations answers as the map does and ends in a state for the map's.\<close>

lemma run_ops_refines:
  assumes "rel s m" "avail (stores xs + n) s" "\<forall>x \<in> set xs. op_ok fits x"
  shows "\<exists>s'. run_ops fetch delete store xs s = Inr (fst (map_ops res xs m), s') \<and>
    rel s' (snd (map_ops res xs m)) \<and> avail n s'"
  using assms
proof (induction xs arbitrary: s m)
  case Nil
  then show ?case by (simp add: stores_def)
next
  case (Cons x xs)
  have "stores (x # xs) + n = stores [x] + (stores xs + n)" by (simp add: stores_def)
  then have a: "avail (stores [x] + (stores xs + n)) s" using Cons.prems(2) by (simp add: add.assoc)
  from Cons.prems(3) have ok: "op_ok fits x" by simp
  from run_op_refines [OF Cons.prems(1) a ok] obtain s1 where
    s1: "run_op fetch delete store x s = Inr (fst (map_op res x m), s1)"
    "rel s1 (snd (map_op res x m))" "avail (stores xs + n) s1" by blast
  from Cons.IH [OF s1(2,3)] Cons.prems(3) obtain s2 where
    "run_ops fetch delete store xs s1 = Inr (fst (map_ops res xs (snd (map_op res x m))), s2)"
    "rel s2 (snd (map_ops res xs (snd (map_op res x m))))" "avail n s2" by auto
  with s1(1) show ?case by (auto simp: split_beta)
qed

text \<open>What was written is read back, and a write leaves every other key alone.\<close>

lemma fetch_after_store:
  assumes "rel s m" "avail (Suc n) s" "fits k d flag" "res flag (m k \<noteq> None) = 0"
  shows "\<exists>s1 s2. store k d flag s = Inr (0, s1) \<and>
    fetch k' s1 = Inr (if k' = k then Some d else m k', s2) \<and> rel s2 (m(k \<mapsto> d))"
proof -
  from store_law [OF assms(1-3)] assms(4) obtain s1 where
    s1: "store k d flag s = Inr (0, s1)" "rel s1 (m(k \<mapsto> d))" "avail n s1" by auto
  from fetch_law [OF s1(2,3), of k'] s1(1) show ?thesis by auto
qed

lemma fetch_after_delete:
  assumes "rel s m" "avail n s"
  shows "\<exists>rc s1 s2. delete k s = Inr (rc, s1) \<and>
    fetch k' s1 = Inr (if k' = k then None else m k', s2) \<and> rel s2 (m(k := None))"
proof -
  from delete_law [OF assms] obtain rc s1 where
    s1: "delete k s = Inr (rc, s1)" "rel s1 (m(k := None))" "avail n s1" by blast
  from fetch_law [OF s1(2,3), of k'] s1(1) show ?thesis by auto
qed

end

end
