(* ===== verification/Db_Scan.thy ===== *)
theory Db_Scan
  imports Db_Store Kv
begin

text \<open>
  The sequential interface of \<open>db.c\<close>: \<open>db_open\<close> on a new and on an existing database,
  \<open>db_rewind\<close>, and \<open>db_nextrec\<close>, whose iteration from the start returns every record whose key
  is not blank exactly once.
\<close>

section \<open>The index file as a sequence of records\<close>

primrec tiles :: "nat \<Rightarrow> bodies \<Rightarrow> nat \<Rightarrow> nat list \<Rightarrow> bool" where
  "tiles n B s [] \<longleftrightarrow> s = n"
| "tiles n B s (x # xs) \<longleftrightarrow> x = s \<and> s \<in> dom B \<and> tiles n B (s + rsize (the (B s))) xs"

lemma rsize_pos [simp]: "0 < rsize b"
  by (simp add: rsize_def)

lemma tiles_exist:
  assumes t: "tiled n B" and b: "\<And>s b. B s = Some b \<Longrightarrow> s + rsize b \<le> n"
    and s: "s \<in> dom B \<or> s = n"
  shows "\<exists>xs. tiles n B s xs"
  using s
proof (induction "n - s" arbitrary: s rule: less_induct)
  case less
  show ?case
  proof (cases "s = n")
    case True
    then have "tiles n B s []" by simp
    then show ?thesis by blast
  next
    case False
    then obtain b where bs: "B s = Some b" using less.prems by auto
    have nx: "s + rsize b \<in> dom B \<or> s + rsize b = n" using t bs by (auto simp: tiled_def)
    have "n - (s + rsize b) < n - s" using b [OF bs] rsize_pos [of b] by linarith
    from less.hyps [OF this nx] obtain xs where "tiles n B (s + rsize b) xs" by blast
    then have "tiles n B s (s # xs)" using bs by auto
    then show ?thesis by blast
  qed
qed

lemma tiles_low: "tiles n B s xs \<Longrightarrow> x \<in> set xs \<Longrightarrow> s \<le> x"
  by (induction xs arbitrary: s) fastforce+

lemma tiles_distinct: "tiles n B s xs \<Longrightarrow> distinct xs"
proof (induction xs arbitrary: s)
  case (Cons x xs)
  then have "x \<notin> set xs" using tiles_low [of n B "s + rsize (the (B s))" xs x] rsize_pos [of "the (B s)"] by auto
  with Cons show ?case by auto
qed simp

lemma tiles_all:
  assumes d: "disjoint_recs B" and b: "\<And>s b. B s = Some b \<Longrightarrow> s + rsize b \<le> n"
  shows "tiles n B s xs \<Longrightarrow> set xs = {x \<in> dom B. s \<le> x}"
proof (induction xs arbitrary: s)
  case Nil
  have "\<not> s \<le> x" if "x \<in> dom B" for x
    using that b Nil by (auto) (metis add_leD1 le_antisym less_add_same_cancel1 not_le rsize_pos)
  then show ?case by auto
next
  case (Cons x xs)
  then obtain c where c: "B s = Some c" "x = s" by auto
  have "set xs = {y \<in> dom B. s + rsize c \<le> y}" using Cons c by simp
  moreover have "s + rsize c \<le> y" if "y \<in> dom B" "s < y" for y
    using d that c(1) unfolding disjoint_recs_def by blast
  ultimately show ?case using c by (auto simp: le_eq_less_or_eq)
qed

lemma layout_ends:
  assumes "layout db P B" "B s = Some b"
  shows "s + rsize b \<le> length (fbytes (idxf db))"
proof -
  have r: "rec_at (fbytes (idxf db)) (fbytes (datf db)) s b" using layout_rec [OF assms] .
  then have "s + 6 + length (tail_text b) \<le> length (fbytes (idxf db))"
    unfolding rec_at_def using seg_length by blast
  moreover have "body_ok b" using r by (simp add: rec_at_def)
  ultimately show ?thesis by (simp add: length_tail_text rsize_def)
qed

lemma layout_tiles:
  assumes "layout db P B"
  obtains xs where "tiles (length (fbytes (idxf db))) B TBL xs" "set xs = dom B" "distinct xs"
proof -
  let ?n = "length (fbytes (idxf db))"
  have "TBL \<in> dom B \<or> TBL = ?n" using layoutD(8) [OF assms] by (auto simp: tiled_def)
  from tiles_exist [OF layoutD(8) [OF assms] layout_ends [OF assms] this]
  obtain xs where t: "tiles ?n B TBL xs" by blast
  have "set xs = {x \<in> dom B. TBL \<le> x}"
    using layoutD(6) [OF assms] layout_ends [OF assms] t by (rule tiles_all)
  moreover have "{x \<in> dom B. TBL \<le> x} = dom B"
    using layout_high [OF assms] by (auto simp: high_def)
  ultimately show thesis using that [OF t] tiles_distinct [OF t] by simp
qed

section \<open>Stepping through the records\<close>

lemma readidx_eof:
  assumes "fpos (idxf db) = length (fbytes (idxf db))"
  shows "db_readidx 0 db = Inr (- 1, db\<lparr>idxoff := int (fpos (idxf db))\<rparr>)"
  using assms
  by (simp add: db_readidx_def db_lseek_def lseek_CUR db_read_def sys_read_def PTR_SZ_def)

lemma nextrec_loop_spec:
  assumes "layout db P B" "tiles (length (fbytes (idxf db))) B (fpos (idxf db)) xs" "length xs \<le> fuel"
  shows "\<exists>db'. scrub db' = scrub db \<and>
    (case dropWhile (\<lambda>x. blank (keyof B x)) xs of
       [] \<Rightarrow> nextrec_loop fuel db = Inr (False, db') \<and> fpos (idxf db') = length (fbytes (idxf db))
     | x # zs \<Rightarrow> nextrec_loop fuel db = Inr (True, db') \<and> located P B x db' \<and> x \<in> dom B \<and>
         tiles (length (fbytes (idxf db))) B (fpos (idxf db')) zs)"
  using assms
proof (induction xs arbitrary: fuel db)
  case Nil
  let ?db = "db\<lparr>idxoff := int (fpos (idxf db))\<rparr>"
  have "nextrec_loop fuel db = Inr (False, ?db)"
    using readidx_eof [of db] Nil by (simp add: nextrec_loop.simps)
  moreover have "scrub ?db = scrub db" by (simp add: scrub_def)
  ultimately show ?case using Nil by (intro exI [of _ ?db]) simp
next
  case (Cons x xs)
  then have x: "x = fpos (idxf db)" "x \<in> dom B" by auto
  then obtain b where b: "B x = Some b" by blast
  from Cons.prems(3) obtain fuel' where f: "fuel = Suc fuel'" "length xs \<le> fuel'" by (cases fuel) auto
  let ?db = "read_state x (P x) b db"
  have r: "db_readidx 0 db = Inr (int (P x), ?db)"
    using readidx_layout [OF Cons.prems(1) b, of 0] x(1) by simp
  have s: "scrub ?db = scrub db" by simp
  have L: "layout ?db P B" using layout_cong [OF s] Cons.prems(1) by simp
  have fp: "fpos (idxf ?db) = x + rsize b" "fbytes (idxf ?db) = fbytes (idxf db)"
    "idxbuf ?db = keyof B x"
    using b by (simp_all add: read_state_def keyof_def)
  have t: "tiles (length (fbytes (idxf ?db))) B (fpos (idxf ?db)) xs"
    using Cons.prems(2) b x(1) by (simp add: read_state_def)
  show ?case
  proof (cases "blank (keyof B x)")
    case True
    then have "\<forall>c \<in> set (idxbuf ?db). c = SPACE" using fp(3) by (simp add: blank_def)
    then have step: "nextrec_loop fuel db = nextrec_loop fuel' ?db"
      using r f(1) by (simp add: nextrec_loop.simps [of "Suc fuel'"])
    from Cons.IH [OF L t f(2), unfolded fp(2) s, folded step] True show ?thesis by simp
  next
    case False
    then have "\<not> (\<forall>c \<in> set (idxbuf ?db). c = SPACE)" using fp(3) by (simp add: blank_def)
    then have "nextrec_loop fuel db = Inr (True, ?db)"
      using r by (auto simp: nextrec_loop.simps [of fuel])
    then show ?thesis
      using False located_read_state [of B x b P db, OF b] x(2) t s fp(2) by (intro exI [of _ ?db]) simp
  qed
qed

lemma tiles_short:
  assumes "layout db P B" "tiles n B s xs"
  shows "length xs \<le> length (fbytes (idxf db))"
proof -
  have "set xs \<subseteq> dom B" using assms(2) by (induction xs arbitrary: s) auto
  from chain_short [OF assms(1) tiles_distinct [OF assms(2)] this] show ?thesis by simp
qed

lemma readdat_fpos: "db_readdat db = Inr (r, db') \<Longrightarrow> idxf db' = idxf db"
  by (auto simp: db_readdat_def db_lseek_def db_read_def Let_def split: prod.splits if_splits)

lemma nextrec_spec:
  assumes L: "layout db P B" and hd: "held db = []"
    and t: "tiles (length (fbytes (idxf db))) B (fpos (idxf db)) xs"
  shows "\<exists>db'. layout db' P B \<and> held db' = [] \<and> fbytes (idxf db') = fbytes (idxf db) \<and>
    (case dropWhile (\<lambda>x. blank (keyof B x)) xs of
       [] \<Rightarrow> db_nextrec db = Inr (None, db')
     | x # zs \<Rightarrow> db_nextrec db = Inr (Some (keyof B x, dataof B x), db') \<and>
         tiles (length (fbytes (idxf db))) B (fpos (idxf db')) zs)"
proof -
  let ?a = "db\<lparr>held := [(F_RDLCK, Idx, 0, 1)]\<rparr>"
  have e1: "lockw F_RDLCK Idx FREE_OFF 1 ''db_nextrec: readw_lock error'' db = Inr ?a"
    using lock_free_list(1) [OF L] hd by simp
  have La: "layout ?a P B" using L by simp
  have ta: "tiles (length (fbytes (idxf ?a))) B (fpos (idxf ?a)) xs" using t by simp
  from nextrec_loop_spec [OF La ta tiles_short [OF La ta]] obtain db1 where s: "scrub db1 = scrub ?a" and
    r: "case dropWhile (\<lambda>x. blank (keyof B x)) xs of
       [] \<Rightarrow> nextrec_loop (length (fbytes (idxf ?a))) ?a = Inr (False, db1) \<and>
         fpos (idxf db1) = length (fbytes (idxf ?a))
     | x # zs \<Rightarrow> nextrec_loop (length (fbytes (idxf ?a))) ?a = Inr (True, db1) \<and> located P B x db1 \<and> x \<in> dom B \<and>
         tiles (length (fbytes (idxf ?a))) B (fpos (idxf db1)) zs" by blast
  have L1: "layout db1 P B" using layout_cong [OF s] La by simp
  note f1 = scrub_fields [OF s]
  have ul: "un_lock Idx FREE_OFF 1 ''db_nextrec: un_lock error'' db2 = Inr (db2\<lparr>held := []\<rparr>)"
    if "layout db2 P B" "held db2 = held ?a" for db2
    using lock_free_list(2) [OF that(1), of "[]" F_RDLCK] that(2) by simp
  show ?thesis
  proof (cases "dropWhile (\<lambda>x. blank (keyof B x)) xs")
    case Nil
    then have "nextrec_loop (length (fbytes (idxf ?a))) ?a = Inr (False, db1)" using r unfolding Nil by simp
    then have "db_nextrec db = Inr (None, db1\<lparr>held := []\<rparr>)"
      unfolding db_nextrec_def e1 bindR_Inr using ul [OF L1 f1(3)] by simp
    then show ?thesis unfolding Nil using L1 f1(1) by (intro exI [of _ "db1\<lparr>held := []\<rparr>"]) simp
  next
    case (Cons x zs)
    then have c: "nextrec_loop (length (fbytes (idxf ?a))) ?a = Inr (True, db1)" "located P B x db1"
      "x \<in> dom B" "tiles (length (fbytes (idxf db))) B (fpos (idxf db1)) zs" using r unfolding Cons by simp_all
    then obtain b where b: "B x = Some b" by blast
    have "datoff db1 = int (boff b)" "datlen db1 = int (length (bdata b)) + 1" "idxbuf db1 = keyof B x"
      using c(2) b by (simp_all add: located_def dataof_def)
    note loc = this
    from readdat_layout [OF L1 b loc(1,2)] obtain db2 where
      d: "db_readdat db1 = Inr (bdata b, db2)" "scrub db2 = scrub db1" by blast
    define db3 where "db3 = db2\<lparr>cnt_nextrec := cnt_nextrec db2 + 1\<rparr>"
    have L3: "layout db3 P B" "held db3 = held ?a" "fbytes (idxf db3) = fbytes (idxf db)"
      "fpos (idxf db3) = fpos (idxf db1)"
      using layout_cong [OF d(2)] L1 scrub_fields [OF d(2)] f1 readdat_fpos [OF d(1)]
      by (simp_all add: db3_def)
    have "db_nextrec db = Inr (Some (keyof B x, bdata b), db3\<lparr>held := []\<rparr>)"
      unfolding db_nextrec_def e1 bindR_Inr
      using ul [OF L3(1,2)] c(1) d(1) loc(3) by (simp add: Let_def db3_def)
    then show ?thesis
      unfolding Cons using L3 b c(4) by (intro exI [of _ "db3\<lparr>held := []\<rparr>"]) (simp add: dataof_def)
  qed
qed

text \<open>The loop a client runs: \<open>db_nextrec\<close> until it returns NULL, at most \<open>n\<close> records.\<close>

fun scan :: "nat \<Rightarrow> db \<Rightarrow> (string \<times> string) list db_result" where
  "scan n db = bindR (db_nextrec db) (\<lambda>(r, db).
     case r of
       None \<Rightarrow> Inr ([], db)
     | Some kd \<Rightarrow>
         (case n of
            0 \<Rightarrow> Inl Loops
          | Suc n' \<Rightarrow> bindR (scan n' db) (\<lambda>(kds, db). Inr (kd # kds, db))))"

declare scan.simps [simp del]

abbreviation shown :: "bodies \<Rightarrow> nat list \<Rightarrow> nat list" where
  "shown B xs \<equiv> filter (\<lambda>x. \<not> blank (keyof B x)) xs"

lemma shown_dropWhile:
  "dropWhile (\<lambda>x. blank (keyof B x)) xs = [] \<Longrightarrow> shown B xs = []"
  "dropWhile (\<lambda>x. blank (keyof B x)) xs = y # ys \<Longrightarrow> shown B xs = y # shown B ys"
  by (induction xs) (auto split: if_splits)

lemma scan_spec:
  assumes "layout db P B" "held db = []"
    "tiles (length (fbytes (idxf db))) B (fpos (idxf db)) xs" "length xs \<le> n"
  shows "\<exists>db'. scan n db = Inr (map (\<lambda>x. (keyof B x, dataof B x)) (shown B xs), db') \<and>
    layout db' P B \<and> held db' = []"
  using assms
proof (induction n arbitrary: db xs)
  case 0
  from nextrec_spec [OF 0(1,2,3)] 0(4) show ?case
    by (fastforce simp: scan.simps)
next
  case (Suc n)
  from nextrec_spec [OF Suc.prems(1,2,3)] obtain db1 where n: "layout db1 P B" "held db1 = []"
    "fbytes (idxf db1) = fbytes (idxf db)"
    "case dropWhile (\<lambda>x. blank (keyof B x)) xs of
       [] \<Rightarrow> db_nextrec db = Inr (None, db1)
     | x # zs \<Rightarrow> db_nextrec db = Inr (Some (keyof B x, dataof B x), db1) \<and>
         tiles (length (fbytes (idxf db))) B (fpos (idxf db1)) zs" by blast
  show ?case
  proof (cases "dropWhile (\<lambda>x. blank (keyof B x)) xs")
    case Nil
    have "db_nextrec db = Inr (None, db1)" using n(4) unfolding Nil by simp
    then show ?thesis using shown_dropWhile(1) [OF Nil] n(1,2) by (simp add: scan.simps)
  next
    case (Cons y ys)
    then have e: "db_nextrec db = Inr (Some (keyof B y, dataof B y), db1)"
      "tiles (length (fbytes (idxf db1))) B (fpos (idxf db1)) ys"
      using n(3,4) unfolding Cons by simp_all
    have "length (y # ys) \<le> length xs"
      using Cons length_dropWhile_le [of "\<lambda>x. blank (keyof B x)" xs] by simp
    then have "length ys \<le> n" using Suc.prems(4) by simp
    from Suc.IH [OF n(1,2) e(2) this] e(1) shown_dropWhile(2) [OF Cons] show ?thesis
      by (auto simp: scan.simps [of "Suc n"])
  qed
qed

lemma rewind_layout:
  assumes "layout db P B"
  shows "db_rewind db = Inr (db\<lparr>idxoff := int TBL, idxf := (idxf db)\<lparr>fpos := TBL\<rparr>\<rparr>)"
proof -
  have "int ((nhash db + 1) * PTR_SZ) + 1 = int TBL"
    using layoutD(3) [OF assms] by (simp add: PTR_SZ_def TBL_def NHASH_DEF_def)
  then show ?thesis by (simp add: db_rewind_def db_lseek_def lseek_SET)
qed

lemma shown_contents:
  assumes L: "layout db P B" and C: "chains P B ls {}" and xs: "set xs = dom B" "distinct xs"
  shows "set (map (\<lambda>x. (keyof B x, dataof B x)) (shown B xs)) = {(k, d). absmap B ls k = Some d \<and> \<not> blank k}"
    and "distinct (map fst (map (\<lambda>x. (keyof B x, dataof B x)) (shown B xs)))"
proof -
  have pos: "\<exists>i < NHASH_DEF. x \<in> set (ls i) \<and> db_hash NHASH_DEF (keyof B x) = i"
    if "x \<in> dom B" "\<not> blank (keyof B x)" for x
  proof -
    from that(1) C obtain i where i: "i \<le> NHASH_DEF" "x \<in> set (ls i)" unfolding chains_def by blast
    have "i \<noteq> FREE" using chainsD(5) [OF C] i that(2) by (auto simp: keys_ok_def)
    then have "i < NHASH_DEF" using i(1) by simp
    then show ?thesis using i(2) chainsD(5) [OF C] unfolding keys_ok_def by blast
  qed
  have val: "absmap B ls (keyof B x) = Some (dataof B x)"
    if "x \<in> dom B" "\<not> blank (keyof B x)" for x
  proof -
    from pos [OF that] obtain ys zs where "ls (db_hash NHASH_DEF (keyof B x)) = ys @ x # zs"
      by (metis split_list)
    from absmap_found(1) [OF chainsD(5) [OF C] refl this refl] show ?thesis .
  qed
  have src: "\<exists>x. x \<in> dom B \<and> keyof B x = k \<and> dataof B x = d" if k: "absmap B ls k = Some d" for k d
  proof -
    let ?h = "db_hash NHASH_DEF k"
    from map_of_SomeD [OF k [unfolded absmap_def]] obtain x where
      x: "x \<in> set (ls ?h)" "keyof B x = k" "dataof B x = d" by auto
    have "x \<in> dom B" using chains_sub [OF C, of ?h] x(1) by (auto simp: less_imp_le)
    with x show ?thesis by blast
  qed
  show "set (map (\<lambda>x. (keyof B x, dataof B x)) (shown B xs)) = {(k, d). absmap B ls k = Some d \<and> \<not> blank k}"
  proof (rule set_eqI, rule iffI)
    fix kd assume "kd \<in> set (map (\<lambda>x. (keyof B x, dataof B x)) (shown B xs))"
    then show "kd \<in> {(k, d). absmap B ls k = Some d \<and> \<not> blank k}" using val xs(1) by auto
  next
    fix kd assume "kd \<in> {(k, d). absmap B ls k = Some d \<and> \<not> blank k}"
    then show "kd \<in> set (map (\<lambda>x. (keyof B x, dataof B x)) (shown B xs))"
      using src xs(1) by fastforce
  qed
  have "inj_on (keyof B) (set (shown B xs))"
  proof (rule inj_onI)
    fix x y assume "x \<in> set (shown B xs)" "y \<in> set (shown B xs)" and e: "keyof B x = keyof B y"
    then have d: "x \<in> dom B" "y \<in> dom B" "\<not> blank (keyof B x)" using xs(1) by auto
    let ?l = "ls (db_hash NHASH_DEF (keyof B x))"
    have "x \<in> set ?l" "y \<in> set ?l" using pos [of x] pos [of y] d e by auto
    moreover have "distinct (map (keyof B) ?l)"
      using chainsD(5) [OF C] by (simp add: keys_ok_def)
    ultimately show "x = y" using e by (simp add: distinct_map inj_on_def)
  qed
  then show "distinct (map fst (map (\<lambda>x. (keyof B x, dataof B x)) (shown B xs)))"
    using xs(2) by (simp add: distinct_map comp_def)
qed

text \<open>From \<open>db_rewind\<close> on, \<open>db_nextrec\<close> returns each record with a non-blank key exactly once.\<close>

lemma scan_rel:
  assumes "db_rel db m" "length (fbytes (idxf db)) \<le> n"
  shows "\<exists>db1 kds db2. db_rewind db = Inr db1 \<and> scan n db1 = Inr (kds, db2) \<and> db_rel db2 m \<and>
    set kds = {(k, d). m k = Some d \<and> \<not> blank k} \<and> distinct (map fst kds)"
proof -
  from assms(1) obtain P B ls where L: "layout db P B" and C: "chains P B ls {}"
    and m: "m = absmap B ls" and hd: "held db = []" by (rule db_relE)
  from layout_tiles [OF L] obtain xs where
    t: "tiles (length (fbytes (idxf db))) B TBL xs" "set xs = dom B" "distinct xs" .
  let ?db = "db\<lparr>idxoff := int TBL, idxf := (idxf db)\<lparr>fpos := TBL\<rparr>\<rparr>"
  have L1: "layout ?db P B" "held ?db = []" using L hd by (simp_all add: layout_def)
  have t1: "tiles (length (fbytes (idxf ?db))) B (fpos (idxf ?db)) xs" using t(1) by simp
  have "length xs \<le> n" using tiles_short [OF L t(1)] assms(2) by simp
  from scan_spec [OF L1 t1 this] obtain db2 where
    s: "scan n ?db = Inr (map (\<lambda>x. (keyof B x, dataof B x)) (shown B xs), db2)" "layout db2 P B" "held db2 = []"
    by blast
  show ?thesis
    using rewind_layout [OF L] s(1) db_relI [OF s(2) C m s(3)] shown_contents [OF L C t(2,3)] m by blast
qed

section \<open>Opening\<close>

lemma seg_replicate: "i < n \<Longrightarrow> seg (concat (replicate n t) @ u) (i * length t) t"
proof (induction n arbitrary: i)
  case (Suc n)
  then show ?case by (cases i) (simp_all add: seg_def)
qed simp

lemma length_concat_replicate: "length (concat (replicate n t)) = n * length t"
  by (induction n) simp_all

lemma layout_init:
  assumes "kern_ok (kern db)" "nhash db = NHASH_DEF" "hashoff db = HASH_OFF" "fbytes (idxf db) = init_table"
  shows "layout db (\<lambda>_. 0) Map.empty"
proof -
  let ?t = "pad 6 (dec 0)"
  have z: "dec_int 0 = dec 0" by (simp add: dec_int_def)
  have l: "length init_table = TBL"
    by (simp add: init_table_def length_concat_replicate z PTR_SZ_def TBL_def NHASH_DEF_def)
  have tab: "seg init_table (i * 6) ?t" if "i \<le> NHASH_DEF" for i
    using seg_replicate [of i "NHASH_DEF + 1" ?t "[NEWLINE]"] that
    by (simp add: init_table_def z PTR_SZ_def)
  have "seg init_table s ?t" if "is_slot Map.empty s" for s
  proof -
    from that consider "s = 0" | h where "h < NHASH_DEF" "s = hslot h" by (auto simp: is_slot_def)
    then show ?thesis
    proof cases
      case 1
      then show ?thesis using tab [of 0] by simp
    next
      case 2
      then show ?thesis using tab [of "Suc h"] by (simp add: hslot_def mult.commute)
    qed
  qed
  then show ?thesis
    using assms l by (simp add: layout_def disjoint_recs_def disjoint_data_def tiled_def)
qed

lemma chains_init: "chains (\<lambda>_. 0) Map.empty (\<lambda>_. []) {}"
  by (simp add: chains_def keys_ok_def)

lemma open_rewind:
  assumes "layout db P B" "chains P B ls {}" "held db = []"
  shows "\<exists>db'. db_rewind db = Inr db' \<and> db_rel db' (absmap B ls)"
  using assms rewind_layout [OF assms(1)]
  by (auto intro!: db_relI [of _ P B ls] simp: layout_def)

lemma idx_dat_differ [simp]: "p @ ''.idx'' \<noteq> p @ ''.dat''" "p @ ''.dat'' \<noteq> p @ ''.idx''"
  by simp_all

definition can_open :: "(string \<Rightarrow> bool) \<Rightarrow> open_flags \<Rightarrow> string \<Rightarrow> (string \<rightharpoonup> string) \<Rightarrow> bool" where
  "can_open allow fl nm fs \<longleftrightarrow>
     allow nm \<and> (if nm \<in> dom fs then \<not> (o_creat fl \<and> o_excl fl) else o_creat fl)"

lemma sys_open_ok:
  "can_open allow fl nm fs \<Longrightarrow> sys_open allow fl nm fs =
     (True, fs(nm \<mapsto> if o_trunc fl then [] else case fs nm of Some s \<Rightarrow> s | None \<Rightarrow> []))"
  by (auto simp: sys_open_def can_open_def fun_upd_idem split: option.splits if_splits)

lemma open_new_rel:
  assumes K: "kern_ok k" and fd: "0 \<le> fd1" "0 \<le> fd2" and fl: "o_creat fl" "o_trunc fl"
    and ok: "can_open allow fl (p @ ''.idx'') fs" "can_open allow fl (p @ ''.dat'') fs"
  shows "\<exists>db fs'. db_open k allow fd1 fd2 p fl fs = Inr (Some db, fs') \<and> db_rel db Map.empty"
proof -
  let ?fs = "fs(p @ ''.idx'' \<mapsto> [])"
  have ok2: "can_open allow fl (p @ ''.dat'') ?fs" using ok(2) by (simp add: can_open_def)
  note o1 = sys_open_ok [OF ok(1)] and o2 = sys_open_ok [OF ok2]
  define db1 where "db1 = (db_alloc k)\<lparr>nhash := NHASH_DEF, hashoff := HASH_OFF, name := p @ ''.dat'',
    idxfd := fd1, datfd := fd2, idxf := \<lparr>fbytes = init_table, fpos = length init_table\<rparr>,
    datf := \<lparr>fbytes = [], fpos = 0\<rparr>\<rparr>"
  have L: "layout db1 (\<lambda>_. 0) Map.empty" and h: "held db1 = []"
    using K by (auto intro!: layout_init simp: db1_def db_alloc_def)
  from open_rewind [OF L chains_init h] obtain db2 where
    r: "db_rewind db1 = Inr db2" "db_rel db2 (absmap Map.empty (\<lambda>_. []))" by blast
  have "absmap Map.empty (\<lambda>_. []) = Map.empty" by (simp add: absmap_def fun_eq_iff)
  moreover have "db_open k allow fd1 fd2 p fl fs = Inr (Some db2, ?fs(p @ ''.dat'' \<mapsto> []))"
    using fl fd K r(1)
    by (simp add: db_open_def o1 o2 Let_def db_alloc_def lockw_def un_lock_def db_write_def
        sys_write_def overwrite_def db1_def)
  ultimately show ?thesis using r(2) by auto
qed

lemma open_existing_rel:
  assumes rel: "db_rel db m" and fd: "0 \<le> fd1" "0 \<le> fd2" and fl: "\<not> o_trunc fl"
    and ok: "can_open allow fl (p @ ''.idx'') fs" "can_open allow fl (p @ ''.dat'') fs"
    and fs: "fs (p @ ''.idx'') = Some (fbytes (idxf db))" "fs (p @ ''.dat'') = Some (fbytes (datf db))"
  shows "\<exists>db'. db_open (kern db) allow fd1 fd2 p fl fs = Inr (Some db', fs) \<and> db_rel db' m"
proof -
  from rel obtain P B ls where L: "layout db P B" and C: "chains P B ls {}"
    and m: "m = absmap B ls" by (rule db_relE)
  define db1 where "db1 = (db_alloc (kern db))\<lparr>nhash := NHASH_DEF, hashoff := HASH_OFF, name := p @ ''.dat'',
    idxfd := fd1, datfd := fd2, idxf := \<lparr>fbytes = fbytes (idxf db), fpos = 0\<rparr>,
    datf := \<lparr>fbytes = fbytes (datf db), fpos = 0\<rparr>\<rparr>"
  have L1: "layout db1 P B" and h: "held db1 = []"
    using L by (simp_all add: db1_def db_alloc_def layout_def)
  from open_rewind [OF L1 C h] m obtain db2 where r: "db_rewind db1 = Inr db2" "db_rel db2 m" by blast
  have o: "sys_open allow fl (p @ ''.idx'') fs = (True, fs)" "sys_open allow fl (p @ ''.dat'') fs = (True, fs)"
    using sys_open_ok [OF ok(1)] sys_open_ok [OF ok(2)] fs fl by (simp_all add: fun_upd_idem)
  have "db_open (kern db) allow fd1 fd2 p fl fs = Inr (Some db2, fs)"
    using fl fd r(1) by (simp add: db_open_def o Let_def db_alloc_def fs db1_def)
  then show ?thesis using r(2) by blast
qed

section \<open>The key/value interface\<close>

text \<open>Both files have space for \<open>n\<close> more records within what the pointer fields can hold.\<close>

definition db_avail :: "nat \<Rightarrow> db \<Rightarrow> bool" where
  "db_avail n db \<longleftrightarrow> length (fbytes (idxf db)) + n * 1034 \<le> 10 ^ 6 \<and>
     length (fbytes (datf db)) + n * 1024 \<le> 10 ^ 18"

definition db_fits :: "string \<Rightarrow> string \<Rightarrow> int \<Rightarrow> bool" where
  "db_fits k d flag \<longleftrightarrow> key_fits k \<and> data_fits d \<and> store_flag flag"

interpretation db: kv db_rel db_avail db_fits store_result db_fetch db_delete db_store
proof (unfold_locales, goal_cases)
  case (1 s m n k)
  then show ?case using fetch_rel [OF 1(1), of k] by (auto simp: db_avail_def)
next
  case (2 s m n k)
  then show ?case using delete_rel [OF 2(1), of k] by (auto simp: db_avail_def same_size_def)
next
  case (3 s m n k d flag)
  have f: "key_fits k" "data_fits d" "room s" "store_flag flag"
    using 3(2,3) by (auto simp: db_fits_def db_avail_def room_def)
  from store_rel [OF 3(1) f] 3(2) show ?case
    by (fastforce simp: store_map_def db_avail_def grown_def)
qed

end
