(* ===== verification/Db_Spec.thy ===== *)
theory Db_Spec
  imports Db_Scan
begin

text \<open>
  The properties of the database library \<open>db.c\<close>: its files represent a finite map from keys
  to data, every operation acts on them as on that map, and the records a scan returns are
  those of the map. Each property with a hypothesis is followed by an instance on a database
  of its own.
\<close>

section \<open>A concrete database\<close>

text \<open>The kernel that grants every lock and completes every write, and a database just created.\<close>

definition good_kernel :: kernel where
  "good_kernel = \<lparr>grants = \<lambda>_ _. True, writes = \<lambda>_ _ _. True\<rparr>"

definition new_db :: db where
  "new_db = (db_alloc good_kernel)\<lparr>nhash := NHASH_DEF, hashoff := HASH_OFF,
     idxf := \<lparr>fbytes = init_table, fpos = 0\<rparr>\<rparr>"

lemma new_db_rel: "db_rel new_db Map.empty"
proof -
  have "layout new_db (\<lambda>_. 0) Map.empty"
    by (rule layout_init) (simp_all add: new_db_def good_kernel_def kern_ok_def db_alloc_def)
  then show ?thesis
    by (rule db_relI [OF _ chains_init]) (simp_all add: absmap_def fun_eq_iff new_db_def db_alloc_def)
qed

lemma new_db_avail: "db_avail n new_db \<longleftrightarrow> n \<le> 966"
proof -
  have "fbytes (idxf new_db) = init_table" "fbytes (datf new_db) = []"
    by (simp_all add: new_db_def db_alloc_def)
  moreover have "length init_table = 829"
    by (simp add: init_table_def length_concat_replicate dec_int_def PTR_SZ_def NHASH_DEF_def)
  ultimately show ?thesis by (auto simp: db_avail_def)
qed

lemma chars_plain:
  "key_fits ''apple''" "key_fits ''pear''" "data_fits ''red''" "data_fits ''green''" "data_fits ''big''"
  by (simp_all add: key_fits_def data_fits_def key_ok_def NUL_def NEWLINE_def SEP_def)

lemma room_new: "room new_db"
proof -
  have "db_avail 1 new_db" by (simp add: new_db_avail)
  then show ?thesis by (auto simp: db_avail_def room_def)
qed

lemma flags_ok [simp]: "store_flag DB_INSERT" "store_flag DB_REPLACE" "store_flag DB_STORE"
  by (simp_all add: store_flag_def)

lemma one_record:
  "\<exists>db. db_rel db [''apple'' \<mapsto> ''red''] \<and> db_avail 5 db"
proof -
  have "db_avail (Suc 5) new_db" "db_fits ''apple'' ''red'' DB_INSERT"
    using chars_plain by (simp_all add: new_db_avail db_fits_def)
  from db.store_law [OF new_db_rel this] show ?thesis
    by (auto simp: store_result_def DB_INSERT_def DB_REPLACE_def)
qed

lemma singleton_scan:
  assumes "set kds = {(k, d). [a \<mapsto> b] k = Some d \<and> Q k}" "distinct (map fst kds)" "Q a"
  shows "kds = [(a, b)]"
proof -
  have "{(k, d). [a \<mapsto> b] k = Some d \<and> Q k} = {(a, b)}"
    using assms(3) by (auto simp: fun_upd_def split: if_split_asm)
  with assms(1) have s: "set kds = {(a, b)}" by (rule trans)
  have "distinct kds" using assms(2) by (simp add: distinct_map)
  then have "length kds = 1" using distinct_card [of kds] unfolding s by simp
  then obtain x where "kds = [x]" by (cases kds) auto
  with s show ?thesis by simp
qed

section \<open>Properties\<close>

text \<open>
  C1. Any sequence of \<open>db_fetch\<close>, \<open>db_delete\<close> and \<open>db_store\<close> calls on a consistent
  database with space for its stores completes, returns call by call what the same calls on a
  finite map return, and leaves the database consistent and representing the resulting map.
\<close>

theorem db_ops_refine_map:
  assumes "db_rel db m" "db_avail (stores xs + n) db" "\<forall>x \<in> set xs. op_ok db_fits x"
  shows "\<exists>db'. run_ops db_fetch db_delete db_store xs db = Inr (fst (map_ops store_result xs m), db') \<and>
    db_rel db' (snd (map_ops store_result xs m)) \<and> db_avail n db'"
  using assms by (rule db.run_ops_refines)

theorem db_ops_refine_map_witness:
  "\<exists>db'. run_ops db_fetch db_delete db_store
      [Store ''apple'' ''red'' DB_INSERT, Store ''apple'' ''green'' DB_REPLACE, Fetch ''apple'',
       Delete ''apple'', Fetch ''apple''] new_db =
     Inr ([Status 0, Status 0, Fetched (Some ''green''), Status 0, Fetched None], db') \<and>
    db_rel db' Map.empty"
proof -
  let ?xs = "[Store ''apple'' ''red'' DB_INSERT, Store ''apple'' ''green'' DB_REPLACE, Fetch ''apple'',
       Delete ''apple'', Fetch ''apple'']"
  have a: "db_avail (stores ?xs + 0) new_db" by (simp add: new_db_avail stores_def)
  have ok: "\<forall>x \<in> set ?xs. op_ok db_fits x" using chars_plain by (simp add: op_ok_def db_fits_def)
  have "map_ops store_result ?xs Map.empty =
      ([Status 0, Status 0, Fetched (Some ''green''), Status 0, Fetched None], Map.empty)"
    by (simp add: map_op_def store_result_def DB_INSERT_def DB_REPLACE_def)
  with db_ops_refine_map [OF new_db_rel a ok] show ?thesis by (simp only: fst_conv snd_conv) blast
qed

text \<open>
  C2. \<open>db_store\<close> of a key and data within the limits returns and does by flag what its
  interface says: an insertion of a present key returns 1 and a replacement of an absent key
  returns -1, both leaving the contents; every other call returns 0 and maps the key to the
  data, whatever of the four ways of writing it takes. The files grow by at most one record.
\<close>

theorem db_store_correct:
  assumes "db_rel db m" "key_fits k" "data_fits d" "room db" "store_flag flag"
  shows "\<exists>rc db'. db_store k d flag db = Inr (rc, db') \<and> grown db db' \<and>
    (if flag = DB_INSERT \<and> m k \<noteq> None then rc = 1 \<and> db_rel db' m
     else if flag = DB_REPLACE \<and> m k = None then rc = - 1 \<and> db_rel db' m
     else rc = 0 \<and> db_rel db' (m(k \<mapsto> d)))"
  using store_rel [OF assms] by (auto simp: store_map_def store_result_def)

theorem db_store_correct_witness:
  "\<exists>db'. db_store ''apple'' ''red'' DB_INSERT new_db = Inr (0, db') \<and> db_rel db' [''apple'' \<mapsto> ''red'']"
  using db_store_correct [OF new_db_rel chars_plain(1,3) room_new flags_ok(1)]
  by (auto simp: DB_INSERT_def DB_REPLACE_def)

text \<open>
  C3. \<open>db_delete\<close> of a present key returns 0 and removes exactly that key; of an absent key it
  returns -1 and leaves the contents. The record's space stays in the files, on the free list.
\<close>

theorem db_delete_correct:
  assumes "db_rel db m"
  shows "\<exists>db'. db_delete k db = Inr (if m k = None then - 1 else 0, db') \<and> db_rel db' (m(k := None)) \<and>
    length (fbytes (idxf db')) = length (fbytes (idxf db)) \<and>
    length (fbytes (datf db')) = length (fbytes (datf db))"
  using delete_rel [OF assms, of k] by (auto simp: same_size_def)

theorem db_delete_correct_witness:
  "\<exists>db db'. db_rel db [''apple'' \<mapsto> ''red''] \<and> db_delete ''apple'' db = Inr (0, db') \<and> db_rel db' Map.empty"
proof -
  from one_record obtain db where db: "db_rel db [''apple'' \<mapsto> ''red'']" by blast
  from db_delete_correct [OF db, of "''apple''"] db show ?thesis by (auto simp: fun_upd_idem)
qed

text \<open>
  C4. \<open>db_fetch\<close> returns the data stored under the key, or NULL when there is none, and
  changes no byte of the two files.
\<close>

theorem db_fetch_correct:
  assumes "db_rel db m"
  shows "\<exists>db'. db_fetch k db = Inr (m k, db') \<and> db_rel db' m \<and>
    fbytes (idxf db') = fbytes (idxf db) \<and> fbytes (datf db') = fbytes (datf db)"
  using assms by (rule fetch_rel)

theorem db_fetch_correct_witness:
  "\<exists>db db'. db_rel db [''apple'' \<mapsto> ''red''] \<and> db_fetch ''apple'' db = Inr (Some ''red'', db')"
proof -
  from one_record obtain db where db: "db_rel db [''apple'' \<mapsto> ''red'']" by blast
  from db_fetch_correct [OF db, of "''apple''"] db show ?thesis by auto
qed

text \<open>
  C20. After \<open>db_rewind\<close>, calling \<open>db_nextrec\<close> until it returns NULL ends and returns every
  pair of the contents whose key is not all blanks, each key once; deleted records are skipped.
  (A key of blanks only is stored and fetched, and never returned by the scan.)
\<close>

theorem db_scan_complete:
  assumes "db_rel db m" "length (fbytes (idxf db)) \<le> n"
  shows "\<exists>db1 kds db2. db_rewind db = Inr db1 \<and> scan n db1 = Inr (kds, db2) \<and> db_rel db2 m \<and>
    set kds = {(k, d). m k = Some d \<and> (\<exists>c \<in> set k. c \<noteq> SPACE)} \<and> distinct (map fst kds)"
  using scan_rel [OF assms] by (simp add: blank_def)

theorem db_scan_complete_witness:
  "\<exists>db n db1 db2. db_rel db [''apple'' \<mapsto> ''red''] \<and> db_rewind db = Inr db1 \<and>
    scan n db1 = Inr ([(''apple'', ''red'')], db2)"
proof -
  from one_record obtain db where db: "db_rel db [''apple'' \<mapsto> ''red'']" by blast
  from db_scan_complete [OF db order_refl] obtain db1 kds db2 where
    s: "db_rewind db = Inr db1" "scan (length (fbytes (idxf db))) db1 = Inr (kds, db2)" and
    k: "set kds = {(k, d). [''apple'' \<mapsto> ''red''] k = Some d \<and> (\<exists>c \<in> set k. c \<noteq> SPACE)}"
    "distinct (map fst kds)" by (elim exE conjE)
  have "kds = [(''apple'', ''red'')]" by (rule singleton_scan [OF k]) (simp add: SPACE_def)
  with s(2) have "scan (length (fbytes (idxf db))) db1 = Inr ([(''apple'', ''red'')], db2)" by simp
  then show ?thesis by (intro exI conjI) (rule db s(1))+
qed

text \<open>
  \<open>db_open\<close> with \<open>O_CREAT | O_TRUNC\<close>, when both files can be opened, returns a consistent
  empty database.
\<close>

lemma db_open_new:
  assumes "kern_ok k" "0 \<le> fd1" "0 \<le> fd2" "o_creat fl" "o_trunc fl"
    "can_open allow fl (p @ ''.idx'') fs" "can_open allow fl (p @ ''.dat'') fs"
  shows "\<exists>db fs'. db_open k allow fd1 fd2 p fl fs = Inr (Some db, fs') \<and> db_rel db Map.empty"
  using assms by (rule open_new_rel)

lemma db_open_new_example:
  "\<exists>db fs'. db_open good_kernel (\<lambda>_. True) 3 4 ''db4'' \<lparr>o_creat = True, o_trunc = True, o_excl = False\<rparr>
      Map.empty = Inr (Some db, fs') \<and> db_rel db Map.empty"
  by (rule db_open_new) (simp_all add: good_kernel_def kern_ok_def can_open_def)

text \<open>
  C21. What one handle has written, a handle opened later on the same files sees: \<open>db_open\<close>
  without \<open>O_TRUNC\<close> on the bytes a consistent database left gives a database with the same
  contents.
\<close>

theorem db_open_persistent:
  assumes "db_rel db m" "0 \<le> fd1" "0 \<le> fd2" "\<not> o_trunc fl"
    "can_open allow fl (p @ ''.idx'') fs" "can_open allow fl (p @ ''.dat'') fs"
    "fs (p @ ''.idx'') = Some (fbytes (idxf db))" "fs (p @ ''.dat'') = Some (fbytes (datf db))"
  shows "\<exists>db'. db_open (kern db) allow fd1 fd2 p fl fs = Inr (Some db', fs) \<and> db_rel db' m"
  using assms by (rule open_existing_rel)

theorem db_open_persistent_witness:
  "\<exists>db fs db'. db_rel db [''apple'' \<mapsto> ''red''] \<and>
    db_open (kern db) (\<lambda>_. True) 3 4 ''x'' \<lparr>o_creat = False, o_trunc = False, o_excl = False\<rparr> fs =
      Inr (Some db', fs) \<and> db_rel db' [''apple'' \<mapsto> ''red'']"
proof -
  from one_record obtain db where db: "db_rel db [''apple'' \<mapsto> ''red'']" by blast
  let ?fs = "[''x.idx'' \<mapsto> fbytes (idxf db), ''x.dat'' \<mapsto> fbytes (datf db)]"
  from db_open_persistent [OF db, of 3 4 "\<lparr>o_creat = False, o_trunc = False, o_excl = False\<rparr>" "\<lambda>_. True" "''x''" ?fs]
    db show ?thesis by (auto simp: can_open_def)
qed

lemma strchr_first: "c \<in> set s \<Longrightarrow> \<exists>a b. strchr s c = Some (a, b) \<and> s = a @ c # b \<and> c \<notin> set a"
  using strchr_None_iff [of s c] strchr_Some [of s c] by (cases "strchr s c") auto

text \<open>
  The index record of a key is read back by \<open>_db_readidx\<close> as it was written exactly when
  the key has no separator: with a colon in the key the reader stops the program with
  "too many separators".
\<close>

lemma idx_record_round_trip:
  assumes "NUL \<notin> set key" "off < 2 ^ 63" "length d < 1024"
  shows "db_parseidx (idx_text key (int off) (int (length d) + 1)) db =
    (if SEP \<in> set key then Inl (Dump ''_db_readidx: too many separators'')
     else Inr (ptrval db, db\<lparr>idxbuf := key, datoff := int off, datlen := int (length d) + 1\<rparr>))"
proof -
  let ?front = "key @ SEP # dec off @ SEP # dec (Suc (length d))"
  have t: "idx_text key (int off) (int (length d) + 1) = ?front @ [NEWLINE]"
    by (simp add: idx_text_def)
  have nul: "NUL \<notin> set ?front" using assms(1) by simp (simp add: SEP_def NUL_def)
  have sd: "SEP \<notin> set (dec n)" for n by (simp add: SEP_def)
  show ?thesis
  proof (cases "SEP \<in> set key")
    case True
    then obtain a b where ab: "key = a @ SEP # b" "SEP \<notin> set a" using strchr_first by metis
    let ?rest = "b @ SEP # dec off @ SEP # dec (Suc (length d))"
    obtain c e where ce: "strchr ?rest SEP = Some (c, e)" "?rest = c @ SEP # e" "SEP \<notin> set c"
      using strchr_first [of SEP ?rest] by auto
    have "count_list ?rest SEP \<ge> 2" by simp
    then have "count_list e SEP \<ge> 1" unfolding ce(2) using ce(3) by simp
    then have "SEP \<in> set e" by (metis count_list_0_iff not_one_le_zero)
    moreover have "strchr ?front SEP = Some (a, ?rest)" using ab by simp
    ultimately show ?thesis
      using True ce(1) unfolding t db_parseidx_def last_snoc butlast_snoc cstr_NUL_free [OF nul] by simp
  next
    case False
    have s1: "strchr ?front SEP = Some (key, dec off @ SEP # dec (Suc (length d)))" using False by simp
    have s2: "strchr (dec off @ SEP # dec (Suc (length d))) SEP = Some (dec off, dec (Suc (length d)))"
      using sd by simp
    show ?thesis
      using False assms(2,3) sd
      unfolding t db_parseidx_def last_snoc butlast_snoc cstr_NUL_free [OF nul] s1
      by (simp add: s2 atol_dec DATLEN_MAX_def)
  qed
qed

lemma idx_record_round_trip_example:
  "db_parseidx (idx_text ''a:b'' (int 5) (int (length ''red'') + 1)) new_db =
    Inl (Dump ''_db_readidx: too many separators'')"
  using idx_record_round_trip [of "''a:b''" 5 "''red''" new_db] by (simp add: SEP_def NUL_def)

text \<open>
  \<open>_db_writeidx\<close> formats the record before it checks its length, in a buffer of
  \<open>IDXLEN_MAX + 2\<close> bytes: a key of 1022 bytes or more writes past the end of the buffer.
\<close>

lemma long_key_overflows:
  assumes "0 \<le> ptr" "ptr \<le> PTR_MAX" "1022 \<le> length key"
  shows "db_writeidx key offset wh ptr db = Inl Smashed"
proof -
  have "1 \<le> length (dec_int n)" for n by (simp add: dec_int_def Suc_leI)
  from this [of "datoff db"] this [of "datlen db"] assms show ?thesis
    by (simp add: db_writeidx_def Let_def idx_text_def IDXLEN_MAX_def)
qed

lemma long_key_overflows_example:
  "db_writeidx (replicate 1022 SPACE) 0 SEEK_END 0 new_db = Inl Smashed"
  by (rule long_key_overflows) (simp_all add: PTR_MAX_def)

end
