(* ===== verification/Dll.thy ===== *)
theory Dll
  imports C_Prelude
begin

text \<open>
  Doubly linked lists in a heap of nodes, as the print spooler (\<open>ipp/printd.c\<close>) and the thread
  examples (\<open>threads/rwlock.c\<close>) link their jobs: the nodes, what a dereference of a pointer to
  no node does, the predicate that head, tail and the links represent a list of addresses,
  and the lemmas on linking and unlinking that both programs share.
\<close>

section \<open>Nodes\<close>

text \<open>Address 0 is NULL; a dereference outside the heap is \<open>Segv\<close>.\<close>

record 'a node =
  nxt :: nat
  prv :: nat
  payload :: 'a

type_synonym 'a cells = "nat \<rightharpoonup> 'a node"

definition deref :: "'a cells \<Rightarrow> nat \<Rightarrow> fault + 'a node" where
  "deref h p = (case h p of None \<Rightarrow> Inl Segv | Some n \<Rightarrow> Inr n)"

definition set_nxt :: "nat \<Rightarrow> nat \<Rightarrow> 'a cells \<Rightarrow> fault + 'a cells" where
  "set_nxt p v h = bindR (deref h p) (\<lambda>n. Inr (h(p \<mapsto> n\<lparr>nxt := v\<rparr>)))"

definition set_prv :: "nat \<Rightarrow> nat \<Rightarrow> 'a cells \<Rightarrow> fault + 'a cells" where
  "set_prv p v h = bindR (deref h p) (\<lambda>n. Inr (h(p \<mapsto> n\<lparr>prv := v\<rparr>)))"

lemma deref_Some [simp]: "h p = Some n \<Longrightarrow> deref h p = Inr n"
  by (simp add: deref_def)

lemma set_nxt_Some [simp]: "h p = Some n \<Longrightarrow> set_nxt p v h = Inr (h(p \<mapsto> n\<lparr>nxt := v\<rparr>))"
  by (simp add: set_nxt_def)

lemma set_prv_Some [simp]: "h p = Some n \<Longrightarrow> set_prv p v h = Inr (h(p \<mapsto> n\<lparr>prv := v\<rparr>))"
  by (simp add: set_prv_def)

text \<open>A list with its two ends.\<close>

record 'a dlist =
  cells :: "'a cells"
  head :: nat
  tail :: nat

section \<open>Linked segments\<close>

definition first :: "nat list \<Rightarrow> nat \<Rightarrow> nat" where
  "first xs nx = (case xs of [] \<Rightarrow> nx | x # _ \<Rightarrow> x)"

definition final :: "nat \<Rightarrow> nat list \<Rightarrow> nat" where
  "final pr xs = (if xs = [] then pr else last xs)"

lemma first_simps [simp]: "first [] nx = nx" "first (x # xs) nx = x"
  "first (xs @ ys) nx = first xs (first ys nx)"
  by (cases xs; simp add: first_def)+

lemma final_simps [simp]: "final pr [] = pr" "final pr (xs @ [x]) = x"
  "final pr (x # xs) = final x xs" "final pr (xs @ ys) = final (final pr xs) ys"
  by (auto simp: final_def)

text \<open>
  \<open>dseg h pr xs nx\<close>: the nodes \<open>xs\<close> are linked both ways, from the predecessor \<open>pr\<close> of the
  first to the successor \<open>nx\<close> of the last.
\<close>

primrec dseg :: "'a cells \<Rightarrow> nat \<Rightarrow> nat list \<Rightarrow> nat \<Rightarrow> bool" where
  "dseg h pr [] nx \<longleftrightarrow> True"
| "dseg h pr (x # xs) nx \<longleftrightarrow> x \<noteq> 0 \<and>
     (\<exists>n. h x = Some n \<and> prv n = pr \<and> nxt n = first xs nx) \<and> dseg h x xs nx"

lemma dseg_append [simp]:
  "dseg h pr (xs @ ys) nx \<longleftrightarrow> dseg h pr xs (first ys nx) \<and> dseg h (final pr xs) ys nx"
  by (induction xs arbitrary: pr) auto

lemma dseg_upd [simp]: "p \<notin> set xs \<Longrightarrow> dseg (h(p := v)) pr xs nx = dseg h pr xs nx"
  by (induction xs arbitrary: pr) auto

lemma dseg_nonzero: "dseg h pr xs nx \<Longrightarrow> 0 \<notin> set xs"
  by (induction xs arbitrary: pr) auto

lemma dseg_dom: "dseg h pr xs nx \<Longrightarrow> set xs \<subseteq> dom h"
  by (induction xs arbitrary: pr) auto

lemma dseg_set_first:
  assumes "dseg h pr (x # xs) nx" "h x = Some n" "distinct (x # xs)"
  shows "dseg (h(x \<mapsto> n\<lparr>prv := pr'\<rparr>)) pr' (x # xs) nx"
  using assms by auto

lemma dseg_set_last:
  assumes "dseg h pr (xs @ [x]) nx" "h x = Some n" "distinct (xs @ [x])"
  shows "dseg (h(x \<mapsto> n\<lparr>nxt := nx'\<rparr>)) pr (xs @ [x]) nx'"
  using assms by auto

section \<open>The representation\<close>

definition drep :: "'a dlist \<Rightarrow> nat list \<Rightarrow> bool" where
  "drep d xs \<longleftrightarrow> dseg (cells d) 0 xs 0 \<and> distinct xs \<and> head d = first xs 0 \<and> tail d = final 0 xs"

lemma drep_empty: "head d = 0 \<Longrightarrow> tail d = 0 \<Longrightarrow> drep d []"
  by (simp add: drep_def)

lemma drep_head: "drep d xs \<Longrightarrow> head d = 0 \<longleftrightarrow> xs = []"
  using dseg_nonzero by (cases xs) (fastforce simp: drep_def)+

lemma drep_tail: "drep d xs \<Longrightarrow> tail d = 0 \<longleftrightarrow> xs = []"
  using dseg_nonzero by (cases xs rule: rev_cases) (fastforce simp: drep_def)+

lemma drep_node: "drep d xs \<Longrightarrow> x \<in> set xs \<Longrightarrow> \<exists>n. cells d x = Some n"
  using dseg_dom by (fastforce simp: drep_def)

lemma first_in: "xs \<noteq> [] \<Longrightarrow> first xs nx \<in> set xs"
  by (cases xs) simp_all

lemma final_in: "xs \<noteq> [] \<Longrightarrow> final pr xs \<in> set xs"
  by (simp add: final_def)

lemma drep_ends:
  assumes "drep d (ys @ x # zs)"
  shows "head d = x \<longleftrightarrow> ys = []" "tail d = x \<longleftrightarrow> zs = []"
    "\<exists>n. cells d x = Some n \<and> prv n = final 0 ys \<and> nxt n = first zs 0"
proof -
  have d: "distinct (ys @ x # zs)" "head d = first ys x" "tail d = final x zs"
    using assms by (simp_all add: drep_def)
  show "head d = x \<longleftrightarrow> ys = []" using d(1,2) first_in [of ys x] by (cases "ys = []") auto
  show "tail d = x \<longleftrightarrow> zs = []" using d(1,3) final_in [of zs x] by (cases "zs = []") auto
  show "\<exists>n. cells d x = Some n \<and> prv n = final 0 ys \<and> nxt n = first zs 0"
    using assms by (auto simp: drep_def)
qed

text \<open>Linking a node behind the last and before the first.\<close>

definition link_last :: "nat \<Rightarrow> 'a \<Rightarrow> 'a dlist \<Rightarrow> fault + 'a dlist" where
  "link_last p v d =
     (let h = (cells d)(p \<mapsto> \<lparr>nxt = 0, prv = tail d, payload = v\<rparr>)
      in if tail d = 0 then Inr \<lparr>cells = h, head = p, tail = p\<rparr>
         else bindR (set_nxt (tail d) p h) (\<lambda>h. Inr \<lparr>cells = h, head = head d, tail = p\<rparr>))"

definition link_first :: "nat \<Rightarrow> 'a \<Rightarrow> 'a dlist \<Rightarrow> fault + 'a dlist" where
  "link_first p v d =
     (let h = (cells d)(p \<mapsto> \<lparr>nxt = head d, prv = 0, payload = v\<rparr>)
      in if head d = 0 then Inr \<lparr>cells = h, head = p, tail = p\<rparr>
         else bindR (set_prv (head d) p h) (\<lambda>h. Inr \<lparr>cells = h, head = p, tail = tail d\<rparr>))"

definition payloads :: "'a dlist \<Rightarrow> nat list \<Rightarrow> 'a list" where
  "payloads d xs = map (\<lambda>x. payload (the (cells d x))) xs"

lemma payloads_cong:
  "(\<And>x. x \<in> set xs \<Longrightarrow> payload (the (cells d x)) = payload (the (cells d' x))) \<Longrightarrow>
     payloads d xs = payloads d' xs"
  by (simp add: payloads_def)

lemma link_last_drep:
  assumes r: "drep d xs" and p: "p \<notin> set xs" "p \<noteq> 0"
  shows "\<exists>d'. link_last p v d = Inr d' \<and> drep d' (xs @ [p]) \<and> payloads d' (xs @ [p]) = payloads d xs @ [v]"
proof (cases xs rule: rev_cases)
  case Nil
  then show ?thesis
    using r p drep_tail [OF r] by (auto simp: link_last_def drep_def payloads_def)
next
  case (snoc ys y)
  have t: "tail d \<noteq> 0" "tail d = y" using drep_tail [OF r] r snoc by (auto simp: drep_def)
  from r snoc obtain n where n: "cells d y = Some n" using drep_node by fastforce
  have yp: "y \<noteq> p" using p snoc by auto
  let ?h = "(cells d)(p \<mapsto> \<lparr>nxt = 0, prv = y, payload = v\<rparr>, y \<mapsto> n\<lparr>nxt := p\<rparr>)"
  let ?d = "\<lparr>cells = ?h, head = head d, tail = p\<rparr>"
  have e: "link_last p v d = Inr ?d" using t n yp by (simp add: link_last_def)
  have "dseg (cells d) 0 (ys @ [y]) 0" "distinct (ys @ [y])" using r snoc by (simp_all add: drep_def)
  from dseg_set_last [OF this(1) n this(2)] have "dseg ((cells d)(y \<mapsto> n\<lparr>nxt := p\<rparr>)) 0 (ys @ [y]) p" .
  then have s1: "dseg ((cells d)(y \<mapsto> n\<lparr>nxt := p\<rparr>, p \<mapsto> \<lparr>nxt = 0, prv = y, payload = v\<rparr>)) 0 xs p"
    using p snoc by simp
  have "?h = (cells d)(y \<mapsto> n\<lparr>nxt := p\<rparr>, p \<mapsto> \<lparr>nxt = 0, prv = y, payload = v\<rparr>)"
    using yp by (rule fun_upd_twist [symmetric])
  with s1 have "dseg ?h 0 xs p" by simp
  then have "drep ?d (xs @ [p])"
    using r p snoc yp by (simp add: drep_def)
  moreover have "payloads ?d (xs @ [p]) = payloads d xs @ [v]"
    using p n yp by (auto simp: payloads_def)
  ultimately show ?thesis using e by blast
qed

lemma link_first_drep:
  assumes r: "drep d xs" and p: "p \<notin> set xs" "p \<noteq> 0"
  shows "\<exists>d'. link_first p v d = Inr d' \<and> drep d' (p # xs) \<and> payloads d' (p # xs) = v # payloads d xs"
proof (cases xs)
  case Nil
  then show ?thesis
    using r p drep_head [OF r] by (auto simp: link_first_def drep_def payloads_def)
next
  case (Cons y ys)
  have t: "head d \<noteq> 0" "head d = y" using drep_head [OF r] r Cons by (auto simp: drep_def)
  from r Cons obtain n where n: "cells d y = Some n" using drep_node by fastforce
  have yp: "y \<noteq> p" using p Cons by auto
  let ?h = "(cells d)(p \<mapsto> \<lparr>nxt = y, prv = 0, payload = v\<rparr>, y \<mapsto> n\<lparr>prv := p\<rparr>)"
  let ?d = "\<lparr>cells = ?h, head = p, tail = tail d\<rparr>"
  have e: "link_first p v d = Inr ?d" using t n yp by (simp add: link_first_def)
  have "dseg ((cells d)(p \<mapsto> \<lparr>nxt = y, prv = 0, payload = v\<rparr>)) 0 (y # ys) 0" "distinct (y # ys)"
    using r p Cons by (simp_all add: drep_def del: dseg.simps)
  from dseg_set_first [OF this(1) _ this(2)] n yp have "dseg ?h p xs 0" using Cons by simp
  then have "drep ?d (p # xs)"
    using r p Cons yp by (simp add: drep_def del: dseg.simps(2)) simp
  moreover have "payloads ?d (p # xs) = v # payloads d xs"
    using p n yp by (auto simp: payloads_def)
  ultimately show ?thesis using e by blast
qed

section \<open>Unlinking\<close>

text \<open>Both neighbours of the node, or the end of the list where there is none, are relinked.\<close>

definition unlink :: "nat \<Rightarrow> 'a dlist \<Rightarrow> fault + 'a dlist" where
  "unlink p d =
     bindR (deref (cells d) p) (\<lambda>n.
     bindR (if nxt n \<noteq> 0
            then bindR (set_prv (nxt n) (prv n) (cells d)) (\<lambda>h. Inr (d\<lparr>cells := h\<rparr>))
            else Inr (d\<lparr>tail := prv n\<rparr>)) (\<lambda>d.
     bindR (deref (cells d) p) (\<lambda>n.
     if prv n \<noteq> 0
     then bindR (set_nxt (prv n) (nxt n) (cells d)) (\<lambda>h. Inr (d\<lparr>cells := h\<rparr>))
     else Inr (d\<lparr>head := nxt n\<rparr>))))"

lemma unlink_drep:
  assumes r: "drep d (ys @ x # zs)"
  shows "\<exists>d'. unlink x d = Inr d' \<and> drep d' (ys @ zs) \<and> cells d' x = cells d x \<and>
    payloads d' (ys @ zs) = payloads d (ys @ zs)"
proof -
  from r obtain n where n: "cells d x = Some n" "prv n = final 0 ys" "nxt n = first zs 0"
    by (auto simp: drep_def)
  have nz: "0 \<notin> set (ys @ x # zs)" "distinct (ys @ x # zs)"
    using r dseg_nonzero by (auto simp: drep_def)
  have segs: "dseg (cells d) 0 ys x" "dseg (cells d) x zs 0" using r by (auto simp: drep_def)
  have ends: "head d = first ys x" "tail d = final x zs" using r by (auto simp: drep_def)
  show ?thesis
  proof (cases ys rule: rev_cases)
    case Nil
    show ?thesis
    proof (cases zs)
      case Nil
      then show ?thesis using \<open>ys = []\<close> n ends
        by (auto simp: unlink_def drep_def payloads_def)
    next
      case (Cons z zs')
      then obtain k where k: "cells d z = Some k" using segs(2) by auto
      from dseg_set_first [OF segs(2) [unfolded Cons] k, of 0] nz Cons
      have "dseg ((cells d)(z \<mapsto> k\<lparr>prv := 0\<rparr>)) 0 zs 0" by auto
      then show ?thesis using \<open>ys = []\<close> Cons n k ends nz
        by (auto simp: unlink_def drep_def payloads_def)
    qed
  next
    case (snoc ys' y)
    then obtain j where j: "cells d y = Some j" using segs(1) by auto
    from dseg_set_last [OF segs(1) [unfolded snoc] j, of "first zs 0"] nz snoc
    have sy: "dseg ((cells d)(y \<mapsto> j\<lparr>nxt := first zs 0\<rparr>)) 0 ys (first zs 0)" by auto
    show ?thesis
    proof (cases zs)
      case Nil
      then show ?thesis using snoc n j ends nz sy
        by (auto simp: unlink_def drep_def payloads_def)
    next
      case (Cons z zs')
      then obtain k where k: "cells d z = Some k" using segs(2) by auto
      have yz: "y \<noteq> z" using nz Cons snoc by auto
      from dseg_set_first [OF segs(2) [unfolded Cons] k, of y] nz Cons
      have sz: "dseg ((cells d)(z \<mapsto> k\<lparr>prv := y\<rparr>)) y zs 0" by auto
      let ?h = "(cells d)(z \<mapsto> k\<lparr>prv := y\<rparr>, y \<mapsto> j\<lparr>nxt := z\<rparr>)"
      let ?d = "d\<lparr>cells := ?h\<rparr>"
      have e: "unlink x d = Inr ?d"
        using n snoc Cons j k nz yz by (auto simp: unlink_def)
      have "dseg ?h y zs 0" using sz nz snoc by simp
      moreover have "dseg ?h 0 ys z"
        using sy Cons nz yz by (simp add: fun_upd_twist [of z y])
      ultimately have "dseg ?h 0 (ys @ zs) 0"
        unfolding dseg_append using snoc Cons by simp
      then have "drep ?d (ys @ zs)"
        using snoc Cons nz ends by (simp add: drep_def del: dseg.simps)
      moreover have "payloads ?d (ys @ zs) = payloads d (ys @ zs)"
        using j k by (auto simp: payloads_def)
      ultimately show ?thesis using e nz snoc Cons by (intro exI [of _ ?d]) auto
    qed
  qed
qed

section \<open>The interface of a job queue\<close>

text \<open>
  What the users of a queue rely on: a job is put at the end or pushed back to the front, and
  (for a queue with removal) any job can be taken out. \<open>rep q xs\<close> says that the state holds
  the nodes \<open>xs\<close> in this order and \<open>vals\<close> reads their contents.
\<close>

primrec put_all :: "(nat \<Rightarrow> 'v \<Rightarrow> 's \<Rightarrow> fault + 's) \<Rightarrow> (nat \<times> 'v) list \<Rightarrow> 's \<Rightarrow> fault + 's" where
  "put_all put [] q = Inr q"
| "put_all put (pv # pvs) q = bindR (put (fst pv) (snd pv) q) (put_all put pvs)"

primrec serve :: "('s \<Rightarrow> nat) \<Rightarrow> (nat \<Rightarrow> 's \<Rightarrow> fault + 's) \<Rightarrow> nat \<Rightarrow> 's \<Rightarrow> fault + nat list \<times> 's" where
  "serve front remove 0 q = Inr ([], q)"
| "serve front remove (Suc n) q =
     bindR (remove (front q) q) (\<lambda>q'.
     bindR (serve front remove n q') (\<lambda>(ps, q''). Inr (front q # ps, q'')))"

locale job_queue =
  fixes rep :: "'s \<Rightarrow> nat list \<Rightarrow> bool"
    and vals :: "'s \<Rightarrow> nat list \<Rightarrow> 'v list"
    and put :: "nat \<Rightarrow> 'v \<Rightarrow> 's \<Rightarrow> fault + 's"
    and push :: "nat \<Rightarrow> 'v \<Rightarrow> 's \<Rightarrow> fault + 's"
  assumes put_law: "rep q xs \<Longrightarrow> p \<notin> set xs \<Longrightarrow> p \<noteq> 0 \<Longrightarrow>
      \<exists>q'. put p v q = Inr q' \<and> rep q' (xs @ [p]) \<and> vals q' (xs @ [p]) = vals q xs @ [v]"
    and push_law: "rep q xs \<Longrightarrow> p \<notin> set xs \<Longrightarrow> p \<noteq> 0 \<Longrightarrow>
      \<exists>q'. push p v q = Inr q' \<and> rep q' (p # xs) \<and> vals q' (p # xs) = v # vals q xs"
begin

lemma put_all_rep:
  assumes "rep q xs" "distinct (map fst pvs)" "set (map fst pvs) \<inter> set xs = {}" "0 \<notin> set (map fst pvs)"
  shows "\<exists>q'. put_all put pvs q = Inr q' \<and> rep q' (xs @ map fst pvs) \<and>
    vals q' (xs @ map fst pvs) = vals q xs @ map snd pvs"
  using assms
proof (induction pvs arbitrary: q xs)
  case (Cons pv pvs)
  obtain p v where pv: "pv = (p, v)" by (cases pv)
  have "p \<notin> set xs" "p \<noteq> 0" using Cons.prems pv by auto
  from put_law [OF Cons.prems(1) this, of v] obtain q1 where
    q1: "put p v q = Inr q1" "rep q1 (xs @ [p])" "vals q1 (xs @ [p]) = vals q xs @ [v]" by blast
  have "distinct (map fst pvs)" "set (map fst pvs) \<inter> set (xs @ [p]) = {}" "0 \<notin> set (map fst pvs)"
    using Cons.prems pv by auto
  from Cons.IH [OF q1(2) this] q1 pv show ?case by auto
qed simp

end

locale job_queue_remove = job_queue +
  fixes remove :: "nat \<Rightarrow> 's \<Rightarrow> fault + 's" and front :: "'s \<Rightarrow> nat"
  assumes remove_law: "rep q (ys @ x # zs) \<Longrightarrow>
      \<exists>q'. remove x q = Inr q' \<and> rep q' (ys @ zs) \<and> vals q' (ys @ zs) = vals q (ys @ zs)"
    and front_law: "rep q (x # xs) \<Longrightarrow> front q = x"
begin

lemma serve_rep:
  assumes "rep q (xs @ ys)"
  shows "\<exists>q'. serve front remove (length xs) q = Inr (xs, q') \<and> rep q' ys"
  using assms
proof (induction xs arbitrary: q)
  case (Cons x xs)
  have t: "front q = x" using front_law Cons.prems by simp
  from remove_law [of q "[]" x "xs @ ys"] Cons.prems obtain q1 where
    q1: "remove x q = Inr q1" "rep q1 (xs @ ys)" by auto
  from Cons.IH [OF q1(2)] q1(1) t show ?case by auto
qed simp

text \<open>Jobs are served in the order they were put in.\<close>

lemma fifo:
  assumes "rep q []" "distinct (map fst pvs)" "0 \<notin> set (map fst pvs)"
  shows "\<exists>q1 q2. put_all put pvs q = Inr q1 \<and> vals q1 (map fst pvs) = vals q [] @ map snd pvs \<and>
    serve front remove (length pvs) q1 = Inr (map fst pvs, q2) \<and> rep q2 []"
proof -
  from put_all_rep [OF assms(1,2) _ assms(3)] obtain q1 where
    q1: "put_all put pvs q = Inr q1" "rep q1 (map fst pvs)" "vals q1 (map fst pvs) = vals q [] @ map snd pvs"
    by auto
  from serve_rep [of q1 "map fst pvs" "[]"] q1 show ?thesis by auto
qed

text \<open>A job taken from the front and pushed back leaves the order as it was.\<close>

lemma push_back:
  assumes "rep q (x # xs)" "x \<notin> set xs" "x \<noteq> 0"
  shows "\<exists>q1 q2. remove (front q) q = Inr q1 \<and> rep q1 xs \<and> push x v q1 = Inr q2 \<and> rep q2 (x # xs) \<and>
    vals q2 (x # xs) = v # vals q xs"
proof -
  from remove_law [of q "[]" x xs] assms(1) obtain q1 where
    q1: "remove x q = Inr q1" "rep q1 xs" "vals q1 xs = vals q xs" by auto
  from push_law [OF q1(2) assms(2,3), of v] q1 front_law [OF assms(1)] show ?thesis by auto
qed

end

end
