(* ===== verification/Foo.thy ===== *)
theory Foo
  imports Dll "HOL-Library.Multiset"
begin

text \<open>
  The reference-counted objects of \<open>threads/mutex1.c\<close>, \<open>mutex2.c\<close> and \<open>mutex3.c\<close>, and the
  message queue of \<open>threads/condvar.c\<close>. For the first program, a step relation over threads
  that own references shows that the count is exact and no object is used after it is freed.
  For the second and third, an invariant shows that the hash table stays empty for ever.
\<close>

section \<open>A counted object (mutex1.c)\<close>

record foo1 =
  f1_count :: int
  f1_lock :: bool

type_synonym objs1 = "nat \<rightharpoonup> foo1"

text \<open>\<open>Hangs\<close> is a lock that is never released to the caller.\<close>

definition lock1 :: "nat \<Rightarrow> objs1 \<Rightarrow> fault + objs1" where
  "lock1 fp st = (case st fp of
     None \<Rightarrow> Inl Segv
   | Some f \<Rightarrow> if f1_lock f then Inl Hangs else Inr (st(fp \<mapsto> f\<lparr>f1_lock := True\<rparr>)))"

definition unlock1 :: "nat \<Rightarrow> objs1 \<Rightarrow> fault + objs1" where
  "unlock1 fp st = (case st fp of
     None \<Rightarrow> Inl Segv | Some f \<Rightarrow> Inr (st(fp \<mapsto> f\<lparr>f1_lock := False\<rparr>)))"

definition add1 :: "int \<Rightarrow> nat \<Rightarrow> objs1 \<Rightarrow> fault + int \<times> objs1" where
  "add1 d fp st = (case st fp of
     None \<Rightarrow> Inl Segv
   | Some f \<Rightarrow> let c = wrap32 (f1_count f + d) in Inr (c, st(fp \<mapsto> f\<lparr>f1_count := c\<rparr>)))"

text \<open>\<open>p\<close> is the result of \<open>malloc\<close>, \<open>ok\<close> whether the mutex could be initialised.\<close>

definition foo_alloc1 :: "nat \<Rightarrow> bool \<Rightarrow> objs1 \<Rightarrow> nat \<times> objs1" where
  "foo_alloc1 p ok st =
     (if p = 0 then (0, st)
      else if \<not> ok then (0, st(p := None))
      else (p, st(p \<mapsto> \<lparr>f1_count = 1, f1_lock = False\<rparr>)))"

definition foo_hold1 :: "nat \<Rightarrow> objs1 \<Rightarrow> fault + objs1" where
  "foo_hold1 fp st =
     bindR (lock1 fp st) (\<lambda>st. bindR (add1 1 fp st) (\<lambda>(c, st). unlock1 fp st))"

definition foo_rele1 :: "nat \<Rightarrow> objs1 \<Rightarrow> fault + objs1" where
  "foo_rele1 fp st =
     bindR (lock1 fp st) (\<lambda>st.
     bindR (add1 (- 1) fp st) (\<lambda>(c, st).
     if c = 0 then bindR (unlock1 fp st) (\<lambda>st. Inr (st(fp := None)))
     else unlock1 fp st))"

lemma hold1_step: "st p = Some f \<Longrightarrow> \<not> f1_lock f \<Longrightarrow>
    foo_hold1 p st = Inr (st(p \<mapsto> f\<lparr>f1_count := wrap32 (f1_count f + 1)\<rparr>))"
  by (cases f) (simp add: foo_hold1_def lock1_def unlock1_def add1_def Let_def)

lemma rele1_step: "st p = Some f \<Longrightarrow> \<not> f1_lock f \<Longrightarrow>
    foo_rele1 p st = Inr (if wrap32 (f1_count f - 1) = 0 then st(p := None)
      else st(p \<mapsto> f\<lparr>f1_count := wrap32 (f1_count f - 1)\<rparr>))"
  by (cases f) (simp add: foo_rele1_def lock1_def unlock1_def add1_def Let_def)

text \<open>
  Threads and the references they own, as a multiset of pairs: a thread may take and give up
  references to an object only while it owns one, or pass one on.
\<close>

type_synonym refs = "(nat \<times> nat) multiset"

definition owners :: "nat \<Rightarrow> refs \<Rightarrow> nat" where
  "owners p r = size (filter_mset (\<lambda>x. snd x = p) r)"

inductive ref_step :: "objs1 \<times> refs \<Rightarrow> objs1 \<times> refs \<Rightarrow> bool" where
  alloc: "p \<noteq> 0 \<Longrightarrow> st p = None \<Longrightarrow> size r < 2 ^ 31 - 1 \<Longrightarrow> foo_alloc1 p True st = (p, st') \<Longrightarrow>
    ref_step (st, r) (st', add_mset (t, p) r)"
| alloc_fails: "st p = None \<Longrightarrow> foo_alloc1 p False st = (0, st') \<Longrightarrow> ref_step (st, r) (st', r)"
| hold: "(t, p) \<in># r \<Longrightarrow> size r < 2 ^ 31 - 1 \<Longrightarrow> foo_hold1 p st = Inr st' \<Longrightarrow>
    ref_step (st, r) (st', add_mset (t, p) r)"
| pass: "(t, p) \<in># r \<Longrightarrow> ref_step (st, r) (st, add_mset (u, p) (r - {#(t, p)#}))"
| rele: "(t, p) \<in># r \<Longrightarrow> foo_rele1 p st = Inr st' \<Longrightarrow> ref_step (st, r) (st', r - {#(t, p)#})"

inductive_cases ref_stepE: "ref_step s s'"

inductive ref_reach :: "objs1 \<times> refs \<Rightarrow> bool" where
  start: "ref_reach (Map.empty, {#})"
| next_step: "ref_reach s \<Longrightarrow> ref_step s s' \<Longrightarrow> ref_reach s'"

fun counted :: "foo1 option \<Rightarrow> nat \<Rightarrow> bool" where
  "counted None n \<longleftrightarrow> n = 0"
| "counted (Some f) n \<longleftrightarrow> \<not> f1_lock f \<and> 0 < n \<and> f1_count f = int n"

definition exact :: "objs1 \<times> refs \<Rightarrow> bool" where
  "exact s \<longleftrightarrow> size (snd s) < 2 ^ 31 \<and> (\<forall>p. counted (fst s p) (owners p (snd s)))"

lemma owners_simps [simp]:
  "owners p {#} = 0"
  "owners p (add_mset (t, q) r) = (if q = p then Suc (owners p r) else owners p r)"
  by (simp_all add: owners_def)

lemma owners_diff [simp]:
  "(t, q) \<in># r \<Longrightarrow> owners p (r - {#(t, q)#}) = (if q = p then owners p r - 1 else owners p r)"
proof -
  assume "(t, q) \<in># r"
  then obtain r' where "r = add_mset (t, q) r'" by (metis mset_add)
  then show ?thesis by simp
qed

lemma owners_le: "owners p r \<le> size r"
  by (simp add: owners_def size_filter_mset_lesseq)

lemma owners_pos: "(t, p) \<in># r \<Longrightarrow> 0 < owners p r"
  by (auto simp: owners_def simp flip: nonempty_has_size)

lemma exact_owned:
  assumes "exact (st, r)" "(t, p) \<in># r"
  obtains f where "st p = Some f" "\<not> f1_lock f" "f1_count f = int (owners p r)" "0 < owners p r"
    "owners p r < 2 ^ 31"
proof -
  have "owners p r \<noteq> 0" using owners_pos [OF assms(2)] by simp
  then obtain f where "st p = Some f" "\<not> f1_lock f" "f1_count f = int (owners p r)" "0 < owners p r"
    using assms(1) unfolding exact_def by (cases "st p") (auto dest: spec [of _ p])
  moreover have "owners p r < 2 ^ 31"
    using owners_le [of p r] assms(1) by (simp add: exact_def)
  ultimately show thesis by (rule that)
qed

lemma exact_hold:
  assumes e: "exact (st, r)" and o: "(t, p) \<in># r" and b: "size r < 2 ^ 31 - 1"
  shows "\<exists>st'. foo_hold1 p st = Inr st' \<and> exact (st', add_mset (t, p) r)"
proof -
  from exact_owned [OF e o] obtain f where f: "st p = Some f" "\<not> f1_lock f"
    "f1_count f = int (owners p r)" .
  have "owners p r < 2 ^ 31 - 1" using owners_le [of p r] b by simp
  then have w: "wrap32 (f1_count f + 1) = int (owners p r) + 1" using f(3) by (simp add: wrap32_id)
  let ?st = "st(p \<mapsto> f\<lparr>f1_count := wrap32 (f1_count f + 1)\<rparr>)"
  have "exact (?st, add_mset (t, p) r)"
    using e f(2) b w unfolding exact_def by auto
  then show ?thesis using hold1_step [of st p f, OF f(1,2)] by blast
qed

lemma exact_rele:
  assumes e: "exact (st, r)" and o: "(t, p) \<in># r"
  shows "\<exists>st'. foo_rele1 p st = Inr st' \<and> exact (st', r - {#(t, p)#}) \<and> (st' p = None \<longleftrightarrow> owners p r = 1)"
proof -
  from exact_owned [OF e o] obtain f where f: "st p = Some f" "\<not> f1_lock f"
    "f1_count f = int (owners p r)" "0 < owners p r" "owners p r < 2 ^ 31" .
  have w: "wrap32 (f1_count f - 1) = int (owners p r) - 1" using f(3,4,5) by (simp add: wrap32_id)
  have s: "size (r - {#(t, p)#}) < 2 ^ 31"
    using e size_mset_mono [of "r - {#(t, p)#}" r] by (auto simp: exact_def)
  let ?st = "if owners p r = 1 then st(p := None) else st(p \<mapsto> f\<lparr>f1_count := int (owners p r) - 1\<rparr>)"
  have step: "foo_rele1 p st = Inr ?st"
    using rele1_step [of st p f, OF f(1,2)] w f(4) by auto
  have "exact (?st, r - {#(t, p)#})"
    using e f(2,4) s o unfolding exact_def by auto
  then show ?thesis using step f(1) by auto
qed

lemma exact_step: "ref_step s s' \<Longrightarrow> exact s \<Longrightarrow> exact s'"
proof (induction rule: ref_step.induct)
  case (alloc p st r st' t)
  then have "counted None (owners p r)" unfolding exact_def by (metis fst_conv snd_conv)
  with alloc show ?case by (auto simp: exact_def foo_alloc1_def)
next
  case (alloc_fails st p st' r)
  then have "st' = st" by (auto simp: foo_alloc1_def split: if_splits)
  then show ?case using alloc_fails by simp
next
  case (hold t p r st st')
  then show ?case using exact_hold [OF hold(4,1,2)] by auto
next
  case (pass t p r st u)
  then have "owners q (add_mset (u, p) (r - {#(t, p)#})) = owners q r" for q
    using owners_pos [OF pass(1)] by auto
  moreover have "size (add_mset (u, p) (r - {#(t, p)#})) = size r"
    using pass(1) by (metis insert_DiffM size_add_mset)
  ultimately show ?case using pass by (simp add: exact_def)
next
  case (rele t p r st st')
  then show ?case using exact_rele [OF rele(3,1)] by auto
qed

lemma reach_exact: "ref_reach s \<Longrightarrow> exact s"
proof (induction rule: ref_reach.induct)
  case start
  show ?case by (simp add: exact_def)
qed (rule exact_step)

section \<open>Counted objects in a hash table (mutex2.c)\<close>

definition NHASH :: nat where
  "NHASH = 29"

definition HASH :: "nat \<Rightarrow> nat" where
  "HASH fp = fp mod NHASH"

record foo =
  f_count :: int
  f_lock :: bool
  f_next :: nat
  f_id :: int

record table =
  fh :: "nat \<Rightarrow> nat"
  hashlock :: bool
  foos :: "nat \<rightharpoonup> foo"

definition obj :: "nat \<Rightarrow> table \<Rightarrow> fault + foo" where
  "obj fp s = (case foos s fp of None \<Rightarrow> Inl Segv | Some f \<Rightarrow> Inr f)"

definition put_obj :: "nat \<Rightarrow> foo \<Rightarrow> table \<Rightarrow> table" where
  "put_obj fp f s = s\<lparr>foos := (foos s)(fp \<mapsto> f)\<rparr>"

definition lock_hash :: "table \<Rightarrow> fault + table" where
  "lock_hash s = (if hashlock s then Inl Hangs else Inr (s\<lparr>hashlock := True\<rparr>))"

definition unlock_hash :: "table \<Rightarrow> table" where
  "unlock_hash s = s\<lparr>hashlock := False\<rparr>"

definition lock_foo :: "nat \<Rightarrow> table \<Rightarrow> fault + table" where
  "lock_foo fp s = bindR (obj fp s) (\<lambda>f.
     if f_lock f then Inl Hangs else Inr (put_obj fp (f\<lparr>f_lock := True\<rparr>) s))"

definition unlock_foo :: "nat \<Rightarrow> table \<Rightarrow> fault + table" where
  "unlock_foo fp s = bindR (obj fp s) (\<lambda>f. Inr (put_obj fp (f\<lparr>f_lock := False\<rparr>) s))"

definition count_foo :: "int \<Rightarrow> nat \<Rightarrow> table \<Rightarrow> fault + table" where
  "count_foo d fp s = bindR (obj fp s) (\<lambda>f. Inr (put_obj fp (f\<lparr>f_count := wrap32 (f_count f + d)\<rparr>) s))"

text \<open>
  The new object is linked to the chain of its bucket, and the bucket is assigned the object's
  successor. \<open>ident\<close> is the content of \<open>f_id\<close>, which the function leaves as \<open>malloc\<close> gave it.
\<close>

definition link_foo :: "nat \<Rightarrow> table \<Rightarrow> fault + table" where
  "link_foo fp s =
     (let idx = HASH fp
      in bindR (lock_hash s) (\<lambda>s.
         bindR (obj fp s) (\<lambda>f.
         let s = put_obj fp (f\<lparr>f_next := fh s idx\<rparr>) s
         in bindR (obj fp s) (\<lambda>f.
            let s = s\<lparr>fh := (fh s)(idx := f_next f)\<rparr>
            in bindR (lock_foo fp s) (\<lambda>s. Inr (unlock_hash s))))))"

definition foo_alloc2 :: "nat \<Rightarrow> bool \<Rightarrow> int \<Rightarrow> table \<Rightarrow> fault + nat \<times> table" where
  "foo_alloc2 p ok ident s =
     (if p = 0 then Inr (0, s)
      else
        let s = put_obj p \<lparr>f_count = 1, f_lock = False, f_next = 0, f_id = ident\<rparr> s
        in if \<not> ok then Inr (0, s\<lparr>foos := (foos s)(p := None)\<rparr>)
           else bindR (link_foo p s) (\<lambda>s. bindR (unlock_foo p s) (\<lambda>s. Inr (p, s))))"

definition foo_hold2 :: "nat \<Rightarrow> table \<Rightarrow> fault + table" where
  "foo_hold2 fp s = bindR (lock_foo fp s) (\<lambda>s. bindR (count_foo 1 fp s) (unlock_foo fp))"

fun find_chain :: "nat \<Rightarrow> int \<Rightarrow> nat \<Rightarrow> table \<Rightarrow> fault + nat" where
  "find_chain fuel ident fp s =
     (if fp = 0 then Inr 0
      else case fuel of
        0 \<Rightarrow> Inl Hangs
      | Suc fuel' \<Rightarrow> bindR (obj fp s) (\<lambda>f. if f_id f = ident then Inr fp else find_chain fuel' ident (f_next f) s))"

declare find_chain.simps [simp del]

text \<open>\<open>garbage\<close> is the uninitialised pointer whose hash selects the bucket.\<close>

definition foo_find2 :: "nat \<Rightarrow> nat \<Rightarrow> int \<Rightarrow> table \<Rightarrow> fault + nat \<times> table" where
  "foo_find2 fuel garbage ident s =
     bindR (lock_hash s) (\<lambda>s.
     bindR (find_chain fuel ident (fh s (HASH garbage)) s) (\<lambda>fp.
     bindR (if fp = 0 then Inr s else foo_hold2 fp s) (\<lambda>s. Inr (fp, unlock_hash s))))"

text \<open>The walk to the predecessor of \<open>fp\<close> in its chain.\<close>

fun walk_to :: "nat \<Rightarrow> nat \<Rightarrow> nat \<Rightarrow> table \<Rightarrow> fault + nat" where
  "walk_to fuel fp tfp s =
     bindR (obj tfp s) (\<lambda>t.
     if f_next t = fp then Inr tfp
     else case fuel of 0 \<Rightarrow> Inl Hangs | Suc fuel' \<Rightarrow> walk_to fuel' fp (f_next t) s)"

declare walk_to.simps [simp del]

definition unlink_foo :: "nat \<Rightarrow> nat \<Rightarrow> table \<Rightarrow> fault + table" where
  "unlink_foo fuel fp s =
     (let idx = HASH fp; tfp = fh s idx
      in bindR (obj fp s) (\<lambda>f.
         if tfp = fp then Inr (s\<lparr>fh := (fh s)(idx := f_next f)\<rparr>)
         else bindR (walk_to fuel fp tfp s) (\<lambda>tfp.
              bindR (obj tfp s) (\<lambda>t. Inr (put_obj tfp (t\<lparr>f_next := f_next f\<rparr>) s)))))"

definition foo_rele2 :: "nat \<Rightarrow> nat \<Rightarrow> table \<Rightarrow> fault + table" where
  "foo_rele2 fuel fp s =
     bindR (lock_foo fp s) (\<lambda>s.
     bindR (obj fp s) (\<lambda>f.
     if f_count f = 1
     then
       bindR (unlock_foo fp s) (\<lambda>s.
       bindR (lock_hash s) (\<lambda>s.
       bindR (lock_foo fp s) (\<lambda>s.
       bindR (obj fp s) (\<lambda>f.
       if f_count f \<noteq> 1
       then bindR (count_foo (- 1) fp s) (\<lambda>s.
            bindR (unlock_foo fp s) (\<lambda>s. Inr (unlock_hash s)))
       else bindR (unlink_foo fuel fp s) (\<lambda>s.
            bindR (unlock_foo fp (unlock_hash s)) (\<lambda>s.
            Inr (s\<lparr>foos := (foos s)(fp := None)\<rparr>)))))))
     else bindR (count_foo (- 1) fp s) (unlock_foo fp)))"

section \<open>The same with one lock (mutex3.c)\<close>

text \<open>\<open>foo_alloc\<close> of this program returns with the object's lock held.\<close>

definition foo_alloc3 :: "nat \<Rightarrow> bool \<Rightarrow> int \<Rightarrow> table \<Rightarrow> fault + nat \<times> table" where
  "foo_alloc3 p ok ident s =
     (if p = 0 then Inr (0, s)
      else
        let s = put_obj p \<lparr>f_count = 1, f_lock = False, f_next = 0, f_id = ident\<rparr> s
        in if \<not> ok then Inr (0, s\<lparr>foos := (foos s)(p := None)\<rparr>)
           else bindR (link_foo p s) (\<lambda>s. Inr (p, s)))"

definition foo_hold3 :: "nat \<Rightarrow> table \<Rightarrow> fault + table" where
  "foo_hold3 fp s = bindR (lock_hash s) (\<lambda>s. bindR (count_foo 1 fp s) (\<lambda>s. Inr (unlock_hash s)))"

definition foo_find3 :: "nat \<Rightarrow> nat \<Rightarrow> int \<Rightarrow> table \<Rightarrow> fault + nat \<times> table" where
  "foo_find3 fuel garbage ident s =
     bindR (lock_hash s) (\<lambda>s.
     bindR (find_chain fuel ident (fh s (HASH garbage)) s) (\<lambda>fp.
     bindR (if fp = 0 then Inr s else count_foo 1 fp s) (\<lambda>s. Inr (fp, unlock_hash s))))"

definition foo_rele3 :: "nat \<Rightarrow> nat \<Rightarrow> table \<Rightarrow> fault + table" where
  "foo_rele3 fuel fp s =
     bindR (lock_hash s) (\<lambda>s.
     bindR (count_foo (- 1) fp s) (\<lambda>s.
     bindR (obj fp s) (\<lambda>f.
     if f_count f = 0
     then bindR (unlink_foo fuel fp s) (\<lambda>s.
          Inr ((unlock_hash s)\<lparr>foos := (foos s)(fp := None)\<rparr>))
     else Inr (unlock_hash s))))"

section \<open>The table stays empty\<close>

definition no_entries :: "table \<Rightarrow> bool" where
  "no_entries s \<longleftrightarrow> (\<forall>i. fh s i = 0) \<and> foos s 0 = None"

text \<open>No function but the allocation changes the table, and the allocation assigns a NULL.\<close>

definition idle :: "table \<Rightarrow> bool" where
  "idle s \<longleftrightarrow> no_entries s \<and> \<not> hashlock s"

lemma idle_put [simp]: "foos s 0 = None \<Longrightarrow> p \<noteq> 0 \<Longrightarrow> idle (put_obj p f s) = idle s"
  by (simp add: idle_def no_entries_def put_obj_def)

lemma obj_nonnull: "obj p s = Inr f \<Longrightarrow> no_entries s \<Longrightarrow> p \<noteq> 0"
  by (cases "p = 0") (simp_all add: obj_def no_entries_def)

lemma idleD: "idle s \<Longrightarrow> no_entries s" "idle s \<Longrightarrow> foos s 0 = None" "idle s \<Longrightarrow> \<not> hashlock s"
  by (simp_all add: idle_def no_entries_def)

lemma lock_foo_idle: "lock_foo p s = Inr s' \<Longrightarrow> idle s \<Longrightarrow> idle s'"
  by (auto simp: lock_foo_def bindR_eq_Inr idleD dest: obj_nonnull split: if_splits)

lemma unlock_foo_idle: "unlock_foo p s = Inr s' \<Longrightarrow> idle s \<Longrightarrow> idle s'"
  by (auto simp: unlock_foo_def bindR_eq_Inr idleD dest: obj_nonnull)

lemma count_foo_idle: "count_foo d p s = Inr s' \<Longrightarrow> idle s \<Longrightarrow> idle s'"
  by (auto simp: count_foo_def bindR_eq_Inr idleD dest: obj_nonnull)

lemma link_foo_idle: "link_foo p s = Inr s' \<Longrightarrow> p \<noteq> 0 \<Longrightarrow> idle s \<Longrightarrow> idle s'"
  by (auto simp: link_foo_def lock_hash_def obj_def put_obj_def lock_foo_def unlock_hash_def Let_def
      idle_def no_entries_def split: option.splits if_splits)

lemma alloc_idle:
  assumes "idle s"
  shows "foo_alloc2 p ok i s = Inr (r, s') \<Longrightarrow> idle s'"
    and "foo_alloc3 p ok i s = Inr (r, s') \<Longrightarrow> idle s'"
proof -
  let ?s = "put_obj p \<lparr>f_count = 1, f_lock = False, f_next = 0, f_id = i\<rparr> s"
  have put: "p \<noteq> 0 \<Longrightarrow> idle ?s" using assms by (simp add: idleD)
  have del: "p \<noteq> 0 \<Longrightarrow> idle (?s\<lparr>foos := (foos ?s)(p := None)\<rparr>)"
    using assms by (simp add: idle_def no_entries_def put_obj_def)
  show "foo_alloc2 p ok i s = Inr (r, s') \<Longrightarrow> idle s'"
    using assms put del
    by (auto simp: foo_alloc2_def Let_def bindR_eq_Inr split: if_splits
        intro: link_foo_idle unlock_foo_idle)
  show "foo_alloc3 p ok i s = Inr (r, s') \<Longrightarrow> idle s'"
    using assms put del
    by (auto simp: foo_alloc3_def Let_def bindR_eq_Inr split: if_splits intro: link_foo_idle)
qed

lemma hold2_idle: "foo_hold2 p s = Inr s' \<Longrightarrow> idle s \<Longrightarrow> idle s'"
  by (auto simp: foo_hold2_def bindR_eq_Inr dest: lock_foo_idle count_foo_idle unlock_foo_idle)

lemma find_empty:
  "no_entries s \<Longrightarrow> \<not> hashlock s \<Longrightarrow> foo_find2 fuel g i s = Inr (0, s)"
  "no_entries s \<Longrightarrow> \<not> hashlock s \<Longrightarrow> foo_find3 fuel g i s = Inr (0, s)"
  by (simp_all add: foo_find2_def foo_find3_def lock_hash_def unlock_hash_def no_entries_def
      find_chain.simps)

lemma unlink_empty:
  assumes "no_entries s" "fp \<noteq> 0" "foos s fp = Some f"
  shows "unlink_foo fuel fp s = Inl Segv"
  using assms by (simp add: unlink_foo_def Let_def no_entries_def obj_def walk_to.simps)

lemma rele2_last_faults:
  assumes "no_entries s" "fp \<noteq> 0" "foos s fp = Some f" "f_count f = 1" "\<not> f_lock f" "\<not> hashlock s"
  shows "foo_rele2 fuel fp s = Inl Segv"
proof -
  let ?s = "put_obj fp (f\<lparr>f_lock := True\<rparr>) (put_obj fp (f\<lparr>f_lock := False\<rparr>)
      (put_obj fp (f\<lparr>f_lock := True\<rparr>) s)\<lparr>hashlock := True\<rparr>)"
  have u: "unlink_foo fuel fp ?s = Inl Segv"
    using assms by (intro unlink_empty [of _ _ "f\<lparr>f_lock := True\<rparr>"]) (simp_all add: no_entries_def put_obj_def)
  show ?thesis
    using assms u
    by (simp add: foo_rele2_def lock_foo_def unlock_foo_def lock_hash_def obj_def put_obj_def)
qed

lemma rele3_last_faults:
  assumes "no_entries s" "fp \<noteq> 0" "foos s fp = Some f" "f_count f = 1" "\<not> hashlock s"
  shows "foo_rele3 fuel fp s = Inl Segv"
proof -
  let ?s = "put_obj fp (f\<lparr>f_count := 0\<rparr>) (s\<lparr>hashlock := True\<rparr>)"
  have u: "unlink_foo fuel fp ?s = Inl Segv"
    using assms by (intro unlink_empty [of _ _ "f\<lparr>f_count := 0\<rparr>"]) (simp_all add: no_entries_def put_obj_def)
  show ?thesis
    using assms u
    by (simp add: foo_rele3_def count_foo_def lock_hash_def obj_def put_obj_def wrap32_id)
qed

text \<open>The tables the functions of \<open>mutex2.c\<close> can produce from the empty one.\<close>

inductive tab_reach :: "table \<Rightarrow> bool" where
  t_start: "(\<forall>i. fh s i = 0) \<Longrightarrow> foos s = Map.empty \<Longrightarrow> \<not> hashlock s \<Longrightarrow> tab_reach s"
| t_alloc: "tab_reach s \<Longrightarrow> foo_alloc2 p ok i s = Inr (r, s') \<Longrightarrow> tab_reach s'"
| t_hold: "tab_reach s \<Longrightarrow> foo_hold2 p s = Inr s' \<Longrightarrow> tab_reach s'"
| t_find: "tab_reach s \<Longrightarrow> foo_find2 fuel g i s = Inr (r, s') \<Longrightarrow> tab_reach s'"
| t_rele: "tab_reach s \<Longrightarrow> foo_rele2 fuel p s = Inr s' \<Longrightarrow> tab_reach s'"

lemma rele2_idle:
  assumes "foo_rele2 fuel p s = Inr s'" "idle s"
  shows "idle s'"
proof -
  from assms(1) obtain s1 f where l: "lock_foo p s = Inr s1" "obj p s1 = Inr f"
    by (auto simp: foo_rele2_def bindR_eq_Inr)
  have i1: "idle s1" using lock_foo_idle [OF l(1) assms(2)] .
  from l(1) obtain g where g: "foos s p = Some g" "\<not> f_lock g" "s1 = put_obj p (g\<lparr>f_lock := True\<rparr>) s"
    by (auto simp: lock_foo_def obj_def bindR_eq_Inr split: option.splits if_splits)
  have p0: "p \<noteq> 0" using obj_nonnull [OF l(2)] i1 idleD(1) by blast
  have "f_count f = f_count g" using l(2) g(3) by (auto simp: obj_def put_obj_def)
  moreover have "f_count g \<noteq> 1"
    using rele2_last_faults [of s p g fuel] assms idleD p0 g(1,2) by auto
  ultimately have "bindR (count_foo (- 1) p s1) (unlock_foo p) = Inr s'"
    using assms(1) l by (simp add: foo_rele2_def)
  then show ?thesis using i1 by (auto simp: bindR_eq_Inr intro: count_foo_idle unlock_foo_idle)
qed

lemma tab_reach_idle: "tab_reach s \<Longrightarrow> idle s"
proof (induction rule: tab_reach.induct)
  case (t_start s)
  then show ?case by (simp add: idle_def no_entries_def)
next
  case (t_find s fuel g i r s')
  then show ?case using find_empty(1) [of s fuel g i] idleD by auto
qed (auto intro: alloc_idle hold2_idle rele2_idle)

section \<open>The message queue (condvar.c)\<close>

record msgq =
  workq :: nat
  m_next :: "nat \<rightharpoonup> nat"

definition enqueue_msg :: "nat \<Rightarrow> msgq \<Rightarrow> fault + msgq" where
  "enqueue_msg mp s =
     (if mp = 0 then Inl Segv else Inr (s\<lparr>m_next := (m_next s)(mp \<mapsto> workq s), workq := mp\<rparr>))"

text \<open>One round of \<open>process_msg\<close>; \<open>None\<close> is a thread that waits on the condition.\<close>

definition process_msg :: "msgq \<Rightarrow> fault + (nat \<times> msgq) option" where
  "process_msg s =
     (if workq s = 0 then Inr None
      else case m_next s (workq s) of
        None \<Rightarrow> Inl Segv
      | Some n \<Rightarrow> Inr (Some (workq s, s\<lparr>workq := n\<rparr>)))"

fun msgs :: "msgq \<Rightarrow> nat \<Rightarrow> nat list \<Rightarrow> bool" where
  "msgs s p [] \<longleftrightarrow> p = 0"
| "msgs s p (x # xs) \<longleftrightarrow> p = x \<and> x \<noteq> 0 \<and> (\<exists>n. m_next s x = Some n \<and> msgs s n xs)"

lemma msgs_upd [simp]: "x \<notin> set xs \<Longrightarrow> msgs (s\<lparr>m_next := (m_next s)(x \<mapsto> v)\<rparr>) p xs = msgs s p xs"
  by (induction xs arbitrary: p) auto

lemma msgs_workq [simp]: "msgs (s\<lparr>workq := w\<rparr>) p xs = msgs s p xs"
  by (induction xs arbitrary: p) auto

lemma enqueue_spec:
  "msgs s (workq s) xs \<Longrightarrow> mp \<noteq> 0 \<Longrightarrow> mp \<notin> set xs \<Longrightarrow>
     \<exists>s'. enqueue_msg mp s = Inr s' \<and> msgs s' (workq s') (mp # xs)"
  by (simp add: enqueue_msg_def)

lemma process_spec:
  "msgs s (workq s) xs \<Longrightarrow> (case xs of [] \<Rightarrow> process_msg s = Inr None
     | x # ys \<Rightarrow> \<exists>s'. process_msg s = Inr (Some (x, s')) \<and> msgs s' (workq s') ys)"
  by (cases xs) (auto simp: process_msg_def)

section \<open>Properties\<close>


lemma reach_one: "ref_reach ([8 \<mapsto> \<lparr>f1_count = 1, f1_lock = False\<rparr>], {#(1, 8)#})"
  by (rule ref_reach.next_step [OF ref_reach.start], rule ref_step.alloc)
    (simp_all add: foo_alloc1_def)


text \<open>
  The objects of \<open>mutex2.c\<close> never get into the hash table: whatever sequence of its functions
  has run, \<open>foo_find\<close> returns NULL for every identifier, and releasing the last reference of an
  object follows a NULL pointer.
\<close>

lemma foo_table_never_filled:
  assumes "tab_reach s"
  shows "foo_find2 fuel g i s = Inr (0, s) \<and>
    (case foos s p of
       None \<Rightarrow> True
     | Some f \<Rightarrow> f_count f = 1 \<and> \<not> f_lock f \<longrightarrow> foo_rele2 fuel p s = Inl Segv)"
proof -
  have d: "no_entries s" "\<not> hashlock s" "foos s 0 = None" using idleD tab_reach_idle [OF assms] by auto
  have "foo_rele2 fuel p s = Inl Segv" if f: "foos s p = Some f" "f_count f = 1" "\<not> f_lock f" for f
  proof -
    have "p \<noteq> 0" using d(3) f(1) by (cases "p = 0") simp_all
    then show ?thesis using rele2_last_faults [OF d(1) _ f(1,2,3) d(2)] by simp
  qed
  then show ?thesis using d find_empty(1) by (auto split: option.split)
qed

definition one_foo :: table where
  "one_foo = \<lparr>fh = \<lambda>_. 0, hashlock = False,
     foos = [8 \<mapsto> \<lparr>f_count = 1, f_lock = False, f_next = 0, f_id = 7\<rparr>]\<rparr>"

lemma one_foo_reach: "tab_reach one_foo"
proof (rule tab_reach.t_alloc [OF tab_reach.t_start])
  show "foo_alloc2 8 True 7 \<lparr>fh = \<lambda>_. 0, hashlock = False, foos = Map.empty\<rparr> = Inr (8, one_foo)"
    by (simp add: one_foo_def foo_alloc2_def link_foo_def lock_hash_def obj_def put_obj_def lock_foo_def
        unlock_hash_def unlock_foo_def Let_def fun_upd_idem)
qed simp_all

lemma foo_table_never_filled_example:
  "foo_find2 5 3 7 one_foo = Inr (0, one_foo) \<and> foo_rele2 5 8 one_foo = Inl Segv"
  using foo_table_never_filled [OF one_foo_reach, of 5 3 7 8]
  by (simp add: one_foo_def)

text \<open>
  \<open>foo_alloc\<close> of \<open>mutex3.c\<close> leaves its table empty as well and returns with the lock of
  the new object held; the first \<open>foo_rele\<close> of the object follows a NULL pointer.
\<close>

lemma foo3_alloc_then_rele:
  assumes "idle s" "p \<noteq> 0"
  shows "\<exists>s' f. foo_alloc3 p True i s = Inr (p, s') \<and> foos s' p = Some f \<and> f_lock f \<and>
    foo_find3 fuel g i s' = Inr (0, s') \<and> foo_rele3 fuel p s' = Inl Segv"
proof -
  let ?s = "s\<lparr>foos := (foos s)(p \<mapsto> \<lparr>f_count = 1, f_lock = True, f_next = 0, f_id = i\<rparr>)\<rparr>"
  have a: "foo_alloc3 p True i s = Inr (p, ?s)"
    using assms by (cases s) (simp add: foo_alloc3_def link_foo_def lock_hash_def obj_def put_obj_def
        lock_foo_def unlock_hash_def Let_def idle_def no_entries_def fun_upd_idem)
  have "idle ?s" using alloc_idle(2) [OF assms(1) a] .
  note d = idleD(1,3) [OF this]
  have "foo_find3 fuel g i ?s = Inr (0, ?s)" using d by (rule find_empty(2))
  moreover have "foo_rele3 fuel p ?s = Inl Segv"
    by (rule rele3_last_faults [OF d(1) assms(2), of "\<lparr>f_count = 1, f_lock = True, f_next = 0, f_id = i\<rparr>"])
      (use d(2) in simp_all)
  ultimately show ?thesis
    using a by (intro exI [of _ ?s] exI [of _ "\<lparr>f_count = 1, f_lock = True, f_next = 0, f_id = i\<rparr>"]) simp
qed

lemma foo3_alloc_then_rele_example:
  "\<exists>s'. foo_alloc3 8 True 7 \<lparr>fh = \<lambda>_. 0, hashlock = False, foos = Map.empty\<rparr> = Inr (8, s') \<and>
     foo_rele3 4 8 s' = Inl Segv"
  using foo3_alloc_then_rele [of "\<lparr>fh = \<lambda>_. 0, hashlock = False, foos = Map.empty\<rparr>" 8 7 4 0]
  by (auto simp: idle_def no_entries_def)

text \<open>
  The message queue of \<open>condvar.c\<close> is a stack: a round of \<open>process_msg\<close> after
  \<open>enqueue_msg\<close> returns the message enqueued last and leaves the others in order; with no
  message the thread waits.
\<close>

lemma condvar_lifo:
  assumes "msgs s (workq s) xs" "mp \<noteq> 0" "mp \<notin> set xs"
  shows "\<exists>s1 s2. enqueue_msg mp s = Inr s1 \<and> process_msg s1 = Inr (Some (mp, s2)) \<and>
    msgs s2 (workq s2) xs \<and> (xs = [] \<longrightarrow> process_msg s2 = Inr None)"
proof -
  from enqueue_spec [OF assms] obtain s1 where
    e: "enqueue_msg mp s = Inr s1" "msgs s1 (workq s1) (mp # xs)" by blast
  from process_spec [OF e(2)] obtain s2 where
    p: "process_msg s1 = Inr (Some (mp, s2))" "msgs s2 (workq s2) xs" by auto
  from process_spec [OF p(2)] have "xs = [] \<longrightarrow> process_msg s2 = Inr None" by auto
  with e p show ?thesis by blast
qed

lemma condvar_lifo_example:
  "\<exists>s1 s2. enqueue_msg 5 \<lparr>workq = 9, m_next = [9 \<mapsto> 0]\<rparr> = Inr s1 \<and> process_msg s1 = Inr (Some (5, s2)) \<and>
     msgs s2 (workq s2) [9]"
  using condvar_lifo [of "\<lparr>workq = 9, m_next = [9 \<mapsto> 0]\<rparr>" "[9]" 5] by auto

end
