(* ===== verification/Rwlock.thy ===== *)
theory Rwlock
  imports Dll
begin

text \<open>
  The work queue of \<open>threads/rwlock.c\<close>: jobs tagged with the thread that handles them, in a
  doubly linked list under a reader/writer lock. Insertion and append keep the list; the
  removal does so only for a job that is not at an end.
\<close>

section \<open>The queue\<close>

type_synonym tid = nat

type_synonym queue = "tid dlist"

text \<open>\<open>err\<close> is what \<open>pthread_rwlock_init\<close> returns.\<close>

definition queue_init :: "int \<Rightarrow> queue \<Rightarrow> int \<times> queue" where
  "queue_init err qp =
     (let qp = qp\<lparr>head := 0, tail := 0\<rparr> in if err \<noteq> 0 then (err, qp) else (0, qp))"

definition job_insert :: "nat \<Rightarrow> queue \<Rightarrow> fault + queue" where
  "job_insert jp qp =
     bindR (set_nxt jp (head qp) (cells qp)) (\<lambda>h.
     bindR (set_prv jp 0 h) (\<lambda>h.
     let qp = qp\<lparr>cells := h\<rparr>
     in bindR (if head qp \<noteq> 0
               then bindR (set_prv (head qp) jp (cells qp)) (\<lambda>h. Inr (qp\<lparr>cells := h\<rparr>))
               else Inr (qp\<lparr>tail := jp\<rparr>)) (\<lambda>qp.
        Inr (qp\<lparr>head := jp\<rparr>))))"

definition job_append :: "nat \<Rightarrow> queue \<Rightarrow> fault + queue" where
  "job_append jp qp =
     bindR (set_nxt jp 0 (cells qp)) (\<lambda>h.
     bindR (set_prv jp (tail qp) h) (\<lambda>h.
     let qp = qp\<lparr>cells := h\<rparr>
     in bindR (if tail qp \<noteq> 0
               then bindR (set_nxt (tail qp) jp (cells qp)) (\<lambda>h. Inr (qp\<lparr>cells := h\<rparr>))
               else Inr (qp\<lparr>head := jp\<rparr>)) (\<lambda>qp.
        Inr (qp\<lparr>tail := jp\<rparr>))))"

definition job_remove :: "nat \<Rightarrow> queue \<Rightarrow> fault + queue" where
  "job_remove jp qp =
     bindR (deref (cells qp) jp) (\<lambda>n.
     if jp = head qp
     then (let qp = qp\<lparr>head := nxt n\<rparr> in Inr (if tail qp = jp then qp\<lparr>tail := 0\<rparr> else qp))
     else if jp = tail qp
     then (let qp = qp\<lparr>tail := prv n\<rparr> in Inr (if head qp = jp then qp\<lparr>head := 0\<rparr> else qp))
     else
       bindR (set_nxt (prv n) (nxt n) (cells qp)) (\<lambda>h.
       bindR (deref h jp) (\<lambda>n.
       bindR (set_prv (nxt n) (prv n) h) (\<lambda>h. Inr (qp\<lparr>cells := h\<rparr>)))))"

text \<open>
  The search from the head, at most \<open>fuel\<close> nodes; \<open>rd\<close> is whether the read lock was obtained.
\<close>

fun find_from :: "nat \<Rightarrow> tid cells \<Rightarrow> tid \<Rightarrow> nat \<Rightarrow> fault + nat" where
  "find_from fuel h i jp =
     (if jp = 0 then Inr 0
      else case fuel of
        0 \<Rightarrow> Inl Hangs
      | Suc fuel' \<Rightarrow> bindR (deref h jp) (\<lambda>n. if payload n = i then Inr jp else find_from fuel' h i (nxt n)))"

declare find_from.simps [simp del]

definition job_find :: "nat \<Rightarrow> bool \<Rightarrow> tid \<Rightarrow> queue \<Rightarrow> fault + nat" where
  "job_find fuel rd i qp = (if \<not> rd then Inr 0 else find_from fuel (cells qp) i (head qp))"

section \<open>Insertion and append\<close>

lemma job_insert_link:
  assumes "cells q jp = Some n"
  shows "job_insert jp q = link_first jp (payload n) q"
  using assms by (cases q; cases n) (simp add: job_insert_def link_first_def Let_def bindR_assoc)

lemma job_append_link:
  assumes "cells q jp = Some n"
  shows "job_append jp q = link_last jp (payload n) q"
  using assms by (cases q; cases n) (simp add: job_append_def link_last_def Let_def bindR_assoc)

definition enter :: "nat \<Rightarrow> tid \<Rightarrow> queue \<Rightarrow> queue" where
  "enter p i q = q\<lparr>cells := (cells q)(p \<mapsto> \<lparr>nxt = 0, prv = 0, payload = i\<rparr>)\<rparr>"

text \<open>The operations on a job structure the caller has filled in.\<close>

definition append_new :: "nat \<Rightarrow> tid \<Rightarrow> queue \<Rightarrow> fault + queue" where
  "append_new p i q = job_append p (enter p i q)"

definition insert_new :: "nat \<Rightarrow> tid \<Rightarrow> queue \<Rightarrow> fault + queue" where
  "insert_new p i q = job_insert p (enter p i q)"

lemma new_link:
  "append_new p i q = link_last p i q" "insert_new p i q = link_first p i q"
  by (cases q; simp add: append_new_def insert_new_def job_append_link job_insert_link enter_def
      link_last_def link_first_def Let_def)+

interpretation rwq: job_queue drep payloads append_new insert_new
proof (unfold_locales, goal_cases)
  case (1 q xs p v)
  then show ?case using link_last_drep [of q xs p v] by (simp add: new_link)
next
  case (2 q xs p v)
  then show ?case using link_first_drep [of q xs p v] by (simp add: new_link)
qed

section \<open>Search\<close>

text \<open>The first job of the thread in the list, 0 when there is none.\<close>

definition first_of :: "tid cells \<Rightarrow> tid \<Rightarrow> nat list \<Rightarrow> nat" where
  "first_of h i xs = first (filter (\<lambda>x. payload (the (h x)) = i) xs) 0"

lemma find_from_dseg:
  assumes "dseg h pr xs 0" "length xs \<le> fuel"
  shows "find_from fuel h i (first xs 0) = Inr (first_of h i xs)"
  using assms
proof (induction xs arbitrary: pr fuel)
  case Nil
  then show ?case by (simp add: find_from.simps first_of_def)
next
  case (Cons x xs)
  then obtain fuel' where f: "fuel = Suc fuel'" by (cases fuel) auto
  from Cons show ?case by (auto simp: f find_from.simps [of "Suc fuel'"] first_of_def)
qed

lemma job_find_drep:
  "drep q xs \<Longrightarrow> length xs \<le> fuel \<Longrightarrow> job_find fuel True i q = Inr (first_of (cells q) i xs)"
  using find_from_dseg [of "cells q" 0 xs fuel i] by (simp add: job_find_def drep_def)

section \<open>Removal\<close>

text \<open>A job with neighbours on both sides is taken out.\<close>

lemma job_remove_middle:
  assumes r: "drep q (ys @ x # zs)" and e: "ys \<noteq> []" "zs \<noteq> []"
  shows "job_remove x q = unlink x q"
proof -
  obtain ys' y where ys: "ys = ys' @ [y]" using e(1) by (cases ys rule: rev_cases) auto
  obtain z zs' where zs: "zs = z # zs'" using e(2) by (cases zs) auto
  from drep_ends(3) [OF r] obtain n where n: "cells q x = Some n" "prv n = y" "nxt n = z"
    by (auto simp: ys zs)
  obtain j k where jk: "cells q y = Some j" "cells q z = Some k"
    using drep_node [OF r, of y] drep_node [OF r, of z] ys zs by auto
  have "0 \<notin> set (ys @ x # zs)" "distinct (ys @ x # zs)"
    using r dseg_nonzero by (auto simp: drep_def)
  then have nz: "y \<noteq> 0" "z \<noteq> 0" "y \<noteq> x" "z \<noteq> x" "y \<noteq> z" by (auto simp: ys zs)
  have ht: "x \<noteq> head q" "x \<noteq> tail q" using drep_ends(1,2) [OF r] e by auto
  have "(cells q)(y \<mapsto> j\<lparr>nxt := z\<rparr>, z \<mapsto> k\<lparr>prv := y\<rparr>) = (cells q)(z \<mapsto> k\<lparr>prv := y\<rparr>, y \<mapsto> j\<lparr>nxt := z\<rparr>)"
    using nz(5) by (rule fun_upd_twist)
  then show ?thesis
    using n jk nz ht by (simp add: job_remove_def unlink_def)
qed

text \<open>
  The last job of several keeps its place in the links: the tail moves back, and the node
  before it still points to the job that was removed.
\<close>

lemma job_remove_last:
  assumes r: "drep q (ys @ [y, x])"
  shows "job_remove x q = Inr (q\<lparr>tail := y\<rparr>)"
proof -
  have r': "drep q ((ys @ [y]) @ x # [])" using r by simp
  from drep_ends(3) [OF r'] obtain n where n: "cells q x = Some n" "prv n = y" by auto
  have "head q \<noteq> x" "tail q = x" using drep_ends(1,2) [OF r'] by auto
  then show ?thesis using n by (simp add: job_remove_def)
qed

text \<open>The first job of several: the links forward from the new head are right, its link back is not.\<close>

lemma job_remove_first:
  assumes r: "drep q (x # y # zs)"
  shows "job_remove x q = Inr (q\<lparr>head := y\<rparr>)"
proof -
  have r': "drep q ([] @ x # y # zs)" using r by simp
  from drep_ends(3) [OF r'] obtain n where n: "cells q x = Some n" "nxt n = y" by auto
  have "head q = x" "tail q \<noteq> x" using drep_ends(1,2) [OF r'] by auto
  then show ?thesis using n by (simp add: job_remove_def)
qed

lemma job_remove_only:
  assumes "drep q [x]"
  shows "\<exists>q'. job_remove x q = Inr q' \<and> drep q' []"
  using assms by (auto simp: drep_def job_remove_def)

section \<open>Properties\<close>

text \<open>
  After appending jobs to a queue, \<open>job_find\<close> returns the first of them that the thread
  handles, in the order of the appends, and NULL when there is none.
\<close>

lemma rw_append_find:
  assumes "drep q []" "distinct (map fst jobs)" "0 \<notin> set (map fst jobs)" "length jobs \<le> fuel"
  shows "\<exists>q'. put_all append_new jobs q = Inr q' \<and>
    job_find fuel True i q' = Inr (case filter (\<lambda>j. snd j = i) jobs of [] \<Rightarrow> 0 | j # _ \<Rightarrow> fst j)"
proof -
  from rwq.put_all_rep [OF assms(1,2) _ assms(3)] obtain q' where
    q: "put_all append_new jobs q = Inr q'" "drep q' (map fst jobs)"
    "payloads q' (map fst jobs) = map snd jobs" by (auto simp: payloads_def)
  have "map (\<lambda>j. payload (the (cells q' (fst j)))) jobs = map snd jobs"
    using q(3) by (simp add: payloads_def comp_def)
  then have v: "\<forall>j \<in> set jobs. payload (the (cells q' (fst j))) = snd j" by simp
  have "first_of (cells q') i (map fst jobs) =
      (case filter (\<lambda>j. snd j = i) jobs of [] \<Rightarrow> 0 | j # _ \<Rightarrow> fst j)"
    using v unfolding first_of_def by (induction jobs) auto
  then show ?thesis using q(1) job_find_drep [OF q(2), of fuel i] assms(4) by auto
qed

definition empty_queue :: queue where
  "empty_queue = \<lparr>cells = Map.empty, head = 0, tail = 0\<rparr>"

lemma empty_queue_rep: "drep empty_queue []"
  by (simp add: drep_def empty_queue_def)

lemma rw_append_find_example:
  "\<exists>q'. put_all append_new [(16, 1), (32, 2), (48, 2)] empty_queue = Inr q' \<and>
     job_find 3 True 2 q' = Inr 32"
  using rw_append_find [OF empty_queue_rep, of "[(16, 1), (32, 2), (48, 2)]" 3 2] by simp

text \<open>
  A job removed from the end of a queue of several jobs is still found: the link of the job
  before it is not reset, so \<open>job_find\<close> returns the removed job.
\<close>

lemma rw_removed_tail_found:
  assumes r: "drep q (ys @ [y, x])" and n: "cells q x = Some n"
    and u: "\<forall>z \<in> set (ys @ [y]). payload (the (cells q z)) \<noteq> payload n" and f: "length ys + 2 \<le> fuel"
  shows "\<exists>q'. job_remove x q = Inr q' \<and> tail q' = y \<and> job_find fuel True (payload n) q' = Inr x"
proof -
  have "job_find fuel True (payload n) (q\<lparr>tail := y\<rparr>) = job_find fuel True (payload n) q"
    by (simp add: job_find_def)
  also have "\<dots> = Inr (first_of (cells q) (payload n) (ys @ [y, x]))"
    using job_find_drep [OF r] f by simp
  also have "first_of (cells q) (payload n) (ys @ [y, x]) = x"
    using u n by (simp add: first_of_def filter_False)
  finally show ?thesis using job_remove_last [OF r] by simp
qed

definition two_jobs :: queue where
  "two_jobs = \<lparr>cells = [16 \<mapsto> \<lparr>nxt = 32, prv = 0, payload = 1\<rparr>, 32 \<mapsto> \<lparr>nxt = 0, prv = 16, payload = 2\<rparr>],
     head = 16, tail = 32\<rparr>"

lemma rw_removed_tail_found_example:
  "\<exists>q'. job_remove 32 two_jobs = Inr q' \<and> tail q' = 16 \<and> job_find 2 True 2 q' = Inr 32"
  using rw_removed_tail_found [of two_jobs "[]" 16 32 "\<lparr>nxt = 0, prv = 16, payload = 2\<rparr>" 2]
  by (simp add: two_jobs_def drep_def)

text \<open>A job that is neither first nor last is taken out of the queue and the rest is kept.\<close>

lemma rw_remove_middle:
  assumes "drep q (ys @ x # zs)" "ys \<noteq> []" "zs \<noteq> []"
  shows "\<exists>q'. job_remove x q = Inr q' \<and> drep q' (ys @ zs) \<and> payloads q' (ys @ zs) = payloads q (ys @ zs)"
  using job_remove_middle [OF assms] unlink_drep [OF assms(1)] by auto

lemma rw_remove_middle_example:
  "\<exists>q'. job_remove 32 \<lparr>cells = [16 \<mapsto> \<lparr>nxt = 32, prv = 0, payload = 1\<rparr>, 32 \<mapsto> \<lparr>nxt = 48, prv = 16, payload = 2\<rparr>,
        48 \<mapsto> \<lparr>nxt = 0, prv = 32, payload = 3\<rparr>], head = 16, tail = 48\<rparr> = Inr q' \<and> drep q' [16, 48]"
  using rw_remove_middle [of "\<lparr>cells = [16 \<mapsto> \<lparr>nxt = 32, prv = 0, payload = 1\<rparr>, 32 \<mapsto> \<lparr>nxt = 48, prv = 16, payload = 2\<rparr>,
        48 \<mapsto> \<lparr>nxt = 0, prv = 32, payload = 3\<rparr>], head = 16, tail = 48\<rparr>" "[16]" 32 "[48]"]
  by (auto simp: drep_def)

end
