(* ===== verification/C_Net.thy ===== *)
theory C_Net
  imports C_Prelude
begin

text \<open>
  Numbers in network byte order: the bytes \<open>htons\<close> and \<open>htonl\<close> leave in memory on a
  little-endian host, and the number \<open>htonl\<close> itself returns.
\<close>

definition byte :: "int \<Rightarrow> char" where
  "byte n = char_of (nat (n mod 256))"

definition ubyte :: "char \<Rightarrow> int" where
  "ubyte c = int (of_char c :: nat)"

definition be16 :: "int \<Rightarrow> string" where
  "be16 n = [byte (n div 2 ^ 8), byte n]"

definition be32 :: "int \<Rightarrow> string" where
  "be32 n = [byte (n div 2 ^ 24), byte (n div 2 ^ 16), byte (n div 2 ^ 8), byte n]"

definition get16 :: "string \<Rightarrow> int" where
  "get16 s = ubyte (s ! 0) * 2 ^ 8 + ubyte (s ! 1)"

definition get32 :: "string \<Rightarrow> int" where
  "get32 s = ubyte (s ! 0) * 2 ^ 24 + ubyte (s ! 1) * 2 ^ 16 + ubyte (s ! 2) * 2 ^ 8 + ubyte (s ! 3)"

lemma ubyte_byte [simp]: "ubyte (byte n) = n mod 256"
proof -
  have "nat (n mod 256) < 256" by (simp add: nat_less_iff)
  then show ?thesis by (simp add: ubyte_def byte_def of_char_of)
qed

lemma byte_ubyte [simp]: "byte (ubyte c) = c"
proof -
  have "of_char c < (256 :: nat)" by simp
  then have "ubyte c mod 256 = ubyte c" by (simp add: ubyte_def)
  then show ?thesis by (simp add: byte_def ubyte_def)
qed

lemma ubyte_bounds: "0 \<le> ubyte c" "ubyte c < 256"
  by (simp_all add: ubyte_def)

lemma length_be [simp]: "length (be16 n) = 2" "length (be32 n) = 4"
  by (simp_all add: be16_def be32_def)

lemma get16_be16 [simp]: "0 \<le> n \<Longrightarrow> n < 2 ^ 16 \<Longrightarrow> get16 (be16 n @ s) = n"
  by (simp add: get16_def be16_def)

lemma horner32:
  fixes n :: int
  assumes "256 * x1 + r0 = n" "256 * x2 + r1 = x1" "256 * x3 + r2 = x2" "r3 = x3"
  shows "r3 * 2 ^ 24 + r2 * 2 ^ 16 + r1 * 2 ^ 8 + r0 = n"
  using assms by auto

lemma bytes32:
  fixes n :: int
  assumes "0 \<le> n" "n < 2 ^ 32"
  shows "n div 2 ^ 24 mod 256 * 2 ^ 24 + n div 2 ^ 16 mod 256 * 2 ^ 16 + n div 2 ^ 8 mod 256 * 2 ^ 8 + n mod 256 = n"
proof -
  define x1 where "x1 = n div 256"
  define x2 where "x2 = x1 div 256"
  define x3 where "x3 = x2 div 256"
  have d: "n div 2 ^ 8 = x1" "n div 2 ^ 16 = x2" "n div 2 ^ 24 = x3"
    by (simp_all add: x1_def x2_def x3_def zdiv_zmult2_eq [symmetric])
  have x3: "x3 mod 256 = x3"
    using assms d(3) [symmetric] by (intro mod_pos_pos_trivial) simp_all
  have "256 * x1 + n mod 256 = n" "256 * x2 + x1 mod 256 = x1" "256 * x3 + x2 mod 256 = x2"
    unfolding x1_def x2_def x3_def by (rule mult_div_mod_eq)+
  from horner32 [OF this x3] show ?thesis unfolding d .
qed

lemmas nth_small = nth_Cons_0 nth_Cons_Suc One_nat_def numeral_2_eq_2 numeral_3_eq_3 append_Cons

lemma get32_be32 [simp]:
  assumes "0 \<le> n" "n < 2 ^ 32"
  shows "get32 (be32 n @ s) = n"
  using bytes32 [OF assms] by (simp only: get32_def be32_def nth_small ubyte_byte)

lemma be32_get32: "length s = 4 \<Longrightarrow> be32 (get32 s) = s"
proof -
  assume "length s = 4"
  then obtain a b c d where s: "s = [a, b, c, d]" by (auto simp: length_Suc_conv numeral_eq_Suc)
  let ?a = "ubyte a" and ?b = "ubyte b" and ?c = "ubyte c" and ?d = "ubyte d"
  let ?n = "?a * 2 ^ 24 + ?b * 2 ^ 16 + ?c * 2 ^ 8 + ?d"
  note bd = ubyte_bounds [of a] ubyte_bounds [of b] ubyte_bounds [of c] ubyte_bounds [of d]
  have q: "(x * k + r) div k = x" if "0 \<le> r" "r < k" for x k r :: int
    using that by simp
  have n: "?n = ?a * 2 ^ 24 + (?b * 2 ^ 16 + ?c * 2 ^ 8 + ?d)" "?n = (?a * 256 + ?b) * 2 ^ 16 + (?c * 2 ^ 8 + ?d)"
    "?n = ((?a * 256 + ?b) * 256 + ?c) * 2 ^ 8 + ?d" by (simp_all add: algebra_simps)
  have "?n div 2 ^ 24 = ?a" unfolding n(1) by (rule q) (use bd in simp_all)
  moreover have "?n div 2 ^ 16 = ?a * 256 + ?b" unfolding n(2) by (rule q) (use bd in simp_all)
  moreover have "?n div 2 ^ 8 = (?a * 256 + ?b) * 256 + ?c" unfolding n(3) by (rule q) (use bd in simp_all)
  moreover have k: "byte (x * 256 + ubyte k) = k" for x k
    using byte_ubyte [of k] ubyte_bounds [of k] by (simp add: byte_def)
  moreover have "byte ?n = byte (((?a * 256 + ?b) * 256 + ?c) * 256 + ?d)"
    by (rule arg_cong [of _ _ byte]) simp
  ultimately show ?thesis
    by (simp only: s get32_def be32_def nth_small byte_ubyte)
qed

lemma get32_bounds: "0 \<le> get32 s" "get32 s < 2 ^ 32"
proof -
  note bd = ubyte_bounds [of "s ! 0"] ubyte_bounds [of "s ! 1"] ubyte_bounds [of "s ! 2"] ubyte_bounds [of "s ! 3"]
  show "0 \<le> get32 s" "get32 s < 2 ^ 32" using bd by (simp_all add: get32_def)
qed

text \<open>\<open>htonl\<close> and \<open>ntohl\<close> take and return the low 32 bits with the bytes in reverse order.\<close>

definition htonl :: "int \<Rightarrow> int" where
  "htonl n = get32 (rev (be32 n))"

lemma htonl_bounds: "0 \<le> htonl n" "htonl n < 2 ^ 32"
  using get32_bounds [of "rev (be32 n)"] by (simp_all add: htonl_def)

lemma htonl_htonl: "0 \<le> n \<Longrightarrow> n < 2 ^ 32 \<Longrightarrow> htonl (htonl n) = n"
  using get32_be32 [of n "[]"] by (simp add: htonl_def be32_get32)

lemma htonl_0 [simp]: "htonl 0 = 0"
  by (simp add: htonl_def get32_def be32_def)

lemma htonl_eq_0: "0 \<le> n \<Longrightarrow> n < 2 ^ 32 \<Longrightarrow> htonl n = 0 \<longleftrightarrow> n = 0"
  using htonl_htonl [of n] htonl_0 by metis


end
