(* ===== verification/C_Io.thy ===== *)
theory C_Io
  imports C_Net
begin

text \<open>
  Reading and writing whole buffers over a connection (\<open>lib/readn.c\<close>, \<open>lib/writen.c\<close> and the timed
  reads of \<open>ipp/util.c\<close>). The three reading loops differ in the call they make; what they
  achieve is proved once, for any call that delivers a stream of bytes.
\<close>

section \<open>A connection\<close>

text \<open>
  What happens at the receiving end, in order. An empty list, or an empty piece of data, is the
  end of the stream.
\<close>

datatype event = Arrives string | Times_out | Fails

definition deliver :: "nat \<Rightarrow> string \<Rightarrow> event list \<Rightarrow> string option \<times> event list" where
  "deliver n c es =
     (if c = [] then (Some [], Arrives c # es)
      else (Some (take n c), if length c \<le> n then es else Arrives (drop n c) # es))"

text \<open>\<open>read\<close> waits as long as it takes; \<open>None\<close> is the result -1.\<close>

fun sys_recv :: "nat \<Rightarrow> event list \<Rightarrow> string option \<times> event list" where
  "sys_recv n [] = (Some [], [])"
| "sys_recv n (Arrives c # es) = deliver n c es"
| "sys_recv n (Times_out # es) = sys_recv n es"
| "sys_recv n (Fails # es) = (None, es)"

text \<open>The timed read gives up when \<open>select\<close> reports nothing in time, or fails.\<close>

definition timed_read :: "nat \<Rightarrow> event list \<Rightarrow> string option \<times> event list" where
  "timed_read n es =
     (case es of
        [] \<Rightarrow> (Some [], [])
      | Arrives c # es \<Rightarrow> deliver n c es
      | _ # es \<Rightarrow> (None, es))"

section \<open>The loops\<close>

text \<open>The count, the bytes stored in the buffer, and what is left of the stream.\<close>

function read_all ::
  "(nat \<Rightarrow> 's \<Rightarrow> string option \<times> 's) \<Rightarrow> nat \<Rightarrow> nat \<Rightarrow> string \<Rightarrow> 's \<Rightarrow> int \<times> string \<times> 's" where
  "read_all rd n nleft buf s =
     (if nleft = 0 then (int n - int nleft, buf, s)
      else case rd nleft s of
        (None, s) \<Rightarrow> if nleft = n then (-1, buf, s) else (int n - int nleft, buf, s)
      | (Some c, s) \<Rightarrow>
          if c = [] then (int n - int nleft, buf, s)
          else read_all rd n (nleft - length c) (buf @ c) s)"
  by pat_completeness auto
termination
  by (relation "measure (\<lambda>(rd, n, nleft, buf, s). nleft)") (auto simp: length_greater_0_conv)

declare read_all.simps [simp del]

definition readn :: "nat \<Rightarrow> event list \<Rightarrow> int \<times> string \<times> event list" where
  "readn n s = read_all sys_recv n n [] s"

definition treadn :: "nat \<Rightarrow> event list \<Rightarrow> int \<times> string \<times> event list" where
  "treadn n s = read_all timed_read n n [] s"

text \<open>
  The results of the successive calls of \<open>write\<close>; a call writes at most what it was asked for. The
  value is the count returned and the bytes written.
\<close>

fun writen :: "nat \<Rightarrow> string \<Rightarrow> string \<Rightarrow> int list \<Rightarrow> int \<times> string" where
  "writen n ptr out ws =
     (if ptr = [] then (int n - int (length ptr), out)
      else case ws of
        [] \<Rightarrow> (int n, out @ ptr)
      | w # ws \<Rightarrow>
          if w < 0 then (if length ptr = n then (-1, out) else (int n - int (length ptr), out))
          else if w = 0 then (int n - int (length ptr), out)
          else writen n (drop (nat w) ptr) (out @ take (nat w) ptr) ws)"

declare writen.simps [simp del]

section \<open>Streams\<close>

text \<open>\<open>avail s\<close> are the bytes the stream delivers before its end or an error.\<close>

locale byte_stream =
  fixes rd :: "nat \<Rightarrow> 's \<Rightarrow> string option \<times> 's" and avail :: "'s \<Rightarrow> string"
  assumes progress: "0 < n \<Longrightarrow> avail s \<noteq> [] \<Longrightarrow> \<exists>c s'. rd n s = (Some c, s') \<and> c \<noteq> []"
    and sound: "rd n s = (Some c, s') \<Longrightarrow> avail s = c @ avail s' \<and> length c \<le> n"
begin

lemma read_all_avail:
  assumes "nleft \<le> length (avail s)" "nleft \<le> n"
  shows "\<exists>s'. read_all rd n nleft buf s = (int n, buf @ take nleft (avail s), s') \<and> avail s' = drop nleft (avail s)"
  using assms
proof (induction rd' \<equiv> rd n nleft buf s rule: read_all.induct)
  case (1 n nleft buf s)
  show ?case
  proof (cases "nleft = 0")
    case True
    then show ?thesis by (simp add: read_all.simps [of _ n 0])
  next
    case False
    then have "avail s \<noteq> []" using 1(2) by auto
    with progress [of nleft s] False obtain c s' where c: "rd nleft s = (Some c, s')" "c \<noteq> []" by auto
    from sound [OF c(1)] have a: "avail s = c @ avail s'" "length c \<le> nleft" by auto
    have "\<exists>s''. read_all rd n (nleft - length c) (buf @ c) s' =
        (int n, (buf @ c) @ take (nleft - length c) (avail s'), s'') \<and> avail s'' = drop (nleft - length c) (avail s')"
      using 1(1) [OF False c(1) [symmetric] refl c(2)] 1(2,3) a by simp
    then show ?thesis using c a False by (auto simp: read_all.simps [of _ n nleft])
  qed
qed

end

fun recv_avail :: "event list \<Rightarrow> string" where
  "recv_avail (Arrives c # es) = (if c = [] then [] else c @ recv_avail es)"
| "recv_avail (Times_out # es) = recv_avail es"
| "recv_avail _ = []"

fun timed_avail :: "event list \<Rightarrow> string" where
  "timed_avail (Arrives c # es) = (if c = [] then [] else c @ timed_avail es)"
| "timed_avail _ = []"

interpretation recv: byte_stream sys_recv recv_avail
proof (unfold_locales, goal_cases)
  case (1 n s)
  then show ?case by (induction n s rule: sys_recv.induct) (auto simp: deliver_def split: if_splits)
next
  case (2 n s c s')
  then show ?case by (induction n s rule: sys_recv.induct) (auto simp: deliver_def split: if_splits)
qed

interpretation timed: byte_stream timed_read timed_avail
proof (unfold_locales, goal_cases)
  case (1 n s)
  then show ?case by (cases s rule: timed_avail.cases) (auto simp: timed_read_def deliver_def split: if_splits)
next
  case (2 n s c s')
  then show ?case
    by (cases s rule: timed_avail.cases) (auto simp: timed_read_def deliver_def split: if_splits)
qed

section \<open>Writing\<close>

lemma writen_Nil [simp]: "writen n [] out ws = (int n, out)" "ptr \<noteq> [] \<Longrightarrow> writen n ptr out [] = (int n, out @ ptr)"
  by (simp_all add: writen.simps [of n])

lemma writen_Cons:
  "ptr \<noteq> [] \<Longrightarrow> writen n ptr out (w # ws) =
     (if w < 0 then (if length ptr = n then (-1, out) else (int n - int (length ptr), out))
      else if w = 0 then (int n - int (length ptr), out)
      else writen n (drop (nat w) ptr) (out @ take (nat w) ptr) ws)"
  by (simp add: writen.simps [of n ptr])

lemma writen_sound:
  assumes "n = length out + length ptr" "writen n ptr out ws = (r, sent)"
  shows "(r = -1 \<and> sent = [] \<or> r = int (length sent)) \<and> (\<exists>k. sent = out @ take k ptr)"
  using assms
proof (induction n ptr out ws rule: writen.induct)
  case (1 n ptr out ws)
  show ?case
  proof (cases "ptr = [] \<or> ws = []")
    case True
    then show ?thesis using "1.prems" by (cases "ptr = []") (auto intro: exI [of _ "length ptr"])
  next
    case False
    then obtain w vs where ws: "ws = w # vs" and ne: "ptr \<noteq> []" by (cases ws) auto
    show ?thesis
    proof (cases "0 < w")
      case True
      have e: "writen n (drop (nat w) ptr) (out @ take (nat w) ptr) vs = (r, sent)"
        using "1.prems"(2) ws ne True by (simp add: writen_Cons)
      have l: "n = length (out @ take (nat w) ptr) + length (drop (nat w) ptr)" using "1.prems"(1) by simp
      have "(r = -1 \<and> sent = [] \<or> r = int (length sent)) \<and> (\<exists>k. sent = (out @ take (nat w) ptr) @ take k (drop (nat w) ptr))"
        by (rule "1.IH" [OF ne ws _ _ l e]) (use True in simp_all)
      then obtain k where
        k: "r = -1 \<and> sent = [] \<or> r = int (length sent)" "sent = (out @ take (nat w) ptr) @ take k (drop (nat w) ptr)"
        by blast
      then have "sent = out @ take (nat w + k) ptr" by (simp add: take_add)
      with k(1) show ?thesis by blast
    next
      case False
      then show ?thesis using "1.prems" ws ne
        by (auto simp: writen_Cons split: if_splits intro: exI [of _ 0])
    qed
  qed
qed

lemma writen_whole:
  assumes "n = length out + length ptr" "\<forall>w \<in> set ws. 0 < w"
  shows "writen n ptr out ws = (int n, out @ ptr)"
  using assms
proof (induction n ptr out ws rule: writen.induct)
  case (1 n ptr out ws)
  show ?case
  proof (cases "ptr = [] \<or> ws = []")
    case True
    then show ?thesis using "1.prems" by (cases "ptr = []") auto
  next
    case False
    then obtain w vs where ws: "ws = w # vs" and ne: "ptr \<noteq> []" by (cases ws) auto
    with "1.IH" [OF ne ws] "1.prems" show ?thesis by (auto simp: writen_Cons)
  qed
qed

section \<open>Properties\<close>

text \<open>
  The reading loops do not depend on how the stream is cut into pieces: when enough bytes
  come before the end, an error or (for the timed loop) a time-out, exactly the requested number
  is stored, in order, and the rest of the stream is left for the next call.
\<close>

lemma read_whole_buffer:
  assumes "n \<le> length (recv_avail s)" "k \<le> length (timed_avail t)"
  shows "(\<exists>s'. readn n s = (int n, take n (recv_avail s), s') \<and> recv_avail s' = drop n (recv_avail s)) \<and>
    (\<exists>t'. treadn k t = (int k, take k (timed_avail t), t') \<and> timed_avail t' = drop k (timed_avail t))"
  using recv.read_all_avail [OF assms(1) order_refl, of "[]"] timed.read_all_avail [OF assms(2) order_refl, of "[]"]
  by (simp add: readn_def treadn_def)

lemma read_whole_buffer_example:
  "\<exists>s' t'. readn 3 [Arrives ''ab'', Times_out, Arrives ''cd''] = (3, ''abc'', s') \<and>
     treadn 3 [Arrives ''ab'', Arrives ''cd'', Times_out] = (3, ''abc'', t')"
  using read_whole_buffer [of 3 "[Arrives ''ab'', Times_out, Arrives ''cd'']" 3 "[Arrives ''ab'', Arrives ''cd'', Times_out]"]
  by (auto simp: numeral_eq_Suc)

text \<open>
  What \<open>writen\<close> returns is what it wrote: the count is the number of bytes sent, and they are a
  prefix of the buffer; -1 means that nothing was sent. With writes that always make progress
  the whole buffer is sent.
\<close>

lemma writen_reports:
  "case writen (length p) p [] ws of (r, sent) \<Rightarrow>
     (r = -1 \<and> sent = [] \<or> r = int (length sent)) \<and> (\<exists>k. sent = take k p) \<and>
     ((\<forall>w \<in> set ws. 0 < w) \<longrightarrow> r = int (length p) \<and> sent = p)"
proof (cases "writen (length p) p [] ws")
  case (Pair r sent)
  from writen_sound [OF _ this] writen_whole [of "length p" "[]" p ws] Pair show ?thesis by auto
qed

lemma writen_reports_example:
  "writen (length ''hello'') ''hello'' [] [2, 1] = (5, ''hello'')"
  using writen_reports [of "''hello''" "[2, 1]"] by (auto split: prod.splits)

end
