(* ===== verification/Spool_Jobs.thy ===== *)
theory Spool_Jobs
  imports Dll
begin

text \<open>
  The list of pending jobs of the print spooler (\<open>ipp/printd.c\<close>): the request structure, the
  job structure and the three list operations. The list is a doubly linked list in the heap;
  the interpretation of the queue interface gives its order of service.
\<close>

section \<open>Requests and jobs\<close>

record printreq =
  size :: int
  flags :: int
  usernm :: string
  jobnm :: string

record job =
  jobid :: int
  req :: printreq

type_synonym joblist = "job dlist"

section \<open>Operations\<close>

text \<open>\<open>p\<close> is the address \<open>malloc\<close> returns.\<close>

definition add_job :: "nat \<Rightarrow> printreq \<Rightarrow> int \<Rightarrow> joblist \<Rightarrow> fault + joblist" where
  "add_job p reqp jid q =
     (if p = 0 then Inl (Log_exit ''malloc failed'')
      else
        let jp = \<lparr>nxt = 0, prv = tail q, payload = \<lparr>jobid = jid, req = reqp\<rparr>\<rparr>;
            q = q\<lparr>cells := (cells q)(p \<mapsto> jp)\<rparr>
        in bindR (if tail q = 0 then Inr (q\<lparr>head := p\<rparr>)
                  else bindR (set_nxt (tail q) p (cells q)) (\<lambda>h. Inr (q\<lparr>cells := h\<rparr>))) (\<lambda>q.
           Inr (q\<lparr>tail := p\<rparr>)))"

definition replace_job :: "nat \<Rightarrow> joblist \<Rightarrow> fault + joblist" where
  "replace_job jp q =
     bindR (set_prv jp 0 (cells q)) (\<lambda>h.
     bindR (set_nxt jp (head q) h) (\<lambda>h.
     let q = q\<lparr>cells := h\<rparr>
     in bindR (if head q = 0 then Inr (q\<lparr>tail := jp\<rparr>)
               else bindR (set_prv (head q) jp (cells q)) (\<lambda>h. Inr (q\<lparr>cells := h\<rparr>))) (\<lambda>q.
        Inr (q\<lparr>head := jp\<rparr>))))"

definition remove_job :: "nat \<Rightarrow> joblist \<Rightarrow> fault + joblist" where
  "remove_job target q =
     bindR (deref (cells q) target) (\<lambda>t.
     bindR (if nxt t \<noteq> 0
            then bindR (set_prv (nxt t) (prv t) (cells q)) (\<lambda>h. Inr (q\<lparr>cells := h\<rparr>))
            else Inr (q\<lparr>tail := prv t\<rparr>)) (\<lambda>q.
     bindR (deref (cells q) target) (\<lambda>t.
     if prv t \<noteq> 0
     then bindR (set_nxt (prv t) (nxt t) (cells q)) (\<lambda>h. Inr (q\<lparr>cells := h\<rparr>))
     else Inr (q\<lparr>head := nxt t\<rparr>))))"

section \<open>The operations on the represented list\<close>

lemma add_job_link:
  "p \<noteq> 0 \<Longrightarrow> add_job p r jid q = link_last p \<lparr>jobid = jid, req = r\<rparr> q"
  by (cases q) (simp add: add_job_def link_last_def Let_def set_nxt_def bindR_assoc split: if_splits)

lemma replace_job_link:
  assumes "cells q jp = Some n"
  shows "replace_job jp q = link_first jp (payload n) q"
  using assms by (cases q; cases n) (simp add: replace_job_def link_first_def Let_def bindR_assoc)

lemma remove_job_unlink: "remove_job = unlink"
  by (simp add: fun_eq_iff remove_job_def unlink_def)

text \<open>The job with the address of its node: what \<open>add_job\<close> and \<open>replace_job\<close> are given.\<close>

definition put_job :: "nat \<Rightarrow> job \<Rightarrow> joblist \<Rightarrow> fault + joblist" where
  "put_job p j q = add_job p (req j) (jobid j) q"

definition push_job :: "nat \<Rightarrow> job \<Rightarrow> joblist \<Rightarrow> fault + joblist" where
  "push_job p j q = replace_job p (q\<lparr>cells := (cells q)(p \<mapsto> \<lparr>nxt = 0, prv = 0, payload = j\<rparr>)\<rparr>)"

lemma link_first_fresh:
  "link_first p v (q\<lparr>cells := (cells q)(p \<mapsto> n)\<rparr>) = link_first p v q"
  by (cases q) (simp add: link_first_def Let_def)

lemma push_job_link: "push_job p j q = link_first p j q"
  by (simp add: push_job_def replace_job_link link_first_fresh)

interpretation jobq: job_queue_remove drep payloads put_job push_job remove_job head
proof (unfold_locales, goal_cases)
  case (1 q xs p v)
  then show ?case using link_last_drep [of q xs p v] by (cases v) (simp add: put_job_def add_job_link)
next
  case (2 q xs p v)
  then show ?case using link_first_drep [of q xs p v] by (simp add: push_job_link)
next
  case (3 q ys x zs)
  then show ?case using unlink_drep [of q ys x zs] by (auto simp: remove_job_unlink)
next
  case (4 q x xs)
  then show ?case by (simp add: drep_def)
qed

text \<open>Taking a job out leaves its node, with its contents, in the heap.\<close>

lemma remove_job_drep:
  assumes "drep q (ys @ x # zs)"
  shows "\<exists>q'. remove_job x q = Inr q' \<and> drep q' (ys @ zs) \<and> cells q' x = cells q x \<and>
    payloads q' (ys @ zs) = payloads q (ys @ zs)"
  using unlink_drep [OF assms] by (simp add: remove_job_unlink)

lemma replace_job_drep:
  assumes "drep q xs" "x \<notin> set xs" "x \<noteq> 0" "cells q x = Some n"
  shows "\<exists>q'. replace_job x q = Inr q' \<and> drep q' (x # xs) \<and>
    payloads q' (x # xs) = payload n # payloads q xs"
  using link_first_drep [OF assms(1-3), of "payload n"] assms(4) by (simp add: replace_job_link)

text \<open>
  Jobs are printed in the order they were submitted: a series of \<open>add_job\<close> calls on an empty
  queue, followed by as many removals of the head, takes out the same jobs in the same order and
  leaves the queue empty.
\<close>

lemma jobs_fifo:
  assumes "drep q []" "distinct (map fst pjs)" "0 \<notin> set (map fst pjs)"
  shows "\<exists>q1 q2. put_all put_job pjs q = Inr q1 \<and> payloads q1 (map fst pjs) = map snd pjs \<and>
    serve head remove_job (length pjs) q1 = Inr (map fst pjs, q2) \<and> drep q2 []"
  using jobq.fifo [OF assms] by (simp add: payloads_def)

lemma jobs_fifo_example:
  "\<exists>q1 q2. put_all put_job [(16, \<lparr>jobid = 1, req = \<lparr>size = 3, flags = 0, usernm = ''u'', jobnm = ''a''\<rparr>\<rparr>), (32, \<lparr>jobid = 2, req = \<lparr>size = 4, flags = 0, usernm = ''v'', jobnm = ''b''\<rparr>\<rparr>)] \<lparr>cells = Map.empty, head = 0, tail = 0\<rparr> = Inr q1 \<and>
     serve head remove_job 2 q1 = Inr ([16, 32], q2)"
proof -
  have "drep \<lparr>cells = Map.empty, head = 0, tail = 0\<rparr> []" by (simp add: drep_empty)
  from jobs_fifo [OF this, of "[(16, \<lparr>jobid = 1, req = \<lparr>size = 3, flags = 0, usernm = ''u'', jobnm = ''a''\<rparr>\<rparr>),
      (32, \<lparr>jobid = 2, req = \<lparr>size = 4, flags = 0, usernm = ''v'', jobnm = ''b''\<rparr>\<rparr>)]"] show ?thesis
    by (auto simp: numeral_2_eq_2)
qed

end
