(* ===== verification/Spool_Workers.thy ===== *)
theory Spool_Workers
  imports Dll
begin

text \<open>
  The list of worker threads of the print spooler (\<open>add_worker\<close>, \<open>kill_workers\<close> and
  \<open>client_cleanup\<close> of \<open>ipp/printd.c\<close>). Registration keeps the list right only while it is empty:
  a second worker is linked in front of the first, and the head is not moved.
\<close>

section \<open>The list\<close>

record worker =
  wtid :: nat
  sockfd :: int

record wlist =
  wcells :: "worker cells"
  workers :: nat
  closed :: "int list"

text \<open>\<open>p\<close> is the address \<open>malloc\<close> returns; \<open>False\<close> is a thread that exits.\<close>

definition add_worker :: "nat \<Rightarrow> nat \<Rightarrow> int \<Rightarrow> wlist \<Rightarrow> fault + bool \<times> wlist" where
  "add_worker p t fd w =
     (if p = 0 then Inr (False, w)
      else
        let wtp = \<lparr>nxt = workers w, prv = 0, payload = \<lparr>wtid = t, sockfd = fd\<rparr>\<rparr>;
            w = w\<lparr>wcells := (wcells w)(p \<mapsto> wtp)\<rparr>
        in if workers w = 0 then Inr (True, w\<lparr>workers := p\<rparr>)
           else bindR (set_prv (workers w) p (wcells w)) (\<lambda>h. Inr (True, w\<lparr>wcells := h\<rparr>)))"

text \<open>The threads that are cancelled, in order.\<close>

fun cancel_from :: "nat \<Rightarrow> worker cells \<Rightarrow> nat \<Rightarrow> fault + nat list" where
  "cancel_from fuel h wtp =
     (if wtp = 0 then Inr []
      else case fuel of
        0 \<Rightarrow> Inl Hangs
      | Suc fuel' \<Rightarrow>
          bindR (deref h wtp) (\<lambda>n.
          bindR (cancel_from fuel' h (nxt n)) (\<lambda>ts. Inr (wtid (payload n) # ts))))"

declare cancel_from.simps [simp del]

definition kill_workers :: "nat \<Rightarrow> wlist \<Rightarrow> fault + nat list" where
  "kill_workers fuel w = cancel_from fuel (wcells w) (workers w)"

text \<open>The node of a thread, 0 when the list ends.\<close>

fun worker_of :: "nat \<Rightarrow> worker cells \<Rightarrow> nat \<Rightarrow> nat \<Rightarrow> fault + nat" where
  "worker_of fuel h t wtp =
     (if wtp = 0 then Inr 0
      else case fuel of
        0 \<Rightarrow> Inl Hangs
      | Suc fuel' \<Rightarrow>
          bindR (deref h wtp) (\<lambda>n. if wtid (payload n) = t then Inr wtp else worker_of fuel' h t (nxt n)))"

declare worker_of.simps [simp del]

definition client_cleanup :: "nat \<Rightarrow> nat \<Rightarrow> wlist \<Rightarrow> fault + wlist" where
  "client_cleanup fuel t w =
     bindR (worker_of fuel (wcells w) t (workers w)) (\<lambda>wtp.
     if wtp = 0 then Inr w
     else
       bindR (deref (wcells w) wtp) (\<lambda>n.
       bindR (if nxt n \<noteq> 0
              then bindR (set_prv (nxt n) (prv n) (wcells w)) (\<lambda>h. Inr (w\<lparr>wcells := h\<rparr>))
              else Inr w) (\<lambda>w.
       bindR (if prv n \<noteq> 0
              then bindR (set_nxt (prv n) (nxt n) (wcells w)) (\<lambda>h. Inr (w\<lparr>wcells := h\<rparr>))
              else Inr (w\<lparr>workers := nxt n\<rparr>)) (\<lambda>w.
       Inr (w\<lparr>wcells := (wcells w)(wtp := None), closed := closed w @ [sockfd (payload n)]\<rparr>)))))"

section \<open>Walking the list\<close>

definition wrep :: "wlist \<Rightarrow> nat list \<Rightarrow> bool" where
  "wrep w xs \<longleftrightarrow> dseg (wcells w) 0 xs 0 \<and> distinct xs \<and> workers w = first xs 0"

text \<open>The forward links alone: what the two loops follow.\<close>

primrec flist :: "worker cells \<Rightarrow> nat \<Rightarrow> nat list \<Rightarrow> bool" where
  "flist h p [] \<longleftrightarrow> p = 0"
| "flist h p (x # xs) \<longleftrightarrow> p = x \<and> x \<noteq> 0 \<and> (\<exists>n. h x = Some n \<and> flist h (nxt n) xs)"

lemma dseg_flist: "dseg h pr xs 0 \<Longrightarrow> flist h (first xs 0) xs"
  by (induction xs arbitrary: pr) auto

lemma flist_upd: "p \<notin> set xs \<Longrightarrow> flist (h(p := v)) q xs = flist h q xs"
  by (induction xs arbitrary: q) auto

lemma flist_set_prv:
  assumes "flist h p xs" "h y = Some n"
  shows "flist (h(y \<mapsto> n\<lparr>prv := v\<rparr>)) p xs"
  using assms(1)
proof (induction xs arbitrary: p)
  case (Cons x xs)
  then show ?case using assms(2) by (cases "x = y") auto
qed simp

definition tids :: "worker cells \<Rightarrow> nat list \<Rightarrow> nat list" where
  "tids h xs = map (\<lambda>x. wtid (payload (the (h x)))) xs"

lemma tids_filter:
  "t \<notin> set (tids h xs) \<Longrightarrow> filter (\<lambda>x. wtid (payload (the (h x))) = t) xs = []"
  by (induction xs) (auto simp: tids_def)

lemma cancel_flist:
  assumes "flist h p xs" "length xs \<le> fuel"
  shows "cancel_from fuel h p = Inr (tids h xs)"
  using assms
proof (induction xs arbitrary: p fuel)
  case Nil
  then show ?case by (simp add: cancel_from.simps tids_def)
next
  case (Cons x xs)
  then obtain fuel' where f: "fuel = Suc fuel'" "length xs \<le> fuel'" by (cases fuel) auto
  from Cons.prems obtain n where n: "p = x" "x \<noteq> 0" "h x = Some n" "flist h (nxt n) xs" by auto
  from Cons.IH [OF n(4) f(2)] n show ?case
    by (simp add: cancel_from.simps [of "Suc fuel'"] f(1) tids_def)
qed

lemma worker_of_flist:
  assumes "flist h p xs" "length xs \<le> fuel"
  shows "worker_of fuel h t p = Inr (first (filter (\<lambda>x. wtid (payload (the (h x))) = t) xs) 0)"
  using assms
proof (induction xs arbitrary: p fuel)
  case Nil
  then show ?case by (simp add: worker_of.simps)
next
  case (Cons x xs)
  then obtain fuel' where f: "fuel = Suc fuel'" "length xs \<le> fuel'" by (cases fuel) auto
  from Cons.prems obtain n where n: "p = x" "x \<noteq> 0" "h x = Some n" "flist h (nxt n) xs" by auto
  from Cons.IH [OF n(4) f(2)] n show ?case
    by (simp add: worker_of.simps [of "Suc fuel'"] f(1))
qed

section \<open>Properties\<close>

text \<open>
  While the spooler serves one client at a time, registration and cleanup match: the worker
  is in the list while it runs, and its cleanup closes its socket, frees its node and leaves
  the list empty.
\<close>

lemma single_worker:
  assumes "workers w = 0" "p \<noteq> 0"
  shows "\<exists>w1. add_worker p t fd w = Inr (True, w1) \<and> kill_workers 1 w1 = Inr [t] \<and>
    client_cleanup 1 t w1 = Inr (w\<lparr>wcells := (wcells w)(p := None), closed := closed w @ [fd]\<rparr>)"
proof -
  let ?w = "w\<lparr>wcells := (wcells w)(p \<mapsto> \<lparr>nxt = 0, prv = 0, payload = \<lparr>wtid = t, sockfd = fd\<rparr>\<rparr>), workers := p\<rparr>"
  have a: "add_worker p t fd w = Inr (True, ?w)" using assms by (simp add: add_worker_def)
  have f: "flist (wcells ?w) p [p]" using assms by simp
  have k: "kill_workers 1 ?w = Inr [t]"
    using cancel_flist [OF f, of 1] by (simp add: kill_workers_def tids_def)
  have o: "worker_of 1 (wcells ?w) t p = Inr p"
    using worker_of_flist [OF f, of 1 t] by simp
  have "client_cleanup 1 t ?w = Inr (w\<lparr>wcells := (wcells w)(p := None), closed := closed w @ [fd]\<rparr>)"
    using assms o by (cases w) (simp add: client_cleanup_def)
  with a k show ?thesis by blast
qed

lemma single_worker_example:
  "\<exists>w1. add_worker 16 1 5 \<lparr>wcells = Map.empty, workers = 0, closed = []\<rparr> = Inr (True, w1) \<and>
     client_cleanup 1 1 w1 = Inr \<lparr>wcells = Map.empty, workers = 0, closed = [5]\<rparr>"
  using single_worker [of "\<lparr>wcells = Map.empty, workers = 0, closed = []\<rparr>" 16 1 5] by auto

text \<open>
  A worker registered while another is in the list is lost: \<open>kill_workers\<close> does not cancel it
  and its own cleanup neither closes its socket nor frees its node. And once the first worker of
  the list is cleaned up, the head of the list points to freed memory, which the next walk over
  the list dereferences.
\<close>

lemma second_worker_lost:
  assumes r: "wrep w (x # xs)" and p: "p \<noteq> 0" "p \<notin> set (x # xs)"
    and t: "t \<notin> set (tids (wcells w) (x # xs))" and f: "length xs + 1 \<le> fuel"
  shows "\<exists>w1 w2. add_worker p t fd w = Inr (True, w1) \<and>
    kill_workers fuel w1 = Inr (tids (wcells w) (x # xs)) \<and> client_cleanup fuel t w1 = Inr w1 \<and>
    client_cleanup fuel (hd (tids (wcells w) (x # xs))) w1 = Inr w2 \<and> kill_workers fuel w2 = Inl Segv"
proof -
  from r obtain n where n: "wcells w x = Some n" "prv n = 0" "nxt n = first xs 0" and x: "x \<noteq> 0" "workers w = x"
    by (auto simp: wrep_def)
  have d: "distinct (x # xs)" "dseg (wcells w) 0 (x # xs) 0" using r by (simp_all add: wrep_def)
  let ?b = "\<lparr>nxt = x, prv = 0, payload = \<lparr>wtid = t, sockfd = fd\<rparr>\<rparr>"
  let ?h = "(wcells w)(p \<mapsto> ?b, x \<mapsto> n\<lparr>prv := p\<rparr>)"
  let ?w = "w\<lparr>wcells := ?h\<rparr>"
  have px: "p \<noteq> x" using p by auto
  have a: "add_worker p t fd w = Inr (True, ?w)" using p x n px by (simp add: add_worker_def)
  have fl: "flist ?h x (x # xs)"
  proof -
    have "flist (wcells w) x (x # xs)" using dseg_flist [OF d(2)] by simp
    then have "flist ((wcells w)(p \<mapsto> ?b)) x (x # xs)" unfolding flist_upd [OF p(2)] .
    then show ?thesis by (rule flist_set_prv) (use n px in simp)
  qed
  have ts: "tids ?h (x # xs) = tids (wcells w) (x # xs)" using n p by (auto simp: tids_def)
  have len: "length (x # xs) \<le> fuel" using f by simp
  have k: "kill_workers fuel ?w = Inr (tids (wcells w) (x # xs))"
    using cancel_flist [OF fl len] ts x(2) by (simp add: kill_workers_def)
  have "t \<notin> set (tids ?h (x # xs))" unfolding ts by (rule t)
  then have "filter (\<lambda>y. wtid (payload (the (?h y))) = t) (x # xs) = []" by (rule tids_filter)
  then have o: "worker_of fuel ?h t x = Inr 0" using worker_of_flist [OF fl len, of t] by simp
  have c: "client_cleanup fuel t ?w = Inr ?w" using o x(2) by (simp add: client_cleanup_def)
  let ?t = "wtid (payload n)"
  have o2: "worker_of fuel ?h ?t x = Inr x" using worker_of_flist [OF fl len, of ?t] n by simp
  have "\<exists>w2. client_cleanup fuel ?t ?w = Inr w2 \<and> workers w2 = x \<and> wcells w2 x = None"
  proof (cases xs)
    case Nil
    then show ?thesis using o2 x n p px by (auto simp: client_cleanup_def)
  next
    case (Cons y ys)
    then obtain m where "wcells w y = Some m" using d(2) by auto
    moreover have "y \<noteq> 0" "y \<noteq> x" "y \<noteq> p" using Cons d p by auto
    ultimately show ?thesis using o2 x n p px Cons by (auto simp: client_cleanup_def)
  qed
  then obtain w2 where w2: "client_cleanup fuel ?t ?w = Inr w2" "workers w2 = x" "wcells w2 x = None" by blast
  obtain fuel' where "fuel = Suc fuel'" using f by (cases fuel) auto
  then have "kill_workers fuel w2 = Inl Segv"
    using w2 x(1) by (simp add: kill_workers_def cancel_from.simps deref_def)
  moreover have "client_cleanup fuel (hd (tids (wcells w) (x # xs))) ?w = Inr w2"
    using w2(1) n by (simp add: tids_def)
  ultimately show ?thesis
    by (intro exI [of _ ?w] exI [of _ w2] conjI a k c)
qed

lemma second_worker_lost_example:
  "\<exists>w1 w2. add_worker 32 2 6 \<lparr>wcells = [16 \<mapsto> \<lparr>nxt = 0, prv = 0, payload = \<lparr>wtid = 1, sockfd = 5\<rparr>\<rparr>], workers = 16,
        closed = []\<rparr> = Inr (True, w1) \<and> kill_workers 3 w1 = Inr [1] \<and> client_cleanup 3 1 w1 = Inr w2 \<and>
     kill_workers 3 w2 = Inl Segv"
  using second_worker_lost [of "\<lparr>wcells = [16 \<mapsto> \<lparr>nxt = 0, prv = 0, payload = \<lparr>wtid = 1, sockfd = 5\<rparr>\<rparr>], workers = 16,
        closed = []\<rparr>" 16 "[]" 32 2 3 6]
  by (auto simp: wrep_def tids_def)

end
