(* ===== verification/Ipp.thy ===== *)
theory Ipp
  imports C_Net
begin

text \<open>
  The requests the spooler sends to the printer (\<open>add_option\<close> and the header part of
  \<open>printer_thread\<close> in \<open>ipp/printd.c\<close>, the constants of \<open>ipp.h\<close>): the bytes of an attribute, of
  the IPP header and of the HTTP header, with the sizes of the buffers they are built in. A
  decoder of the attribute encoding serves as the reference for the round trip.
\<close>

section \<open>Constants\<close>

definition IPP_PORT :: int where "IPP_PORT = 631"
definition IBUFSZ :: nat where "IBUFSZ = 512"
definition HBUFSZ :: nat where "HBUFSZ = 512"
definition OP_PRINT_JOB :: int where "OP_PRINT_JOB = 0x02"
definition TAG_OPERATION_ATTR :: int where "TAG_OPERATION_ATTR = 0x01"
definition TAG_END_OF_ATTR :: int where "TAG_END_OF_ATTR = 0x03"
definition TAG_NAMEWOLANG :: int where "TAG_NAMEWOLANG = 0x42"
definition TAG_URI :: int where "TAG_URI = 0x45"
definition TAG_CHARSET :: int where "TAG_CHARSET = 0x47"
definition TAG_NATULANG :: int where "TAG_NATULANG = 0x48"
definition TAG_MIMETYPE :: int where "TAG_MIMETYPE = 0x49"

lemmas tag_defs = TAG_OPERATION_ATTR_def TAG_END_OF_ATTR_def TAG_NAMEWOLANG_def TAG_URI_def
  TAG_CHARSET_def TAG_NATULANG_def TAG_MIMETYPE_def

definition STATCLASS_OK :: "int \<Rightarrow> bool" where
  "STATCLASS_OK x \<longleftrightarrow> 0 \<le> x \<and> x \<le> 0x00ff"

definition CRLF :: string where
  "CRLF = [CHR 0x0D, CHR 0x0A]"

section \<open>Building the headers\<close>

text \<open>The bytes \<open>add_option\<close> appends; the lengths are stored in 16 bits.\<close>

definition add_option :: "int \<Rightarrow> string \<Rightarrow> string \<Rightarrow> string" where
  "add_option tag optname optval =
     [byte tag] @ be16 (int (length optname)) @ optname @ be16 (int (length optval)) @ optval"

definition printer_uri :: "string \<Rightarrow> string" where
  "printer_uri printer_name = ''http://'' @ printer_name @ '':'' @ dec_int IPP_PORT"

definition document_format :: "bool \<Rightarrow> string" where
  "document_format text = (if text then ''text/plain'' else ''application/postscript'')"

definition ipp_bytes :: "int \<Rightarrow> string \<Rightarrow> string \<Rightarrow> string \<Rightarrow> bool \<Rightarrow> string" where
  "ipp_bytes jid printer_name user jobname text =
     [byte 1, byte 1] @ be16 OP_PRINT_JOB @ be32 jid @ [byte TAG_OPERATION_ATTR] @
     add_option TAG_CHARSET ''attributes-charset'' ''utf-8'' @
     add_option TAG_NATULANG ''attributes-natural-language'' ''en-us'' @
     add_option TAG_URI ''printer-uri'' (printer_uri printer_name) @
     add_option TAG_NAMEWOLANG ''requesting-user-name'' user @
     add_option TAG_NAMEWOLANG ''job-name'' jobname @
     add_option TAG_MIMETYPE ''document-format'' (document_format text) @
     [byte TAG_END_OF_ATTR]"

text \<open>
  The URI is formatted in a buffer of 64 bytes, the header in one of \<open>IBUFSZ\<close>: nothing checks
  that they fit.
\<close>

definition ipp_header :: "int \<Rightarrow> string \<Rightarrow> string \<Rightarrow> string \<Rightarrow> bool \<Rightarrow> fault + string" where
  "ipp_header jid printer_name user jobname text =
     (let ibuf = ipp_bytes jid printer_name user jobname text
      in if 64 < length (printer_uri printer_name) + 1 \<or> IBUFSZ < length ibuf
         then Inl Overflow else Inr ibuf)"

definition http_bytes :: "string \<Rightarrow> int \<Rightarrow> string" where
  "http_bytes printer_name len =
     ''POST /'' @ printer_name @ ''/ipp HTTP/1.1'' @ CRLF @
     ''Content-Length: '' @ dec_int len @ CRLF @
     ''Content-Type: application/ipp'' @ CRLF @
     ''Host: '' @ printer_name @ '':'' @ dec_int IPP_PORT @ CRLF @ CRLF"

text \<open>The NUL \<open>sprintf\<close> writes behind the last formatted line fits where the line does.\<close>

definition http_header :: "string \<Rightarrow> int \<Rightarrow> fault + string" where
  "http_header printer_name len =
     (let hbuf = http_bytes printer_name len
      in if HBUFSZ < length hbuf then Inl Overflow else Inr hbuf)"

section \<open>Decoding\<close>

text \<open>A reference decoder: tag, name and value of the first attribute, and the rest.\<close>

definition decode_field :: "string \<Rightarrow> (string \<times> string) option" where
  "decode_field s =
     (if length s < 2 then None
      else let n = nat (get16 s); r = drop 2 s
           in if length r < n then None else Some (take n r, drop n r))"

definition decode_option :: "string \<Rightarrow> ((int \<times> string \<times> string) \<times> string) option" where
  "decode_option s =
     (case s of
        [] \<Rightarrow> None
      | t # r \<Rightarrow>
          (case decode_field r of
             None \<Rightarrow> None
           | Some (n, r) \<Rightarrow>
               (case decode_field r of
                  None \<Rightarrow> None
                | Some (v, r) \<Rightarrow> Some ((ubyte t, n, v), r))))"

text \<open>All attributes up to the end tag; the attributes shrink the text, which bounds their number.\<close>

function decode_options :: "string \<Rightarrow> ((int \<times> string \<times> string) list \<times> string) option" where
  "decode_options s =
     (case s of
        [] \<Rightarrow> None
      | t # r \<Rightarrow>
          if ubyte t = TAG_END_OF_ATTR then Some ([], r)
          else (case decode_option s of
                  None \<Rightarrow> None
                | Some (a, r) \<Rightarrow>
                    (case decode_options r of None \<Rightarrow> None | Some (bs, r) \<Rightarrow> Some (a # bs, r))))"
  by pat_completeness auto

lemma decode_field_shrinks: "decode_field s = Some (a, r) \<Longrightarrow> length r < length s"
  by (auto simp: decode_field_def Let_def split: if_splits)

termination decode_options
proof (relation "measure length")
  fix s t :: string and u a' rr a r
  show "wf (measure length)" by simp
next
  fix s :: string and t r x a r'
  assume s: "s = t # r" and d: "decode_option s = Some x" and x: "(a, r') = x"
  then show "(r', s) \<in> measure length"
    by (auto simp: decode_option_def dest!: decode_field_shrinks split: option.splits)
qed

declare decode_options.simps [simp del]

section \<open>Round trip\<close>

lemma decode_field_be16:
  "length n < 2 ^ 16 \<Longrightarrow> decode_field (be16 (int (length n)) @ n @ r) = Some (n, r)"
  by (simp add: decode_field_def Let_def)

lemma decode_add_option:
  assumes "0 \<le> tag" "tag < 256" "length n < 2 ^ 16" "length v < 2 ^ 16"
  shows "decode_option (add_option tag n v @ r) = Some ((tag, n, v), r)"
  using assms decode_field_be16 [of n] decode_field_be16 [of v r]
  by (simp add: decode_option_def add_option_def)

lemma decode_options_Cons:
  assumes "0 \<le> tag" "tag < 256" "tag \<noteq> TAG_END_OF_ATTR" "length n < 2 ^ 16" "length v < 2 ^ 16"
  shows "decode_options (add_option tag n v @ r) =
    (case decode_options r of None \<Rightarrow> None | Some (bs, r) \<Rightarrow> Some ((tag, n, v) # bs, r))"
proof -
  have "add_option tag n v @ r = byte tag # drop 1 (add_option tag n v @ r)"
    by (simp add: add_option_def)
  then show ?thesis
    using decode_add_option [OF assms(1,2,4,5), of r] assms(1-3)
    by (subst decode_options.simps) (auto split: list.split option.split)
qed

lemma decode_options_end: "decode_options (byte TAG_END_OF_ATTR # r) = Some ([], r)"
  by (subst decode_options.simps) (simp add: tag_defs)

lemma length_add_option [simp]: "length (add_option t n v) = 5 + length n + length v"
  by (simp add: add_option_def)

lemma length_ipp_bytes:
  "length (ipp_bytes jid pn u jn t) =
     171 + length (printer_uri pn) + length u + length jn - (if t then 12 else 0)"
  by (simp add: ipp_bytes_def document_format_def)

section \<open>Properties\<close>

text \<open>
  C34. The IPP header the spooler sends can be decoded: version 1.1, the Print-Job operation, the
  job's number as request id, and exactly the six attributes with their names and values.
\<close>

theorem ipp_header_decodes:
  assumes "ipp_header jid pn u jn t = Inr b" "0 \<le> jid" "jid < 2 ^ 32"
  shows "take 4 b = [byte 1, byte 1] @ be16 OP_PRINT_JOB \<and> get32 (drop 4 b) = jid \<and>
    b ! 8 = byte TAG_OPERATION_ATTR \<and>
    decode_options (drop 9 b) =
      Some ([(TAG_CHARSET, ''attributes-charset'', ''utf-8''),
             (TAG_NATULANG, ''attributes-natural-language'', ''en-us''),
             (TAG_URI, ''printer-uri'', printer_uri pn),
             (TAG_NAMEWOLANG, ''requesting-user-name'', u),
             (TAG_NAMEWOLANG, ''job-name'', jn),
             (TAG_MIMETYPE, ''document-format'', document_format t)], [])"
proof -
  have b: "b = ipp_bytes jid pn u jn t" and l: "length (ipp_bytes jid pn u jn t) \<le> 512"
    using assms(1) by (auto simp: ipp_header_def Let_def IBUFSZ_def split: if_splits)
  have len: "length u < 2 ^ 16" "length jn < 2 ^ 16" "length (printer_uri pn) < 2 ^ 16"
    using l by (simp_all add: length_ipp_bytes split: if_splits)
  let ?opts = "add_option TAG_CHARSET ''attributes-charset'' ''utf-8'' @
     add_option TAG_NATULANG ''attributes-natural-language'' ''en-us'' @
     add_option TAG_URI ''printer-uri'' (printer_uri pn) @
     add_option TAG_NAMEWOLANG ''requesting-user-name'' u @
     add_option TAG_NAMEWOLANG ''job-name'' jn @
     add_option TAG_MIMETYPE ''document-format'' (document_format t) @
     [byte TAG_END_OF_ATTR]"
  have d: "drop 9 b = ?opts" "b ! 8 = byte TAG_OPERATION_ATTR" "take 4 b = [byte 1, byte 1] @ be16 OP_PRINT_JOB"
    "drop 4 b = be32 jid @ drop 8 b"
    by (simp_all add: b ipp_bytes_def be16_def be32_def numeral_eq_Suc)
  have "decode_options ?opts = Some ([(TAG_CHARSET, ''attributes-charset'', ''utf-8''),
             (TAG_NATULANG, ''attributes-natural-language'', ''en-us''),
             (TAG_URI, ''printer-uri'', printer_uri pn),
             (TAG_NAMEWOLANG, ''requesting-user-name'', u),
             (TAG_NAMEWOLANG, ''job-name'', jn),
             (TAG_MIMETYPE, ''document-format'', document_format t)], [])"
    using len by (simp add: decode_options_Cons decode_options_end [unfolded tag_defs] tag_defs document_format_def)
  then show ?thesis using d get32_be32 [OF assms(2,3), of "drop 8 b"] by simp
qed

theorem ipp_header_decodes_witness:
  "\<exists>b. ipp_header 7 ''lab'' ''sar'' ''a.ps'' False = Inr b \<and> get32 (drop 4 b) = 7"
proof -
  obtain b where "ipp_header 7 ''lab'' ''sar'' ''a.ps'' False = Inr b"
    by (simp add: ipp_header_def Let_def length_ipp_bytes printer_uri_def IPP_PORT_def dec_int_def
        dec.simps IBUFSZ_def)
  with ipp_header_decodes [OF this] show ?thesis by simp
qed

lemma length_printer_uri [simp]: "length (printer_uri pn) = 11 + length pn"
  by (simp add: printer_uri_def IPP_PORT_def dec_int_def dec.simps)

text \<open>
  The IPP header is built inside its buffers exactly when the printer's name has at most 52
  characters and the names of printer, user and job have together at most 330 (342 for plain
  text). The request structure admits 63 + 255 characters for user and job, so a printer name
  of 13 characters is enough for the header to run over.
\<close>

lemma ipp_header_fits:
  "(\<exists>b. ipp_header jid pn u jn t = Inr b) \<longleftrightarrow>
     length pn \<le> 52 \<and> length pn + length u + length jn \<le> (if t then 342 else 330)"
  by (auto simp: ipp_header_def Let_def length_ipp_bytes IBUFSZ_def)

end
