(* ===== verification/Ipp_Status.thy ===== *)
theory Ipp_Status
  imports Ipp
begin

text \<open>
  Reading the printer's answer (\<open>readmore\<close> and \<open>printer_status\<close> of \<open>ipp/printd.c\<close>): a buffer that
  is filled from the socket, the scans over it byte by byte, and the verdict on the job. The
  answer arrives in segments; the verdict depends on how they are cut.
\<close>

section \<open>The buffer and the socket\<close>

definition IOBUFSZ :: nat where
  "IOBUFSZ = 8192"

text \<open>
  The socket is the list of segments still to arrive; \<open>None\<close> is a read that returns 0 or -1.
  A read never returns more than was asked for.
\<close>

definition tread :: "nat \<Rightarrow> string list \<Rightarrow> (string \<times> string list) option" where
  "tread n rd =
     (case rd of
        [] \<Rightarrow> None
      | c # cs \<Rightarrow> if c = [] \<or> n = 0 then None
                  else Some (take n c, if length c \<le> n then cs else drop n c # cs))"

text \<open>\<open>mem\<close> is what fresh memory holds; the buffer is as long as its allocation.\<close>

definition fresh :: "(nat \<Rightarrow> char) \<Rightarrow> nat \<Rightarrow> nat \<Rightarrow> string" where
  "fresh mem a n = map mem [a ..< a + n]"

definition readmore ::
  "(nat \<Rightarrow> char) \<Rightarrow> string list \<Rightarrow> string \<Rightarrow> nat \<Rightarrow> (nat \<times> string \<times> string list) option" where
  "readmore mem rd bp off =
     (let bp = (if length bp \<le> off then bp @ fresh mem (length bp) IOBUFSZ else bp)
      in case tread (length bp - off) rd of
           None \<Rightarrow> None
         | Some (s, rd) \<Rightarrow> Some (off + length s, overwrite bp off s, rd))"

text \<open>Moving a pointer over bytes that satisfy a test; it must stop inside the buffer.\<close>

definition skip :: "(char \<Rightarrow> bool) \<Rightarrow> string \<Rightarrow> nat \<Rightarrow> fault + nat" where
  "skip P bp i =
     (let j = i + length (takeWhile P (drop i bp)) in if j < length bp then Inr j else Inl Overflow)"

definition tolower :: "char \<Rightarrow> char" where
  "tolower c = (let n = of_char c :: nat in if 65 \<le> n \<and> n \<le> 90 then char_of (n + 32) else c)"

section \<open>The parts of the answer\<close>

definition HTTP_INFO :: "int \<Rightarrow> bool" where
  "HTTP_INFO x \<longleftrightarrow> 100 \<le> x \<and> x \<le> 199"

definition HTTP_SUCCESS :: "int \<Rightarrow> bool" where
  "HTTP_SUCCESS x \<longleftrightarrow> 200 \<le> x \<and> x \<le> 299"

text \<open>The status code, the position of the end of the line and the buffer with the ends marked.\<close>

definition status_line :: "string \<Rightarrow> fault + (int \<times> nat \<times> string) option" where
  "status_line bp =
     bindR (skip isspace bp 8) (\<lambda>statcode.
     bindR (skip isdigit bp statcode) (\<lambda>cp.
     if cp = statcode then Inr None
     else
       let bp = bp[cp := NUL]
       in bindR (skip (\<lambda>c. c \<noteq> CHR 0x0D \<and> c \<noteq> CHR 0x0A) bp (cp + 1)) (\<lambda>cp.
          let bp = bp[cp := NUL]
          in Inr (Some (atoi (cstr (drop statcode bp)), cp, bp)))))"

text \<open>The position of the next C or c, or the end of the data.\<close>

definition find_c :: "string \<Rightarrow> nat \<Rightarrow> nat \<Rightarrow> fault + nat" where
  "find_c bp i nr =
     (let k = length (takeWhile (\<lambda>c. c \<noteq> CHR ''C'' \<and> c \<noteq> CHR ''c'') (drop i bp));
          j = (if nr \<le> i then i else min (i + k) nr)
      in if j < length bp then Inr j else Inl Overflow)"

definition clen_at :: "string \<Rightarrow> nat \<Rightarrow> bool" where
  "clen_at bp i \<longleftrightarrow> map tolower (take 15 (drop i bp)) = ''content-length:''"

text \<open>The number behind \<open>Content-Length:\<close>, and the position behind the byte that ends it.\<close>

definition clen_value :: "string \<Rightarrow> nat \<Rightarrow> fault + int \<times> nat \<times> string" where
  "clen_value bp i =
     bindR (skip isspace bp (i + 15)) (\<lambda>contentlen.
     bindR (skip isdigit bp contentlen) (\<lambda>cp.
     let bp = bp[cp := NUL] in Inr (atoi (cstr (drop contentlen bp)), cp + 1, bp)))"

text \<open>\<open>None\<close> is the jump to \<open>out\<close> when no more data comes.\<close>

fun find_len ::
  "nat \<Rightarrow> (nat \<Rightarrow> char) \<Rightarrow> string list \<Rightarrow> string \<Rightarrow> nat \<Rightarrow> nat \<Rightarrow>
     fault + (int \<times> nat \<times> nat \<times> string \<times> string list) option" where
  "find_len fuel mem rd bp i nr =
     bindR (find_c bp i nr) (\<lambda>i.
     case (if nr \<le> i then readmore mem rd bp i else Some (nr, bp, rd)) of
       None \<Rightarrow> Inr None
     | Some (nr, bp, rd) \<Rightarrow>
         if clen_at bp i
         then bindR (clen_value bp i) (\<lambda>(len, i, bp). Inr (Some (len, i, nr, bp, rd)))
         else (case fuel of 0 \<Rightarrow> Inl Hangs | Suc fuel' \<Rightarrow> find_len fuel' mem rd bp (i + 1) nr))"

declare find_len.simps [simp del]

text \<open>The scan for the empty line: found or not, and where it stopped.\<close>

definition blank_line_at :: "string \<Rightarrow> nat \<Rightarrow> bool" where
  "blank_line_at bp i \<longleftrightarrow> bp ! i = CHR 0x0A \<and> bp ! (i + 1) = CHR 0x0D \<and> bp ! (i + 2) = CHR 0x0A"

function scan_end :: "string \<Rightarrow> nat \<Rightarrow> nat \<Rightarrow> bool \<times> nat" where
  "scan_end bp i nr =
     (if i + 2 < nr then (if blank_line_at bp i then (True, i + 3) else scan_end bp (i + 1) nr)
      else (False, i))"
  by pat_completeness auto
termination by (relation "measure (\<lambda>(bp, i, nr). nr - i)") auto

declare scan_end.simps [simp del]

fun find_end ::
  "nat \<Rightarrow> (nat \<Rightarrow> char) \<Rightarrow> string list \<Rightarrow> string \<Rightarrow> nat \<Rightarrow> nat \<Rightarrow>
     fault + (nat \<times> nat \<times> string \<times> string list) option" where
  "find_end fuel mem rd bp i nr =
     (let (found, i) = scan_end bp i nr
      in case (if nr \<le> i then readmore mem rd bp i else Some (nr, bp, rd)) of
           None \<Rightarrow> Inr None
         | Some (nr, bp, rd) \<Rightarrow>
             if found then Inr (Some (i, nr, bp, rd))
             else (case fuel of 0 \<Rightarrow> Inl Hangs | Suc fuel' \<Rightarrow> find_end fuel' mem rd bp i nr))"

declare find_end.simps [simp del]

text \<open>The verdict from the IPP header at a position.\<close>

definition ipp_verdict :: "string \<Rightarrow> nat \<Rightarrow> int \<Rightarrow> fault + bool" where
  "ipp_verdict bp i jid =
     (if length bp < i + 8 then Inl Overflow
      else Inr (get32 (drop (i + 4) bp) = jid \<and> STATCLASS_OK (get16 (drop (i + 2) bp))))"

text \<open>
  What follows the length: the rest of the HTTP header, then the IPP header. Every jump to
  \<open>out\<close> returns failure.
\<close>

definition read_body ::
  "nat \<Rightarrow> (nat \<Rightarrow> char) \<Rightarrow> string list \<Rightarrow> string \<Rightarrow> nat \<Rightarrow> nat \<Rightarrow> int \<Rightarrow> int \<Rightarrow> fault + bool" where
  "read_body fuel mem rd bp i nr len jid =
     (case (if nr \<le> i then readmore mem rd bp i else Some (nr, bp, rd)) of
        None \<Rightarrow> Inr False
      | Some (nr, bp, rd) \<Rightarrow>
          bindR (find_end fuel mem rd bp i nr) (\<lambda>r.
          case r of
            None \<Rightarrow> Inr False
          | Some (i, nr, bp, rd) \<Rightarrow>
              (case (if int nr - int i < len then readmore mem rd bp i else Some (nr, bp, rd)) of
                 None \<Rightarrow> Inr False
               | Some (nr, bp, rd) \<Rightarrow> ipp_verdict bp i jid)))"

definition read_ipp ::
  "nat \<Rightarrow> (nat \<Rightarrow> char) \<Rightarrow> string list \<Rightarrow> string \<Rightarrow> nat \<Rightarrow> nat \<Rightarrow> int \<Rightarrow> fault + bool" where
  "read_ipp fuel mem rd bp i nr jid =
     bindR (find_len fuel mem rd bp i nr) (\<lambda>r.
     case r of
       None \<Rightarrow> Inr False
     | Some (len, i, nr, bp, rd) \<Rightarrow> read_body fuel mem rd bp i nr len jid)"

fun status_loop :: "nat \<Rightarrow> (nat \<Rightarrow> char) \<Rightarrow> string list \<Rightarrow> string \<Rightarrow> int \<Rightarrow> fault + bool" where
  "status_loop fuel mem rd bp jid =
     (case tread IOBUFSZ rd of
        None \<Rightarrow> Inr False
      | Some (s, rd) \<Rightarrow>
          let bp = overwrite bp 0 s; nr = length s
          in bindR (status_line bp) (\<lambda>r.
             case r of
               None \<Rightarrow> (case fuel of 0 \<Rightarrow> Inl Hangs | Suc fuel' \<Rightarrow> status_loop fuel' mem rd bp jid)
             | Some (code, cp, bp) \<Rightarrow>
                 if HTTP_INFO code
                 then (case fuel of 0 \<Rightarrow> Inl Hangs | Suc fuel' \<Rightarrow> status_loop fuel' mem rd bp jid)
                 else if \<not> HTTP_SUCCESS code
                 then (if length bp \<le> nr then Inl Overflow else Inr False)
                 else read_ipp fuel mem rd bp cp nr jid))"

declare status_loop.simps [simp del]

definition printer_status :: "nat \<Rightarrow> (nat \<Rightarrow> char) \<Rightarrow> string list \<Rightarrow> int \<Rightarrow> fault + bool" where
  "printer_status fuel mem rd jid = status_loop fuel mem rd (fresh mem 0 IOBUFSZ) jid"

section \<open>Scans over known text\<close>

lemma skip_known:
  assumes "\<forall>c \<in> set xs. P c" "\<not> P y" "n = length pre"
  shows "skip P (pre @ xs @ y # rest) n = Inr (length pre + length xs)"
proof -
  have "takeWhile P (xs @ y # rest) = xs" using assms(1,2) by simp
  then show ?thesis by (simp add: skip_def Let_def assms(3))
qed

lemma find_c_known:
  assumes "\<forall>c \<in> set xs. c \<noteq> CHR ''C'' \<and> c \<noteq> CHR ''c''" "y = CHR ''C'' \<or> y = CHR ''c''"
    "n = length pre" "length pre + length xs < nr"
  shows "find_c (pre @ xs @ y # rest) n nr = Inr (length pre + length xs)"
proof -
  have "takeWhile (\<lambda>c. c \<noteq> CHR ''C'' \<and> c \<noteq> CHR ''c'') (xs @ y # rest) = xs" using assms(1,2) by simp
  then show ?thesis using assms(4) by (simp add: find_c_def Let_def assms(3))
qed

lemma upd_known: "n = length pre \<Longrightarrow> (pre @ y # rest)[n := z] = pre @ z # rest"
  by simp

lemma overwrite_start: "length s \<le> length bp \<Longrightarrow> overwrite bp 0 s = s @ drop (length s) bp"
  by (simp add: overwrite_def)

lemma length_fresh [simp]: "length (fresh mem a n) = n"
  by (simp add: fresh_def)

section \<open>A well-formed answer\<close>

text \<open>
  An answer with one header field, up to the byte that ends its number; \<open>tail\<close> is the rest of
  the segment.
\<close>

definition answer :: "nat \<Rightarrow> string \<Rightarrow> nat \<Rightarrow> string \<Rightarrow> string" where
  "answer code reason n tail =
     ''HTTP/1.1'' @ '' '' @ dec code @ '' '' @ reason @ CRLF @ ''Content-Length:'' @ '' '' @ dec n @
     CHR 0x0D # tail"

text \<open>The same bytes after the two marks of the status line, and after that of the length.\<close>

definition marked :: "nat \<Rightarrow> string \<Rightarrow> string" where
  "marked code reason = ''HTTP/1.1 '' @ dec code @ NUL # reason"

definition parsed :: "nat \<Rightarrow> string \<Rightarrow> nat \<Rightarrow> string" where
  "parsed code reason n =
     marked code reason @ [NUL, CHR 0x0A] @ ''Content-Length: '' @ dec n @ [NUL]"

lemma dec_head: "\<exists>d ds. dec n = d # ds \<and> isdigit d \<and> \<not> isspace d"
  using dec_not_Nil [of n] set_dec_digits [of _ n] isdigit_facts(7) by (cases "dec n") auto

lemma char_facts [simp]: "isspace (CHR '' '')" "\<not> isdigit (CHR '' '')" "\<not> isdigit (CHR 0x0D)"
  by (simp_all add: isspace_def isdigit_def)

lemma atoi_dec: "n < 2 ^ 31 \<Longrightarrow> atoi (dec n) = int n"
  by (simp add: atoi_def atol_dec wrap32_id)

lemma status_line_answer:
  assumes "code < 2 ^ 31" "CHR 0x0D \<notin> set reason" "CHR 0x0A \<notin> set reason"
  shows "status_line (answer code reason n tail @ rest) =
    Inr (Some (int code, length (marked code reason),
      marked code reason @ [NUL, CHR 0x0A] @ ''Content-Length:'' @ '' '' @ dec n @ CHR 0x0D # tail @ rest))"
proof -
  let ?r = "CHR 0x0A # ''Content-Length:'' @ '' '' @ dec n @ CHR 0x0D # tail @ rest"
  obtain d ds where d: "dec code = d # ds" "\<not> isspace d" using dec_head by blast
  let ?bp = "answer code reason n tail @ rest"
  have b1: "?bp = ''HTTP/1.1'' @ '' '' @ d # ds @ '' '' @ reason @ CHR 0x0D # ?r"
    by (simp add: answer_def d(1) CRLF_def)
  have b2: "?bp = ''HTTP/1.1 '' @ dec code @ CHR '' '' # reason @ CHR 0x0D # ?r"
    by (simp add: answer_def CRLF_def)
  have s1: "skip isspace ?bp 8 = Inr 9"
    unfolding b1 using skip_known [of "'' ''" isspace d 8 "''HTTP/1.1''"] d(2) by simp
  have dg: "\<forall>c \<in> set (dec code). isdigit c" using set_dec_digits by blast
  have s2: "skip isdigit ?bp 9 = Inr (9 + length (dec code))"
    unfolding b2 using skip_known [OF dg, of "CHR '' ''" 9 "''HTTP/1.1 ''"] by simp
  have u1: "?bp[9 + length (dec code) := NUL] = marked code reason @ CHR 0x0D # ?r"
  proof -
    have "?bp = (''HTTP/1.1 '' @ dec code) @ CHR '' '' # reason @ CHR 0x0D # ?r" using b2 by simp
    then show ?thesis
      using upd_known [of "9 + length (dec code)" "''HTTP/1.1 '' @ dec code" "CHR '' ''"] by (simp add: marked_def)
  qed
  have rs: "\<forall>c \<in> set reason. c \<noteq> CHR 0x0D \<and> c \<noteq> CHR 0x0A" using assms(2,3) by auto
  have s3: "skip (\<lambda>c. c \<noteq> CHR 0x0D \<and> c \<noteq> CHR 0x0A) (marked code reason @ CHR 0x0D # ?r) (9 + length (dec code) + 1) =
      Inr (length (marked code reason))"
    using skip_known [OF rs, of "CHR 0x0D" "9 + length (dec code) + 1" "''HTTP/1.1 '' @ dec code @ [NUL]" ?r]
    by (simp add: marked_def)
  have u2: "(marked code reason @ CHR 0x0D # ?r)[length (marked code reason) := NUL] =
      marked code reason @ NUL # ?r" by simp
  have v: "atoi (cstr (drop 9 (marked code reason @ NUL # ?r))) = int code"
  proof -
    have "drop 9 (marked code reason @ NUL # ?r) = dec code @ NUL # reason @ NUL # ?r"
      by (simp add: marked_def)
    then show ?thesis using assms(1) by (simp add: atoi_dec)
  qed
  show ?thesis
    unfolding status_line_def
    by (simp only: s1 s2 bindR_Inr u1 s3 Let_def u2 v) (simp add: d(1))
qed

lemma tolower_clen: "map tolower ''Content-Length:'' = ''content-length:''"
  by code_simp

lemma find_len_answer:
  assumes "n < 2 ^ 31" "length (parsed code reason n) \<le> nr"
  shows "find_len fuel mem rd (marked code reason @ [NUL, CHR 0x0A] @ ''Content-Length:'' @ '' '' @ dec n @
      CHR 0x0D # tail @ rest) (length (marked code reason)) nr =
    Inr (Some (int n, length (parsed code reason n), nr, parsed code reason n @ tail @ rest, rd))"
proof -
  let ?M = "marked code reason" and ?t = "CHR 0x0D # tail @ rest"
  let ?bp = "?M @ [NUL, CHR 0x0A] @ ''Content-Length:'' @ '' '' @ dec n @ ?t"
  let ?m = "length ?M"
  obtain d ds where d: "dec n = d # ds" "\<not> isspace d" using dec_head by blast
  have l: "length (parsed code reason n) = ?m + 19 + length (dec n)"
    by (simp add: parsed_def)
  have c: "find_c ?bp ?m nr = Inr (?m + 2)"
  proof -
    have "find_c (?M @ [NUL, CHR 0x0A] @ CHR ''C'' # ''ontent-Length:'' @ '' '' @ dec n @ ?t) ?m nr =
        Inr (length ?M + length [NUL, CHR 0x0A])"
      by (rule find_c_known) (use assms(2) l in \<open>simp_all add: NUL_def\<close>)
    then show ?thesis by simp
  qed
  have i: "\<not> nr \<le> ?m + 2" using assms(2) l by simp
  have dr: "drop (?m + 2) ?bp = ''Content-Length:'' @ '' '' @ dec n @ ?t" by simp
  have "take 15 (''Content-Length:'' @ '' '' @ dec n @ ?t) = ''Content-Length:''" by simp
  then have cl: "clen_at ?bp (?m + 2)" unfolding clen_at_def dr by (simp only: tolower_clen)
  have s1: "skip isspace ?bp (?m + 2 + 15) = Inr (?m + 18)"
    using skip_known [of "'' ''" isspace d "?m + 2 + 15" "?M @ [NUL, CHR 0x0A] @ ''Content-Length:''" "ds @ ?t"] d
    by simp
  have dg: "\<forall>c \<in> set (dec n). isdigit c" using set_dec_digits by blast
  have s2: "skip isdigit ?bp (?m + 18) = Inr (?m + 18 + length (dec n))"
    using skip_known [OF dg, of "CHR 0x0D" "?m + 18" "?M @ [NUL, CHR 0x0A] @ ''Content-Length: ''" "tail @ rest"]
    by simp
  have u: "?bp[?m + 18 + length (dec n) := NUL] = parsed code reason n @ tail @ rest"
    using upd_known [of "?m + 18 + length (dec n)" "?M @ [NUL, CHR 0x0A] @ ''Content-Length: '' @ dec n"]
    by (simp add: parsed_def)
  have "drop (?m + 18) (parsed code reason n @ tail @ rest) = dec n @ NUL # tail @ rest"
    by (simp add: parsed_def)
  then have v: "atoi (cstr (drop (?m + 18) (parsed code reason n @ tail @ rest))) = int n"
    using assms(1) by (simp add: atoi_dec)
  have e: "clen_value ?bp (?m + 2) = Inr (int n, length (parsed code reason n), parsed code reason n @ tail @ rest)"
    unfolding clen_value_def by (simp only: s1 s2 bindR_Inr Let_def u v) (simp add: l)
  show ?thesis
    by (subst find_len.simps) (simp only: c bindR_Inr i if_False option.case prod.case cl if_True e)
qed

lemma length_answer: "length (answer code reason n tail) = length (parsed code reason n) + length tail"
  by (simp add: answer_def parsed_def marked_def CRLF_def)

text \<open>Up to the length of the body, every answer with a success code is read the same way.\<close>

lemma printer_status_answer:
  assumes code: "200 \<le> code" "code \<le> 299" and r: "CHR 0x0D \<notin> set reason" "CHR 0x0A \<notin> set reason"
    and n: "n < 2 ^ 31" and l: "length (answer code reason n tail) \<le> IOBUFSZ"
  shows "\<exists>rest. length rest = IOBUFSZ - length (answer code reason n tail) \<and>
    printer_status fuel mem (answer code reason n tail # rd) jid =
      read_body fuel mem rd (parsed code reason n @ tail @ rest) (length (parsed code reason n))
        (length (parsed code reason n) + length tail) (int n) jid"
proof -
  let ?a = "answer code reason n tail"
  let ?rest = "drop (length ?a) (fresh mem 0 IOBUFSZ)"
  have t: "tread IOBUFSZ (?a # rd) = Some (?a, rd)"
    using l by (simp add: tread_def answer_def)
  have o: "overwrite (fresh mem 0 IOBUFSZ) 0 ?a = ?a @ ?rest"
    using l by (intro overwrite_start) simp
  have c: "code < 2 ^ 31" "\<not> HTTP_INFO (int code)" "HTTP_SUCCESS (int code)"
    using code by (simp_all add: HTTP_INFO_def HTTP_SUCCESS_def)
  have nr: "length (parsed code reason n) \<le> length ?a" by (simp add: length_answer)
  have "printer_status fuel mem (?a # rd) jid =
      read_body fuel mem rd (parsed code reason n @ tail @ ?rest) (length (parsed code reason n)) (length ?a) (int n) jid"
    unfolding printer_status_def
    by (subst status_loop.simps)
      (simp only: t option.case prod.case o Let_def status_line_answer [OF c(1) r] bindR_Inr c(2,3)
        if_False not_not if_True read_ipp_def find_len_answer [OF n nr] simp_thms)
  then show ?thesis using l by (intro exI [of _ ?rest]) (simp add: length_answer)
qed

section \<open>The end of the header\<close>

lemma find_end_here:
  assumes "i = length pre" "nr = length pre + 3 + length body" "body \<noteq> []"
  shows "find_end fuel mem rd (pre @ CHR 0x0A # CHR 0x0D # CHR 0x0A # body @ rest) i nr =
    Inr (Some (i + 3, nr, pre @ CHR 0x0A # CHR 0x0D # CHR 0x0A # body @ rest, rd))"
proof -
  let ?bp = "pre @ CHR 0x0A # CHR 0x0D # CHR 0x0A # body @ rest"
  have "blank_line_at ?bp i" using assms(1) by (simp add: blank_line_at_def nth_append)
  then have s: "scan_end ?bp i nr = (True, i + 3)" using assms by (subst scan_end.simps) simp
  have "\<not> nr \<le> i + 3" using assms by simp
  then show ?thesis by (subst find_end.simps) (simp add: s)
qed

lemma find_end_stuck:
  assumes "i < nr" "nr \<le> i + 2"
  shows "find_end fuel mem rd bp i nr = Inl Hangs"
proof (induction fuel)
  have s: "scan_end bp i nr = (False, i)" using assms by (subst scan_end.simps) simp
  case 0
  then show ?case using s assms(1) by (subst find_end.simps) simp
  case (Suc fuel)
  then show ?case using s assms(1) by (subst find_end.simps) simp
qed

lemma get_append:
  "4 \<le> length s \<Longrightarrow> get32 (s @ t) = get32 s" "2 \<le> length s \<Longrightarrow> get16 (s @ t) = get16 s"
  by (auto simp: get32_def get16_def nth_append)

lemma verdict_known:
  assumes "i = length pre" "8 \<le> length body"
  shows "ipp_verdict (pre @ body @ rest) i jid =
    Inr (get32 (drop 4 body) = jid \<and> STATCLASS_OK (get16 (drop 2 body)))"
  using assms by (simp add: ipp_verdict_def get_append)

lemma status_verdict:
  assumes "200 \<le> code" "code \<le> 299" "CHR 0x0D \<notin> set reason" "CHR 0x0A \<notin> set reason"
    "n \<le> length body" "8 \<le> length body"
    "length (answer code reason n ([CHR 0x0A, CHR 0x0D, CHR 0x0A] @ body)) \<le> IOBUFSZ"
  shows "printer_status fuel mem (answer code reason n ([CHR 0x0A, CHR 0x0D, CHR 0x0A] @ body) # rd) jid =
    Inr (get32 (drop 4 body) = jid \<and> STATCLASS_OK (get16 (drop 2 body)))"
proof -
  let ?tail = "[CHR 0x0A, CHR 0x0D, CHR 0x0A] @ body" and ?X = "parsed code reason n"
  have "n < 2 ^ 31" using assms(5,7) by (simp add: length_answer IOBUFSZ_def)
  from printer_status_answer [OF assms(1-4) this assms(7)] obtain rest where
    e: "printer_status fuel mem (answer code reason n ?tail # rd) jid =
      read_body fuel mem rd (?X @ ?tail @ rest) (length ?X) (length ?X + length ?tail) (int n) jid" by blast
  have ne: "body \<noteq> []" using assms(6) by auto
  have f: "find_end fuel mem rd (?X @ ?tail @ rest) (length ?X) (length ?X + length ?tail) =
      Inr (Some (length ?X + 3, length ?X + length ?tail, ?X @ ?tail @ rest, rd))"
    using find_end_here [of "length ?X" ?X "length ?X + length ?tail" body] ne by simp
  have v: "ipp_verdict (?X @ ?tail @ rest) (length ?X + 3) jid =
      Inr (get32 (drop 4 body) = jid \<and> STATCLASS_OK (get16 (drop 2 body)))"
    using verdict_known [of "length ?X + 3" "?X @ [CHR 0x0A, CHR 0x0D, CHR 0x0A]" body] assms(6) by simp
  have g: "\<not> length ?X + length ?tail \<le> length ?X"
    "\<not> int (length ?X + length ?tail) - int (length ?X + 3) < int n" using assms(5) by simp_all
  show ?thesis
    unfolding e read_body_def by (simp only: g if_False option.case prod.case f bindR_Inr v)
qed

section \<open>Properties\<close>


definition ok_body :: string where
  "ok_body = be16 0x0101 @ be16 0 @ be32 7"


text \<open>
  A segment that ends one or two bytes behind the number of the \<open>Content-Length\<close> field,
  before the empty line, makes the search for the end of the header run for ever: no amount of
  fuel and no further segments let it return, although the rest of the answer may follow.
\<close>

lemma printer_status_hangs:
  assumes "200 \<le> code" "code \<le> 299" "CHR 0x0D \<notin> set reason" "CHR 0x0A \<notin> set reason" "n < 2 ^ 31"
    "length tail = 1 \<or> length tail = 2" "length (answer code reason n tail) \<le> IOBUFSZ"
  shows "printer_status fuel mem (answer code reason n tail # rd) jid = Inl Hangs"
proof -
  let ?X = "parsed code reason n"
  from printer_status_answer [OF assms(1-5,7)] obtain rest where
    e: "printer_status fuel mem (answer code reason n tail # rd) jid =
      read_body fuel mem rd (?X @ tail @ rest) (length ?X) (length ?X + length tail) (int n) jid" by blast
  have g: "length ?X < length ?X + length tail" "length ?X + length tail \<le> length ?X + 2"
    "\<not> length ?X + length tail \<le> length ?X" using assms(6) by auto
  show ?thesis
    unfolding e read_body_def by (simp only: g(3) if_False option.case prod.case find_end_stuck [OF g(1,2)] bindR_Inl)
qed

lemma printer_status_hangs_example:
  "printer_status 1000 (\<lambda>_. NUL) [answer 200 ''OK'' 8 [CHR 0x0A], [CHR 0x0D, CHR 0x0A] @ ok_body] 7 = Inl Hangs"
proof -
  have "length (parsed 200 ''OK'' 8) \<le> 60"
    by (simp add: parsed_def marked_def dec.simps)
  then show ?thesis by (intro printer_status_hangs) (simp_all add: length_answer IOBUFSZ_def)
qed

text \<open>
  When the body arrives in two segments, the second is stored over the first: the verdict is
  taken from the first bytes of the second segment, whatever IPP header the answer began with.
\<close>

lemma printer_status_split_body:
  assumes "200 \<le> code" "code \<le> 299" "CHR 0x0D \<notin> set reason" "CHR 0x0A \<notin> set reason" "n < 2 ^ 31"
    "part1 \<noteq> []" "length part1 < n" "8 \<le> length part2"
    "length (answer code reason n ([CHR 0x0A, CHR 0x0D, CHR 0x0A] @ part1)) + length part2 \<le> IOBUFSZ"
  shows "printer_status fuel mem (answer code reason n ([CHR 0x0A, CHR 0x0D, CHR 0x0A] @ part1) # part2 # rd) jid =
    Inr (get32 (drop 4 part2) = jid \<and> STATCLASS_OK (get16 (drop 2 part2)))"
proof -
  let ?tail = "[CHR 0x0A, CHR 0x0D, CHR 0x0A] @ part1" and ?X = "parsed code reason n"
  have l: "length (answer code reason n ?tail) \<le> IOBUFSZ" using assms(9) by simp
  from printer_status_answer [OF assms(1-5) l] obtain rest where r: "length rest = IOBUFSZ - length (answer code reason n ?tail)"
    and e: "printer_status fuel mem (answer code reason n ?tail # part2 # rd) jid =
      read_body fuel mem (part2 # rd) (?X @ ?tail @ rest) (length ?X) (length ?X + length ?tail) (int n) jid" by blast
  let ?bp = "?X @ ?tail @ rest" and ?i = "length ?X + 3"
  have lb: "length ?bp = IOBUFSZ" using r l by (simp add: length_answer)
  have f: "find_end fuel mem (part2 # rd) ?bp (length ?X) (length ?X + length ?tail) =
      Inr (Some (?i, length ?X + length ?tail, ?bp, part2 # rd))"
    using find_end_here [of "length ?X" ?X "length ?X + length ?tail" part1] assms(6) by simp
  let ?bp2 = "overwrite ?bp ?i part2"
  have fits: "?i + length part2 \<le> length ?bp" using assms(9) lb by (simp add: length_answer)
  have "tread (length ?bp - ?i) (part2 # rd) = Some (part2, rd)"
    using fits assms(8) unfolding lb by (auto simp: tread_def)
  moreover have "\<not> length ?bp \<le> ?i" using fits assms(8) by linarith
  ultimately have rm: "readmore mem (part2 # rd) ?bp ?i = Some (?i + length part2, ?bp2, rd)"
    unfolding readmore_def Let_def by (simp only: if_False option.case prod.case)
  have ow: "?bp2 = (?X @ [CHR 0x0A, CHR 0x0D, CHR 0x0A]) @ part2 @ drop (?i + length part2) ?bp"
    by (simp add: overwrite_def)
  have v: "ipp_verdict ?bp2 ?i jid = Inr (get32 (drop 4 part2) = jid \<and> STATCLASS_OK (get16 (drop 2 part2)))"
    unfolding ow by (rule verdict_known) (use assms(8) in simp_all)
  have g: "\<not> length ?X + length ?tail \<le> length ?X"
    "int (length ?X + length ?tail) - int ?i < int n" using assms(7) by simp_all
  show ?thesis
    unfolding e read_body_def by (simp only: g if_False if_True option.case prod.case f bindR_Inr rm v)
qed

lemma printer_status_split_body_example:
  "printer_status 9 (\<lambda>_. NUL) [answer 200 ''OK'' 16 ([CHR 0x0A, CHR 0x0D, CHR 0x0A] @ ok_body), replicate 8 (CHR ''x'')] 7 =
     Inr False"
proof -
  have "length (parsed 200 ''OK'' 16) \<le> 60"
    by (simp add: parsed_def marked_def dec.simps)
  then have l: "length (answer 200 ''OK'' 16 ([CHR 0x0A, CHR 0x0D, CHR 0x0A] @ ok_body)) + length (replicate 8 (CHR ''x'')) \<le> IOBUFSZ"
    by (simp add: length_answer ok_body_def IOBUFSZ_def)
  have "get32 (replicate 4 (CHR ''x'')) \<noteq> 7" by (simp add: get32_def ubyte_def)
  then show ?thesis
    using printer_status_split_body [of 200 "''OK''" 16 ok_body "replicate 8 (CHR ''x'')" 9 "\<lambda>_. NUL" "[]" 7] l
    by (simp add: ok_body_def be16_def)
qed

end
