(* ===== verification/Spool.thy ===== *)
theory Spool
  imports Spool_Jobs Spool_Workers Ipp_Status
begin

text \<open>
  The print spooling daemon (\<open>ipp/printd.c\<close>): job numbers and their file, the spool directories,
  the thread that takes a job from a client, the thread that sends jobs to the printer, and the
  start of the daemon on the files an earlier run left. One call of \<open>client_thread\<close> and one
  round of \<open>printer_thread\<close> are functions of the daemon's state and of what the kernel answers.
\<close>

unbundle bit_operations_syntax

section \<open>The state of the daemon\<close>

text \<open>
  A file of the request directory holds a request structure, or (\<open>None\<close>) bytes of another size.
  The names in both directories are the decimal job numbers.
\<close>

record printd =
  jobs :: joblist
  nextjob :: int
  jobfile :: string
  data :: "string \<rightharpoonup> string"
  reqs :: "string \<rightharpoonup> printreq option"
  wl :: wlist
  reread :: bool
  printer_name :: string

definition PR_TEXT :: int where
  "PR_TEXT = 0x01"

definition EIO :: int where
  "EIO = 5"

definition SIZEOF_PRINTREQ :: int where
  "SIZEOF_PRINTREQ = 336"

definition FILENMSZ :: nat where
  "FILENMSZ = 64"

definition MSGLEN_MAX :: nat where
  "MSGLEN_MAX = 512"

definition request_path :: "string \<Rightarrow> string" where
  "request_path name = ''/var/spool/printer/reqs/'' @ name"

section \<open>Job numbers\<close>

text \<open>
  The buffer for the number holds the file's name before, with \<open>junk\<close> behind its NUL; the number
  is read over it and no NUL is added. \<open>lock\<close> and \<open>rd\<close> are whether the lock and the read succeed.
\<close>

definition jobfile_name :: string where
  "jobfile_name = ''/var/spool/printer/jobno''"

definition init_request :: "bool \<Rightarrow> bool \<Rightarrow> string \<Rightarrow> printd \<Rightarrow> fault + printd" where
  "init_request lock rd junk s =
     (if \<not> lock then Inl (Log_exit ''daemon already running'')
      else if \<not> rd then Inl (Log_exit ''can't read job file'')
      else
        let got = take FILENMSZ (jobfile s);
            name = overwrite (jobfile_name @ NUL # junk) 0 got
        in Inr (s\<lparr>nextjob := (if got = [] then 1 else atol (cstr name))\<rparr>))"

definition update_jobno :: "bool \<Rightarrow> printd \<Rightarrow> fault + printd" where
  "update_jobno wr s =
     (if wr then Inr (s\<lparr>jobfile := overwrite (jobfile s) 0 (dec_int (nextjob s))\<rparr>)
      else Inl (Log_exit ''can't update job file''))"

definition get_newjobno :: "printd \<Rightarrow> int \<times> printd" where
  "get_newjobno s =
     (let n = wrap64 (nextjob s + 1)
      in (nextjob s, s\<lparr>nextjob := (if n \<le> 0 then 1 else n)\<rparr>))"

section \<open>Starting on an existing spool directory\<close>

text \<open>
  \<open>entries\<close> are the names \<open>readdir\<close> returns, each with the address \<open>malloc\<close> gives its job. A path
  that does not fit its buffer with the NUL overflows it. \<open>None\<close> is a directory that cannot be opened.
\<close>

fun queue_entries :: "(string \<times> nat) list \<Rightarrow> printd \<Rightarrow> fault + printd" where
  "queue_entries [] s = Inr s"
| "queue_entries ((d_name, p) # entries) s =
     (if d_name = ''.'' \<or> d_name = ''..'' then queue_entries entries s
      else if FILENMSZ \<le> length (request_path d_name) then Inl Overflow
      else case reqs s d_name of
        None \<Rightarrow> queue_entries entries s
      | Some None \<Rightarrow>
          queue_entries entries (s\<lparr>reqs := (reqs s)(d_name := None), data := (data s)(d_name := None)\<rparr>)
      | Some (Some r) \<Rightarrow>
          bindR (add_job p r (atol d_name) (jobs s)) (\<lambda>q. queue_entries entries (s\<lparr>jobs := q\<rparr>)))"

definition build_qonstart :: "(string \<times> nat) list option \<Rightarrow> printd \<Rightarrow> fault + printd" where
  "build_qonstart dirp s = (case dirp of None \<Rightarrow> Inr s | Some entries \<Rightarrow> queue_entries entries s)"

text \<open>
  \<open>init_printer\<close> is given what \<open>get_printaddr\<close> finds: no address, or one with or without a
  canonical name.
\<close>

definition init_printer :: "string option option \<Rightarrow> printd \<Rightarrow> fault + printd" where
  "init_printer addr s =
     (case addr of
        None \<Rightarrow> Inl (Log_exit ''no printer device registered'')
      | Some canon \<Rightarrow>
          Inr (s\<lparr>printer_name := (case canon of None \<Rightarrow> ''printer'' | Some nm \<Rightarrow> nm)\<rparr>))"

section \<open>Accepting a job\<close>

text \<open>
  What the kernel answers to one client thread: the addresses of its allocations, the result of
  reading the header, whether the files can be created, the segments of the document with the
  results of writing them, and what uninitialised memory holds.
\<close>

record client_env =
  ce_worker :: nat
  ce_hdr_n :: int
  ce_hdr :: printreq
  ce_errno :: int
  ce_creat_data :: bool
  ce_segments :: "(string \<times> int) list"
  ce_creat_req :: bool
  ce_write_req :: int
  ce_job :: nat
  ce_buf :: string
  ce_res_jobid :: int

record printresp =
  retcode :: int
  resp_jobid :: int
  msg :: string

datatype client_result = No_worker | Rejected printresp | Accepted printresp

text \<open>The document is stored segment by segment; \<open>Inl\<close> is the result of a write that failed.\<close>

fun store_segments :: "(string \<times> int) list \<Rightarrow> string \<Rightarrow> int + string" where
  "store_segments [] file = Inr file"
| "store_segments ((buf, nw) # segs) file =
     (if buf = [] then Inr file
      else if nw \<noteq> int (length buf) then Inl nw
      else store_segments segs (file @ buf))"

text \<open>
  The first segment decides whether the document is taken as text; the test reads four bytes
  of the buffer however many were received.
\<close>

definition mark_text :: "string \<Rightarrow> (string \<times> int) list \<Rightarrow> int \<Rightarrow> int" where
  "mark_text buf segs fl =
     (case segs of
        [] \<Rightarrow> fl
      | (c, _) # _ \<Rightarrow> if c = [] \<or> take 4 (overwrite buf 0 c) = ''%!PS'' then fl else fl OR PR_TEXT)"

definition reject :: "(int \<Rightarrow> string) \<Rightarrow> bool \<Rightarrow> int \<Rightarrow> int \<Rightarrow> client_result" where
  "reject strerror failed errno jid =
     (let code = htonl (if failed then errno else EIO)
      in Rejected \<lparr>retcode = code, resp_jobid = jid, msg = take MSGLEN_MAX (strerror (wrap32 code))\<rparr>)"

text \<open>The thread between its registration and its cleanup.\<close>

definition client_body ::
  "(int \<Rightarrow> string) \<Rightarrow> client_env \<Rightarrow> printd \<Rightarrow> fault + client_result \<times> printd" where
  "client_body strerror e s =
     (if ce_hdr_n e \<noteq> SIZEOF_PRINTREQ
      then Inr (reject strerror (ce_hdr_n e < 0) (ce_errno e) 0, s)
      else
        let rq = (ce_hdr e)\<lparr>size := htonl (size (ce_hdr e)), flags := htonl (flags (ce_hdr e))\<rparr>;
            (jid, s) = get_newjobno s;
            name = dec_int jid
        in if \<not> ce_creat_data e
           then Inr (reject strerror False (ce_errno e) 0, s)
           else
             let rq = rq\<lparr>flags := mark_text (ce_buf e) (ce_segments e) (flags rq)\<rparr>
             in case store_segments (ce_segments e) [] of
                  Inl nw \<Rightarrow>
                    Inr (reject strerror (nw < 0) (ce_errno e) (ce_res_jobid e),
                         s\<lparr>data := (data s)(name := None)\<rparr>)
                | Inr file \<Rightarrow>
                    let s = s\<lparr>data := (data s)(name \<mapsto> file)\<rparr>
                    in if \<not> ce_creat_req e
                       then Inr (reject strerror False (ce_errno e) 0, s\<lparr>data := (data s)(name := None)\<rparr>)
                       else if ce_write_req e \<noteq> SIZEOF_PRINTREQ
                       then Inr (reject strerror (ce_write_req e < 0) (ce_errno e) 0,
                                 s\<lparr>reqs := (reqs s)(name := None), data := (data s)(name := None)\<rparr>)
                       else
                         let s = s\<lparr>reqs := (reqs s)(name \<mapsto> Some rq)\<rparr>;
                             res = \<lparr>retcode = 0, resp_jobid = htonl jid, msg = ''request ID '' @ dec_int jid\<rparr>
                         in bindR (add_job (ce_job e) rq jid (jobs s)) (\<lambda>q.
                            Inr (Accepted res, s\<lparr>jobs := q\<rparr>)))"

definition client_thread ::
  "nat \<Rightarrow> (int \<Rightarrow> string) \<Rightarrow> nat \<Rightarrow> int \<Rightarrow> client_env \<Rightarrow> printd \<Rightarrow> fault + client_result \<times> printd" where
  "client_thread fuel strerror t fd e s =
     bindR (add_worker (ce_worker e) t fd (wl s)) (\<lambda>(ok, w).
     bindR (if ok then client_body strerror e (s\<lparr>wl := w\<rparr>) else Inr (No_worker, s\<lparr>wl := w\<rparr>)) (\<lambda>(r, s).
     bindR (client_cleanup fuel t (wl s)) (\<lambda>w. Inr (r, s\<lparr>wl := w\<rparr>))))"

section \<open>Sending a job to the printer\<close>

record printer_env =
  pe_jobno_written :: bool
  pe_config :: "string option option"
  pe_open :: bool
  pe_fstat :: bool
  pe_socket :: int
  pe_connect :: bool
  pe_headers :: bool
  pe_writes :: "nat \<Rightarrow> bool"
  pe_read :: bool
  pe_answer :: "string list"
  pe_mem :: "nat \<Rightarrow> char"

datatype printer_result = Waiting | Cancelled int | Deferred int | Printed int string

text \<open>The file is sent in blocks of the size of the buffer; \<open>wr k\<close> is whether block \<open>k\<close> is written whole.\<close>

function send_file :: "(nat \<Rightarrow> bool) \<Rightarrow> nat \<Rightarrow> string \<Rightarrow> string \<Rightarrow> bool \<times> string" where
  "send_file wr k rest sent =
     (if rest = [] then (True, sent)
      else if wr k then send_file wr (Suc k) (drop IOBUFSZ rest) (sent @ take IOBUFSZ rest)
      else (False, sent))"
  by pat_completeness auto
termination
  by (relation "measure (\<lambda>(wr, k, rest, sent). length rest)") (auto simp: IOBUFSZ_def)

declare send_file.simps [simp del]

text \<open>The configuration is read again when a signal asked for it.\<close>

definition config :: "printer_env \<Rightarrow> printd \<Rightarrow> fault + printd" where
  "config e s = (if reread s then init_printer (pe_config e) (s\<lparr>reread := False\<rparr>) else Inr s)"

text \<open>The exchange with the printer: \<open>Some sent\<close> when it confirms the job.\<close>

definition transmit :: "nat \<Rightarrow> printer_env \<Rightarrow> string \<Rightarrow> job \<Rightarrow> string \<Rightarrow> fault + string option" where
  "transmit fuel e pname j file =
     (if pe_socket e < 0 \<or> \<not> pe_connect e then Inr None
      else
        bindR (ipp_header (jobid j) pname (usernm (req j)) (jobnm (req j)) (flags (req j) AND PR_TEXT \<noteq> 0)) (\<lambda>ibuf.
        bindR (http_header pname (int (length file) + int (length ibuf))) (\<lambda>hbuf.
        if \<not> pe_headers e then Inr None
        else
          let (ok, sent) = send_file (pe_writes e) 0 file (hbuf @ ibuf)
          in if \<not> ok \<or> \<not> pe_read e then Inr None
             else bindR (printer_status fuel (pe_mem e) (pe_answer e) (jobid j)) (\<lambda>success.
                  Inr (if success then Some sent else None)))))"

definition free_job :: "nat \<Rightarrow> printd \<Rightarrow> printd" where
  "free_job jp s = s\<lparr>jobs := (jobs s)\<lparr>cells := (cells (jobs s))(jp := None)\<rparr>\<rparr>"

text \<open>
  A round of the thread in two parts, between which other threads run: taking the first job of
  the queue (\<open>None\<close> is the wait for one), and sending it.
\<close>

definition printer_pickup :: "printer_env \<Rightarrow> printd \<Rightarrow> fault + (nat \<times> job) option \<times> printd" where
  "printer_pickup e s =
     (if head (jobs s) = 0 then Inr (None, s)
      else
        let jp = head (jobs s)
        in bindR (remove_job jp (jobs s)) (\<lambda>q.
           bindR (deref (cells q) jp) (\<lambda>n.
           bindR (update_jobno (pe_jobno_written e) (s\<lparr>jobs := q\<rparr>)) (\<lambda>s.
           bindR (config e s) (\<lambda>s. Inr (Some (jp, payload n), s))))))"

definition printer_finish ::
  "nat \<Rightarrow> printer_env \<Rightarrow> nat \<Rightarrow> job \<Rightarrow> printd \<Rightarrow> fault + printer_result \<times> printd" where
  "printer_finish fuel e jp j s =
     (let name = dec_int (jobid j)
      in case (if pe_open e \<and> pe_fstat e then data s name else None) of
           None \<Rightarrow> Inr (Cancelled (jobid j), free_job jp s)
         | Some file \<Rightarrow>
             bindR (transmit fuel e (printer_name s) j file) (\<lambda>r.
             case r of
               Some sent \<Rightarrow>
                 Inr (Printed (jobid j) sent,
                      free_job jp (s\<lparr>data := (data s)(name := None), reqs := (reqs s)(name := None)\<rparr>))
             | None \<Rightarrow> bindR (replace_job jp (jobs s)) (\<lambda>q. Inr (Deferred (jobid j), s\<lparr>jobs := q\<rparr>))))"

definition printer_round :: "nat \<Rightarrow> printer_env \<Rightarrow> printd \<Rightarrow> fault + printer_result \<times> printd" where
  "printer_round fuel e s =
     bindR (printer_pickup e s) (\<lambda>(r, s).
     case r of None \<Rightarrow> Inr (Waiting, s) | Some (jp, j) \<Rightarrow> printer_finish fuel e jp j s)"

section \<open>Signals\<close>

datatype signo = SIGHUP | SIGTERM | Other_signal

datatype signal_result = Continue printd | Exit "nat list"

text \<open>
  One round of \<open>signal_thread\<close>: \<open>err\<close> is the result of \<open>sigwait\<close>, and \<open>Exit\<close> ends the process after
  cancelling the threads it lists.
\<close>

definition signal_round :: "nat \<Rightarrow> int \<Rightarrow> signo \<Rightarrow> printd \<Rightarrow> fault + signal_result" where
  "signal_round fuel err sg s =
     (if err \<noteq> 0 then Inl (Log_exit ''sigwait failed'')
      else case sg of
        SIGHUP \<Rightarrow> Inr (Continue (s\<lparr>reread := True\<rparr>))
      | SIGTERM \<Rightarrow> bindR (kill_workers fuel (wl s)) (\<lambda>ts. Inr (Exit ts))
      | Other_signal \<Rightarrow> bindR (kill_workers fuel (wl s)) (\<lambda>ts. Inr (Exit ts)))"

section \<open>Job numbers and names\<close>

lemma dec_int_nat: "0 \<le> i \<Longrightarrow> dec_int i = dec (nat i)"
  by (simp add: dec_int_def)

lemma dec_int_inject: "0 \<le> i \<Longrightarrow> 0 \<le> k \<Longrightarrow> dec_int i = dec_int k \<longleftrightarrow> i = k"
  by (auto simp: dec_int_nat)

lemma get_newjobno_next:
  assumes "0 < nextjob s" "nextjob s + 1 < 2 ^ 63"
  shows "get_newjobno s = (nextjob s, s\<lparr>nextjob := nextjob s + 1\<rparr>)"
proof -
  have "wrap64 (nextjob s + 1) = nextjob s + 1" using assms by (intro wrap64_id) simp_all
  then show ?thesis using assms(1) by (simp add: get_newjobno_def Let_def)
qed

lemma get_newjobno_positive: "0 < nextjob (snd (get_newjobno s))"
  by (simp add: get_newjobno_def Let_def)

section \<open>The job file\<close>

lemma atol_dec_tail:
  assumes "n < 2 ^ 63" "t = [] \<or> \<not> isdigit (hd t)"
  shows "atol (dec n @ t) = int n"
proof -
  obtain c r where cr: "dec n = c # r" by (cases "dec n") auto
  then have c: "c \<noteq> CHR ''-''" "c \<noteq> CHR ''+''"
    using set_dec_digits [of c n] isdigit_facts(1,2) [of c] by auto
  have d: "dropWhile isspace (dec n @ t) = dec n @ t"
    using dropWhile_pad_dec [of 0 n t] by (simp add: pad_def)
  have v: "digits_val (takeWhile isdigit (c # r @ t)) = n"
    using takeWhile_isdigit_dec [OF assms(2), of n] digits_val_dec [of n] by (simp only: cr append_Cons)
  have "int n < 2 ^ 63"
    using assms by (metis of_nat_less_iff of_nat_numeral of_nat_power)
  then show ?thesis
    unfolding atol_def Let_def d by (simp add: cr v c del: takeWhile.simps)
qed

lemma length_dec_63: "n < 2 ^ 63 \<Longrightarrow> length (dec n) \<le> 19"
  by (rule length_dec_le) simp_all

text \<open>No character of the file's name behind the first is a digit.\<close>

lemma jobfile_name_facts:
  "length jobfile_name = 24" "NUL \<notin> set jobfile_name" "c \<in> set jobfile_name \<Longrightarrow> \<not> isdigit c"
  by (auto simp: jobfile_name_def NUL_def isdigit_def)

lemma read_jobfile:
  assumes "n < 2 ^ 63"
  shows "atol (cstr (overwrite (jobfile_name @ NUL # junk) 0 (dec n))) = int n"
proof -
  let ?t = "drop (length (dec n)) jobfile_name"
  have l: "length (dec n) \<le> 19" using length_dec_63 [OF assms] .
  have "overwrite (jobfile_name @ NUL # junk) 0 (dec n) = (dec n @ ?t) @ NUL # junk"
    using l by (simp add: overwrite_def jobfile_name_facts)
  moreover have "NUL \<notin> set (dec n @ ?t)"
    using jobfile_name_facts(2) by (auto dest: in_set_dropD)
  ultimately have c: "cstr (overwrite (jobfile_name @ NUL # junk) 0 (dec n)) = dec n @ ?t"
    by (metis cstr_append_NUL)
  have "hd ?t \<in> set jobfile_name" using l by (simp add: hd_drop_conv_nth jobfile_name_facts)
  then have "\<not> isdigit (hd ?t)" by (rule jobfile_name_facts(3))
  then show ?thesis unfolding c using assms by (intro atol_dec_tail) simp_all
qed

lemma init_request_dec:
  assumes "jobfile s = dec n" "n < 2 ^ 63"
  shows "init_request True True junk s = Inr (s\<lparr>nextjob := int n\<rparr>)"
proof -
  have "take FILENMSZ (dec n) = dec n" using length_dec_63 [OF assms(2)] by (simp add: FILENMSZ_def)
  then show ?thesis using assms read_jobfile [OF assms(2)] by (simp add: init_request_def Let_def)
qed

section \<open>Documents\<close>

lemma store_segments_whole:
  assumes "\<forall>(c, nw) \<in> set segs. c \<noteq> [] \<and> nw = int (length c)"
  shows "store_segments segs f = Inr (f @ concat (map fst segs))"
  using assms by (induction segs f rule: store_segments.induct) auto

lemma send_file_whole:
  assumes "\<forall>k. wr k"
  shows "send_file wr k rest sent = (True, sent @ rest)"
  using assms
proof (induction wr k rest sent rule: send_file.induct)
  case (1 wr k rest sent)
  then show ?case by (cases "rest = []") (simp_all add: send_file.simps [of _ k])
qed

text \<open>Whatever happens, only bytes of the document are sent behind the headers, in order.\<close>

lemma send_file_sound:
  "send_file wr k rest sent = (True, out) \<Longrightarrow> out = sent @ rest"
proof (induction wr k rest sent rule: send_file.induct)
  case (1 wr k rest sent)
  then show ?case
    by (subst (asm) (2) send_file.simps) (auto split: if_splits)
qed

section \<open>The outcomes of a client thread\<close>

text \<open>The request a client's thread stores: host byte order, and the text flag from the document.\<close>

definition stored_req :: "client_env \<Rightarrow> printreq" where
  "stored_req e =
     (ce_hdr e)\<lparr>size := htonl (size (ce_hdr e)),
       flags := mark_text (ce_buf e) (ce_segments e) (htonl (flags (ce_hdr e)))\<rparr>"

lemma client_body_cases:
  assumes "client_body strerror e s = Inr (r, s')" "get_newjobno s = (jid, s1)"
  shows "(\<exists>p. r = Rejected p \<and> jobs s' = jobs s \<and>
            (s' = s \<or> s' = s1 \<or>
             s' = s1\<lparr>data := (data s1)(dec_int jid := None)\<rparr> \<or>
             s' = s1\<lparr>data := (data s1)(dec_int jid := None), reqs := (reqs s1)(dec_int jid := None)\<rparr>)) \<or>
         (\<exists>p file q. r = Accepted p \<and> store_segments (ce_segments e) [] = Inr file \<and>
            add_job (ce_job e) (stored_req e) jid (jobs s1) = Inr q \<and>
            s' = s1\<lparr>data := (data s1)(dec_int jid \<mapsto> file),
                    reqs := (reqs s1)(dec_int jid \<mapsto> Some (stored_req e)), jobs := q\<rparr>)"
proof -
  have j: "jobs s1 = jobs s" using assms(2) by (auto simp: get_newjobno_def Let_def)
  show ?thesis
    using assms j
    by (auto simp: client_body_def reject_def stored_req_def Let_def bindR_eq_Inr split: if_splits sum.splits)
qed

end
