(* ===== verification/Spool_Steps.thy ===== *)
theory Spool_Steps
  imports Spool "HOL-Library.Multiset"
begin

text \<open>
  The threads of the spooler as a transition system: clients are served, the printer thread takes
  a job and later finishes with it, signals arrive, in any order. The invariant ties the queue
  to the files on disk and accounts for every accepted job.
\<close>

section \<open>The transition system\<close>

text \<open>
  \<open>current\<close> is the job in the hands of the printer thread. \<open>accepted\<close> and \<open>finished\<close> record the
  numbers of the jobs that were confirmed to a client, and that were printed or cancelled.
\<close>

record spool =
  daemon :: printd
  current :: "(nat \<times> job) option"
  accepted :: "int list"
  finished :: "int list"

definition new_ids :: "client_result \<Rightarrow> int \<Rightarrow> int list" where
  "new_ids r jid = (case r of Accepted p \<Rightarrow> [jid] | _ \<Rightarrow> [])"

definition done_ids :: "printer_result \<Rightarrow> int list" where
  "done_ids r = (case r of Printed jid sent \<Rightarrow> [jid] | Cancelled jid \<Rightarrow> [jid] | _ \<Rightarrow> [])"

text \<open>
  A client's thread is one step: up to its last action it touches only files named by its own
  number. \<open>malloc\<close> returns an unused address, and the numbers have not run out.
\<close>

inductive spool_step :: "spool \<Rightarrow> spool \<Rightarrow> bool" where
  client: "client_thread fuel strerror t fd e (daemon x) = Inr (r, s) \<Longrightarrow>
     cells (jobs (daemon x)) (ce_job e) = None \<Longrightarrow> nextjob (daemon x) + 1 < 2 ^ 63 \<Longrightarrow>
     spool_step x (x\<lparr>daemon := s, accepted := accepted x @ new_ids r (nextjob (daemon x))\<rparr>)"
| pickup: "current x = None \<Longrightarrow> printer_pickup e (daemon x) = Inr (c, s) \<Longrightarrow>
     spool_step x (x\<lparr>daemon := s, current := c\<rparr>)"
| finish: "current x = Some (jp, j) \<Longrightarrow> printer_finish fuel e jp j (daemon x) = Inr (r, s) \<Longrightarrow>
     spool_step x (x\<lparr>daemon := s, current := None, finished := finished x @ done_ids r\<rparr>)"
| signal: "signal_round fuel err sg (daemon x) = Inr (Continue s) \<Longrightarrow>
     spool_step x (x\<lparr>daemon := s\<rparr>)"

section \<open>The invariant\<close>

definition spooled :: "printd \<Rightarrow> job \<Rightarrow> bool" where
  "spooled s j \<longleftrightarrow> data s (dec_int (jobid j)) \<noteq> None \<and> reqs s (dec_int (jobid j)) = Some (Some (req j))"

definition held :: "spool \<Rightarrow> job list" where
  "held x = (case current x of None \<Rightarrow> [] | Some (jp, j) \<Rightarrow> [j])"

text \<open>The jobs that are accepted and not finished.\<close>

definition all_jobs :: "spool \<Rightarrow> nat list \<Rightarrow> job list" where
  "all_jobs x ps = held x @ payloads (jobs (daemon x)) ps"

definition current_ok :: "spool \<Rightarrow> nat list \<Rightarrow> bool" where
  "current_ok x ps \<longleftrightarrow>
     (case current x of
        None \<Rightarrow> True
      | Some (jp, j) \<Rightarrow> jp \<notin> set ps \<and> jp \<noteq> 0 \<and> map_option payload (cells (jobs (daemon x)) jp) = Some j)"

definition spool_rep :: "spool \<Rightarrow> nat list \<Rightarrow> bool" where
  "spool_rep x ps \<longleftrightarrow>
     drep (jobs (daemon x)) ps \<and> current_ok x ps \<and>
     (\<forall>j \<in> set (all_jobs x ps). spooled (daemon x) j) \<and>
     mset (accepted x) = mset (map jobid (all_jobs x ps)) + mset (finished x) \<and>
     distinct (accepted x) \<and> (\<forall>i \<in> set (accepted x). 0 < i \<and> i < nextjob (daemon x)) \<and>
     0 < nextjob (daemon x)"

definition spool_inv :: "spool \<Rightarrow> bool" where
  "spool_inv x \<longleftrightarrow> (\<exists>ps. spool_rep x ps)"

lemma current_ok_mono:
  assumes "current_ok x ps" "current y = current x"
    and "\<And>jp j. map_option payload (cells (jobs (daemon x)) jp) = Some j \<Longrightarrow> jp \<notin> set ps \<Longrightarrow>
      jp \<notin> set ps' \<and> map_option payload (cells (jobs (daemon y)) jp) = Some j"
  shows "current_ok y ps'"
proof (cases "current x")
  case None
  then show ?thesis using assms(2) by (simp add: current_ok_def)
next
  case (Some c)
  obtain jp j where "c = (jp, j)" by (cases c)
  then show ?thesis
    using Some assms(1,2) assms(3) [of jp j] unfolding current_ok_def by (simp del: map_option_eq_Some)
qed

lemma spool_rep_ids:
  assumes "spool_rep x ps" "js = all_jobs x ps"
  shows "distinct (map jobid js)" "j \<in> set js \<Longrightarrow> 0 < jobid j \<and> jobid j < nextjob (daemon x)"
proof -
  have m: "mset (accepted x) = mset (map jobid js) + mset (finished x)" and d: "distinct (accepted x)"
    using assms by (simp_all add: spool_rep_def)
  have "distinct (map jobid js @ finished x)"
    using d m by (metis mset_append mset_eq_imp_distinct_iff)
  then show "distinct (map jobid js)" by simp
  have "set (map jobid js) \<subseteq> set (accepted x)"
    using m by (metis set_append sup_ge1 mset_append mset_eq_setD)
  then show "j \<in> set js \<Longrightarrow> 0 < jobid j \<and> jobid j < nextjob (daemon x)"
    using assms(1) by (auto simp: spool_rep_def)
qed

section \<open>The steps keep the invariant\<close>

lemma add_job_drep:
  assumes a: "add_job p r jid q = Inr q'" and d: "drep q ps" and p: "cells q p = None"
  shows "drep q' (ps @ [p])" "payloads q' (ps @ [p]) = payloads q ps @ [\<lparr>jobid = jid, req = r\<rparr>]"
    "y \<noteq> p \<Longrightarrow> map_option payload (cells q' y) = map_option payload (cells q y)"
proof -
  have nz: "p \<noteq> 0" using a by (auto simp: add_job_def split: if_splits)
  have "p \<notin> set ps" using drep_node [OF d] p by fastforce
  from link_last_drep [OF d this nz, of "\<lparr>jobid = jid, req = r\<rparr>"] a
  show "drep q' (ps @ [p])" "payloads q' (ps @ [p]) = payloads q ps @ [\<lparr>jobid = jid, req = r\<rparr>]"
    by (auto simp: add_job_link [OF nz])
  show "y \<noteq> p \<Longrightarrow> map_option payload (cells q' y) = map_option payload (cells q y)"
    using a nz by (auto simp: add_job_def Let_def set_nxt_def deref_def bindR_eq_Inr split: if_splits option.splits)
qed

text \<open>Only the files of numbers already handed out matter.\<close>

definition same_files :: "printd \<Rightarrow> printd \<Rightarrow> bool" where
  "same_files s s' \<longleftrightarrow> nextjob s \<le> nextjob s' \<and>
     (\<forall>i. 0 < i \<and> i < nextjob s \<longrightarrow>
        data s' (dec_int i) = data s (dec_int i) \<and> reqs s' (dec_int i) = reqs s (dec_int i))"

lemma spool_rep_files:
  assumes r: "spool_rep x ps" and j: "jobs s = jobs (daemon x)" and f: "same_files (daemon x) s"
  shows "spool_rep (x\<lparr>daemon := s\<rparr>) ps"
proof -
  have "spooled s j" if "j \<in> set (all_jobs x ps)" for j
    using spool_rep_ids(2) [OF r refl that] r f that by (auto simp: spool_rep_def spooled_def same_files_def)
  moreover have "current_ok (x\<lparr>daemon := s\<rparr>) ps"
    by (rule current_ok_mono [of x ps]) (use r j in \<open>simp_all add: spool_rep_def\<close>)
  moreover have "all_jobs (x\<lparr>daemon := s\<rparr>) ps = all_jobs x ps" using j by (simp add: all_jobs_def held_def)
  ultimately show ?thesis
    using r j f by (auto simp: spool_rep_def same_files_def)
qed

lemma client_thread_cases:
  assumes "client_thread fuel strerror t fd e s = Inr (r, s')"
  shows "(r = No_worker \<and> (\<exists>w. s' = s\<lparr>wl := w\<rparr>)) \<or>
    (\<exists>w w' s1. client_body strerror e (s\<lparr>wl := w\<rparr>) = Inr (r, s1) \<and> s' = s1\<lparr>wl := w'\<rparr>)"
  using assms by (auto simp: client_thread_def bindR_eq_Inr split: if_splits)

lemma client_body_inv:
  assumes r: "spool_rep x ps" and b: "client_body strerror e (daemon x) = Inr (res, s)"
    and p: "cells (jobs (daemon x)) (ce_job e) = None" and n: "nextjob (daemon x) + 1 < 2 ^ 63"
  shows "spool_inv (x\<lparr>daemon := s, accepted := accepted x @ new_ids res (nextjob (daemon x))\<rparr>)"
proof -
  let ?d = "daemon x" let ?n = "nextjob (daemon x)"
  have pos: "0 < ?n" using r by (simp add: spool_rep_def)
  have g: "get_newjobno ?d = (?n, ?d\<lparr>nextjob := ?n + 1\<rparr>)" using get_newjobno_next pos n by blast
  have nm: "dec_int i \<noteq> dec_int ?n" if "0 < i" "i < ?n" for i using that dec_int_inject [of i ?n] by simp
  consider (rej) a where "res = Rejected a" "jobs s = jobs ?d" "same_files ?d s"
    | (acc) a f q where "res = Accepted a" "add_job (ce_job e) (stored_req e) ?n (jobs ?d) = Inr q"
        "s = ?d\<lparr>nextjob := ?n + 1, data := (data ?d)(dec_int ?n \<mapsto> f),
               reqs := (reqs ?d)(dec_int ?n \<mapsto> Some (stored_req e)), jobs := q\<rparr>"
    using client_body_cases [OF b g] nm by (auto simp: same_files_def)
  then show ?thesis
  proof cases
    case rej
    then show ?thesis
      using spool_rep_files [OF r rej(2,3)] by (auto simp: spool_inv_def new_ids_def)
  next
    case acc
    let ?p = "ce_job e" let ?j = "\<lparr>jobid = ?n, req = stored_req e\<rparr>"
    have d: "drep (jobs ?d) ps" using r by (simp add: spool_rep_def)
    note q = add_job_drep [OF acc(2) d p]
    let ?x = "x\<lparr>daemon := s, accepted := accepted x @ [?n]\<rparr>"
    have sn: "nextjob s = ?n + 1" "jobs s = q" by (simp_all add: acc(3))
    have h: "all_jobs ?x (ps @ [?p]) = all_jobs x ps @ [?j]"
      using q(2) by (simp add: all_jobs_def held_def acc(3))
    have "spooled s j" if "j \<in> set (all_jobs x ps)" for j
      using spool_rep_ids(2) [OF r refl that] nm [of "jobid j"] r that
      by (auto simp: spool_rep_def spooled_def acc(3))
    moreover have "spooled s ?j" by (simp add: spooled_def acc(3))
    moreover have "current_ok ?x (ps @ [?p])"
    proof (rule current_ok_mono [of x ps])
      fix jp j assume "map_option payload (cells (jobs ?d) jp) = Some j" "jp \<notin> set ps"
      moreover from this have "jp \<noteq> ?p" using p by auto
      ultimately show "jp \<notin> set (ps @ [?p]) \<and> map_option payload (cells (jobs (daemon ?x)) jp) = Some j"
        using q(3) [of jp] by (simp add: acc(3))
    qed (use r in \<open>simp_all add: spool_rep_def\<close>)
    ultimately have "spool_rep ?x (ps @ [?p])"
      using r q(1) pos sn by (auto simp: spool_rep_def h)
    then show ?thesis using acc(1) by (auto simp: spool_inv_def new_ids_def)
  qed
qed

lemma pickup_inv:
  assumes r: "spool_rep x ps" and c: "current x = None"
    and p: "printer_pickup e (daemon x) = Inr (c', s)"
  shows "spool_inv (x\<lparr>daemon := s, current := c'\<rparr>)"
proof (cases ps)
  case Nil
  then have "head (jobs (daemon x)) = 0" using r drep_head [of "jobs (daemon x)" ps] by (simp add: spool_rep_def)
  then have "c' = None" "s = daemon x" using p by (simp_all add: printer_pickup_def)
  moreover have "x\<lparr>daemon := daemon x, current := None\<rparr> = x" using c by simp
  ultimately show ?thesis using r by (auto simp: spool_inv_def)
next
  case (Cons jp zs)
  let ?d = "daemon x"
  have d: "drep (jobs ?d) (jp # zs)" using r Cons by (simp add: spool_rep_def)
  from d have h: "head (jobs ?d) = jp" "jp \<noteq> 0" "jp \<notin> set zs" by (auto simp: drep_def)
  from remove_job_drep [of "jobs ?d" "[]" jp zs] d obtain q where
    q: "remove_job jp (jobs ?d) = Inr q" "drep q zs" "cells q jp = cells (jobs ?d) jp"
       "payloads q zs = payloads (jobs ?d) zs" by auto
  from drep_node [OF d, of jp] obtain n where n: "cells (jobs ?d) jp = Some n" by auto
  have s: "c' = Some (jp, payload n)" "jobs s = q" "data s = data ?d" "reqs s = reqs ?d" "nextjob s = nextjob ?d"
    using p h q n
    by (auto simp: printer_pickup_def update_jobno_def config_def init_printer_def bindR_eq_Inr
      split: if_splits option.splits)
  let ?x = "x\<lparr>daemon := s, current := c'\<rparr>"
  have e: "all_jobs ?x zs = all_jobs x ps"
    using s q(4) n c Cons by (simp add: all_jobs_def held_def payloads_def)
  have f: "spooled s = spooled ?d" using s by (simp add: spooled_def fun_eq_iff)
  have "spool_rep ?x zs"
    unfolding spool_rep_def using r s q(2,3) n h e f
    by (simp add: spool_rep_def current_ok_def)
  then show ?thesis by (auto simp: spool_inv_def)
qed

lemma drep_free: "drep q ps \<Longrightarrow> p \<notin> set ps \<Longrightarrow> drep (q\<lparr>cells := (cells q)(p := None)\<rparr>) ps"
  by (simp add: drep_def)

lemma payloads_free: "p \<notin> set ps \<Longrightarrow> payloads (q\<lparr>cells := (cells q)(p := None)\<rparr>) ps = payloads q ps"
  by (auto simp: payloads_def)

lemma finish_cases:
  assumes "printer_finish fuel e jp j s = Inr (r, s')"
  shows "(\<exists>s1. done_ids r = [jobid j] \<and> s' = free_job jp s1 \<and> jobs s1 = jobs s \<and> nextjob s1 = nextjob s \<and>
      (\<forall>n. n \<noteq> dec_int (jobid j) \<longrightarrow> data s1 n = data s n \<and> reqs s1 n = reqs s n)) \<or>
    (\<exists>q. r = Deferred (jobid j) \<and> replace_job jp (jobs s) = Inr q \<and> s' = s\<lparr>jobs := q\<rparr>)"
  using assms
  by (fastforce simp: printer_finish_def Let_def done_ids_def bindR_eq_Inr split: if_splits option.splits)

lemma finish_inv:
  assumes r: "spool_rep x ps" and c: "current x = Some (jp, j)"
    and p: "printer_finish fuel e jp j (daemon x) = Inr (res, s)"
  shows "spool_inv (x\<lparr>daemon := s, current := None, finished := finished x @ done_ids res\<rparr>)"
proof -
  let ?d = "daemon x" let ?x = "x\<lparr>daemon := s, current := None, finished := finished x @ done_ids res\<rparr>"
  have d: "drep (jobs ?d) ps" using r by (simp add: spool_rep_def)
  have jp: "jp \<notin> set ps" "jp \<noteq> 0" and pl: "map_option payload (cells (jobs ?d) jp) = Some j"
    using r c by (simp_all add: spool_rep_def current_ok_def del: map_option_eq_Some)
  have a: "all_jobs x ps = j # payloads (jobs ?d) ps" using c by (simp add: all_jobs_def held_def)
  from finish_cases [OF p] show ?thesis
  proof (elim disjE exE conjE)
    fix s1
    assume i: "done_ids res = [jobid j]" and s: "s = free_job jp s1" "jobs s1 = jobs ?d" "nextjob s1 = nextjob ?d"
      and f: "\<forall>n. n \<noteq> dec_int (jobid j) \<longrightarrow> data s1 n = data ?d n \<and> reqs s1 n = reqs ?d n"
    have x: "all_jobs ?x ps = payloads (jobs ?d) ps" "drep (jobs s) ps" "nextjob s = nextjob ?d"
      using s d jp by (simp_all add: all_jobs_def held_def free_job_def payloads_free drep_free)
    have "spooled s k" if k: "k \<in> set (payloads (jobs ?d) ps)" for k
    proof -
      have "jobid j \<notin> jobid ` set (payloads (jobs ?d) ps)" using spool_rep_ids(1) [OF r refl] by (simp add: a)
      then have "jobid k \<noteq> jobid j" using k by (metis imageI)
      moreover have "0 < jobid k" "0 < jobid j" using spool_rep_ids(2) [OF r refl] k by (auto simp: a)
      ultimately have "dec_int (jobid k) \<noteq> dec_int (jobid j)" using dec_int_inject by simp
      then show ?thesis using r k f s(1) by (auto simp: spool_rep_def spooled_def a free_job_def)
    qed
    then have "spool_rep ?x ps"
      using r i x by (simp add: spool_rep_def a current_ok_def)
    then show ?thesis by (auto simp: spool_inv_def)
  next
    fix q assume rs: "res = Deferred (jobid j)" and q: "replace_job jp (jobs ?d) = Inr q" and s: "s = ?d\<lparr>jobs := q\<rparr>"
    from pl obtain n where n: "cells (jobs ?d) jp = Some n" "payload n = j" by auto
    from replace_job_drep [OF d jp n(1)] q n(2)
    have q2: "drep q (jp # ps)" "payloads q (jp # ps) = j # payloads (jobs ?d) ps" by auto
    have "all_jobs ?x (jp # ps) = all_jobs x ps" using q2 s a by (simp add: all_jobs_def held_def)
    moreover have "spooled s = spooled ?d" using s by (simp add: spooled_def fun_eq_iff)
    ultimately have "spool_rep ?x (jp # ps)"
      using r q2(1) s rs by (simp add: spool_rep_def current_ok_def done_ids_def)
    then show ?thesis by (auto simp: spool_inv_def)
  qed
qed

lemma signal_inv:
  assumes r: "spool_rep x ps" and "signal_round fuel err sg (daemon x) = Inr (Continue s)"
  shows "spool_inv (x\<lparr>daemon := s\<rparr>)"
proof -
  have "s = (daemon x)\<lparr>reread := True\<rparr>"
    using assms(2) by (auto simp: signal_round_def bindR_eq_Inr split: if_splits signo.splits)
  then show ?thesis
    using spool_rep_files [OF r, of s] by (auto simp: same_files_def spool_inv_def)
qed

lemma client_inv:
  assumes r: "spool_rep x ps" and t: "client_thread fuel strerror t fd e (daemon x) = Inr (res, s)"
    and p: "cells (jobs (daemon x)) (ce_job e) = None" and n: "nextjob (daemon x) + 1 < 2 ^ 63"
  shows "spool_inv (x\<lparr>daemon := s, accepted := accepted x @ new_ids res (nextjob (daemon x))\<rparr>)"
proof -
  have wl: "spool_rep (y\<lparr>daemon := (daemon y)\<lparr>wl := w\<rparr>\<rparr>) qs" if "spool_rep y qs" for y w qs
    using spool_rep_files [OF that, of "(daemon y)\<lparr>wl := w\<rparr>"] by (simp add: same_files_def)
  from client_thread_cases [OF t] show ?thesis
  proof (elim disjE exE conjE)
    fix w assume "res = No_worker" "s = (daemon x)\<lparr>wl := w\<rparr>"
    then show ?thesis using wl [OF r, of w] by (auto simp: spool_inv_def new_ids_def)
  next
    fix w w' s1
    assume b: "client_body strerror e ((daemon x)\<lparr>wl := w\<rparr>) = Inr (res, s1)" and s: "s = s1\<lparr>wl := w'\<rparr>"
    let ?x = "x\<lparr>daemon := (daemon x)\<lparr>wl := w\<rparr>\<rparr>"
    from client_body_inv [OF wl [OF r], of strerror e w res s1] b p n obtain qs where
      "spool_rep (?x\<lparr>daemon := s1, accepted := accepted x @ new_ids res (nextjob (daemon x))\<rparr>) qs"
      by (auto simp: spool_inv_def)
    from wl [OF this, of w'] s
    have "spool_rep (x\<lparr>accepted := accepted x @ new_ids res (nextjob (daemon x)), daemon := s\<rparr>) qs" by simp
    moreover have "x\<lparr>accepted := a, daemon := s\<rparr> = x\<lparr>daemon := s, accepted := a\<rparr>" for a by (cases x) simp
    ultimately show ?thesis by (auto simp: spool_inv_def)
  qed
qed

lemma spool_step_inv: "spool_step x y \<Longrightarrow> spool_inv x \<Longrightarrow> spool_inv y"
proof (induction rule: spool_step.induct)
  case client
  then show ?case by (metis spool_inv_def client_inv)
next
  case pickup
  then show ?case by (metis spool_inv_def pickup_inv)
next
  case finish
  then show ?case by (metis spool_inv_def finish_inv)
next
  case signal
  then show ?case by (metis spool_inv_def signal_inv)
qed

lemma spool_steps_inv: "spool_step\<^sup>*\<^sup>* x y \<Longrightarrow> spool_inv x \<Longrightarrow> spool_inv y"
  by (induction rule: rtranclp_induct) (auto intro: spool_step_inv)

end
