(* ===== verification/Spool_Spec.thy ===== *)
theory Spool_Spec
  imports Spool_Steps
begin

text \<open>
  The properties of the print spooler: what it promises for a job from its acceptance to its
  removal, what a restart finds, and where the job numbers fail.
\<close>

section \<open>Examples\<close>

text \<open>An empty spooler and a client that sends a short PostScript document.\<close>

definition empty_printd :: printd where
  "empty_printd = \<lparr>jobs = \<lparr>cells = Map.empty, head = 0, tail = 0\<rparr>, nextjob = 1, jobfile = ''1'', data = Map.empty,
     reqs = Map.empty, wl = \<lparr>wcells = Map.empty, workers = 0, closed = []\<rparr>, reread = False, printer_name = ''lp''\<rparr>"

definition doc_client :: "string \<Rightarrow> client_env" where
  "doc_client doc = \<lparr>ce_worker = 8, ce_hdr_n = SIZEOF_PRINTREQ, ce_hdr = \<lparr>size = 0, flags = 0, usernm = ''u'', jobnm = ''j''\<rparr>,
     ce_errno = 1, ce_creat_data = True, ce_segments = [(doc, int (length doc))], ce_creat_req = True,
     ce_write_req = SIZEOF_PRINTREQ, ce_job = 16, ce_buf = [], ce_res_jobid = 0\<rparr>"

definition doc_req :: "string \<Rightarrow> printreq" where
  "doc_req doc = stored_req (doc_client doc)"

lemma empty_printd_simps [simp]:
  "jobs empty_printd = \<lparr>cells = Map.empty, head = 0, tail = 0\<rparr>" "nextjob empty_printd = 1"
  "jobfile empty_printd = ''1''" "data empty_printd = Map.empty" "reqs empty_printd = Map.empty"
  "wl empty_printd = \<lparr>wcells = Map.empty, workers = 0, closed = []\<rparr>"
  "reread empty_printd = False" "printer_name empty_printd = ''lp''"
  by (simp_all add: empty_printd_def)

lemma drep_empty_printd [simp]: "drep \<lparr>cells = Map.empty, head = 0, tail = 0\<rparr> []"
  by (simp add: drep_empty)

lemma dec_int_1: "dec_int 1 = ''1''"
  by code_simp

section \<open>Accepting jobs\<close>

lemma client_body_accepts:
  assumes d: "drep (jobs s) ps" and p: "cells (jobs s) (ce_job e) = None" "ce_job e \<noteq> 0"
    and h: "ce_hdr_n e = SIZEOF_PRINTREQ" "ce_creat_data e" "ce_creat_req e" "ce_write_req e = SIZEOF_PRINTREQ"
    and w: "\<forall>(c, nw) \<in> set (ce_segments e). c \<noteq> [] \<and> nw = int (length c)"
    and n: "0 < nextjob s" "nextjob s + 1 < 2 ^ 63"
  shows "\<exists>q. client_body strerror e s =
      Inr (Accepted \<lparr>retcode = 0, resp_jobid = htonl (nextjob s), msg = ''request ID '' @ dec_int (nextjob s)\<rparr>,
           s\<lparr>nextjob := nextjob s + 1, data := (data s)(dec_int (nextjob s) \<mapsto> concat (map fst (ce_segments e))),
             reqs := (reqs s)(dec_int (nextjob s) \<mapsto> Some (stored_req e)), jobs := q\<rparr>) \<and>
    drep q (ps @ [ce_job e]) \<and>
    payloads q (ps @ [ce_job e]) = payloads (jobs s) ps @ [\<lparr>jobid = nextjob s, req = stored_req e\<rparr>]"
proof -
  let ?j = "\<lparr>jobid = nextjob s, req = stored_req e\<rparr>"
  have "ce_job e \<notin> set ps" using drep_node [OF d] p(1) by fastforce
  from link_last_drep [OF d this p(2), of ?j] obtain q where
    q: "add_job (ce_job e) (stored_req e) (nextjob s) (jobs s) = Inr q" "drep q (ps @ [ce_job e])"
      "payloads q (ps @ [ce_job e]) = payloads (jobs s) ps @ [?j]"
    by (auto simp: add_job_link [OF p(2)])
  then show ?thesis
    using get_newjobno_next [OF n] store_segments_whole [OF w, of "[]"] h
    by (auto simp: client_body_def Let_def stored_req_def)
qed

text \<open>
  C18. A client that sends its request and document completely gets a positive answer with the
  job's number; the spool then holds the document byte for byte and the request under that
  number, and the job is the last of the queue.
\<close>

theorem client_accepts:
  assumes "drep (jobs s) ps" "cells (jobs s) (ce_job e) = None" "ce_job e \<noteq> 0"
    and "ce_hdr_n e = SIZEOF_PRINTREQ" "ce_creat_data e" "ce_creat_req e" "ce_write_req e = SIZEOF_PRINTREQ"
    and "\<forall>(c, nw) \<in> set (ce_segments e). c \<noteq> [] \<and> nw = int (length c)"
    and "0 < nextjob s" "nextjob s + 1 < 2 ^ 63"
  shows "\<exists>p s'. client_body strerror e s = Inr (Accepted p, s') \<and> retcode p = 0 \<and> resp_jobid p = htonl (nextjob s) \<and>
    data s' = (data s)(dec_int (nextjob s) \<mapsto> concat (map fst (ce_segments e))) \<and>
    reqs s' = (reqs s)(dec_int (nextjob s) \<mapsto> Some (stored_req e)) \<and> nextjob s' = nextjob s + 1 \<and>
    drep (jobs s') (ps @ [ce_job e]) \<and>
    payloads (jobs s') (ps @ [ce_job e]) = payloads (jobs s) ps @ [\<lparr>jobid = nextjob s, req = stored_req e\<rparr>]"
  using client_body_accepts [OF assms] by fastforce

theorem client_accepts_witness:
  "\<exists>p s'. client_body (\<lambda>_. []) (doc_client ''%!PS'') empty_printd = Inr (Accepted p, s') \<and>
     data s' = [''1'' \<mapsto> ''%!PS''] \<and> drep (jobs s') [16]"
  using client_accepts [of empty_printd "[]" "doc_client ''%!PS''" "\<lambda>_. []"]
  by (auto simp: doc_client_def dec_int_1)

lemma reject_code:
  "reject strerror c err jid = Rejected p \<Longrightarrow> 0 < err \<Longrightarrow> err < 2 ^ 31 \<Longrightarrow> retcode p \<noteq> 0"
  using htonl_eq_0 [of err] htonl_eq_0 [of EIO] by (auto simp: reject_def Let_def EIO_def split: if_splits)



section \<open>Accounting for jobs\<close>


definition empty_spool :: spool where
  "empty_spool = \<lparr>daemon = empty_printd, current = None, accepted = [], finished = []\<rparr>"

lemma client_thread_example:
  "\<exists>p s. client_thread 1 (\<lambda>_. []) 1 5 (doc_client ''%!PS'') empty_printd = Inr (Accepted p, s)"
  by (simp add: client_thread_def client_body_def doc_client_def add_worker_def get_newjobno_def wrap64_def
      add_job_def client_cleanup_def worker_of.simps Let_def)


section \<open>Printing jobs\<close>

lemma transmit_printed:
  assumes "0 \<le> pe_socket e" "pe_connect e" "pe_headers e" "\<forall>k. pe_writes e k" "pe_read e"
    and "ipp_header (jobid j) pn (usernm (req j)) (jobnm (req j)) (flags (req j) AND PR_TEXT \<noteq> 0) = Inr ib"
    and "http_header pn (int (length f) + int (length ib)) = Inr hb"
    and "printer_status fuel (pe_mem e) (pe_answer e) (jobid j) = Inr True"
  shows "transmit fuel e pn j f = Inr (Some (hb @ ib @ f))"
  using assms by (simp add: transmit_def send_file_whole)

text \<open>
  C22. A job at the head of the queue is printed when the kernel's calls succeed, its headers fit
  their buffers and the printer confirms it: the bytes sent are the two headers and then the
  whole document, both files of the job are gone and the rest of the queue stays in order.
\<close>

theorem job_printed:
  assumes d: "drep (jobs s) (jp # ps)" "payloads (jobs s) (jp # ps) = j # js"
    and k: "pe_jobno_written e" "\<not> reread s" "pe_open e" "pe_fstat e" "0 \<le> pe_socket e" "pe_connect e"
      "pe_headers e" "\<forall>k. pe_writes e k" "pe_read e"
    and f: "data s (dec_int (jobid j)) = Some f"
    and h: "ipp_header (jobid j) (printer_name s) (usernm (req j)) (jobnm (req j)) (flags (req j) AND PR_TEXT \<noteq> 0) = Inr ib"
      "http_header (printer_name s) (int (length f) + int (length ib)) = Inr hb"
    and st: "printer_status fuel (pe_mem e) (pe_answer e) (jobid j) = Inr True"
  shows "\<exists>s'. printer_round fuel e s = Inr (Printed (jobid j) (hb @ ib @ f), s') \<and>
    drep (jobs s') ps \<and> payloads (jobs s') ps = js \<and>
    data s' = (data s)(dec_int (jobid j) := None) \<and> reqs s' = (reqs s)(dec_int (jobid j) := None)"
proof -
  from d(1) have hd: "head (jobs s) = jp" "jp \<noteq> 0" "jp \<notin> set ps" by (auto simp: drep_def)
  from remove_job_drep [of "jobs s" "[]" jp ps] d(1) obtain q where
    q: "remove_job jp (jobs s) = Inr q" "drep q ps" "cells q jp = cells (jobs s) jp" "payloads q ps = payloads (jobs s) ps"
    by auto
  from drep_node [OF d(1), of jp] obtain n where n: "cells (jobs s) jp = Some n" by auto
  have j: "payload n = j" "payloads (jobs s) ps = js" using d(2) n by (auto simp: payloads_def)
  note t = transmit_printed [OF k(5-9) h st]
  show ?thesis
    using hd q n j k f t drep_free [OF q(2) hd(3)] payloads_free [OF hd(3), of q]
    by (auto simp: printer_round_def printer_pickup_def printer_finish_def update_jobno_def config_def free_job_def Let_def)
qed

text \<open>A spooler with one job, number 7, and a printer that takes every byte and confirms the job.\<close>

definition one_job :: printd where
  "one_job = empty_printd\<lparr>
     jobs := \<lparr>cells = [16 \<mapsto> \<lparr>nxt = 0, prv = 0, payload = \<lparr>jobid = 7, req = doc_req ''%!PS''\<rparr>\<rparr>], head = 16, tail = 16\<rparr>,
     data := [''7'' \<mapsto> ''%!PS''], reqs := [''7'' \<mapsto> Some (doc_req ''%!PS'')], nextjob := 8\<rparr>"

definition ok_printer :: printer_env where
  "ok_printer = \<lparr>pe_jobno_written = True, pe_config = None, pe_open = True, pe_fstat = True, pe_socket = 3,
     pe_connect = True, pe_headers = True, pe_writes = (\<lambda>_. True), pe_read = True,
     pe_answer = [answer 200 ''OK'' 8 ([CHR 0x0A, CHR 0x0D, CHR 0x0A] @ ok_body)], pe_mem = (\<lambda>_. NUL)\<rparr>"

lemma ok_answer:
  "printer_status 0 (\<lambda>_. NUL) [answer 200 ''OK'' 8 ([CHR 0x0A, CHR 0x0D, CHR 0x0A] @ ok_body)] 7 = Inr True"
proof -
  have "length (parsed 200 ''OK'' 8) \<le> 60"
    by (simp add: parsed_def marked_def dec.simps)
  then have "length (answer 200 ''OK'' 8 ([CHR 0x0A, CHR 0x0D, CHR 0x0A] @ ok_body)) \<le> IOBUFSZ"
    by (simp add: length_answer ok_body_def IOBUFSZ_def)
  moreover have "drop 4 ok_body = be32 7 @ []" "drop 2 ok_body = be16 0 @ be32 7"
    by (simp_all add: ok_body_def be16_def)
  ultimately show ?thesis
    using status_verdict [of 200 "''OK''" 8 ok_body 0 "\<lambda>_. NUL" "[]" 7]
      get32_be32 [of 7 "[]"] get16_be16 [of 0 "be32 7"]
    by (simp add: ok_body_def STATCLASS_OK_def)
qed

lemma one_job_simps [simp]:
  "drep (jobs one_job) [16]" "payloads (jobs one_job) [16] = [\<lparr>jobid = 7, req = doc_req ''%!PS''\<rparr>]"
  "data one_job = [''7'' \<mapsto> ''%!PS'']" "reqs one_job = [''7'' \<mapsto> Some (doc_req ''%!PS'')]" "reread one_job = False"
  "printer_name one_job = ''lp''" "nextjob one_job = 8"
  by (simp_all add: one_job_def drep_def payloads_def)

lemma dec_int_7: "dec_int 7 = ''7''"
  by code_simp

lemma doc_req_names: "usernm (doc_req d) = ''u''" "jobnm (doc_req d) = ''j''"
  by (simp_all add: doc_req_def stored_req_def doc_client_def)

lemma short_headers:
  assumes "length pn \<le> 50" "length u \<le> 50" "length jn \<le> 50" "0 \<le> len" "len < 2 ^ 63"
  shows "\<exists>ib. ipp_header jid pn u jn t = Inr ib \<and> length ib \<le> IBUFSZ" "\<exists>hb. http_header pn len = Inr hb"
proof -
  show "\<exists>ib. ipp_header jid pn u jn t = Inr ib \<and> length ib \<le> IBUFSZ"
    using assms by (auto simp: ipp_header_def Let_def length_ipp_bytes IBUFSZ_def)
  have "length (dec (nat len)) \<le> 19" using assms(4,5) by (intro length_dec_63) (simp add: nat_less_iff)
  then have "length (http_bytes pn len) \<le> HBUFSZ"
    using assms by (simp add: http_bytes_def CRLF_def dec_int_nat IPP_PORT_def HBUFSZ_def dec.simps [of 631] dec.simps [of 63] dec.simps [of 6])
  then show "\<exists>hb. http_header pn len = Inr hb" by (simp add: http_header_def Let_def)
qed

theorem job_printed_witness:
  "\<exists>sent s'. printer_round 0 ok_printer one_job = Inr (Printed 7 (sent @ ''%!PS''), s') \<and> data s' = Map.empty"
proof -
  let ?r = "doc_req ''%!PS''"
  obtain ib where ib: "ipp_header 7 ''lp'' (usernm ?r) (jobnm ?r) (flags ?r AND PR_TEXT \<noteq> 0) = Inr ib" "length ib \<le> IBUFSZ"
    using short_headers(1) [of "''lp''" "usernm ?r" "jobnm ?r" 0] by (auto simp: doc_req_names)
  obtain hb where hb: "http_header ''lp'' (int (length ''%!PS'') + int (length ib)) = Inr hb"
    using short_headers(2) [of "''lp''" "[]" "[]" "int (length ''%!PS'') + int (length ib)"] ib(2) by (auto simp: IBUFSZ_def)
  have "\<exists>s'. printer_round 0 ok_printer one_job = Inr (Printed 7 (hb @ ib @ ''%!PS''), s') \<and>
    drep (jobs s') [] \<and> data s' = Map.empty"
    using job_printed [of one_job 16 "[]" "\<lparr>jobid = 7, req = ?r\<rparr>" "[]" ok_printer "''%!PS''" ib hb 0] ib hb ok_answer
    by (simp add: ok_printer_def dec_int_7) blast
  then show ?thesis by (metis append_assoc)
qed

text \<open>
  A job that cannot be printed now is put back where it was: the queue has the same jobs in
  the same order, and no file of the spool has changed.
\<close>

lemma deferred_job_kept:
  assumes d: "drep (jobs s) (jp # ps)" and r: "printer_round fuel e s = Inr (Deferred i, s')"
  shows "drep (jobs s') (jp # ps) \<and> payloads (jobs s') (jp # ps) = payloads (jobs s) (jp # ps) \<and>
    data s' = data s \<and> reqs s' = reqs s"
proof -
  from d have hd: "head (jobs s) = jp" "jp \<noteq> 0" "jp \<notin> set ps" by (auto simp: drep_def)
  from remove_job_drep [of "jobs s" "[]" jp ps] d obtain q where
    q: "remove_job jp (jobs s) = Inr q" "drep q ps" "cells q jp = cells (jobs s) jp" "payloads q ps = payloads (jobs s) ps"
    by auto
  from drep_node [OF d, of jp] obtain n where n: "cells (jobs s) jp = Some n" by auto
  have pl: "payloads (jobs s) (jp # ps) = payload n # payloads q ps" using n q(4) by (simp add: payloads_def)
  from replace_job_drep [OF q(2) hd(3,2), of n] q(3) n obtain q' where
    q': "replace_job jp q = Inr q'" "drep q' (jp # ps)" "payloads q' (jp # ps) = payload n # payloads q ps" by auto
  from r hd q n obtain s1 where
    p: "printer_pickup e s = Inr (Some (jp, payload n), s1)" "printer_finish fuel e jp (payload n) s1 = Inr (Deferred i, s')"
    by (auto simp: printer_round_def printer_pickup_def Let_def bindR_eq_Inr)
  have s1: "jobs s1 = q" "data s1 = data s" "reqs s1 = reqs s"
    using p(1) hd q n
    by (auto simp: printer_pickup_def update_jobno_def config_def init_printer_def bindR_eq_Inr
      split: if_splits option.splits)
  have "s' = s1\<lparr>jobs := q'\<rparr>"
    using finish_cases [OF p(2)] q'(1) s1(1) by (auto simp: done_ids_def)
  then show ?thesis using q' s1 pl by simp
qed

lemma deferred_job_kept_example:
  "\<exists>s'. printer_round 0 (ok_printer\<lparr>pe_connect := False\<rparr>) one_job = Inr (Deferred 7, s') \<and>
     drep (jobs s') [16] \<and> data s' = [''7'' \<mapsto> ''%!PS'']"
proof -
  obtain s' where r: "printer_round 0 (ok_printer\<lparr>pe_connect := False\<rparr>) one_job = Inr (Deferred 7, s')"
    by (simp add: printer_round_def printer_pickup_def printer_finish_def one_job_def ok_printer_def remove_job_def
        update_jobno_def config_def transmit_def replace_job_def dec_int_7 Let_def)
  have "drep (jobs one_job) (16 # [])" by simp
  from deferred_job_kept [OF this r] r show ?thesis by auto
qed

section \<open>Restarting\<close>

text \<open>The jobs the directory scan queues, with the addresses of their nodes.\<close>

definition restored :: "printd \<Rightarrow> (string \<times> nat) list \<Rightarrow> (nat \<times> job) list" where
  "restored s entries = concat (map (\<lambda>(d_name, p).
     if d_name = ''.'' \<or> d_name = ''..'' then []
     else case reqs s d_name of
       Some (Some r) \<Rightarrow> [(p, \<lparr>jobid = atol d_name, req = r\<rparr>)]
     | _ \<Rightarrow> []) entries)"

lemma restored_cong:
  assumes "\<forall>(d, p) \<in> set entries. reqs s' d = reqs s d"
  shows "restored s' entries = restored s entries"
  unfolding restored_def using assms by (intro arg_cong [of _ _ concat] map_cong) (auto split: prod.splits)

lemma restored_Cons [simp]:
  "restored s ((d, p) # es) =
     (if d = ''.'' \<or> d = ''..'' then []
      else case reqs s d of Some (Some r) \<Rightarrow> [(p, \<lparr>jobid = atol d, req = r\<rparr>)] | _ \<Rightarrow> []) @ restored s es"
  by (simp add: restored_def)

lemma queue_entries_restores:
  assumes "drep (jobs s) ps" "distinct (map fst es)" "\<forall>(d, p) \<in> set es. length d < 40 \<and> p \<noteq> 0 \<and> p \<notin> set ps"
    "distinct (map snd es)"
  shows "\<exists>s'. queue_entries es s = Inr s' \<and> drep (jobs s') (ps @ map fst (restored s es)) \<and>
    payloads (jobs s') (ps @ map fst (restored s es)) = payloads (jobs s) ps @ map snd (restored s es) \<and>
    (\<forall>n. reqs s' n = (if n \<in> fst ` set es - {''.'', ''..''} \<and> reqs s n = Some None then None else reqs s n))"
  using assms
proof (induction es arbitrary: s ps)
  case Nil
  then show ?case by (simp add: restored_def)
next
  case (Cons dp es)
  obtain d p where dp: "dp = (d, p)" by (cases dp)
  have es: "distinct (map fst es)" "distinct (map snd es)" "d \<notin> fst ` set es" "p \<notin> snd ` set es"
    "length d < 40" "p \<noteq> 0" "p \<notin> set ps" "\<forall>(d, p) \<in> set es. length d < 40 \<and> p \<noteq> 0 \<and> p \<notin> set ps"
    using Cons.prems dp by auto
  have len: "\<not> FILENMSZ \<le> length (request_path d)" using es(5) by (simp add: request_path_def FILENMSZ_def)
  consider (skip) "d = ''.'' \<or> d = ''..''" | (none) "d \<noteq> ''.''" "d \<noteq> ''..''" "reqs s d = None"
    | (bad) "d \<noteq> ''.''" "d \<noteq> ''..''" "reqs s d = Some None"
    | (good) r where "d \<noteq> ''.''" "d \<noteq> ''..''" "reqs s d = Some (Some r)" by fastforce
  then show ?case
  proof cases
    case skip
    from Cons.IH [OF Cons.prems(1) es(1,8,2)] skip show ?thesis by (auto simp: dp)
  next
    case none
    from Cons.IH [OF Cons.prems(1) es(1,8,2)] none len show ?thesis by (auto simp: dp)
  next
    case bad
    let ?s = "s\<lparr>reqs := (reqs s)(d := None), data := (data s)(d := None)\<rparr>"
    have "restored ?s es = restored s es" using es(3) by (intro restored_cong) force
    with Cons.IH [of ?s ps] Cons.prems(1) es(1,8,2) bad len show ?thesis by (auto simp: dp)
  next
    case good
    let ?j = "\<lparr>jobid = atol d, req = r\<rparr>"
    from link_last_drep [OF Cons.prems(1) es(7,6), of ?j] obtain q where
      q: "add_job p r (atol d) (jobs s) = Inr q" "drep q (ps @ [p])" "payloads q (ps @ [p]) = payloads (jobs s) ps @ [?j]"
      by (auto simp: add_job_link [OF es(6)])
    let ?s = "s\<lparr>jobs := q\<rparr>"
    have "restored ?s es = restored s es" by (rule restored_cong) simp
    moreover have "\<forall>(d, p') \<in> set es. length d < 40 \<and> p' \<noteq> 0 \<and> p' \<notin> set (ps @ [p])" using es(4,8) by force
    ultimately show ?thesis using Cons.IH [of ?s "ps @ [p]"] q es(1,2) good len by (auto simp: dp)
  qed
qed

text \<open>
  C30. A restart queues exactly the complete requests of the directory, in the order the directory
  lists them, each under the number its file is named by, and removes the incomplete ones.
\<close>

theorem restart_rebuilds_queue:
  assumes "drep (jobs s) []" "distinct (map fst es)" "distinct (map snd es)"
    and "\<forall>(d, p) \<in> set es. length d < 40 \<and> p \<noteq> 0" "dom (reqs s) \<subseteq> fst ` set es - {''.'', ''..''}"
  shows "\<exists>s'. build_qonstart (Some es) s = Inr s' \<and> drep (jobs s') (map fst (restored s es)) \<and>
    payloads (jobs s') (map fst (restored s es)) = map snd (restored s es) \<and>
    (\<forall>n. reqs s' n = (if reqs s n = Some None then None else reqs s n))"
proof -
  have p: "\<forall>(d, p) \<in> set es. length d < 40 \<and> p \<noteq> 0 \<and> p \<notin> set []" using assms(4) by simp
  from queue_entries_restores [OF assms(1,2) p assms(3)] obtain s' where
    s': "queue_entries es s = Inr s'" "drep (jobs s') (map fst (restored s es))"
      "payloads (jobs s') (map fst (restored s es)) = map snd (restored s es)"
      "\<forall>n. reqs s' n = (if n \<in> fst ` set es - {''.'', ''..''} \<and> reqs s n = Some None then None else reqs s n)"
    by (auto simp: payloads_def)
  have "n \<in> fst ` set es - {''.'', ''..''}" if "reqs s n = Some None" for n using assms(5) that by blast
  then have "\<forall>n. reqs s' n = (if reqs s n = Some None then None else reqs s n)" using s'(4) by auto
  then show ?thesis using s' by (auto simp: build_qonstart_def)
qed

theorem restart_rebuilds_queue_witness:
  "\<exists>s'. build_qonstart (Some [(''.'', 8), (''7'', 16), (''9'', 24)])
       (empty_printd\<lparr>reqs := [''7'' \<mapsto> Some (doc_req ''%!PS''), ''9'' \<mapsto> None]\<rparr>) = Inr s' \<and>
     drep (jobs s') [16] \<and> payloads (jobs s') [16] = [\<lparr>jobid = 7, req = doc_req ''%!PS''\<rparr>] \<and> reqs s' ''9'' = None"
proof -
  let ?s = "empty_printd\<lparr>reqs := [''7'' \<mapsto> Some (doc_req ''%!PS''), ''9'' \<mapsto> None]\<rparr>"
  have "atol ''7'' = 7" by code_simp
  then have "restored ?s [(''.'', 8), (''7'', 16), (''9'', 24)] = [(16, \<lparr>jobid = 7, req = doc_req ''%!PS''\<rparr>)]"
    by (simp add: restored_def)
  then show ?thesis
    using restart_rebuilds_queue [of ?s "[(''.'', 8), (''7'', 16), (''9'', 24)]"] by auto
qed

section \<open>The job counter\<close>

text \<open>
  The counter survives a restart: what \<open>update_jobno\<close> writes, \<open>init_request\<close> reads back, as long
  as the file held no longer number before. The file's name in the buffer behind the digits
  does no harm, since it has none itself.
\<close>

lemma jobno_round_trip:
  assumes "nextjob s = int n" "n < 2 ^ 63" "length (jobfile s) \<le> length (dec n)"
  shows "\<exists>s1. update_jobno True s = Inr s1 \<and>
    init_request True True junk (s1\<lparr>nextjob := k\<rparr>) = Inr (s1\<lparr>nextjob := int n\<rparr>)"
proof -
  let ?s = "s\<lparr>jobfile := dec n\<rparr>"
  have "update_jobno True s = Inr ?s"
    using assms by (simp add: update_jobno_def dec_int_nat overwrite_def)
  moreover have "init_request True True junk (?s\<lparr>nextjob := k\<rparr>) = Inr (?s\<lparr>nextjob := int n\<rparr>)"
    using init_request_dec [of "?s\<lparr>nextjob := k\<rparr>" n junk] assms(2) by simp
  ultimately show ?thesis by blast
qed

lemma jobno_round_trip_example:
  "\<exists>s1. update_jobno True (empty_printd\<lparr>nextjob := 12\<rparr>) = Inr s1 \<and>
     init_request True True [] (s1\<lparr>nextjob := 0\<rparr>) = Inr (s1\<lparr>nextjob := 12\<rparr>)"
  using jobno_round_trip [of "empty_printd\<lparr>nextjob := 12\<rparr>" 12 "[]" 0] by (simp add: dec.simps)

text \<open>A number shorter than the old one is read back with the old one's last digits behind it.\<close>

lemma jobno_wrap_garbled:
  "\<exists>s1. update_jobno True (empty_printd\<lparr>nextjob := 1, jobfile := ''20''\<rparr>) = Inr s1 \<and>
     (\<exists>s2. init_request True True [] s1 = Inr s2 \<and> nextjob s2 = 10)"
proof -
  have "overwrite ''20'' 0 (dec_int 1) = dec 10" by code_simp
  then have "update_jobno True (empty_printd\<lparr>nextjob := 1, jobfile := ''20''\<rparr>) = Inr (empty_printd\<lparr>nextjob := 1, jobfile := dec 10\<rparr>)"
    by (simp add: update_jobno_def)
  then show ?thesis using init_request_dec [of "empty_printd\<lparr>nextjob := 1, jobfile := dec 10\<rparr>" 10 "[]"] by auto
qed

text \<open>
  A restart can hand out a number twice: the counter is saved only when a job is picked up,
  so a daemon that stops after accepting a job starts again with that job's number. The next
  client's document then replaces the one of the job still waiting in the spool.
\<close>

lemma job_number_reused:
  assumes "jobfile s = dec_int (nextjob s)" "0 < nextjob s" "nextjob s + 1 < 2 ^ 63"
    and a1: "client_body strerror e1 s = Inr (Accepted p1, s1)"
    and "init_request True True junk s1 = Inr s2"
    and a2: "client_body strerror e2 s2 = Inr (Accepted p2, s3)"
  shows "resp_jobid p2 = resp_jobid p1 \<and>
    reqs s1 (dec_int (nextjob s)) = Some (Some (stored_req e1)) \<and>
    reqs s3 (dec_int (nextjob s)) = Some (Some (stored_req e2)) \<and>
    Inr (the (data s3 (dec_int (nextjob s)))) = store_segments (ce_segments e2) []"
proof -
  let ?n = "nextjob s"
  have resp: "resp_jobid p = htonl (nextjob t)" if "client_body strerror e t = Inr (Accepted p, t')" for e p t t'
    using that by (auto simp: client_body_def get_newjobno_def reject_def Let_def bindR_eq_Inr split: if_splits sum.splits)
  note c1 = client_body_cases [OF a1 get_newjobno_next [OF assms(2,3)]]
  then have j: "jobfile s1 = dec (nat ?n)" using assms(1,2) by (auto simp: dec_int_nat)
  have "nat ?n < 2 ^ 63" using assms(2,3) by (simp add: nat_less_iff)
  from init_request_dec [OF j this, of junk] assms(2,5) have s2: "s2 = s1\<lparr>nextjob := ?n\<rparr>" by simp
  have "get_newjobno s2 = (?n, s2\<lparr>nextjob := ?n + 1\<rparr>)"
    using get_newjobno_next [of s2] assms(2,3) s2 by simp
  from client_body_cases [OF a2 this] c1 resp [OF a1] resp [OF a2] s2 show ?thesis by auto
qed

lemma job_number_reused_example:
  "\<exists>p1 s1 s2 p2 s3. client_body (\<lambda>_. []) (doc_client ''%!PS one'') empty_printd = Inr (Accepted p1, s1) \<and>
     init_request True True [] s1 = Inr s2 \<and>
     client_body (\<lambda>_. []) ((doc_client ''%!PS two'')\<lparr>ce_job := 32\<rparr>) s2 = Inr (Accepted p2, s3) \<and>
     resp_jobid p2 = resp_jobid p1 \<and> data s1 ''1'' = Some ''%!PS one'' \<and> data s3 ''1'' = Some ''%!PS two''"
proof -
  let ?e1 = "doc_client ''%!PS one''" and ?e2 = "(doc_client ''%!PS two'')\<lparr>ce_job := 32\<rparr>"
  from client_body_accepts [of empty_printd "[]" ?e1 "\<lambda>_. []"] obtain p1 s1 where
    c1: "client_body (\<lambda>_. []) ?e1 empty_printd = Inr (Accepted p1, s1)" and
    s1: "data s1 ''1'' = Some ''%!PS one''" "jobfile s1 = ''1''" "drep (jobs s1) [16]"
      "cells (jobs s1) 32 = None"
    by (simp add: client_body_def doc_client_def get_newjobno_def wrap64_def add_job_def dec_int_1 Let_def drep_def)
  have d: "''1'' = dec 1" by code_simp
  from init_request_dec [of s1 1 "[]"] s1(2) d obtain s2 where
    i: "init_request True True [] s1 = Inr s2" and s2: "s2 = s1\<lparr>nextjob := 1\<rparr>" by auto
  from client_body_accepts [of s2 "[16]" ?e2 "\<lambda>_. []"] s1 s2 obtain p2 s3 where
    c2: "client_body (\<lambda>_. []) ?e2 s2 = Inr (Accepted p2, s3)" and s3: "data s3 ''1'' = Some ''%!PS two''"
    by (auto simp: doc_client_def dec_int_1)
  have "resp_jobid p2 = resp_jobid p1"
    using job_number_reused [OF _ _ _ c1 i c2] by (simp add: dec_int_1)
  then show ?thesis using c1 i c2 s1(1) s3 by blast
qed

end
