(* ===== verification/Print_Client.thy ===== *)
theory Print_Client
  imports C_Io Spool_Spec
begin

text \<open>
  The command that submits a file (\<open>ipp/print.c\<close>) and the configuration file both programs read
  (\<open>ipp/util.c\<close>), and what the spooler makes of a request the command sends.
\<close>

section \<open>The configuration file\<close>

definition MAXCFGLINE :: nat where "MAXCFGLINE = 512"
definition MAXKWLEN :: nat where "MAXKWLEN = 16"

text \<open>The conversion \<open>%<w>s\<close> of \<open>sscanf\<close>, and the pattern of two words.\<close>

definition sscanf_word :: "nat \<Rightarrow> string \<Rightarrow> (string \<times> string) option" where
  "sscanf_word w s =
     (let t = dropWhile isspace s; u = takeWhile (\<lambda>c. \<not> isspace c) (take w t)
      in if u = [] then None else Some (u, drop (length u) t))"

definition sscanf_pair :: "string \<Rightarrow> (string \<times> string) option" where
  "sscanf_pair line =
     (case sscanf_word (MAXKWLEN - 1) (cstr line) of
        None \<Rightarrow> None
      | Some (keybuf, r) \<Rightarrow>
          (case sscanf_word (MAXCFGLINE - 1) r of
             None \<Rightarrow> None
           | Some (valbuf, _) \<Rightarrow> Some (keybuf, valbuf)))"

function scan_lines :: "string \<Rightarrow> string \<Rightarrow> string option" where
  "scan_lines keyword s =
     (case fgets MAXCFGLINE s of
        None \<Rightarrow> None
      | Some (line, s) \<Rightarrow>
          (case sscanf_pair line of
             Some (keybuf, valbuf) \<Rightarrow> if keyword = keybuf then Some valbuf else scan_lines keyword s
           | None \<Rightarrow> scan_lines keyword s))"
  by pat_completeness auto

termination scan_lines
  by (relation "measure (\<lambda>(k, s). length s)") (auto dest: fgets_shrinks simp: MAXCFGLINE_def)

declare scan_lines.simps [simp del]

definition scan_configfile :: "string \<Rightarrow> string option \<Rightarrow> fault + string option" where
  "scan_configfile keyword fp =
     (case fp of
        None \<Rightarrow> Inl (Log_exit ''can't open /etc/printer.conf'')
      | Some s \<Rightarrow> Inr (scan_lines keyword s))"

definition get_printserver :: "string option \<Rightarrow> fault + string option" where
  "get_printserver fp = scan_configfile ''printserver'' fp"

text \<open>\<open>getaddrlist\<close> is the resolver's answer: for each address found, its canonical name.\<close>

definition get_printaddr ::
  "(string \<Rightarrow> string \<Rightarrow> string option list option) \<Rightarrow> string option \<Rightarrow> fault + string option list option" where
  "get_printaddr getaddrlist fp =
     bindR (scan_configfile ''printer'' fp) (\<lambda>p.
     case p of None \<Rightarrow> Inr None | Some host \<Rightarrow> Inr (getaddrlist host ''ipp''))"

section \<open>Submitting a file\<close>

definition USERNM_MAX :: nat where "USERNM_MAX = 64"
definition JOBNM_MAX :: nat where "JOBNM_MAX = 256"

definition job_name :: "string \<Rightarrow> string" where
  "job_name fname =
     (let len = length fname
      in if JOBNM_MAX \<le> len then ''... '' @ take (JOBNM_MAX - 5) (drop (len - JOBNM_MAX + 5) fname)
         else fname)"

text \<open>\<open>pw\<close> is the name of the user, if the password file has one. It is copied unchecked.\<close>

definition build_req :: "string option \<Rightarrow> string \<Rightarrow> int \<Rightarrow> bool \<Rightarrow> fault + printreq" where
  "build_req pw fname nbytes txt_flag =
     (let user = (case pw of None \<Rightarrow> ''unknown'' | Some nm \<Rightarrow> nm)
      in if USERNM_MAX \<le> length user then Inl Overflow
         else Inr \<lparr>size = htonl nbytes, flags = (if txt_flag then htonl PR_TEXT else 0), usernm = user,
                   jobnm = job_name fname\<rparr>)"

text \<open>
  The results of \<open>read\<close> on the file until it returns 0, each with the results of the writes that
  follow; \<open>None\<close> is -1, after which \<open>writen\<close> is called with that count, and \<open>wneg\<close> is what it returns.
\<close>

fun send_doc :: "int \<Rightarrow> (string option \<times> int list) list \<Rightarrow> string \<Rightarrow> fault + string" where
  "send_doc wneg [] out = Inr out"
| "send_doc wneg ((None, ws) # rs) out =
     (if wneg = -1 then send_doc wneg rs out
      else Inl (Log_exit ''short write to print server''))"
| "send_doc wneg ((Some buf, ws) # rs) out =
     (if buf = [] then Inr out
      else
        let (nw, sent) = writen (length buf) buf [] ws
        in if nw \<noteq> int (length buf)
           then Inl (Log_exit (if nw < 0 then ''can't write to print server'' else ''short write to print server''))
           else send_doc wneg rs (out @ sent))"

record submit_env =
  su_pw :: "string option"
  su_hdr_nw :: int
  su_reads :: "(string option \<times> int list) list"
  su_wneg :: int
  su_nr :: int
  su_res :: printresp

definition SIZEOF_PRINTRESP :: int where "SIZEOF_PRINTRESP = 528"

datatype submit_result = Rejected_msg string | Job_id int

text \<open>The header and the bytes sent, and what the command prints.\<close>

definition submit_file ::
  "submit_env \<Rightarrow> string \<Rightarrow> int \<Rightarrow> bool \<Rightarrow> fault + printreq \<times> string \<times> submit_result" where
  "submit_file e fname nbytes txt_flag =
     bindR (build_req (su_pw e) fname nbytes txt_flag) (\<lambda>rq.
     if su_hdr_nw e \<noteq> SIZEOF_PRINTREQ
     then Inl (Log_exit (if su_hdr_nw e < 0 then ''can't write to print server'' else ''short write to print server''))
     else
       bindR (send_doc (su_wneg e) (su_reads e) []) (\<lambda>sent.
       if su_nr e \<noteq> SIZEOF_PRINTRESP then Inl (Log_exit ''can't read response from server'')
       else if retcode (su_res e) \<noteq> 0 then Inr (rq, sent, Rejected_msg (msg (su_res e)))
       else Inr (rq, sent, Job_id (htonl (resp_jobid (su_res e))))))"

section \<open>The command line\<close>

text \<open>\<open>getopt\<close> with the single option t: the flag, whether an unknown option was seen, and the operands.\<close>

fun getopt_t :: "string list \<Rightarrow> bool \<Rightarrow> bool \<Rightarrow> bool \<times> bool \<times> string list" where
  "getopt_t [] t err = (t, err, [])"
| "getopt_t (a # as) t err =
     (if a = ''--'' then (t, err, as)
      else case a of
        c # d # cs \<Rightarrow>
          if c = CHR ''-''
          then getopt_t as (t \<or> CHR ''t'' \<in> set (d # cs)) (err \<or> (\<exists>x \<in> set (d # cs). x \<noteq> CHR ''t''))
          else (t, err, a # as)
      | _ \<Rightarrow> (t, err, a # as))"

text \<open>
  \<open>argv\<close> are the arguments behind the command's name. \<open>stat_of\<close> is what \<open>open\<close> and then \<open>fstat\<close> give
  for a file: whether it is regular, and its size. \<open>conn\<close> are the attempts to connect to the server's addresses.
\<close>

definition print_main ::
  "(string \<Rightarrow> (bool \<times> int) option option) \<Rightarrow> string option \<Rightarrow> (string \<Rightarrow> string \<Rightarrow> string option list option) \<Rightarrow>
     bool list \<Rightarrow> submit_env \<Rightarrow> string list \<Rightarrow> fault + printreq \<times> string \<times> submit_result" where
  "print_main stat_of fp getaddrlist conn e argv =
     (let (txt_flag, err, operands) = getopt_t argv False False
      in if err \<or> length operands \<noteq> 1 then Inl (Log_exit ''usage: print [-t] filename'')
         else case stat_of (hd operands) of
           None \<Rightarrow> Inl (Log_exit (''print: can't open '' @ hd argv))
         | Some None \<Rightarrow> Inl (Log_exit (''print: can't stat '' @ hd argv))
         | Some (Some (reg, nbytes)) \<Rightarrow>
             if \<not> reg then Inl (Log_exit (''print: '' @ hd argv @ '' must be a regular file''))
             else
               bindR (get_printserver fp) (\<lambda>host.
               case host of
                 None \<Rightarrow> Inl (Log_exit ''print: no print server defined'')
               | Some host \<Rightarrow>
                   (case getaddrlist host ''print'' of
                      None \<Rightarrow> Inl (Log_exit ''print: getaddrinfo error'')
                    | Some ailist \<Rightarrow>
                        if True \<in> set (take (length ailist) conn)
                        then submit_file e (hd argv) nbytes txt_flag
                        else Inl (Log_exit (''print: can't contact '' @ host)))))"

section \<open>Reading the configuration\<close>

definition word_ok :: "string \<Rightarrow> bool" where
  "word_ok w \<longleftrightarrow> w \<noteq> [] \<and> (\<forall>c \<in> set w. \<not> isspace c \<and> c \<noteq> NUL)"

definition config_line :: "string \<times> string \<Rightarrow> string" where
  "config_line kv = fst kv @ SPACE # snd kv @ [NEWLINE]"

lemma isspace_NEWLINE [simp]: "isspace NEWLINE"
  by (simp add: isspace_def NEWLINE_def)

lemma sscanf_word_at:
  assumes "word_ok w" "length w \<le> n" "isspace c" "\<forall>x \<in> set sp. isspace x"
  shows "sscanf_word n (sp @ w @ c # r) = Some (w, c # r)"
proof -
  obtain a b where ab: "w = a # b" "\<not> isspace a" using assms(1) by (cases w) (auto simp: word_ok_def)
  then have d: "dropWhile isspace (sp @ w @ c # r) = w @ c # r" using assms(4) by simp
  have "takeWhile (\<lambda>x. \<not> isspace x) (take n (w @ c # r)) = w"
  proof (cases "n - length w")
    case 0
    then have "take n (w @ c # r) = w" using assms(2) by simp
    then show ?thesis using assms(1) by (simp add: word_ok_def)
  next
    case (Suc k)
    then have "take n (w @ c # r) = w @ c # take k r" using assms(2) by simp
    then show ?thesis using assms(1,3) by (auto simp: word_ok_def takeWhile_append)
  qed
  moreover have "w \<noteq> []" using ab(1) by simp
  ultimately show ?thesis unfolding sscanf_word_def Let_def d by simp
qed

lemma sscanf_pair_line:
  assumes "word_ok k" "word_ok v" "length k < MAXKWLEN" "length v < MAXCFGLINE"
  shows "sscanf_pair (config_line (k, v)) = Some (k, v)"
proof -
  have "NUL \<notin> set (config_line (k, v))"
    using assms(1,2) by (auto simp: word_ok_def config_line_def NUL_def SPACE_def NEWLINE_def)
  moreover have "sscanf_word (MAXKWLEN - 1) (config_line (k, v)) = Some (k, SPACE # v @ [NEWLINE])"
    using sscanf_word_at [OF assms(1), of "MAXKWLEN - 1" SPACE "[]" "v @ [NEWLINE]"] assms(3) by (simp add: config_line_def)
  moreover have "sscanf_word (MAXCFGLINE - 1) (SPACE # v @ [NEWLINE]) = Some (v, [NEWLINE])"
    using sscanf_word_at [OF assms(2), of "MAXCFGLINE - 1" NEWLINE "[SPACE]" "[]"] assms(4) by simp
  ultimately show ?thesis by (simp add: sscanf_pair_def)
qed

section \<open>Properties\<close>

text \<open>
  On a configuration file of lines with a keyword and a value, the lookup is that of an
  association list: the value of the first line with the keyword, or none.
\<close>

lemma config_lookup:
  assumes "\<forall>(k, v) \<in> set kvs. word_ok k \<and> word_ok v \<and> length k < MAXKWLEN \<and> length k + length v + 2 < MAXCFGLINE"
  shows "scan_configfile keyword (Some (concat (map config_line kvs))) = Inr (map_of kvs keyword)"
proof -
  have "scan_lines keyword (concat (map config_line kvs)) = map_of kvs keyword"
    using assms
  proof (induction kvs)
    case Nil
    then show ?case by (simp add: scan_lines.simps fgets_def)
  next
    case (Cons kv kvs)
    obtain k v where kv: "kv = (k, v)" by (cases kv)
    then have w: "word_ok k" "word_ok v" "length k < MAXKWLEN" "length k + length v + 2 < MAXCFGLINE" "length v < MAXCFGLINE"
      using Cons.prems by auto
    have "NEWLINE \<notin> set (k @ SPACE # v)" using w(1,2) by (auto simp: word_ok_def SPACE_def NEWLINE_def isspace_def)
    from fgets_line [OF this, of MAXCFGLINE "concat (map config_line kvs)"] w(4)
    have "fgets MAXCFGLINE (concat (map config_line (kv # kvs))) = Some (config_line (k, v), concat (map config_line kvs))"
      by (simp add: kv config_line_def)
    then show ?case
      using sscanf_pair_line [OF w(1-3,5)] Cons
      by (subst scan_lines.simps) (auto simp: kv)
  qed
  then show ?thesis by (simp add: scan_configfile_def)
qed

lemma config_lookup_example:
  "scan_configfile ''printer'' (Some (concat (map config_line [(''printserver'', ''host1''), (''printer'', ''lp9'')]))) = Inr (Some ''lp9'')"
  using config_lookup [of "[(''printserver'', ''host1''), (''printer'', ''lp9'')]" "''printer''"]
  by (simp add: word_ok_def isspace_def NUL_def MAXKWLEN_def MAXCFGLINE_def)

lemma job_name_length: "length (job_name fname) < JOBNM_MAX"
  by (simp add: job_name_def JOBNM_MAX_def Let_def)

lemma text_bit: "(n :: int) = 0 \<or> n = 1 \<Longrightarrow> (n OR PR_TEXT) AND PR_TEXT \<noteq> 0"
  by (auto simp: PR_TEXT_def)



lemma print_main_submits:
  assumes "getopt_t argv False False = (t, False, [f])" "print_main stat_of fp getaddrlist conn e argv = Inr r"
  shows "\<exists>nbytes. submit_file e (hd argv) nbytes t = Inr r"
  using assms(2) unfolding print_main_def assms(1) Let_def prod.case
  by (cases "get_printserver fp") (auto split: option.split_asm if_split_asm)

lemma submit_file_req:
  "submit_file e fname nbytes t = Inr (rq, sent, out) \<Longrightarrow> build_req (su_pw e) fname nbytes t = Inr rq"
  by (auto simp: submit_file_def bindR_eq_Inr split: if_splits)

text \<open>
  With the option \<open>-t\<close> the job is submitted under the name of the option: the command passes its
  first argument as the file name, not the operand it opened.
\<close>

lemma option_as_job_name:
  assumes f: "f \<noteq> []" "hd f \<noteq> CHR ''-''"
    and r: "print_main stat_of fp getaddrlist conn e [''-t'', f] = Inr (rq, sent, out)"
  shows "jobnm rq = ''-t'' \<and> flags rq = htonl PR_TEXT"
proof -
  have "getopt_t [''-t'', f] False False = (True, False, [f])"
    using f by (cases f) (auto split: list.splits)
  from print_main_submits [OF this r] obtain nbytes where "submit_file e ''-t'' nbytes True = Inr (rq, sent, out)"
    by auto
  from submit_file_req [OF this] show ?thesis
    by (auto simp: build_req_def job_name_def JOBNM_MAX_def Let_def split: if_splits)
qed

definition doc_env :: submit_env where
  "doc_env = \<lparr>su_pw = Some ''lee'', su_hdr_nw = SIZEOF_PRINTREQ, su_reads = [(Some ''%!PS'', [4])], su_wneg = -1,
     su_nr = SIZEOF_PRINTRESP, su_res = \<lparr>retcode = 0, resp_jobid = 0, msg = []\<rparr>\<rparr>"

lemma option_as_job_name_example:
  "\<exists>rq out. print_main (\<lambda>_. Some (Some (True, 4))) (Some (config_line (''printserver'', ''h''))) (\<lambda>_ _. Some [None]) [True] doc_env
       [''-t'', ''a.txt''] = Inr (rq, ''%!PS'', out) \<and> jobnm rq = ''-t''"
proof -
  have "get_printserver (Some (config_line (''printserver'', ''h''))) = Inr (Some ''h'')"
    by code_simp
  then obtain rq out where
    r: "print_main (\<lambda>_. Some (Some (True, 4))) (Some (config_line (''printserver'', ''h''))) (\<lambda>_ _. Some [None]) [True] doc_env
       [''-t'', ''a.txt''] = Inr (rq, ''%!PS'', out)"
    by (simp add: print_main_def submit_file_def build_req_def doc_env_def USERNM_MAX_def writen_Cons)
  from option_as_job_name [OF _ _ this] r show ?thesis by auto
qed

end
