(* ===== verification/Mem_Io.thy ===== *)
theory Mem_Io
  imports C_Net
begin

text \<open>
  The utility for raw accesses to physical memory (\<open>io.c\<close>): its command line, the page range it maps
  and the two loops that read and write the mapped bytes. \<open>lsize\<close> is the size of an \<open>unsigned long\<close>
  in bytes, 4 or 8; addresses are numbers modulo \<open>2 ^ (8 * lsize)\<close>.
\<close>

section \<open>Accesses\<close>

text \<open>The bytes of a number, the lowest first, and back.\<close>

primrec le_bytes :: "nat \<Rightarrow> int \<Rightarrow> string" where
  "le_bytes 0 v = []"
| "le_bytes (Suc k) v = byte v # le_bytes k (v div 256)"

fun le_val :: "string \<Rightarrow> int" where
  "le_val [] = 0"
| "le_val (c # cs) = ubyte c + 256 * le_val cs"

text \<open>The bytes one access touches: an access of size 4 is made through an \<open>unsigned long\<close>.\<close>

definition width :: "nat \<Rightarrow> nat \<Rightarrow> nat" where
  "width lsize iosize = (if iosize = 4 then lsize else iosize)"

text \<open>
  \<open>mem\<close> are the mapped bytes and \<open>addr\<close> a position in them; an access that leaves them faults. The
  result are the values of one output line, and where the reading stopped.
\<close>

function read_line :: "nat \<Rightarrow> string \<Rightarrow> nat \<Rightarrow> int \<Rightarrow> nat \<Rightarrow> nat \<Rightarrow> fault + int list \<times> nat \<times> int" where
  "read_line lsize mem addr len iosize i =
     (if 16 \<le> i \<or> len = 0 \<or> iosize = 0 then Inr ([], addr, len)
      else if length mem < addr + width lsize iosize then Inl Segv
      else
        bindR (read_line lsize mem (addr + iosize) (len - int iosize) iosize (i + iosize)) (\<lambda>(vs, r).
        Inr (le_val (take (width lsize iosize) (drop addr mem)) # vs, r)))"
  by pat_completeness auto
termination
  by (relation "measure (\<lambda>(lsize, mem, addr, len, iosize, i). 16 - i)") auto

declare read_line.simps [simp del]

text \<open>The lines with their addresses. Each line moves on by at least one byte.\<close>

fun memread_memory :: "nat \<Rightarrow> nat \<Rightarrow> int \<Rightarrow> string \<Rightarrow> nat \<Rightarrow> int \<Rightarrow> nat \<Rightarrow> fault + (int \<times> int list) list" where
  "memread_memory fuel lsize phys_addr mem addr len iosize =
     (if len = 0 then Inr []
      else case fuel of
        0 \<Rightarrow> Inl Hangs
      | Suc fuel' \<Rightarrow>
          bindR (read_line lsize mem addr len iosize 0) (\<lambda>(vs, addr, len).
          bindR (memread_memory fuel' lsize ((phys_addr + 16) mod 2 ^ (8 * lsize)) mem addr len iosize) (\<lambda>ls.
          Inr ((phys_addr, vs) # ls))))"

declare memread_memory.simps [simp del]

function write_memory :: "nat \<Rightarrow> string \<Rightarrow> nat \<Rightarrow> int \<Rightarrow> nat \<Rightarrow> int \<Rightarrow> fault + string" where
  "write_memory lsize mem addr len iosize val =
     (if len = 0 \<or> iosize = 0 then Inr mem
      else if length mem < addr + width lsize iosize then Inl Segv
      else write_memory lsize (overwrite mem addr (le_bytes (width lsize iosize) val)) (addr + iosize)
             (len - int iosize) iosize val)"
  by pat_completeness auto

lemma length_le_bytes [simp]: "length (le_bytes k v) = k"
  by (induction k arbitrary: v) simp_all

termination write_memory
  by (relation "measure (\<lambda>(lsize, mem, addr, len, iosize, val). length mem + 1 - addr)")
     (auto simp: width_def)

declare write_memory.simps [simp del]

section \<open>Numbers on the command line\<close>

definition digit_val :: "nat \<Rightarrow> char \<Rightarrow> nat option" where
  "digit_val base c =
     (let n = of_char c :: nat;
          d = (if 48 \<le> n \<and> n \<le> 57 then n - 48
               else if 97 \<le> n \<and> n \<le> 122 then n - 87
               else if 65 \<le> n \<and> n \<le> 90 then n - 55 else 99)
      in if d < base then Some d else None)"

text \<open>\<open>strtoul\<close> with base 0: the value, clamped to the range of an \<open>unsigned long\<close>, and the rest of the text.\<close>

definition strtoul :: "nat \<Rightarrow> string \<Rightarrow> int \<times> string" where
  "strtoul lsize s =
     (let t = dropWhile isspace s;
          neg = (case t of c # _ \<Rightarrow> c = CHR ''-'' | [] \<Rightarrow> False);
          u = (case t of c # r \<Rightarrow> if c = CHR ''-'' \<or> c = CHR ''+'' then r else t | [] \<Rightarrow> t);
          hex = (case u of z # x # d # _ \<Rightarrow> z = CHR ''0'' \<and> (x = CHR ''x'' \<or> x = CHR ''X'') \<and> digit_val 16 d \<noteq> None | _ \<Rightarrow> False);
          base = (if hex then 16 else case u of z # _ \<Rightarrow> if z = CHR ''0'' then 8 else 10 | [] \<Rightarrow> 10);
          v = (if hex then drop 2 u else u);
          ds = takeWhile (\<lambda>c. digit_val base c \<noteq> None) v;
          n = foldl (\<lambda>a c. a * int base + int (the (digit_val base c))) 0 ds
      in if ds = [] then (0, s)
         else ((if 2 ^ (8 * lsize) \<le> n then 2 ^ (8 * lsize) - 1 else if neg then (- n) mod 2 ^ (8 * lsize) else n),
               drop (length ds) v))"

section \<open>The command line\<close>

record request =
  verbose :: bool
  iosize :: nat
  memread :: bool
  req_len :: int
  filename :: "string option"
  req_addr :: int
  req_value :: int

definition exit1 :: "string \<Rightarrow> fault + 'a" where
  "exit1 m = Inl (Log_exit m)"

text \<open>The options without an argument.\<close>

definition set_flag :: "char \<Rightarrow> request \<Rightarrow> request option" where
  "set_flag opt rq =
     (if opt = CHR ''v'' then Some (rq\<lparr>verbose := True\<rparr>)
      else if opt \<in> {CHR ''1'', CHR ''2'', CHR ''4''} then Some (rq\<lparr>iosize := of_char opt - 48\<rparr>)
      else if opt = CHR ''r'' then Some (rq\<lparr>memread := True\<rparr>)
      else if opt = CHR ''w'' then Some (rq\<lparr>memread := False\<rparr>)
      else None)"

text \<open>Those with one.\<close>

definition set_argument :: "nat \<Rightarrow> char \<Rightarrow> string \<Rightarrow> request \<Rightarrow> fault + request" where
  "set_argument lsize opt optarg rq =
     (if opt = CHR ''f'' then Inr (rq\<lparr>filename := Some optarg\<rparr>)
      else if snd (strtoul lsize optarg) \<noteq> [] then exit1 ''Bad <size> value''
      else Inr (rq\<lparr>req_len := wrap32 (fst (strtoul lsize optarg))\<rparr>))"

text \<open>\<open>getopt\<close> over the options \<open>hv124rwl:f:\<close>; \<open>pend\<close> are the letters left of the current argument.\<close>

function getopts :: "nat \<Rightarrow> string \<Rightarrow> string list \<Rightarrow> request \<Rightarrow> fault + request \<times> string list" where
  "getopts lsize [] [] rq = Inr (rq, [])"
| "getopts lsize [] (a # as) rq =
     (if a = ''--'' then Inr (rq, as)
      else if 2 \<le> length a \<and> hd a = CHR ''-'' then getopts lsize (tl a) as rq
      else Inr (rq, a # as))"
| "getopts lsize (opt # cs) args rq =
     (case set_flag opt rq of
        Some rq \<Rightarrow> getopts lsize cs args rq
      | None \<Rightarrow>
          if opt \<noteq> CHR ''l'' \<and> opt \<noteq> CHR ''f'' \<or> cs = [] \<and> args = [] then exit1 ''usage''
          else if cs \<noteq> []
          then (case set_argument lsize opt cs rq of Inl x \<Rightarrow> Inl x | Inr rq \<Rightarrow> getopts lsize [] args rq)
          else (case set_argument lsize opt (hd args) rq of Inl x \<Rightarrow> Inl x | Inr rq \<Rightarrow> getopts lsize [] (tl args) rq))"
  by pat_completeness auto

lemma sum_list_tl: "(\<Sum>a\<leftarrow>tl xs. f a) \<le> (\<Sum>a\<leftarrow>xs. f a :: nat)"
  by (cases xs) simp_all

termination getopts
  by (relation "measure (\<lambda>(lsize, pend, args, rq). length pend + sum_list (map (\<lambda>a. length a + 1) args))")
     (auto simp: le_imp_less_Suc [OF sum_list_tl])

definition default_request :: request where
  "default_request = \<lparr>verbose = False, iosize = 1, memread = True, req_len = 0, filename = None, req_addr = 0, req_value = 0\<rparr>"

text \<open>The value of a write, and the checks behind it.\<close>

definition read_value :: "nat \<Rightarrow> request \<Rightarrow> string list \<Rightarrow> fault + request \<times> string list" where
  "read_value lsize rq ops =
     (if filename rq = None \<and> \<not> memread rq
      then
        let (v, endptr) = strtoul lsize (hd ops)
        in if endptr \<noteq> [] then exit1 ''Bad <value> value''
           else if (iosize rq = 1 \<and> v mod 2 ^ 32 div 2 ^ 8 \<noteq> 0) \<or> (iosize rq = 2 \<and> v mod 2 ^ 32 div 2 ^ 16 \<noteq> 0)
           then exit1 ''<value> too large''
           else Inr (rq\<lparr>req_value := v\<rparr>, tl ops)
      else Inr (rq, ops))"

text \<open>
  The operands. After the address, \<open>optind\<close> is at most \<open>argc\<close>, so the test for a file name with a value
  never succeeds; such a val is an argument too many.
\<close>

definition operands :: "nat \<Rightarrow> request \<Rightarrow> string list \<Rightarrow> fault + request" where
  "operands lsize rq ops =
     (let rq = (if filename rq = None \<and> ops \<noteq> [] then rq\<lparr>memread := False\<rparr> else rq)
      in if filename rq = None \<and> \<not> memread rq \<and> ops = [] then exit1 ''No val given for WRITE''
         else
           bindR (read_value lsize rq ops) (\<lambda>(rq, ops).
           if filename rq \<noteq> None \<and> memread rq \<and> req_len rq = 0 then exit1 ''No size given for file memread''
           else if ops \<noteq> [] then exit1 ''Too many arguments''
           else Inr rq))"

definition parse_args :: "nat \<Rightarrow> string list \<Rightarrow> fault + request" where
  "parse_args lsize argv =
     (if argv = [] then exit1 ''usage''
      else
        bindR (getopts lsize [] argv default_request) (\<lambda>(rq, ops).
        if ops = [] then exit1 ''No address given''
        else if snd (strtoul lsize (hd ops)) \<noteq> [] then exit1 ''Bad <addr> value''
        else operands lsize (rq\<lparr>req_addr := fst (strtoul lsize (hd ops))\<rparr>) (tl ops)))"

section \<open>The file and the mapping\<close>

text \<open>
  What the kernel answers: opening the file, its length, opening the memory device, mapping it,
  the operator's answer, and the transfer between the file and the memory.
\<close>

record io_env =
  io_open :: bool
  io_end :: int
  io_rewind :: bool
  io_devmem :: bool
  io_mmap :: "int \<Rightarrow> int \<Rightarrow> string option"
  io_yes :: bool
  io_n :: int
  io_bytes :: string

definition file_length :: "io_env \<Rightarrow> request \<Rightarrow> fault + request" where
  "file_length e rq =
     (if filename rq \<noteq> None \<and> \<not> io_open e then exit1 ''Failed to open file''
      else
        bindR (if filename rq \<noteq> None \<and> req_len rq = 0
               then (if wrap32 (io_end e) < 0 \<or> \<not> io_rewind e then exit1 ''Failed to seek''
                     else Inr (rq\<lparr>req_len := wrap32 (io_end e)\<rparr>))
               else Inr rq) (\<lambda>rq.
        Inr (if req_len rq = 0 then rq\<lparr>req_len := int (iosize rq)\<rparr> else rq)))"

definition check_aligned :: "request \<Rightarrow> fault + unit" where
  "check_aligned rq =
     (if (iosize rq = 2 \<and> req_addr rq mod 2 \<noteq> 0) \<or> (iosize rq = 4 \<and> req_addr rq mod 4 \<noteq> 0)
      then exit1 ''Badly aligned <addr> for access size''
      else if (iosize rq = 2 \<and> req_len rq mod 2 \<noteq> 0) \<or> (iosize rq = 4 \<and> req_len rq mod 4 \<noteq> 0)
      then exit1 ''Badly aligned <size> for access size''
      else Inr ())"

text \<open>The page address, the offset in it and the length to map.\<close>

definition page_range :: "nat \<Rightarrow> request \<Rightarrow> fault + int \<times> int \<times> int" where
  "page_range lsize rq =
     (let m = 2 ^ (8 * lsize);
          real_addr = req_addr rq - req_addr rq mod 4096;
          offset = req_addr rq - real_addr;
          l = (req_len rq + offset) mod m;
          l = (l + 4095) mod m;
          real_len = l - l mod 4096
      in if real_addr = 0xfffff000 then exit1 ''Sorry, cannot map the top 4K page''
         else if (real_addr + real_len) mod m < real_addr
         then exit1 ''Aligned addr+len exceeds top of address space''
         else Inr (real_addr, offset, real_len))"

datatype io_result = Dump "(int \<times> int list) list" | Written string | To_file string | From_file string

definition access :: "nat \<Rightarrow> nat \<Rightarrow> io_env \<Rightarrow> request \<Rightarrow> string \<Rightarrow> nat \<Rightarrow> fault + io_result" where
  "access fuel lsize e rq mem offset =
     (if filename rq \<noteq> None \<and> memread rq
      then (if io_n e < 0 then exit1 ''File write failed''
            else if io_n e \<noteq> req_len rq then exit1 ''Only wrote part of the bytes to file''
            else Inr (To_file (take (nat (req_len rq)) (drop offset mem))))
      else if filename rq \<noteq> None
      then (if io_n e < 0 then exit1 ''File read failed''
            else if io_n e \<noteq> req_len rq then exit1 ''Only read part of the bytes from file''
            else Inr (From_file (overwrite mem offset (take (nat (req_len rq)) (io_bytes e)))))
      else if memread rq
      then bindR (memread_memory fuel lsize (req_addr rq) mem offset (req_len rq) (iosize rq)) (\<lambda>ls. Inr (Dump ls))
      else bindR (write_memory lsize mem offset (req_len rq) (iosize rq) (req_value rq)) (\<lambda>mem. Inr (Written mem)))"

definition io_main :: "nat \<Rightarrow> nat \<Rightarrow> io_env \<Rightarrow> string list \<Rightarrow> fault + io_result" where
  "io_main fuel lsize e argv =
     bindR (parse_args lsize argv) (\<lambda>rq.
     bindR (file_length e rq) (\<lambda>rq.
     bindR (check_aligned rq) (\<lambda>_.
     bindR (page_range lsize rq) (\<lambda>(real_addr, offset, real_len).
     if \<not> io_devmem e then exit1 ''open /dev/mem''
     else case io_mmap e real_addr real_len of
       None \<Rightarrow> exit1 ''mmap() failed''
     | Some mem \<Rightarrow>
         if verbose rq \<and> \<not> io_yes e then exit1 ''Aborted''
         else access fuel lsize e rq mem (nat offset)))))"

section \<open>The loops on aligned requests\<close>

text \<open>The value at a position, as an access of \<open>w\<close> bytes reads it.\<close>

definition cell :: "string \<Rightarrow> nat \<Rightarrow> nat \<Rightarrow> int" where
  "cell mem w p = le_val (take w (drop p mem))"

lemma le_val_bytes: "le_val (le_bytes k v) = v mod 256 ^ k"
proof (induction k arbitrary: v)
  case (Suc k)
  have "v mod (256 * 256 ^ k) = 256 * (v div 256 mod 256 ^ k) + v mod 256"
    by (rule zmod_zmult2_eq) simp
  then show ?case using Suc by simp
qed simp

lemma take_drop_overwrite:
  assumes "p + length s \<le> length mem"
  shows "take (length s) (drop p (overwrite mem p s)) = s"
    "q + w \<le> p \<or> p + length s \<le> q \<Longrightarrow> take w (drop q (overwrite mem p s)) = take w (drop q mem)"
proof -
  show "take (length s) (drop p (overwrite mem p s)) = s" using assms by (simp add: overwrite_def)
  assume "q + w \<le> p \<or> p + length s \<le> q"
  then show "take w (drop q (overwrite mem p s)) = take w (drop q mem)"
  proof
    assume "q + w \<le> p"
    then show ?thesis using assms by (simp add: overwrite_def take_drop min_def)
  next
    assume q: "p + length s \<le> q"
    then have "q - p - length s + (p + length s) = q" by simp
    then show ?thesis using q assms by (simp add: overwrite_def add.commute)
  qed
qed

lemma write_memory_fills:
  assumes "width lsize sz = sz" "0 < sz" "addr + n * sz \<le> length mem"
  shows "\<exists>mem'. write_memory lsize mem addr (int (n * sz)) sz val = Inr mem' \<and> length mem' = length mem \<and>
    (\<forall>k < n. cell mem' sz (addr + k * sz) = val mod 256 ^ sz) \<and>
    (\<forall>q w. q + w \<le> addr \<or> addr + n * sz \<le> q \<longrightarrow> take w (drop q mem') = take w (drop q mem))"
  using assms(3)
proof (induction n arbitrary: addr mem)
  case 0
  then show ?case by (simp add: write_memory.simps)
next
  case (Suc n)
  let ?b = "le_bytes sz val" let ?m = "overwrite mem addr ?b"
  have l: "addr + length ?b \<le> length mem" using Suc.prems by simp
  then have len: "length ?m = length mem" by simp
  from Suc.IH [of "addr + sz" ?m] Suc.prems len obtain mem' where
    m: "write_memory lsize ?m (addr + sz) (int (n * sz)) sz val = Inr mem'" "length mem' = length mem"
      "\<And>k. k < n \<Longrightarrow> cell mem' sz (addr + sz + k * sz) = val mod 256 ^ sz"
      "\<And>q w. q + w \<le> addr + sz \<or> addr + sz + n * sz \<le> q \<Longrightarrow> take w (drop q mem') = take w (drop q ?m)"
    by (auto simp: add.assoc)
  have "int (Suc n * sz) - int sz = int (n * sz)" by simp
  moreover have "\<not> (int (Suc n * sz) = 0 \<or> sz = 0)" "\<not> length mem < addr + width lsize sz"
    using assms(1,2) Suc.prems by (simp_all only: of_nat_eq_0_iff) auto
  ultimately have e: "write_memory lsize mem addr (int (Suc n * sz)) sz val = Inr mem'"
    using m(1) by (subst write_memory.simps) (simp only: if_False assms(1))
  have "cell mem' sz addr = val mod 256 ^ sz"
    using m(4) [of addr sz] take_drop_overwrite(1) [OF l] by (simp add: cell_def le_val_bytes)
  moreover have "cell mem' sz (addr + k * sz) = val mod 256 ^ sz" if "0 < k" "k < Suc n" for k
    using m(3) [of "k - 1"] that by (cases k) (simp_all add: algebra_simps)
  ultimately have c: "\<forall>k < Suc n. cell mem' sz (addr + k * sz) = val mod 256 ^ sz" by (metis add_0_right gr0I mult_0)
  have "take w (drop q mem') = take w (drop q mem)" if "q + w \<le> addr \<or> addr + Suc n * sz \<le> q" for q w
  proof -
    have "q + w \<le> addr + sz \<or> addr + sz + n * sz \<le> q" "q + w \<le> addr \<or> addr + length ?b \<le> q" using that by auto
    then show ?thesis using m(4) take_drop_overwrite(2) [OF l] by simp
  qed
  then show ?case using e m(2) c by blast
qed

text \<open>Reading stays in the mapping as well; the lines hold the cells in order.\<close>

lemma read_line_reads:
  assumes "width lsize sz = sz" "0 < sz" "addr + n * sz \<le> length mem"
  shows "\<exists>k. k \<le> n \<and> (i < 16 \<and> 0 < n \<longrightarrow> 0 < k) \<and>
    read_line lsize mem addr (int (n * sz)) sz i =
      Inr (map (\<lambda>j. cell mem sz (addr + j * sz)) [0 ..< k], addr + k * sz, int ((n - k) * sz))"
  using assms(3)
proof (induction n arbitrary: addr i)
  case 0
  then show ?case by (simp add: read_line.simps)
next
  case (Suc n)
  show ?case
  proof (cases "i < 16")
    case False
    then show ?thesis by (intro exI [of _ 0]) (simp add: read_line.simps)
  next
    case True
    have "addr + sz + n * sz \<le> length mem" using Suc.prems by simp
    from Suc.IH [OF this, of "i + sz"] obtain k where
      k: "k \<le> n" "read_line lsize mem (addr + sz) (int (n * sz)) sz (i + sz) =
        Inr (map (\<lambda>j. cell mem sz (addr + sz + j * sz)) [0 ..< k], addr + sz + k * sz, int ((n - k) * sz))"
      by blast
    have "int (Suc n * sz) - int sz = int (n * sz)" by simp
    moreover have "\<not> (16 \<le> i \<or> int (Suc n * sz) = 0 \<or> sz = 0)" "\<not> length mem < addr + width lsize sz"
      using True assms(1,2) Suc.prems by (simp_all only: of_nat_eq_0_iff) auto
    ultimately have "read_line lsize mem addr (int (Suc n * sz)) sz i =
        Inr (le_val (take sz (drop addr mem)) # map (\<lambda>j. cell mem sz (addr + sz + j * sz)) [0 ..< k],
             addr + sz + k * sz, int ((n - k) * sz))"
      using k(2) by (subst read_line.simps) (simp only: if_False assms(1) bindR_Inr prod.case)
    moreover have "le_val (take sz (drop addr mem)) # map (\<lambda>j. cell mem sz (addr + sz + j * sz)) [0 ..< k] =
        map (\<lambda>j. cell mem sz (addr + j * sz)) [0 ..< Suc k]"
      by (simp add: upt_conv_Cons map_Suc_upt [symmetric] cell_def add.assoc del: upt_Suc)
    ultimately show ?thesis using k(1) by (intro exI [of _ "Suc k"]) (simp add: add.assoc)
  qed
qed

lemma memread_memory_reads:
  assumes "width lsize sz = sz" "0 < sz" "addr + n * sz \<le> length mem" "n \<le> fuel"
  shows "\<exists>ls. memread_memory fuel lsize pa mem addr (int (n * sz)) sz = Inr ls \<and>
    concat (map snd ls) = map (\<lambda>j. cell mem sz (addr + j * sz)) [0 ..< n]"
  using assms(3,4)
proof (induction fuel arbitrary: addr n pa)
  case 0
  then show ?case by (simp add: memread_memory.simps)
next
  case (Suc fuel)
  show ?case
  proof (cases n)
    case 0
    then show ?thesis by (simp add: memread_memory.simps)
  next
    case (Suc n')
    from read_line_reads [OF assms(1,2) Suc.prems(1), of 0] Suc obtain k where
      k: "k \<le> n" "0 < k" "read_line lsize mem addr (int (n * sz)) sz 0 =
        Inr (map (\<lambda>j. cell mem sz (addr + j * sz)) [0 ..< k], addr + k * sz, int ((n - k) * sz))" by auto
    let ?pa = "(pa + 16) mod 2 ^ (8 * lsize)"
    have b: "addr + k * sz + (n - k) * sz \<le> length mem" "n - k \<le> fuel"
      using Suc.prems k by (auto simp: algebra_simps simp flip: add_mult_distrib2)
    from Suc.IH [OF b, of ?pa] obtain ls where
      ls: "memread_memory fuel lsize ?pa mem (addr + k * sz) (int ((n - k) * sz)) sz = Inr ls"
        "concat (map snd ls) = map (\<lambda>j. cell mem sz (addr + k * sz + j * sz)) [0 ..< n - k]" by blast
    have nz: "int (n * sz) \<noteq> 0" using Suc assms(2) by (simp only: of_nat_eq_0_iff) simp
    have e: "memread_memory (Suc fuel) lsize pa mem addr (int (n * sz)) sz =
        Inr ((pa, map (\<lambda>j. cell mem sz (addr + j * sz)) [0 ..< k]) # ls)"
      using nz k(3) ls(1) by (subst memread_memory.simps) (simp only: if_False nat.case bindR_Inr prod.case)
    have "map (\<lambda>j. cell mem sz (addr + j * sz)) [0 ..< n] =
        map (\<lambda>j. cell mem sz (addr + j * sz)) [0 ..< k] @ map (\<lambda>j. cell mem sz (addr + k * sz + j * sz)) [0 ..< n - k]"
    proof -
      have "[0 ..< n] = [0 ..< k] @ map (\<lambda>j. k + j) [0 ..< n - k]"
        using k(1) upt_add_eq_append [of 0 k "n - k"] map_add_upt [of k "n - k"] by (simp add: add.commute)
      then show ?thesis by (simp add: comp_def algebra_simps)
    qed
    then show ?thesis using e ls(2) by auto
  qed
qed

section \<open>The mapped range\<close>

lemma page_range_covers:
  assumes "page_range lsize rq = Inr (ra, off, rl)" "0 < req_len rq" "req_len rq < 2 ^ 31" "0 \<le> req_addr rq" "4 \<le> lsize"
  shows "ra mod 4096 = 0" "off = req_addr rq mod 4096" "off + req_len rq \<le> rl"
proof -
  let ?m = "2 ^ (8 * lsize) :: int"
  have m: "2 ^ 32 \<le> ?m" using assms(5) by (intro power_increasing) simp_all
  have o: "off = req_addr rq mod 4096" "ra = req_addr rq - req_addr rq mod 4096"
    using assms(1) by (auto simp: page_range_def Let_def exit1_def split: if_splits)
  have ob: "0 \<le> off" "off < 4096" unfolding o by simp_all
  have "(req_len rq + off) mod ?m = req_len rq + off" using assms(2,3) m ob by (intro mod_pos_pos_trivial) auto
  moreover have "(req_len rq + off + 4095) mod ?m = req_len rq + off + 4095"
    using assms(2,3) m ob by (intro mod_pos_pos_trivial) auto
  ultimately have "rl = (req_len rq + off + 4095) - (req_len rq + off + 4095) mod 4096"
    using assms(1) o by (auto simp: page_range_def Let_def exit1_def split: if_splits)
  moreover have "(req_len rq + off + 4095) mod 4096 \<le> 4095" using pos_mod_bound [of 4096 "req_len rq + off + 4095"] by simp
  ultimately show "off + req_len rq \<le> rl" by simp
  show "ra mod 4096 = 0" "off = req_addr rq mod 4096" using o by simp_all
qed

lemma strtoul_nonneg: "0 \<le> fst (strtoul lsize s)"
proof -
  have f: "0 \<le> foldl (\<lambda>a c. a * b + int (f c)) v ds" if "0 \<le> v" "0 \<le> b" for b f v and ds :: string
    using that by (induction ds arbitrary: v) simp_all
  show ?thesis unfolding strtoul_def Let_def by (auto intro!: f)
qed

text \<open>An access size is 1, 2 or 4, whatever the command line.\<close>

lemma set_flag_iosize: "set_flag opt rq = Some rq' \<Longrightarrow> iosize rq \<in> {1, 2, 4} \<Longrightarrow> iosize rq' \<in> {1, 2, 4}"
  by (auto simp: set_flag_def split: if_split_asm)

lemma set_argument_iosize: "set_argument lsize opt oa rq = Inr rq' \<Longrightarrow> iosize rq' = iosize rq"
  by (auto simp: set_argument_def exit1_def split: if_split_asm)

lemma getopts_iosize:
  "getopts lsize pend args rq = Inr (rq', ops) \<Longrightarrow> iosize rq \<in> {1, 2, 4} \<Longrightarrow> iosize rq' \<in> {1, 2, 4}"
proof (induction lsize pend args rq rule: getopts.induct)
  case (1 lsize rq)
  then show ?case by simp
next
  case (2 lsize a as rq)
  then show ?case by (simp split: if_split_asm)
next
  case (3 lsize opt cs args rq)
  show ?case
  proof (cases "set_flag opt rq")
    case None
    with "3.prems" obtain rq1 as where
      r: "set_argument lsize opt (if cs \<noteq> [] then cs else hd args) rq = Inr rq1" "getopts lsize [] as rq1 = Inr (rq', ops)"
        "as = (if cs \<noteq> [] then args else tl args)" "\<not> (opt \<noteq> CHR ''l'' \<and> opt \<noteq> CHR ''f'' \<or> cs = [] \<and> args = [])"
      by (auto simp: exit1_def split: sum.split_asm if_split_asm)
    have z: "iosize rq1 \<in> {1, 2, 4}" using set_argument_iosize [OF r(1)] "3.prems"(2) by simp
    show ?thesis
    proof (cases "cs = []")
      case True
      then show ?thesis using "3.IH"(2) [OF None r(4), of rq1] r z by simp
    next
      case False
      then show ?thesis using "3.IH"(1) [OF None r(4), of rq1] r z by simp
    qed
  next
    case (Some rq1)
    with "3.IH"(3) [OF Some] "3.prems" set_flag_iosize [OF Some "3.prems"(2)] show ?thesis by simp
  qed
qed

lemma operands_facts:
  assumes "operands lsize rq ops = Inr rq'"
  shows "iosize rq' = iosize rq" "req_addr rq' = req_addr rq"
proof -
  have v: "iosize r' = iosize r \<and> req_addr r' = req_addr r" if "read_value lsize r os = Inr (r', os')" for r os r' os'
    using that by (auto simp: read_value_def exit1_def split: prod.split_asm if_split_asm)
  from assms obtain r os r' os' where "read_value lsize r os = Inr (r', os')" "iosize r = iosize rq"
    "req_addr r = req_addr rq" "rq' = r'"
    unfolding operands_def Let_def by (auto simp: bindR_eq_Inr exit1_def split: if_split_asm) 
  with v show "iosize rq' = iosize rq" "req_addr rq' = req_addr rq" by metis+
qed

lemma parse_args_facts:
  assumes "parse_args lsize argv = Inr rq"
  shows "iosize rq \<in> {1, 2, 4}" "0 \<le> req_addr rq"
proof -
  from assms obtain r ops where
    g: "getopts lsize [] argv default_request = Inr (r, ops)" and
    o: "operands lsize (r\<lparr>req_addr := fst (strtoul lsize (hd ops))\<rparr>) (tl ops) = Inr rq"
    by (auto simp: parse_args_def bindR_eq_Inr exit1_def split: if_split_asm)
  have "iosize r \<in> {1, 2, 4}" by (rule getopts_iosize [OF g]) (simp add: default_request_def)
  then show "iosize rq \<in> {1, 2, 4}" "0 \<le> req_addr rq" using operands_facts [OF o] strtoul_nonneg by simp_all
qed

lemma file_length_facts:
  "file_length e rq = Inr rq' \<Longrightarrow> iosize rq' = iosize rq \<and> req_addr rq' = req_addr rq"
  by (auto simp: file_length_def exit1_def bindR_eq_Inr split: if_split_asm)

definition ends :: "fault + 'a \<Rightarrow> bool" where
  "ends r \<longleftrightarrow> (\<exists>m. r = Inl (Log_exit m)) \<or> (\<exists>x. r = Inr x)"

lemma ends_simps [simp]: "ends (Inr x)" "ends (exit1 m)"
  by (simp_all add: ends_def exit1_def)

lemma ends_bindR: "ends r \<Longrightarrow> (\<And>x. r = Inr x \<Longrightarrow> ends (f x)) \<Longrightarrow> ends (bindR r f)"
  by (auto simp: ends_def)

lemma ends_checks: "ends (check_aligned rq)" "ends (page_range lsize rq)"
  by (simp_all add: check_aligned_def page_range_def Let_def)

lemma access_ends:
  assumes "width lsize (iosize rq) = iosize rq" "0 < iosize rq" "req_len rq = int (n * iosize rq)"
    "offset + n * iosize rq \<le> length mem" "n \<le> fuel"
  shows "ends (access fuel lsize e rq mem offset)"
proof -
  from memread_memory_reads [OF assms(1,2,4,5)] obtain ls where
    "memread_memory fuel lsize (req_addr rq) mem offset (req_len rq) (iosize rq) = Inr ls"
    unfolding assms(3) by blast
  moreover from write_memory_fills [OF assms(1,2,4)] obtain mem' where
    "write_memory lsize mem offset (req_len rq) (iosize rq) (req_value rq) = Inr mem'"
    unfolding assms(3) by blast
  ultimately show ?thesis by (simp add: access_def)
qed

lemma whole_cells:
  assumes "check_aligned rq = Inr ()" "iosize rq \<in> {1, 2, 4}" "0 < req_len rq"
  shows "\<exists>n. req_len rq = int (n * iosize rq)"
proof -
  have "req_len rq mod int (iosize rq) = 0"
    using assms(1,2) by (auto simp: check_aligned_def exit1_def split: if_split_asm)
  then have "int (iosize rq) * (req_len rq div int (iosize rq)) = req_len rq"
    using mult_div_mod_eq [of "int (iosize rq)" "req_len rq"] by simp
  moreover have "0 \<le> req_len rq div int (iosize rq)" using assms(2,3) by (auto intro: pos_imp_zdiv_nonneg_iff [THEN iffD2])
  ultimately have "req_len rq = int (nat (req_len rq div int (iosize rq)) * iosize rq)" by (simp add: mult.commute)
  then show ?thesis by blast
qed

section \<open>Properties\<close>


definition flat_memory :: io_env where
  "flat_memory = \<lparr>io_open = True, io_end = 0, io_rewind = True, io_devmem = True,
     io_mmap = (\<lambda>a l. if 0 \<le> l then Some (replicate (nat l) NUL) else None), io_yes = True, io_n = 0, io_bytes = []\<rparr>"


text \<open>
  A write fills every cell of the requested range with the value, at the access size, and
  changes no other byte of the mapping; a read of the same range then shows that value in
  every cell.
\<close>

lemma io_write_then_read:
  assumes "width lsize sz = sz" "0 < sz" "addr + n * sz \<le> length mem" "n \<le> fuel"
  shows "\<exists>mem' ls. write_memory lsize mem addr (int (n * sz)) sz val = Inr mem' \<and> length mem' = length mem \<and>
    take addr mem' = take addr mem \<and> drop (addr + n * sz) mem' = drop (addr + n * sz) mem \<and>
    memread_memory fuel lsize pa mem' addr (int (n * sz)) sz = Inr ls \<and>
    concat (map snd ls) = replicate n (val mod 256 ^ sz)"
proof -
  from write_memory_fills [OF assms(1-3)] obtain mem' where
    m: "write_memory lsize mem addr (int (n * sz)) sz val = Inr mem'" "length mem' = length mem"
      "\<forall>k < n. cell mem' sz (addr + k * sz) = val mod 256 ^ sz"
      "\<And>q w. q + w \<le> addr \<or> addr + n * sz \<le> q \<Longrightarrow> take w (drop q mem') = take w (drop q mem)" by blast
  have "take addr mem' = take addr mem" using m(4) [of 0 addr] by simp
  moreover have "drop (addr + n * sz) mem' = drop (addr + n * sz) mem"
    using m(4) [of "addr + n * sz" "length mem"] m(2) by simp
  moreover from memread_memory_reads [OF assms(1,2) _ assms(4), of addr mem' pa] assms(3) m(2) obtain ls where
    "memread_memory fuel lsize pa mem' addr (int (n * sz)) sz = Inr ls"
    "concat (map snd ls) = map (\<lambda>j. cell mem' sz (addr + j * sz)) [0 ..< n]" by auto
  moreover have "map (\<lambda>j. cell mem' sz (addr + j * sz)) [0 ..< n] = replicate n (val mod 256 ^ sz)"
    using m(3) by (intro nth_equalityI) simp_all
  ultimately show ?thesis using m(1,2) by auto
qed

lemma io_write_then_read_example:
  "\<exists>mem' ls. write_memory 4 (replicate 16 NUL) 4 8 2 0x1234 = Inr mem' \<and>
     memread_memory 4 4 0x1000 mem' 4 8 2 = Inr ls \<and> concat (map snd ls) = [0x1234, 0x1234, 0x1234, 0x1234]"
proof -
  have "replicate 4 0x1234 = [0x1234, 0x1234, 0x1234, 0x1234 :: int]" by (simp add: numeral_eq_Suc)
  then show ?thesis
    using io_write_then_read [of 4 2 4 4 "replicate 16 NUL" 4 "0x1234" "0x1000"] by (auto simp: width_def)
qed

text \<open>
  Where a \<open>long\<close> has eight bytes, an access of size 4 writes eight: the last word of the mapping
  cannot be written.
\<close>

lemma io_long_overrun:
  "4 \<le> length mem \<Longrightarrow> write_memory 8 mem (length mem - 4) 4 4 val = Inl Segv"
  by (subst write_memory.simps) (simp add: width_def)

end
