(* ===== verification/Dm9000.thy ===== *)
theory Dm9000
  imports Mem_Io
begin

text \<open>
  The driver of the DM9000 network chip (\<open>uboot_analyze/dm9000x.c\<close>). The chip is seen through its two
  ports: what the driver writes is recorded, what it reads comes from a stream that stands for
  the chip's answers. The register numbers and bits are those of \<open>dm9000x.h\<close>, which is not part of the
  repository: they are a parameter. Delays and messages are left out.
\<close>

unbundle bit_operations_syntax

section \<open>The ports\<close>

record dm9000_h =
  NCR :: int
  NSR :: int
  TCR :: int
  RCR :: int
  BPTR :: int
  FCTR :: int
  FCR :: int
  EPCR :: int
  EPAR :: int
  EPDRL :: int
  EPDRH :: int
  PAR :: int
  GPR :: int
  VIDL :: int
  VIDH :: int
  PIDL :: int
  PIDH :: int
  SMCR :: int
  MRCMDX :: int
  MRCMD :: int
  MWCMD :: int
  TXPLL :: int
  TXPLH :: int
  ISR :: int
  IMR :: int
  CHIP_ID :: int
  PHY :: int
  PKT_RDY :: int
  PKT_MAX :: int
  reset_bits :: int
  bptr_bits :: int
  fctr_bits :: int
  nsr_clear :: int
  nsr_txend :: int
  isr_clear :: int
  rcr_on :: int
  imr_par :: int
  imr_ptm :: int
  tcr_txreq :: int

datatype access_log = Out_io int | Out_data nat int | In_data nat int

datatype io_mode = Bit8 | Bit16 | Bit32

text \<open>
  The log of accesses, the chip's answers with the number of those consumed, the block routines in
  use, the hardware address and the packets handed to the network code.
\<close>

record dm =
  log :: "access_log list"
  feed :: "nat \<Rightarrow> int"
  reads :: nat
  mode :: io_mode
  enetaddr :: "int list"
  received :: "string list"

definition out_io :: "int \<Rightarrow> dm \<Rightarrow> dm" where
  "out_io r s = s\<lparr>log := log s @ [Out_io (r mod 256)]\<rparr>"

text \<open>An access of \<open>w\<close> bytes to the data port.\<close>

definition out_data :: "nat \<Rightarrow> int \<Rightarrow> dm \<Rightarrow> dm" where
  "out_data w v s = s\<lparr>log := log s @ [Out_data w (v mod 256 ^ w)]\<rparr>"

definition in_data :: "nat \<Rightarrow> dm \<Rightarrow> int \<times> dm" where
  "in_data w s =
     (let v = feed s (reads s) mod 256 ^ w in (v, s\<lparr>log := log s @ [In_data w v], reads := Suc (reads s)\<rparr>))"

definition DM9000_ior :: "int \<Rightarrow> dm \<Rightarrow> int \<times> dm" where
  "DM9000_ior reg s = in_data 1 (out_io reg s)"

definition DM9000_iow :: "int \<Rightarrow> int \<Rightarrow> dm \<Rightarrow> dm" where
  "DM9000_iow reg v s = out_data 1 v (out_io reg s)"

section \<open>Blocks\<close>

definition unit_size :: "io_mode \<Rightarrow> nat" where
  "unit_size m = (case m of Bit8 \<Rightarrow> 1 | Bit16 \<Rightarrow> 2 | Bit32 \<Rightarrow> 4)"

text \<open>The number of accesses for \<open>count\<close> bytes: the last one may be partly used.\<close>

definition units :: "io_mode \<Rightarrow> nat \<Rightarrow> nat" where
  "units m count = (count + unit_size m - 1) div unit_size m"

primrec out_units :: "nat \<Rightarrow> nat \<Rightarrow> string \<Rightarrow> dm \<Rightarrow> dm" where
  "out_units w 0 p s = s"
| "out_units w (Suc n) p s = out_units w n (drop w p) (out_data w (le_val (take w p)) s)"

text \<open>\<open>mem\<close> is the memory from the packet on; reading beyond its end is a fault.\<close>

definition dm9000_outblk :: "io_mode \<Rightarrow> string \<Rightarrow> nat \<Rightarrow> dm \<Rightarrow> fault + dm" where
  "dm9000_outblk m mem count s =
     (if length mem < units m count * unit_size m then Inl Segv
      else Inr (out_units (unit_size m) (units m count) mem s))"

primrec in_units :: "nat \<Rightarrow> nat \<Rightarrow> dm \<Rightarrow> string \<times> dm" where
  "in_units w 0 s = ([], s)"
| "in_units w (Suc n) s = (let (v, s) = in_data w s; (r, s) = in_units w n s in (le_bytes w v @ r, s))"

text \<open>\<open>bufsz\<close> is the size of the buffer the block is stored in.\<close>

definition dm9000_inblk :: "io_mode \<Rightarrow> nat \<Rightarrow> nat \<Rightarrow> dm \<Rightarrow> fault + string \<times> dm" where
  "dm9000_inblk m bufsz count s =
     (if bufsz < units m count * unit_size m then Inl Overflow
      else Inr (in_units (unit_size m) (units m count) s))"

text \<open>The status and the length of a packet, each of 16 bits.\<close>

definition dm9000_rx_status :: "dm9000_h \<Rightarrow> io_mode \<Rightarrow> dm \<Rightarrow> (int \<times> int) \<times> dm" where
  "dm9000_rx_status h m s =
     (let s = out_io (MRCMD h) s
      in case m of
           Bit32 \<Rightarrow> (let (t, s) = in_data 4 s in ((t mod 2 ^ 16, t div 2 ^ 16 mod 2 ^ 16), s))
         | Bit16 \<Rightarrow> (let (a, s) = in_data 2 s; (b, s) = in_data 2 s in ((a, b), s))
         | Bit8 \<Rightarrow>
             (let (a, s) = in_data 1 s; (b, s) = in_data 1 s; (c, s) = in_data 1 s; (d, s) = in_data 1 s
              in ((a + b * 256, c + d * 256), s)))"

section \<open>Set-up\<close>

definition dm9000_probe :: "dm9000_h \<Rightarrow> dm \<Rightarrow> bool \<times> dm" where
  "dm9000_probe h s =
     (let (a, s) = DM9000_ior (VIDL h) s; (b, s) = DM9000_ior (VIDH h) s;
          (c, s) = DM9000_ior (PIDL h) s; (d, s) = DM9000_ior (PIDH h) s
      in (a + b * 2 ^ 8 + c * 2 ^ 16 + d * 2 ^ 24 = CHIP_ID h, s))"

text \<open>The wait for the end of a reset; the chip may never report it.\<close>

primrec await_reset :: "nat \<Rightarrow> dm9000_h \<Rightarrow> dm \<Rightarrow> fault + dm" where
  "await_reset 0 h s = Inl Hangs"
| "await_reset (Suc fuel) h s =
     (let (v, s) = DM9000_ior (NCR h) s in if v mod 2 = 1 then await_reset fuel h s else Inr s)"

definition dm9000_reset :: "nat \<Rightarrow> dm9000_h \<Rightarrow> dm \<Rightarrow> fault + dm" where
  "dm9000_reset fuel h s =
     (let s = DM9000_iow (GPR h) 0 s; s = DM9000_iow (NCR h) (reset_bits h) s
      in bindR (await_reset fuel h s) (\<lambda>s.
         let s = DM9000_iow (NCR h) 0 s; s = DM9000_iow (NCR h) (reset_bits h) s
         in bindR (await_reset fuel h s) (\<lambda>s.
            let (v, s) = DM9000_ior (PIDL h) s
            in Inr (if v \<noteq> 0 then s else snd (DM9000_ior (PIDH h) s)))))"

definition phy_read :: "dm9000_h \<Rightarrow> int \<Rightarrow> dm \<Rightarrow> int \<times> dm" where
  "phy_read h reg s =
     (let s = DM9000_iow (EPAR h) (PHY h OR reg) s; s = DM9000_iow (EPCR h) 0xc s; s = DM9000_iow (EPCR h) 0 s;
          (hi, s) = DM9000_ior (EPDRH h) s; (lo, s) = DM9000_ior (EPDRL h) s
      in (hi * 256 + lo, s))"

definition phy_write :: "dm9000_h \<Rightarrow> int \<Rightarrow> int \<Rightarrow> dm \<Rightarrow> dm" where
  "phy_write h reg v s =
     (let s = DM9000_iow (EPAR h) (PHY h OR reg) s; s = DM9000_iow (EPDRL h) (v mod 256) s;
          s = DM9000_iow (EPDRH h) (v div 256 mod 256) s; s = DM9000_iow (EPCR h) 0xa s
      in DM9000_iow (EPCR h) 0 s)"

text \<open>At most \<open>n\<close> polls for the end of the negotiation, the last of which gives up.\<close>

primrec autonegotiate :: "nat \<Rightarrow> dm9000_h \<Rightarrow> dm \<Rightarrow> bool \<times> dm" where
  "autonegotiate 0 h s = (False, s)"
| "autonegotiate (Suc n) h s =
     (let (v, s) = phy_read h 1 s
      in if v AND 0x20 \<noteq> 0 then (True, s) else if n = 0 then (False, s) else autonegotiate n h s)"

fun write_regs :: "int \<Rightarrow> int list \<Rightarrow> dm \<Rightarrow> dm" where
  "write_regs oft [] s = s"
| "write_regs oft (v # vs) s = write_regs (oft + 1) vs (DM9000_iow oft v s)"

fun read_regs :: "int \<Rightarrow> nat \<Rightarrow> dm \<Rightarrow> int list \<times> dm" where
  "read_regs oft 0 s = ([], s)"
| "read_regs oft (Suc n) s = (let (v, s) = DM9000_ior oft s; (vs, s) = read_regs (oft + 1) n s in (v # vs, s))"

definition io_mode_of :: "int \<Rightarrow> io_mode" where
  "io_mode_of v = (if v = 0 then Bit16 else if v = 1 then Bit32 else Bit8)"

definition dm9000_init :: "nat \<Rightarrow> dm9000_h \<Rightarrow> dm \<Rightarrow> fault + int \<times> dm" where
  "dm9000_init fuel h s =
     bindR (dm9000_reset fuel h s) (\<lambda>s.
     let (found, s) = dm9000_probe h s
     in if \<not> found then Inr (-1, s)
        else
          let (v, s) = DM9000_ior (ISR h) s;
              s = s\<lparr>mode := io_mode_of (v div 64)\<rparr>;
              s = DM9000_iow (NCR h) 0 s; s = DM9000_iow (TCR h) 0 s; s = DM9000_iow (BPTR h) (bptr_bits h) s;
              s = DM9000_iow (FCTR h) (fctr_bits h) s; s = DM9000_iow (FCR h) 0 s; s = DM9000_iow (SMCR h) 0 s;
              s = DM9000_iow (NSR h) (nsr_clear h) s; s = DM9000_iow (ISR h) (isr_clear h) s;
              s = write_regs (PAR h) (take 6 (enetaddr s)) s; s = write_regs 0x16 (replicate 8 0xff) s;
              s = snd (read_regs 0x10 6 s);
              s = DM9000_iow (RCR h) (rcr_on h) s; s = DM9000_iow (IMR h) (imr_par h) s;
              (v, s) = phy_read h 1 s;
              (ok, s) = (if v AND 0x8 \<noteq> 0 then autonegotiate 10000 h s else (True, s))
          in if \<not> ok then Inr (0, s) else Inr (0, snd (phy_read h 17 s)))"

section \<open>The address in the configuration memory\<close>

definition dm9000_read_srom_word :: "dm9000_h \<Rightarrow> int \<Rightarrow> dm \<Rightarrow> int list \<times> dm" where
  "dm9000_read_srom_word h offset s =
     (let s = DM9000_iow (EPAR h) offset s; s = DM9000_iow (EPCR h) 0x4 s; s = DM9000_iow (EPCR h) 0 s;
          (a, s) = DM9000_ior (EPDRL h) s; (b, s) = DM9000_ior (EPDRH h) s
      in ([a, b], s))"

definition dm9000_write_srom_word :: "dm9000_h \<Rightarrow> int \<Rightarrow> int \<Rightarrow> dm \<Rightarrow> dm" where
  "dm9000_write_srom_word h offset v s =
     (let s = DM9000_iow (EPAR h) offset s; s = DM9000_iow (EPDRH h) (v div 256 mod 256) s;
          s = DM9000_iow (EPDRL h) (v mod 256) s; s = DM9000_iow (EPCR h) 0x12 s
      in DM9000_iow (EPCR h) 0 s)"

definition dm9000_get_enetaddr :: "dm9000_h \<Rightarrow> dm \<Rightarrow> dm" where
  "dm9000_get_enetaddr h s =
     (let (a, s) = dm9000_read_srom_word h 0 s; (b, s) = dm9000_read_srom_word h 1 s; (c, s) = dm9000_read_srom_word h 2 s
      in s\<lparr>enetaddr := a @ b @ c\<rparr>)"

section \<open>Packets\<close>

text \<open>The wait for the end of a transmission; time runs out after the check with \<open>n = 0\<close>.\<close>

primrec await_tx :: "nat \<Rightarrow> dm9000_h \<Rightarrow> dm \<Rightarrow> dm" where
  "await_tx 0 h s =
     (let (v, s) = DM9000_ior (NSR h) s in if v AND nsr_txend h = 0 then s else snd (DM9000_ior (ISR h) s))"
| "await_tx (Suc n) h s =
     (let (v, s) = DM9000_ior (NSR h) s
      in if v AND nsr_txend h = 0 then await_tx n h s
         else let (w, s) = DM9000_ior (ISR h) s in if w AND imr_ptm h = 0 then await_tx n h s else s)"

definition dm9000_send :: "nat \<Rightarrow> dm9000_h \<Rightarrow> string \<Rightarrow> nat \<Rightarrow> dm \<Rightarrow> fault + dm" where
  "dm9000_send polls h packet len s =
     (let s = DM9000_iow (ISR h) (imr_ptm h) s; s = out_io (MWCMD h) s
      in bindR (dm9000_outblk (mode s) packet len s) (\<lambda>s.
         let s = DM9000_iow (TXPLL h) (int len mod 256) s; s = DM9000_iow (TXPLH h) (int len div 256 mod 256) s;
             s = DM9000_iow (TCR h) (tcr_txreq h) s; s = await_tx polls h s
         in Inr (DM9000_iow (ISR h) (imr_ptm h) s)))"

definition dm9000_halt :: "dm9000_h \<Rightarrow> dm \<Rightarrow> dm" where
  "dm9000_halt h s =
     (let s = phy_write h 0 0x8000 s; s = DM9000_iow (GPR h) 0x01 s; s = DM9000_iow (IMR h) 0x80 s
      in DM9000_iow (RCR h) 0 s)"

text \<open>
  One packet after the other, as long as the chip has one ready. The block is read before its
  length is checked. \<open>bufsz\<close> is the size of the network code's buffer.
\<close>

primrec rx_loop :: "nat \<Rightarrow> dm9000_h \<Rightarrow> nat \<Rightarrow> dm \<Rightarrow> fault + dm" where
  "rx_loop 0 h bufsz s = Inl Hangs"
| "rx_loop (Suc fuel) h bufsz s =
     (let s = snd (DM9000_ior (MRCMDX h) s); (b, s) = in_data 1 s; rxbyte = b mod 4
      in if PKT_RDY h < rxbyte then Inr (DM9000_iow (ISR h) 0x80 (DM9000_iow (RCR h) 0 s))
         else if rxbyte \<noteq> PKT_RDY h then Inr s
         else
           let ((RxStatus, RxLen), s) = dm9000_rx_status h (mode s) s
           in bindR (dm9000_inblk (mode s) bufsz (nat RxLen) s) (\<lambda>(pkt, s).
              if RxStatus AND 0xbf00 \<noteq> 0 \<or> RxLen < 0x40 \<or> PKT_MAX h < RxLen
              then bindR (if PKT_MAX h < RxLen then dm9000_reset (Suc fuel) h s else Inr s) (rx_loop fuel h bufsz)
              else rx_loop fuel h bufsz (s\<lparr>received := received s @ [take (nat RxLen) pkt]\<rparr>)))"

definition dm9000_rx :: "nat \<Rightarrow> dm9000_h \<Rightarrow> nat \<Rightarrow> dm \<Rightarrow> fault + dm" where
  "dm9000_rx fuel h bufsz s =
     (let (v, s) = DM9000_ior (ISR h) s
      in if v mod 2 = 0 then Inr s else rx_loop fuel h bufsz (DM9000_iow (ISR h) 0x01 s))"

section \<open>Blocks on the log\<close>

lemma log_out [simp]:
  "log (out_io r s) = log s @ [Out_io (r mod 256)]" "log (out_data w v s) = log s @ [Out_data w (v mod 256 ^ w)]"
  "log (DM9000_iow r v s) = log s @ [Out_io (r mod 256), Out_data 1 (v mod 256)]"
  "mode (out_io r s) = mode s" "mode (out_data w v s) = mode s" "mode (DM9000_iow r v s) = mode s"
  by (simp_all add: out_io_def out_data_def DM9000_iow_def)

lemma le_bytes_val: "le_bytes (length p) (le_val p) = p"
proof (induction p)
  case (Cons c p)
  have "(ubyte c + 256 * le_val p) div 256 = le_val p" using ubyte_bounds [of c] by simp
  moreover have "byte (ubyte c + 256 * le_val p) = c"
    using byte_ubyte [of c] by (simp add: byte_def)
  ultimately show ?case using Cons by simp
qed simp

lemma le_bytes_mod: "le_bytes k (v mod 256 ^ k) = le_bytes k v"
  using le_bytes_val [of "le_bytes k v"] by (simp add: le_val_bytes)

text \<open>The values written to the data port, read as bytes, are the memory they came from.\<close>

lemma out_units_log:
  assumes "n * w \<le> length p"
  shows "\<exists>vs. log (out_units w n p s) = log s @ map (Out_data w) vs \<and> concat (map (le_bytes w) vs) = take (n * w) p \<and>
    length vs = n"
  using assms
proof (induction n arbitrary: p s)
  case (Suc n)
  let ?v = "le_val (take w p) mod 256 ^ w"
  have "n * w \<le> length (drop w p)" using Suc.prems by simp
  from Suc.IH [OF this, of "out_data w (le_val (take w p)) s"] obtain vs where
    vs: "log (out_units w n (drop w p) (out_data w (le_val (take w p)) s)) = log s @ Out_data w ?v # map (Out_data w) vs"
      "concat (map (le_bytes w) vs) = take (n * w) (drop w p)" "length vs = n" by auto
  have "length (take w p) = w" using Suc.prems by simp
  then have "le_bytes w ?v = take w p" using le_bytes_val [of "take w p"] by (simp add: le_bytes_mod)
  then have "concat (map (le_bytes w) (?v # vs)) = take (Suc n * w) p" using vs(2) by (simp add: take_add)
  then show ?case using vs by (intro exI [of _ "?v # vs"]) simp
qed simp

lemma units_cover: "count \<le> units m count * unit_size m"
proof (cases m)
  case Bit8
  then show ?thesis by (simp add: units_def unit_size_def)
next
  case Bit16
  then show ?thesis by (simp add: units_def unit_size_def)
next
  case Bit32
  then show ?thesis by (simp add: units_def unit_size_def)
qed

lemma ior_log: "DM9000_ior r s = (v, s') \<Longrightarrow> log s' = log s @ [Out_io (r mod 256), In_data 1 v]"
  by (auto simp: DM9000_ior_def in_data_def Let_def)

lemma await_tx_log: "\<exists>post. log (await_tx n h s) = log s @ post"
proof (induction n arbitrary: s)
  case 0
  obtain v s1 where a: "DM9000_ior (NSR h) s = (v, s1)" by (cases "DM9000_ior (NSR h) s")
  obtain w s2 where b: "DM9000_ior (ISR h) s1 = (w, s2)" by (cases "DM9000_ior (ISR h) s1")
  show ?case using ior_log [OF a] ior_log [OF b] by (simp add: a b)
next
  case (Suc n)
  obtain v s1 where a: "DM9000_ior (NSR h) s = (v, s1)" by (cases "DM9000_ior (NSR h) s")
  obtain w s2 where b: "DM9000_ior (ISR h) s1 = (w, s2)" by (cases "DM9000_ior (ISR h) s1")
  show ?case using ior_log [OF a] ior_log [OF b] Suc.IH [of s1] Suc.IH [of s2] by (auto simp: a b)
qed

lemma dm9000_send_succeeds:
  "units (mode s) len * unit_size (mode s) \<le> length packet \<Longrightarrow> \<exists>s'. dm9000_send polls h packet len s = Inr s'"
  by (simp add: dm9000_send_def dm9000_outblk_def Let_def)

section \<open>The chip's answers\<close>

text \<open>The answers are consumed in order, and nothing else changes what the chip will answer.\<close>

lemma in_data_simps [simp]:
  "fst (in_data w s) = feed s (reads s) mod 256 ^ w" "feed (snd (in_data w s)) = feed s"
  "reads (snd (in_data w s)) = Suc (reads s)" "mode (snd (in_data w s)) = mode s" "received (snd (in_data w s)) = received s"
  by (simp_all add: in_data_def Let_def)

lemma out_simps [simp]:
  "feed (out_io r s) = feed s" "reads (out_io r s) = reads s" "received (out_io r s) = received s"
  "feed (out_data w v s) = feed s" "reads (out_data w v s) = reads s" "received (out_data w v s) = received s"
  by (simp_all add: out_io_def out_data_def)

lemma iow_simps [simp]:
  "feed (DM9000_iow r v s) = feed s" "reads (DM9000_iow r v s) = reads s" "received (DM9000_iow r v s) = received s"
  by (simp_all add: DM9000_iow_def)

lemma ior_simps [simp]:
  "fst (DM9000_ior r s) = feed s (reads s) mod 256" "feed (snd (DM9000_ior r s)) = feed s"
  "reads (snd (DM9000_ior r s)) = Suc (reads s)" "mode (snd (DM9000_ior r s)) = mode s"
  "received (snd (DM9000_ior r s)) = received s"
  by (simp_all add: DM9000_ior_def)

lemma rx_status_16 [simp]:
  "fst (dm9000_rx_status h Bit16 s) = (feed s (reads s) mod 2 ^ 16, feed s (Suc (reads s)) mod 2 ^ 16)"
  "feed (snd (dm9000_rx_status h Bit16 s)) = feed s" "reads (snd (dm9000_rx_status h Bit16 s)) = Suc (Suc (reads s))"
  "mode (snd (dm9000_rx_status h Bit16 s)) = mode s" "received (snd (dm9000_rx_status h Bit16 s)) = received s"
  by (simp_all add: dm9000_rx_status_def Let_def case_prod_beta)

lemma in_units_all:
  "fst (in_units w n s) = concat (map (\<lambda>k. le_bytes w (feed s k)) [reads s ..< reads s + n]) \<and>
   feed (snd (in_units w n s)) = feed s \<and> reads (snd (in_units w n s)) = reads s + n \<and>
   mode (snd (in_units w n s)) = mode s \<and> received (snd (in_units w n s)) = received s"
proof (induction n arbitrary: s)
  case (Suc n)
  have "[reads s ..< reads s + Suc n] = reads s # [Suc (reads s) ..< Suc (reads s) + n]"
    by (simp add: upt_conv_Cons)
  then show ?case
    using Suc [of "snd (in_data w s)"] by (simp add: case_prod_beta Let_def le_bytes_mod del: upt_Suc)
qed simp

lemma in_units_simps:
  "fst (in_units w n s) = concat (map (\<lambda>k. le_bytes w (feed s k)) [reads s ..< reads s + n])"
  "feed (snd (in_units w n s)) = feed s" "reads (snd (in_units w n s)) = reads s + n"
  "mode (snd (in_units w n s)) = mode s" "received (snd (in_units w n s)) = received s"
  using in_units_all [of w n s] by simp_all

text \<open>One round of the receive loop: nothing ready, or a packet whose block is read next.\<close>

declare rx_loop.simps [simp del]

lemma rx_byte:
  "\<exists>s'. in_data 1 (snd (DM9000_ior r s)) = (feed s (Suc (reads s)) mod 256, s') \<and> feed s' = feed s \<and>
    reads s' = Suc (Suc (reads s)) \<and> mode s' = mode s \<and> received s' = received s"
  by (rule exI [of _ "snd (in_data 1 (snd (DM9000_ior r s)))"]) (simp add: prod_eq_iff)

lemma rx_loop_idle:
  assumes "PKT_RDY h = 1" "feed s (Suc (reads s)) mod 4 = 0"
  shows "\<exists>s'. rx_loop (Suc fuel) h bufsz s = Inr s' \<and> received s' = received s"
proof -
  obtain s2 where i: "in_data 1 (snd (DM9000_ior (MRCMDX h) s)) = (feed s (Suc (reads s)) mod 256, s2)"
    and r: "received s2 = received s" using rx_byte by blast
  have z: "feed s (Suc (reads s)) mod 256 mod 4 = 0" using assms(2) by (simp add: mod_mod_cancel)
  have "rx_loop (Suc fuel) h bufsz s = Inr s2"
    unfolding rx_loop.simps(2) Let_def i prod.case assms(1) z by simp
  with r show ?thesis by blast
qed

lemma rx_loop_ready:
  assumes m: "mode s = Bit16" and r: "PKT_RDY h = 1" and f: "feed s (Suc (reads s)) mod 4 = 1"
    and st: "RxStatus = feed s (Suc (Suc (reads s))) mod 2 ^ 16" and ln: "RxLen = feed s (Suc (Suc (Suc (reads s)))) mod 2 ^ 16"
  shows "\<exists>t. rx_loop (Suc fuel) h bufsz s =
      bindR (dm9000_inblk Bit16 bufsz (nat RxLen) t) (\<lambda>(pkt, s).
        if RxStatus AND 0xbf00 \<noteq> 0 \<or> RxLen < 0x40 \<or> PKT_MAX h < RxLen
        then bindR (if PKT_MAX h < RxLen then dm9000_reset (Suc fuel) h s else Inr s) (rx_loop fuel h bufsz)
        else rx_loop fuel h bufsz (s\<lparr>received := received s @ [take (nat RxLen) pkt]\<rparr>)) \<and>
    feed t = feed s \<and> reads t = Suc (Suc (Suc (Suc (reads s)))) \<and> mode t = Bit16 \<and> received t = received s"
proof -
  obtain s2 where i: "in_data 1 (snd (DM9000_ior (MRCMDX h) s)) = (feed s (Suc (reads s)) mod 256, s2)"
    and s2: "feed s2 = feed s" "reads s2 = Suc (Suc (reads s))" "mode s2 = mode s" "received s2 = received s"
    using rx_byte by blast
  have z: "feed s (Suc (reads s)) mod 256 mod 4 = 1" using f by (simp add: mod_mod_cancel)
  have m2: "mode s2 = Bit16" using m s2 by simp
  obtain x t where rs: "dm9000_rx_status h Bit16 s2 = (x, t)" by fastforce
  have x: "x = fst (dm9000_rx_status h Bit16 s2)" "t = snd (dm9000_rx_status h Bit16 s2)" by (simp_all add: rs)
  have "x = (RxStatus, RxLen)" by (simp add: x(1) st ln s2)
  note rs = rs [unfolded this]
  have t: "feed t = feed s" "reads t = Suc (Suc (Suc (Suc (reads s))))" "mode t = Bit16" "received t = received s"
    by (simp_all add: x(2) s2 m)
  have lt: "(1 < (1 :: int)) = False" "((1 :: int) \<noteq> 1) = False" by simp_all
  have "rx_loop (Suc fuel) h bufsz s =
      bindR (dm9000_inblk Bit16 bufsz (nat RxLen) t) (\<lambda>(pkt, s).
        if RxStatus AND 0xbf00 \<noteq> 0 \<or> RxLen < 0x40 \<or> PKT_MAX h < RxLen
        then bindR (if PKT_MAX h < RxLen then dm9000_reset (Suc fuel) h s else Inr s) (rx_loop fuel h bufsz)
        else rx_loop fuel h bufsz (s\<lparr>received := received s @ [take (nat RxLen) pkt]\<rparr>))"
    unfolding rx_loop.simps(2) Let_def i prod.case r z lt if_False m2 rs t(3) ..
  with t show ?thesis by blast
qed

lemma dm9000_rx_ready:
  assumes "feed s (reads s) mod 2 = 1"
  shows "\<exists>t. dm9000_rx fuel h bufsz s = rx_loop fuel h bufsz t \<and> feed t = feed s \<and> reads t = Suc (reads s) \<and> mode t = mode s \<and>
    received t = received s"
proof -
  obtain v s1 where i: "DM9000_ior (ISR h) s = (v, s1)" by fastforce
  have v: "v = fst (DM9000_ior (ISR h) s)" "s1 = snd (DM9000_ior (ISR h) s)" by (simp_all add: i)
  have z: "v mod 2 = 1" using assms by (simp add: v(1) mod_mod_cancel)
  have "dm9000_rx fuel h bufsz s = rx_loop fuel h bufsz (DM9000_iow (ISR h) 1 s1)"
    unfolding dm9000_rx_def Let_def i prod.case z by simp
  then show ?thesis by (intro exI [of _ "DM9000_iow (ISR h) 1 s1"]) (simp add: v(2))
qed

section \<open>Properties\<close>

text \<open>
  In each of the three bus modes the chip is given the packet byte for byte: after the command
  to fill its memory come accesses whose bytes begin with the packet, then the two length
  registers, and only then the request to transmit.
\<close>

lemma dm9000_send_packet:
  assumes "dm9000_send polls h packet len s = Inr s'"
  shows "\<exists>vs post. log s' = log s @ [Out_io (ISR h mod 256), Out_data 1 (imr_ptm h mod 256), Out_io (MWCMD h mod 256)] @
      map (Out_data (unit_size (mode s))) vs @
      [Out_io (TXPLL h mod 256), Out_data 1 (int len mod 256), Out_io (TXPLH h mod 256), Out_data 1 (int len div 256 mod 256),
       Out_io (TCR h mod 256), Out_data 1 (tcr_txreq h mod 256)] @ post \<and>
    take len (concat (map (le_bytes (unit_size (mode s))) vs)) = take len packet \<and> len \<le> length packet"
proof -
  let ?w = "unit_size (mode s)" and ?n = "units (mode s) len"
  let ?s = "out_io (MWCMD h) (DM9000_iow (ISR h) (imr_ptm h) s)"
  from assms have l: "?n * ?w \<le> length packet"
    by (auto simp: dm9000_send_def dm9000_outblk_def Let_def split: if_split_asm)
  from out_units_log [OF l, of ?s] obtain vs where
    vs: "log (out_units ?w ?n packet ?s) = log ?s @ map (Out_data ?w) vs" "concat (map (le_bytes ?w) vs) = take (?n * ?w) packet"
    by blast
  let ?t = "DM9000_iow (TCR h) (tcr_txreq h) (DM9000_iow (TXPLH h) (int len div 256 mod 256)
    (DM9000_iow (TXPLL h) (int len mod 256) (out_units ?w ?n packet ?s)))"
  from await_tx_log [of polls h ?t] obtain post where post: "log (await_tx polls h ?t) = log ?t @ post" by blast
  have s': "s' = DM9000_iow (ISR h) (imr_ptm h) (await_tx polls h ?t)"
    using assms l by (simp add: dm9000_send_def dm9000_outblk_def Let_def)
  have "log s' = log s @ [Out_io (ISR h mod 256), Out_data 1 (imr_ptm h mod 256), Out_io (MWCMD h mod 256)] @
      map (Out_data ?w) vs @
      [Out_io (TXPLL h mod 256), Out_data 1 (int len mod 256), Out_io (TXPLH h mod 256), Out_data 1 (int len div 256 mod 256),
       Out_io (TCR h mod 256), Out_data 1 (tcr_txreq h mod 256)] @ post @ [Out_io (ISR h mod 256), Out_data 1 (imr_ptm h mod 256)]"
    unfolding s' by (simp add: post vs(1))
  moreover have "len \<le> ?n * ?w" by (rule units_cover)
  ultimately show ?thesis using vs(2) l by (intro exI [of _ vs] exI conjI) (assumption, simp_all)
qed

text \<open>Numbers and bits of the chip's data sheet, and a driver in 16-bit mode.\<close>

definition data_sheet :: dm9000_h where
  "data_sheet = \<lparr>NCR = 0, NSR = 1, TCR = 2, RCR = 5, BPTR = 8, FCTR = 9, FCR = 0xA, EPCR = 0xB, EPAR = 0xC, EPDRL = 0xD,
     EPDRH = 0xE, PAR = 0x10, GPR = 0x1F, VIDL = 0x28, VIDH = 0x29, PIDL = 0x2A, PIDH = 0x2B, SMCR = 0x2F, MRCMDX = 0xF0,
     MRCMD = 0xF2, MWCMD = 0xF8, TXPLL = 0xFC, TXPLH = 0xFD, ISR = 0xFE, IMR = 0xFF, CHIP_ID = 0x90000A46, PHY = 0x40,
     PKT_RDY = 1, PKT_MAX = 1536, reset_bits = 3, bptr_bits = 0x3F, fctr_bits = 0x38, nsr_clear = 0x2C, nsr_txend = 0xC,
     isr_clear = 0xF, rcr_on = 0x31, imr_par = 0x80, imr_ptm = 2, tcr_txreq = 1\<rparr>"

definition dm16 :: "(nat \<Rightarrow> int) \<Rightarrow> dm" where
  "dm16 f = \<lparr>log = [], feed = f, reads = 0, mode = Bit16, enetaddr = [], received = []\<rparr>"

lemma dm9000_send_packet_example:
  "\<exists>s' vs post. dm9000_send 0 data_sheet ''abc!'' 3 (dm16 (\<lambda>_. 0)) = Inr s' \<and>
     log s' = [Out_io 0xFE, Out_data 1 2, Out_io 0xF8] @ map (Out_data 2) vs @
       [Out_io 0xFC, Out_data 1 3, Out_io 0xFD, Out_data 1 0, Out_io 2, Out_data 1 1] @ post \<and>
     take 3 (concat (map (le_bytes 2) vs)) = ''abc''"
proof -
  have "\<exists>s'. dm9000_send 0 data_sheet ''abc!'' 3 (dm16 (\<lambda>_. 0)) = Inr s'"
    by (rule dm9000_send_succeeds) (simp add: dm16_def units_def unit_size_def)
  then obtain s' where s': "dm9000_send 0 data_sheet ''abc!'' 3 (dm16 (\<lambda>_. 0)) = Inr s'" by blast
  from dm9000_send_packet [OF s'] s' show ?thesis
    by (simp add: data_sheet_def dm16_def unit_size_def)
qed

text \<open>
  The receive routine trusts the length the chip reports: a packet that claims more bytes
  than the network code's buffer has room for is stored beyond its end, before the check that
  would discard it.
\<close>

lemma dm9000_rx_overflow:
  assumes m: "mode s = Bit16" and rdy: "PKT_RDY h = 1"
    and f: "feed s (reads s) mod 2 = 1" "feed s (reads s + 2) mod 4 = 1"
    and len: "bufsz < 2 ^ 16" "int bufsz < feed s (reads s + 4) mod 2 ^ 16"
  shows "dm9000_rx (Suc fuel) h bufsz s = Inl Overflow"
proof -
  let ?l = "feed s (reads s + 4) mod 2 ^ 16"
  have n: "reads s + 2 = Suc (Suc (reads s))" "reads s + 3 = Suc (Suc (Suc (reads s)))"
    "reads s + 4 = Suc (Suc (Suc (Suc (reads s))))" by simp_all
  from dm9000_rx_ready [OF f(1)] obtain t where
    t: "dm9000_rx (Suc fuel) h bufsz s = rx_loop (Suc fuel) h bufsz t" "feed t = feed s" "reads t = Suc (reads s)" "mode t = mode s"
    by blast
  have "feed t (Suc (reads t)) mod 4 = 1" using f(2) t n by simp
  from rx_loop_ready [OF _ rdy this refl, of ?l fuel bufsz] t m obtain t' g where
    t': "rx_loop (Suc fuel) h bufsz t = bindR (dm9000_inblk Bit16 bufsz (nat ?l) t') g"
    using n by auto
  have "nat ?l \<le> units Bit16 (nat ?l) * unit_size Bit16" by (rule units_cover)
  then have "bufsz < units Bit16 (nat ?l) * unit_size Bit16" using len(2) by linarith
  then show ?thesis unfolding t(1) t' by (simp add: dm9000_inblk_def)
qed

lemma dm9000_rx_overflow_example:
  "dm9000_rx 1 data_sheet 1536 (dm16 (\<lambda>k. if k = 4 then 2000 else 1)) = Inl Overflow"
  using dm9000_rx_overflow [of "dm16 (\<lambda>k. if k = 4 then 2000 else 1)" data_sheet 1536 0]
  by (simp add: dm16_def data_sheet_def)


definition rx_answers :: "nat \<Rightarrow> int" where
  "rx_answers k = (if k = 3 \<or> k = 38 then 0 else if k = 4 then 64 else 1)"


end
