(* ===== verification/Semaph.thy ===== *)
theory Semaph
  imports C_Prelude
begin

text \<open>
  The semaphore library (\<open>lib/semaph.c\<close>) over System V semaphore sets: each routine as the sequence of
  its system calls, between which other processes run. A set has three members: the semaphore
  itself, the counter of the processes that use it, and a lock.
\<close>

section \<open>Semaphore sets\<close>

text \<open>An operation: the member, the amount, and whether it is undone when the process exits.\<close>

type_synonym sembuf = "nat \<times> int \<times> bool"

text \<open>Where a process stands: the next system call of the routine it is in, with the set's identifier.\<close>

datatype pc =
  Idle | Get | Have nat | Locked nat | Set0 nat | Set1 nat | Ready nat | Using nat | Opening nat
| Closing nat | Removing nat | Unlocking nat | Returned_error | Exited

record sems =
  sets :: "nat \<rightharpoonup> (nat \<Rightarrow> int)"
  key_id :: "nat option"
  next_id :: nat
  undo :: "nat \<Rightarrow> nat \<Rightarrow> nat \<Rightarrow> int"
  pcs :: "nat \<Rightarrow> pc"

datatype semres = Einval | Block | Done sems

text \<open>
  All operations of a call are performed, or none: the call waits. The values stay below the
  system's maximum.
\<close>

fun run_sembufs :: "sembuf list \<Rightarrow> (nat \<Rightarrow> int) \<Rightarrow> (nat \<Rightarrow> int) \<Rightarrow> ((nat \<Rightarrow> int) \<times> (nat \<Rightarrow> int)) option" where
  "run_sembufs [] v u = Some (v, u)"
| "run_sembufs ((n, d, un) # ops) v u =
     (if d = 0 then (if v n = 0 then run_sembufs ops v u else None)
      else if v n + d < 0 then None
      else run_sembufs ops (v(n := v n + d)) (if un then u(n := u n - d) else u))"

definition semop :: "nat \<Rightarrow> nat \<Rightarrow> sembuf list \<Rightarrow> sems \<Rightarrow> semres" where
  "semop p i ops k =
     (case sets k i of
        None \<Rightarrow> Einval
      | Some v \<Rightarrow>
          (case run_sembufs ops v (undo k p i) of
             None \<Rightarrow> Block
           | Some (v, u) \<Rightarrow> Done (k\<lparr>sets := (sets k)(i \<mapsto> v), undo := (undo k)(p := (undo k p)(i := u))\<rparr>)))"

text \<open>Setting a value clears the adjustments of every process for that member.\<close>

definition setval :: "nat \<Rightarrow> nat \<Rightarrow> int \<Rightarrow> sems \<Rightarrow> sems option" where
  "setval i n x k =
     (case sets k i of
        None \<Rightarrow> None
      | Some v \<Rightarrow>
          if x < 0 then None
          else Some (k\<lparr>sets := (sets k)(i \<mapsto> v(n := x)), undo := (\<lambda>p. (undo k p)(i := (undo k p i)(n := 0)))\<rparr>))"

definition ipc_rmid :: "nat \<Rightarrow> sems \<Rightarrow> sems" where
  "ipc_rmid i k = k\<lparr>sets := (sets k)(i := None), key_id := (if key_id k = Some i then None else key_id k),
     undo := (\<lambda>p. (undo k p)(i := (\<lambda>_. 0)))\<rparr>"

text \<open>The set of the key, created when it is asked for and there is none.\<close>

definition semget_create :: "sems \<Rightarrow> nat \<times> sems" where
  "semget_create k =
     (case key_id k of
        Some i \<Rightarrow> (i, k)
      | None \<Rightarrow> (next_id k, k\<lparr>sets := (sets k)(next_id k \<mapsto> (\<lambda>_. 0)), key_id := Some (next_id k), next_id := Suc (next_id k)\<rparr>))"

definition goto :: "nat \<Rightarrow> pc \<Rightarrow> sems \<Rightarrow> sems" where
  "goto p c k = k\<lparr>pcs := (pcs k)(p := c)\<rparr>"

text \<open>The end of a process: the kernel applies its adjustments, no value falling below 0.\<close>

definition proc_exit :: "nat \<Rightarrow> sems \<Rightarrow> sems" where
  "proc_exit p k =
     goto p Exited (k\<lparr>sets := (\<lambda>i. map_option (\<lambda>v n. max 0 (v n + undo k p i n)) (sets k i)),
       undo := (undo k)(p := (\<lambda>_ _. 0))\<rparr>)"

section \<open>The library\<close>

definition BIGCOUNT :: int where "BIGCOUNT = 10000"

definition op_lock :: "sembuf list" where "op_lock = [(2, 0, False), (2, 1, True)]"
definition op_endcreate :: "sembuf list" where "op_endcreate = [(1, -1, True), (2, -1, True)]"
definition op_open :: "sembuf list" where "op_open = [(1, -1, True)]"
definition op_close :: "sembuf list" where "op_close = [(2, 0, False), (2, 1, True), (1, 1, True)]"
definition op_unlock :: "sembuf list" where "op_unlock = [(2, -1, True)]"
definition op_op :: "int \<Rightarrow> sembuf list" where "op_op n = [(0, n, True)]"

text \<open>
  One system call of process \<open>p\<close> in \<open>sem_create\<close>; \<open>None\<close> is a call that waits. \<open>err_sys\<close> ends the
  process.
\<close>

definition sem_create :: "int \<Rightarrow> int \<Rightarrow> nat \<Rightarrow> sems \<Rightarrow> sems option" where
  "sem_create key initval p k =
     (case pcs k p of
        Idle \<Rightarrow> Some (goto p (if key = 0 \<or> key = -1 then Returned_error else Get) k)
      | Get \<Rightarrow> (let (i, k) = semget_create k in Some (goto p (Have i) k))
      | Have i \<Rightarrow>
          (case semop p i op_lock k of
             Einval \<Rightarrow> Some (goto p Get k)
           | Block \<Rightarrow> None
           | Done k \<Rightarrow> Some (goto p (Locked i) k))
      | Locked i \<Rightarrow>
          (case sets k i of
             None \<Rightarrow> Some (proc_exit p k)
           | Some v \<Rightarrow> Some (goto p (if v 1 = 0 then Set0 i else Ready i) k))
      | Set0 i \<Rightarrow> (case setval i 0 initval k of None \<Rightarrow> Some (proc_exit p k) | Some k \<Rightarrow> Some (goto p (Set1 i) k))
      | Set1 i \<Rightarrow> (case setval i 1 BIGCOUNT k of None \<Rightarrow> Some (proc_exit p k) | Some k \<Rightarrow> Some (goto p (Ready i) k))
      | Ready i \<Rightarrow>
          (case semop p i op_endcreate k of
             Einval \<Rightarrow> Some (proc_exit p k)
           | Block \<Rightarrow> None
           | Done k \<Rightarrow> Some (goto p (Using i) k))
      | _ \<Rightarrow> None)"

definition sem_open :: "int \<Rightarrow> nat \<Rightarrow> sems \<Rightarrow> sems option" where
  "sem_open key p k =
     (case pcs k p of
        Idle \<Rightarrow>
          if key = 0 \<or> key = -1 then Some (goto p Returned_error k)
          else (case key_id k of None \<Rightarrow> Some (goto p Returned_error k) | Some i \<Rightarrow> Some (goto p (Opening i) k))
      | Opening i \<Rightarrow>
          (case semop p i op_open k of
             Einval \<Rightarrow> Some (proc_exit p k)
           | Block \<Rightarrow> None
           | Done k \<Rightarrow> Some (goto p (Using i) k))
      | _ \<Rightarrow> None)"

definition sem_rm :: "nat \<Rightarrow> sems \<Rightarrow> sems option" where
  "sem_rm i k = (case sets k i of None \<Rightarrow> None | Some _ \<Rightarrow> Some (ipc_rmid i k))"

definition sem_close :: "nat \<Rightarrow> sems \<Rightarrow> sems option" where
  "sem_close p k =
     (case pcs k p of
        Using i \<Rightarrow>
          (case semop p i op_close k of
             Einval \<Rightarrow> Some (proc_exit p k)
           | Block \<Rightarrow> None
           | Done k \<Rightarrow> Some (goto p (Closing i) k))
      | Closing i \<Rightarrow>
          (case sets k i of
             None \<Rightarrow> Some (proc_exit p k)
           | Some v \<Rightarrow>
               if BIGCOUNT < v 1 then Some (proc_exit p k)
               else Some (goto p (if v 1 = BIGCOUNT then Removing i else Unlocking i) k))
      | Removing i \<Rightarrow> (case sem_rm i k of None \<Rightarrow> Some (proc_exit p k) | Some k \<Rightarrow> Some (goto p Idle k))
      | Unlocking i \<Rightarrow>
          (case semop p i op_unlock k of
             Einval \<Rightarrow> Some (proc_exit p k)
           | Block \<Rightarrow> None
           | Done k \<Rightarrow> Some (goto p Idle k))
      | _ \<Rightarrow> None)"

text \<open>The amount is stored in a \<open>short\<close> before it is tested.\<close>

definition wrap16 :: "int \<Rightarrow> int" where
  "wrap16 n = (n + 2 ^ 15) mod 2 ^ 16 - 2 ^ 15"

definition sem_op :: "int \<Rightarrow> nat \<Rightarrow> sems \<Rightarrow> sems option" where
  "sem_op n p k =
     (case pcs k p of
        Using i \<Rightarrow>
          if wrap16 n = 0 then Some (proc_exit p k)
          else (case semop p i (op_op (wrap16 n)) k of
                  Einval \<Rightarrow> Some (proc_exit p k)
                | Block \<Rightarrow> None
                | Done k \<Rightarrow> Some k)
      | _ \<Rightarrow> None)"

definition sem_wait :: "nat \<Rightarrow> sems \<Rightarrow> sems option" where
  "sem_wait p k = sem_op (-1) p k"

definition sem_signal :: "nat \<Rightarrow> sems \<Rightarrow> sems option" where
  "sem_signal p k = sem_op 1 p k"

section \<open>Processes\<close>

text \<open>
  \<open>N\<close> processes call \<open>sem_create\<close>, \<open>sem_op\<close> and \<open>sem_close\<close>, and may end at any moment.
\<close>

inductive sem_step :: "nat \<Rightarrow> sems \<Rightarrow> sems \<Rightarrow> bool" for N where
  create: "p < N \<Longrightarrow> sem_create key initval p k = Some k' \<Longrightarrow> sem_step N k k'"
| operate: "p < N \<Longrightarrow> sem_op n p k = Some k' \<Longrightarrow> sem_step N k k'"
| close: "p < N \<Longrightarrow> sem_close p k = Some k' \<Longrightarrow> sem_step N k k'"
| exit: "p < N \<Longrightarrow> sem_step N k (proc_exit p k)"

text \<open>The set a process holds locked or uses.\<close>

fun lock_id :: "pc \<Rightarrow> nat option" where
  "lock_id (Locked i) = Some i"
| "lock_id (Set0 i) = Some i"
| "lock_id (Set1 i) = Some i"
| "lock_id (Ready i) = Some i"
| "lock_id (Closing i) = Some i"
| "lock_id (Removing i) = Some i"
| "lock_id (Unlocking i) = Some i"
| "lock_id _ = None"

fun use_id :: "pc \<Rightarrow> nat option" where
  "use_id (Using i) = Some i"
| "use_id _ = None"

definition users :: "sems \<Rightarrow> nat \<Rightarrow> nat set" where
  "users k i = {p. use_id (pcs k p) = Some i}"

text \<open>A process seen from the set \<open>i\<close>: where it stands if it has to do with the set.\<close>

definition role :: "nat \<Rightarrow> pc \<Rightarrow> pc" where
  "role i c = (if lock_id c = Some i \<or> use_id c = Some i then c else Idle)"

definition hold :: "pc \<Rightarrow> bool" where "hold c \<longleftrightarrow> lock_id c \<noteq> None"
definition uses :: "pc \<Rightarrow> bool" where "uses c \<longleftrightarrow> use_id c \<noteq> None"
definition userset :: "(nat \<Rightarrow> pc) \<Rightarrow> nat set" where "userset r = {p. uses (r p)}"

text \<open>What a process relies on between its system calls: the value of the counter.\<close>

fun pc_ok :: "pc \<Rightarrow> int \<Rightarrow> bool" where
  "pc_ok (Set0 i) c \<longleftrightarrow> c = 0"
| "pc_ok (Set1 i) c \<longleftrightarrow> c = 0"
| "pc_ok (Ready i) c \<longleftrightarrow> c \<noteq> 0"
| "pc_ok (Using i) c \<longleftrightarrow> c \<noteq> 0"
| "pc_ok (Closing i) c \<longleftrightarrow> c \<noteq> 0"
| "pc_ok (Unlocking i) c \<longleftrightarrow> c \<noteq> 0"
| "pc_ok (Removing i) c \<longleftrightarrow> c = BIGCOUNT"
| "pc_ok _ c \<longleftrightarrow> True"

text \<open>
  The invariant of one set, given its values, the adjustments of the processes and their roles.
  The counter is not set yet, or it is short of its start value by the number of users.
\<close>

definition set_ok :: "nat \<Rightarrow> (nat \<Rightarrow> int) option \<Rightarrow> (nat \<Rightarrow> nat \<Rightarrow> int) \<Rightarrow> (nat \<Rightarrow> pc) \<Rightarrow> bool" where
  "set_ok N ov u r \<longleftrightarrow>
     (\<forall>p. r p \<noteq> Idle \<longrightarrow> p < N) \<and>
     (case ov of
        None \<Rightarrow> (\<forall>p. r p = Idle \<and> u p = (\<lambda>_. 0))
      | Some v \<Rightarrow>
          v 2 = (if \<exists>p. hold (r p) then 1 else 0) \<and> (\<forall>p q. hold (r p) \<longrightarrow> hold (r q) \<longrightarrow> p = q) \<and>
          (v 1 = BIGCOUNT - int (card (userset r)) \<or> v 1 = 0 \<and> userset r = {}) \<and>
          (\<forall>p. u p 1 = (if uses (r p) then 1 else 0) \<and> u p 2 = (if hold (r p) then -1 else 0)) \<and>
          (\<forall>p. pc_ok (r p) (v 1)))"

definition sem_inv :: "nat \<Rightarrow> sems \<Rightarrow> bool" where
  "sem_inv N k \<longleftrightarrow>
     (\<forall>i. set_ok N (sets k i) (\<lambda>p. undo k p i) (\<lambda>p. role i (pcs k p))) \<and>
     (\<forall>i. next_id k \<le> i \<longrightarrow> sets k i = None) \<and> (\<forall>i. key_id k = Some i \<longrightarrow> sets k i \<noteq> None)"

section \<open>Transitions of one set\<close>

lemma hold_simps [simp]:
  "hold (Locked i)" "hold (Set0 i)" "hold (Set1 i)" "hold (Ready i)" "hold (Closing i)" "hold (Removing i)"
  "hold (Unlocking i)" "\<not> hold Idle" "\<not> hold (Using i)" "\<not> uses Idle" "uses (Using i)"
  by (simp_all add: hold_def uses_def)

lemma hold_not_uses: "hold c \<Longrightarrow> \<not> uses c"
  by (cases c) (simp_all add: hold_def uses_def)

lemma userset_upd:
  "\<not> uses (r p) \<Longrightarrow> \<not> uses c \<Longrightarrow> userset (r(p := c)) = userset r"
  "uses c \<Longrightarrow> userset (r(p := c)) = insert p (userset r)"
  "uses (r p) \<Longrightarrow> \<not> uses c \<Longrightarrow> userset (r(p := c)) = userset r - {p}"
  by (auto simp: userset_def split: if_splits)

lemma in_userset: "p \<in> userset r \<longleftrightarrow> uses (r p)"
  by (simp add: userset_def)

lemma userset_finite:
  assumes "set_ok N ov u r"
  shows "finite (userset r)" "card (userset r) \<le> N"
proof -
  have "r p = Idle \<or> p < N" for p using assms by (auto simp: set_ok_def)
  then have s: "userset r \<subseteq> {..<N}" unfolding userset_def by (metis (mono_tags) hold_simps(10) lessThan_iff mem_Collect_eq subsetI)
  then show "finite (userset r)" by (rule finite_subset) simp
  show "card (userset r) \<le> N" using card_mono [OF _ s] by simp
qed

text \<open>A process that takes the lock: no other holds it.\<close>

lemma set_ok_lock:
  assumes "set_ok N (Some v) u r" "v 2 = 0" "\<not> uses (r p)" "p < N"
  shows "set_ok N (Some (v(2 := 1))) (u(p := (u p)(2 := u p 2 - 1))) (r(p := Locked i))"
proof -
  have "\<not> uses (Locked i)" by (rule hold_not_uses) simp
  then show ?thesis
    using assms by (auto simp: set_ok_def userset_upd split: if_split_asm)
qed

text \<open>A step of the lock's holder that leaves the counter and the lock as they are.\<close>

lemma set_ok_hold:
  assumes "set_ok N (Some v) u r" "hold (r p)" "hold c" "v' 1 = v 1" "v' 2 = v 2" "pc_ok c (v 1)"
    "\<And>q. u' q 1 = u q 1" "\<And>q. u' q 2 = u q 2"
  shows "set_ok N (Some v') u' (r(p := c))"
proof -
  have "userset (r(p := c)) = userset r" using assms(2,3) hold_not_uses by (intro userset_upd) blast+
  moreover have "r p \<noteq> Idle" using assms(2) by (auto simp: hold_def)
  ultimately show ?thesis using assms hold_not_uses by (auto simp: set_ok_def)
qed

lemma set_okD:
  assumes "set_ok N (Some v) u r"
  shows "v 2 = (if \<exists>p. hold (r p) then 1 else 0)" "hold (r p) \<Longrightarrow> hold (r q) \<Longrightarrow> p = q"
    "v 1 = BIGCOUNT - int (card (userset r)) \<or> v 1 = 0 \<and> userset r = {}"
    "u p 1 = (if uses (r p) then 1 else 0)" "u p 2 = (if hold (r p) then -1 else 0)" "pc_ok (r p) (v 1)"
    "r p \<noteq> Idle \<Longrightarrow> p < N"
  using assms by (simp_all add: set_ok_def)

lemma set_okI:
  assumes "v 2 = (if \<exists>p. hold (r p) then 1 else 0)" "\<And>p q. hold (r p) \<Longrightarrow> hold (r q) \<Longrightarrow> p = q"
    "v 1 = BIGCOUNT - int (card (userset r)) \<or> v 1 = 0 \<and> userset r = {}"
    "\<And>p. u p 1 = (if uses (r p) then 1 else 0)" "\<And>p. u p 2 = (if hold (r p) then -1 else 0)"
    "\<And>p. pc_ok (r p) (v 1)" "\<And>p. r p \<noteq> Idle \<Longrightarrow> p < N"
  shows "set_ok N (Some v) u r"
  using assms by (simp add: set_ok_def)

lemma lock_value:
  assumes "set_ok N (Some v) u r"
  shows "hold (r p) \<Longrightarrow> v 2 = 1" "v 2 = 0 \<Longrightarrow> \<not> hold (r p)"
  using set_okD(1) [OF assms] by (auto split: if_split_asm)

lemma pc_ok_other: "\<not> hold c \<Longrightarrow> \<not> uses c \<Longrightarrow> pc_ok c x"
  by (cases c) (simp_all add: hold_def uses_def)

lemma counter_pos:
  assumes "set_ok N (Some v) u r" "v 1 \<noteq> 0" "N < nat BIGCOUNT"
  shows "v 1 = BIGCOUNT - int (card (userset r))" "0 < v 1" "v 1 \<le> BIGCOUNT"
  using set_okD(3) [OF assms(1)] assms(2,3) userset_finite(2) [OF assms(1)] by auto

text \<open>The counter gets its start value: there are no users yet.\<close>

lemma set_ok_start:
  assumes ok: "set_ok N (Some v) u r" and p: "r p = Set1 i" and "N < nat BIGCOUNT"
  shows "set_ok N (Some (v(1 := BIGCOUNT))) (\<lambda>q. (u q)(1 := 0)) (r(p := Ready i))"
proof -
  note d = set_okD [OF ok]
  have z: "v 1 = 0" using d(6) [of p] p by simp
  moreover have "card (userset r) < nat BIGCOUNT" using userset_finite(2) [OF ok] assms(3) by simp
  ultimately have e: "userset r = {}" using d(3) by auto
  then have nu: "\<not> uses (r q)" for q by (metis in_userset empty_iff)
  have nr: "\<not> uses (Ready i)" by (rule hold_not_uses) simp
  have e': "userset (r(p := Ready i)) = {}" using e nu nr by (simp add: userset_upd)
  have nh: "\<not> hold (r q)" if "q \<noteq> p" for q using d(2) [of p q] p that by auto
  show ?thesis
  proof (rule set_okI)
    show "(v(1 := BIGCOUNT)) 2 = (if \<exists>q. hold ((r(p := Ready i)) q) then 1 else 0)"
      using lock_value(1) [OF ok, of p] p by auto
    show "pc_ok ((r(p := Ready i)) q) ((v(1 := BIGCOUNT)) 1)" for q
      using nh nu pc_ok_other by (simp add: BIGCOUNT_def)
  qed (use nh nu nr e' d(5) d(7) [of p] p d(7) in \<open>auto split: if_splits\<close>)
qed

text \<open>The holder becomes a user and gives up the lock.\<close>

lemma set_ok_use:
  assumes ok: "set_ok N (Some v) u r" and p: "r p = Ready i" and N: "N < nat BIGCOUNT"
  shows "set_ok N (Some (v(1 := v 1 - 1, 2 := v 2 - 1))) (u(p := (u p)(1 := u p 1 + 1, 2 := u p 2 + 1))) (r(p := Using i))"
proof -
  note d = set_okD [OF ok]
  have nz: "v 1 \<noteq> 0" using d(6) [of p] p by simp
  note c = counter_pos [OF ok nz N]
  have nu: "\<not> uses (r p)" using hold_not_uses [of "r p"] p by simp
  have us: "userset (r(p := Using i)) = insert p (userset r)" by (simp add: userset_upd)
  have cd: "card (insert p (userset r)) = Suc (card (userset r))"
    using userset_finite(1) [OF ok] nu by (simp add: in_userset)
  have nh: "\<not> hold (r q)" if "q \<noteq> p" for q using d(2) [of p q] p that by auto
  have "p < N" using d(7) [of p] p by simp
  have "insert p (userset r) \<subseteq> {..<N}"
    using d(7) \<open>p < N\<close> by (auto simp: in_userset) (metis hold_simps(10))
  then have "Suc (card (userset r)) \<le> N" using card_mono [of "{..<N}" "insert p (userset r)"] cd by simp
  then have lt: "int (Suc (card (userset r))) < BIGCOUNT" using N by linarith
  show ?thesis
  proof (rule set_okI)
    show "pc_ok ((r(p := Using i)) q) ((v(1 := v 1 - 1, 2 := v 2 - 1)) 1)" for q
      using nh [of q] pc_ok_other [of "r q"] c lt by (cases "r q") auto
    show "(v(1 := v 1 - 1, 2 := v 2 - 1)) 2 = (if \<exists>q. hold ((r(p := Using i)) q) then 1 else 0)"
      using lock_value(1) [OF ok, of p] p nh by auto
  qed (use nh nu us cd c d(4,5) d(7) p \<open>p < N\<close> in \<open>auto split: if_splits\<close>)
qed

text \<open>A user takes the lock to close.\<close>

lemma set_ok_closing:
  assumes ok: "set_ok N (Some v) u r" and p: "r p = Using i" and l: "v 2 = 0" and N: "N < nat BIGCOUNT"
  shows "set_ok N (Some (v(2 := 1, 1 := v 1 + 1))) (u(p := (u p)(2 := u p 2 - 1, 1 := u p 1 - 1))) (r(p := Closing i))"
proof -
  note d = set_okD [OF ok]
  have nz: "v 1 \<noteq> 0" using d(6) [of p] p by simp
  note c = counter_pos [OF ok nz N]
  have nc: "\<not> uses (Closing i)" by (rule hold_not_uses) simp
  have us: "userset (r(p := Closing i)) = userset r - {p}" using p nc by (simp add: userset_upd)
  have pin: "p \<in> userset r" using p by (simp add: in_userset)
  have cd: "int (card (userset r - {p})) = int (card (userset r)) - 1"
    using userset_finite(1) [OF ok] pin by (simp add: card_Diff_singleton card_gt_0_iff of_nat_diff Suc_le_eq)
       (metis One_nat_def Suc_leI card_gt_0_iff empty_iff int_ops(2) of_nat_diff)
  have nh: "\<not> hold (r q)" for q using lock_value(2) [OF ok l] .
  have pn: "p < N" using d(7) [of p] p by simp
  show ?thesis
  proof (rule set_okI)
    show "pc_ok ((r(p := Closing i)) q) ((v(2 := 1, 1 := v 1 + 1)) 1)" for q
      using nh [of q] pc_ok_other [of "r q"] c by (cases "r q") auto
  qed (use nh nc us cd c d(4,5) d(7) p pn in \<open>auto split: if_splits\<close>)
qed

text \<open>The holder gives up the lock.\<close>

lemma set_ok_unlock:
  assumes ok: "set_ok N (Some v) u r" and p: "hold (r p)"
  shows "set_ok N (Some (v(2 := v 2 - 1))) (u(p := (u p)(2 := u p 2 + 1))) (r(p := Idle))"
proof -
  note d = set_okD [OF ok]
  have us: "userset (r(p := Idle)) = userset r" using hold_not_uses [OF p] by (simp add: userset_upd)
  have nh: "\<not> hold (r q)" if "q \<noteq> p" for q using d(2) [of p q] p that by auto
  show ?thesis
    by (rule set_okI) (use nh us lock_value(1) [OF ok p] d(3-7) hold_not_uses [OF p] p in \<open>auto split: if_splits\<close>)
qed

text \<open>When a process is about to remove the set, no other has to do with it.\<close>

lemma set_ok_removing:
  assumes ok: "set_ok N (Some v) u r" and p: "r p = Removing i" and N: "N < nat BIGCOUNT"
  shows "v 1 = BIGCOUNT" "userset r = {}" "q \<noteq> p \<Longrightarrow> \<not> hold (r q)"
proof -
  note d = set_okD [OF ok]
  show b: "v 1 = BIGCOUNT" using d(6) [of p] p by simp
  then have nz: "v 1 \<noteq> 0" by (simp add: BIGCOUNT_def)
  show "userset r = {}" using counter_pos(1) [OF ok nz N] b userset_finite(1) [OF ok] by simp
  show "q \<noteq> p \<Longrightarrow> \<not> hold (r q)" using d(2) [of p q] p by auto
qed

text \<open>The end of a process: what it held or used is released.\<close>

lemma set_ok_exit:
  assumes ok: "set_ok N (Some v) u r" and N: "N < nat BIGCOUNT"
  shows "set_ok N (Some (\<lambda>n. max 0 (v n + u p n))) (u(p := (\<lambda>_. 0))) (r(p := Idle))"
proof -
  note d = set_okD [OF ok]
  have v1: "0 \<le> v 1" using d(3) N userset_finite(2) [OF ok] by linarith
  have v2: "0 \<le> v 2" using d(1) by simp
  consider (hold) "hold (r p)" "\<not> uses (r p)" | (use) "uses (r p)" "\<not> hold (r p)" | (none) "\<not> hold (r p)" "\<not> uses (r p)"
    using hold_not_uses by blast
  then show ?thesis
  proof cases
    case hold
    have us: "userset (r(p := Idle)) = userset r" using hold by (simp add: userset_upd)
    have nh: "\<not> hold (r q)" if "q \<noteq> p" for q using d(2) [of p q] hold that by auto
    show ?thesis
      by (rule set_okI) (use nh us lock_value(1) [OF ok hold(1)] d(3-7) v1 hold in \<open>auto split: if_splits\<close>)
  next
    case use
    have us: "userset (r(p := Idle)) = userset r - {p}" using use by (simp add: userset_upd)
    have pin: "p \<in> userset r" using use by (simp add: in_userset)
    then have c: "v 1 = BIGCOUNT - int (card (userset r))" using d(3) by auto
    have cd: "card (userset r) = Suc (card (userset r - {p}))" using userset_finite(1) [OF ok] pin by (metis card_Suc_Diff1)
    have "v 1 \<noteq> BIGCOUNT" using c cd by simp
    moreover have "v 1 \<noteq> 0" using d(6) [of p] use by (cases "r p") (simp_all add: uses_def)
    ultimately have pcs: "pc_ok (r q) (v 1 + 1)" for q using d(6) [of q] v1 by (cases "r q") auto
    have l: "(if \<exists>q. hold ((r(p := Idle)) q) then 1 else 0) = v 2" using d(1) use by auto
    show ?thesis
      by (rule set_okI) (use us c cd pcs v1 v2 d(2,4,5,7) use l in \<open>auto split: if_splits\<close>)
  next
    case none
    have us: "userset (r(p := Idle)) = userset r" using none by (simp add: userset_upd)
    have l: "(if \<exists>q. hold ((r(p := Idle)) q) then 1 else 0) = v 2" using d(1) none by auto
    show ?thesis
      by (rule set_okI) (use us v1 v2 d(2-7) none l in \<open>auto split: if_splits\<close>)
  qed
qed

section \<open>The steps keep the invariant\<close>

text \<open>A step that concerns one set: the others see nothing of it.\<close>

definition about :: "nat \<Rightarrow> pc \<Rightarrow> bool" where
  "about i c \<longleftrightarrow> (\<forall>j. lock_id c = Some j \<or> use_id c = Some j \<longrightarrow> j = i)"

lemma sem_inv_upd:
  assumes inv: "sem_inv N k" and s: "sets k' = (sets k)(i := ov)" and u: "\<And>q j. j \<noteq> i \<Longrightarrow> undo k' q j = undo k q j"
    and pc: "pcs k' = (pcs k)(p := c)" and ab: "about i c" "about i (pcs k p)"
    and ok: "set_ok N ov (\<lambda>q. undo k' q i) ((\<lambda>q. role i (pcs k q))(p := role i c))"
    and n: "next_id k' = next_id k" "next_id k \<le> i \<Longrightarrow> ov = None" and key: "\<And>j. key_id k' = Some j \<Longrightarrow> sets k' j \<noteq> None"
  shows "sem_inv N k'"
proof -
  have "set_ok N (sets k' j) (\<lambda>q. undo k' q j) (\<lambda>q. role j (pcs k' q))" for j
  proof (cases "j = i")
    case True
    have "(\<lambda>q. role i (pcs k' q)) = (\<lambda>q. role i (pcs k q))(p := role i c)" by (auto simp: pc)
    then show ?thesis using True s ok by simp
  next
    case False
    then have "role j c = role j (pcs k p)" using ab by (auto simp: role_def about_def)
    then have "(\<lambda>q. role j (pcs k' q)) = (\<lambda>q. role j (pcs k q))" by (auto simp: pc)
    then show ?thesis using inv False s u by (simp add: sem_inv_def)
  qed
  moreover have "sets k' j = None" if "next_id k' \<le> j" for j using inv that s n by (auto simp: sem_inv_def)
  ultimately show ?thesis using key by (simp add: sem_inv_def)
qed

lemma about_simps [simp]:
  "about i Idle" "about i Get" "about i (Have j)" "about i Returned_error" "about i Exited" "about i (Opening j)"
  "about i (Locked i)" "about i (Set0 i)" "about i (Set1 i)" "about i (Ready i)" "about i (Using i)" "about i (Closing i)"
  "about i (Removing i)" "about i (Unlocking i)"
  by (simp_all add: about_def)

lemma role_simps [simp]:
  "role i Idle = Idle" "role i Get = Idle" "role i (Have j) = Idle" "role i Returned_error = Idle" "role i Exited = Idle"
  "role i (Opening j) = Idle"
  "role i (Locked i) = Locked i" "role i (Set0 i) = Set0 i" "role i (Set1 i) = Set1 i" "role i (Ready i) = Ready i"
  "role i (Using i) = Using i" "role i (Closing i) = Closing i" "role i (Removing i) = Removing i"
  "role i (Unlocking i) = Unlocking i"
  by (simp_all add: role_def)

lemma role_uses: "uses (role i c) \<longleftrightarrow> use_id c = Some i"
  by (cases c) (auto simp: role_def uses_def)

lemma sem_invD:
  assumes "sem_inv N k"
  shows "set_ok N (sets k i) (\<lambda>q. undo k q i) (\<lambda>q. role i (pcs k q))" "key_id k = Some i \<Longrightarrow> sets k i \<noteq> None"
    "sets k i = Some v \<Longrightarrow> i < next_id k"
proof -
  show "set_ok N (sets k i) (\<lambda>q. undo k q i) (\<lambda>q. role i (pcs k q))" "key_id k = Some i \<Longrightarrow> sets k i \<noteq> None"
    using assms by (auto simp: sem_inv_def)
  show "sets k i = Some v \<Longrightarrow> i < next_id k" using assms by (metis sem_inv_def not_le option.simps(3))
qed

text \<open>A process that stands at a set finds it.\<close>

lemma set_found:
  assumes "sem_inv N k" "lock_id (pcs k p) = Some i \<or> use_id (pcs k p) = Some i"
  shows "\<exists>v. sets k i = Some v" "p < N"
proof -
  have r: "role i (pcs k p) \<noteq> Idle" using assms(2) by (auto simp: role_def)
  show "\<exists>v. sets k i = Some v" using sem_invD(1) [OF assms(1), of i] r by (cases "sets k i") (auto simp: set_ok_def)
  show "p < N" using sem_invD(1) [OF assms(1), of i] r by (auto simp: set_ok_def)
qed

text \<open>Moving a process from one place outside the sets to another.\<close>

lemma goto_outside:
  assumes inv: "sem_inv N k" and "role i (pcs k p) = Idle" "role i c = Idle" "about i c" "about i (pcs k p)"
  shows "sem_inv N (goto p c k)"
proof (rule sem_inv_upd [OF inv, of _ i "sets k i" p c])
  have "(\<lambda>q. role i (pcs k q))(p := role i c) = (\<lambda>q. role i (pcs k q))" using assms(2,3) by auto
  then show "set_ok N (sets k i) (\<lambda>q. undo (goto p c k) q i) ((\<lambda>q. role i (pcs k q))(p := role i c))"
    using sem_invD(1) [OF inv, of i] by (simp add: goto_def)
qed (use assms sem_invD(2,3) [OF inv] in \<open>auto simp: goto_def sem_inv_def\<close>)

text \<open>A change of the values of a set together with a move of the process.\<close>

lemma move_inv:
  assumes inv: "sem_inv N k" and v: "sets k i = Some v" and ab: "about i c" "about i (pcs k p)"
    and ok: "set_ok N (Some v') (u' :: nat \<Rightarrow> nat \<Rightarrow> int) ((\<lambda>q. role i (pcs k q))(p := role i c))"
    and k': "sets k' = (sets k)(i \<mapsto> v')" "\<And>q. undo k' q i = u' q" "\<And>q j. j \<noteq> i \<Longrightarrow> undo k' q j = undo k q j"
      "pcs k' = (pcs k)(p := c)" "next_id k' = next_id k" "key_id k' = key_id k"
  shows "sem_inv N k'"
proof (rule sem_inv_upd [OF inv k'(1,3,4) ab _ k'(5)])
  show "set_ok N (Some v') (\<lambda>q. undo k' q i) ((\<lambda>q. role i (pcs k q))(p := role i c))" using ok k'(2) by simp
  show "next_id k \<le> i \<Longrightarrow> Some v' = None" using sem_invD(3) [OF inv v] by simp
  show "key_id k' = Some j \<Longrightarrow> sets k' j \<noteq> None" for j using sem_invD(2) [OF inv] k'(1,6) by auto
qed simp_all

lemma exit_inv:
  assumes inv: "sem_inv N k" and N: "N < nat BIGCOUNT"
  shows "sem_inv N (proc_exit p k)"
proof -
  let ?k = "proc_exit p k"
  have r: "(\<lambda>q. role i (pcs ?k q)) = (\<lambda>q. role i (pcs k q))(p := Idle)" for i
    by (auto simp: proc_exit_def goto_def)
  have u: "(\<lambda>q. undo ?k q i) = (\<lambda>q. undo k q i)(p := (\<lambda>_. 0))" for i
    by (auto simp: proc_exit_def goto_def)
  have "set_ok N (sets ?k i) (\<lambda>q. undo ?k q i) (\<lambda>q. role i (pcs ?k q))" for i
  proof (cases "sets k i")
    case None
    then show ?thesis using sem_invD(1) [OF inv, of i] unfolding r u
      by (auto simp: set_ok_def proc_exit_def goto_def)
  next
    case (Some v)
    then have "set_ok N (Some v) (\<lambda>q. undo k q i) (\<lambda>q. role i (pcs k q))" using sem_invD(1) [OF inv, of i] by simp
    from set_ok_exit [OF this N, of p] Some show ?thesis unfolding r u by (simp add: proc_exit_def goto_def)
  qed
  then show ?thesis using inv by (auto simp: sem_inv_def proc_exit_def goto_def)
qed

lemma create_inv:
  assumes inv: "sem_inv N k" and p: "p < N" and N: "N < nat BIGCOUNT" and st: "sem_create key initval p k = Some k'"
  shows "sem_inv N k'"
proof (cases "pcs k p")
  case Idle
  then show ?thesis using goto_outside [OF inv, of undefined p] st by (auto simp: sem_create_def)
next
  case Get
  show ?thesis
  proof (cases "key_id k")
    case None
    let ?i = "next_id k"
    have "sets k ?i = None" using inv by (simp add: sem_inv_def)
    then have "set_ok N (Some (\<lambda>_. 0)) (\<lambda>q. undo k q ?i) (\<lambda>q. role ?i (pcs k q))"
      using sem_invD(1) [OF inv, of ?i] by (auto simp: set_ok_def userset_def)
    moreover have "(\<lambda>q. role j (((pcs k)(p := Have ?i)) q)) = (\<lambda>q. role j (pcs k q))" for j using Get by auto
    moreover have "k' = k\<lparr>sets := (sets k)(?i \<mapsto> (\<lambda>_. 0)), key_id := Some ?i, next_id := Suc ?i, pcs := (pcs k)(p := Have ?i)\<rparr>"
      using st Get None by (simp add: sem_create_def semget_create_def goto_def)
    ultimately show ?thesis using inv by (auto simp: sem_inv_def)
  next
    case (Some i)
    then show ?thesis using goto_outside [OF inv, of i p "Have i"] st Get by (auto simp: sem_create_def semget_create_def)
  qed
next
  case (Have i)
  show ?thesis
  proof (cases "sets k i")
    case None
    then show ?thesis using goto_outside [OF inv, of i p Get] st Have by (auto simp: sem_create_def semop_def)
  next
    case (Some v)
    have ok: "set_ok N (Some v) (\<lambda>q. undo k q i) (\<lambda>q. role i (pcs k q))" using sem_invD(1) [OF inv, of i] Some by simp
    from st Have Some have l: "v 2 = 0" and
      k': "k' = k\<lparr>sets := (sets k)(i \<mapsto> v(2 := 1)), undo := (undo k)(p := (undo k p)(i := (undo k p i)(2 := undo k p i 2 - 1))),
        pcs := (pcs k)(p := Locked i)\<rparr>"
      by (auto simp: sem_create_def semop_def op_lock_def goto_def split: if_split_asm)
    show ?thesis
      by (rule move_inv [OF inv Some, of "Locked i" p "v(2 := 1)" "(\<lambda>q. undo k q i)(p := (undo k p i)(2 := undo k p i 2 - 1))"])
         (use set_ok_lock [OF ok l _ p, of i] Have in \<open>auto simp: k'\<close>)
  qed
next
  case (Locked i)
  from set_found(1) [OF inv, of p i] Locked obtain v where v: "sets k i = Some v" by auto
  have ok: "set_ok N (Some v) (\<lambda>q. undo k q i) (\<lambda>q. role i (pcs k q))" using sem_invD(1) [OF inv, of i] v by simp
  let ?c = "if v 1 = 0 then Set0 i else Ready i"
  have k': "k' = goto p ?c k" using st Locked v by (simp add: sem_create_def)
  show ?thesis
    by (rule move_inv [OF inv v, of ?c p v "\<lambda>q. undo k q i"])
       (use set_ok_hold [OF ok, of p ?c v "\<lambda>q. undo k q i"] Locked v in \<open>auto simp: k' goto_def\<close>)
next
  case (Set0 i)
  from set_found(1) [OF inv, of p i] Set0 obtain v where v: "sets k i = Some v" by auto
  have ok: "set_ok N (Some v) (\<lambda>q. undo k q i) (\<lambda>q. role i (pcs k q))" using sem_invD(1) [OF inv, of i] v by simp
  have z: "v 1 = 0" using set_okD(6) [OF ok, of p] Set0 by simp
  show ?thesis
  proof (cases "initval < 0")
    case True
    then show ?thesis using st Set0 v exit_inv [OF inv N] by (auto simp: sem_create_def setval_def)
  next
    case False
    let ?u = "\<lambda>q. (undo k q i)(0 := 0)"
    have k': "k' = k\<lparr>sets := (sets k)(i \<mapsto> v(0 := initval)), undo := (\<lambda>q. (undo k q)(i := ?u q)), pcs := (pcs k)(p := Set1 i)\<rparr>"
      using st Set0 v False by (simp add: sem_create_def setval_def goto_def)
    show ?thesis
      by (rule move_inv [OF inv v, of "Set1 i" p "v(0 := initval)" ?u])
         (use set_ok_hold [OF ok, of p "Set1 i" "v(0 := initval)" ?u] Set0 z in \<open>auto simp: k'\<close>)
  qed
next
  case (Set1 i)
  from set_found(1) [OF inv, of p i] Set1 obtain v where v: "sets k i = Some v" by auto
  have ok: "set_ok N (Some v) (\<lambda>q. undo k q i) (\<lambda>q. role i (pcs k q))" using sem_invD(1) [OF inv, of i] v by simp
  let ?u = "\<lambda>q. (undo k q i)(1 := 0)"
  have k': "k' = k\<lparr>sets := (sets k)(i \<mapsto> v(1 := BIGCOUNT)), undo := (\<lambda>q. (undo k q)(i := ?u q)), pcs := (pcs k)(p := Ready i)\<rparr>"
    using st Set1 v by (simp add: sem_create_def setval_def goto_def BIGCOUNT_def)
  show ?thesis
    by (rule move_inv [OF inv v, of "Ready i" p "v(1 := BIGCOUNT)" ?u])
       (use set_ok_start [OF ok, of p i] Set1 N in \<open>auto simp: k'\<close>)
next
  case (Ready i)
  from set_found(1) [OF inv, of p i] Ready obtain v where v: "sets k i = Some v" by auto
  have ok: "set_ok N (Some v) (\<lambda>q. undo k q i) (\<lambda>q. role i (pcs k q))" using sem_invD(1) [OF inv, of i] v by simp
  let ?u = "(\<lambda>q. undo k q i)(p := (undo k p i)(1 := undo k p i 1 + 1, 2 := undo k p i 2 + 1))"
  have k': "k' = k\<lparr>sets := (sets k)(i \<mapsto> v(1 := v 1 - 1, 2 := v 2 - 1)), undo := (undo k)(p := (undo k p)(i := ?u p)),
      pcs := (pcs k)(p := Using i)\<rparr>"
    using st Ready v by (auto simp: sem_create_def semop_def op_endcreate_def goto_def split: if_split_asm)
  show ?thesis
    by (rule move_inv [OF inv v, of "Using i" p "v(1 := v 1 - 1, 2 := v 2 - 1)" ?u])
       (use set_ok_use [OF ok, of p i] Ready N in \<open>auto simp: k'\<close>)
qed (use st in \<open>simp_all add: sem_create_def\<close>)

lemma op_inv:
  assumes inv: "sem_inv N k" and N: "N < nat BIGCOUNT" and st: "sem_op n p k = Some k'"
  shows "sem_inv N k'"
proof -
  from st obtain i where u: "pcs k p = Using i" by (auto simp: sem_op_def split: pc.splits)
  from set_found(1) [OF inv, of p i] u obtain v where v: "sets k i = Some v" by auto
  have ok: "set_ok N (Some v) (\<lambda>q. undo k q i) (\<lambda>q. role i (pcs k q))" using sem_invD(1) [OF inv, of i] v by simp
  show ?thesis
  proof (cases "wrap16 n = 0")
    case True
    then show ?thesis using st u exit_inv [OF inv N] by (auto simp: sem_op_def)
  next
    case False
    let ?v = "v(0 := v 0 + wrap16 n)" and ?u = "(\<lambda>q. undo k q i)(p := (undo k p i)(0 := undo k p i 0 - wrap16 n))"
    have k': "k' = k\<lparr>sets := (sets k)(i \<mapsto> ?v), undo := (undo k)(p := (undo k p)(i := ?u p))\<rparr>"
      using st u v False by (auto simp: sem_op_def semop_def op_op_def split: if_split_asm)
    have "set_ok N (Some ?v) ?u (\<lambda>q. role i (pcs k q))" using ok by (auto simp: set_ok_def)
    moreover have "(\<lambda>q. role i (pcs k q))(p := role i (pcs k p)) = (\<lambda>q. role i (pcs k q))" by auto
    ultimately show ?thesis
      by (intro move_inv [OF inv v, of "pcs k p" p ?v ?u]) (use u in \<open>auto simp: k'\<close>)
  qed
qed

lemma close_inv:
  assumes inv: "sem_inv N k" and N: "N < nat BIGCOUNT" and st: "sem_close p k = Some k'"
  shows "sem_inv N k'"
proof (cases "pcs k p")
  case (Using i)
  from set_found(1) [OF inv, of p i] Using obtain v where v: "sets k i = Some v" by auto
  have ok: "set_ok N (Some v) (\<lambda>q. undo k q i) (\<lambda>q. role i (pcs k q))" using sem_invD(1) [OF inv, of i] v by simp
  let ?u = "(\<lambda>q. undo k q i)(p := (undo k p i)(2 := undo k p i 2 - 1, 1 := undo k p i 1 - 1))"
  have l: "v 2 = 0" and k': "k' = k\<lparr>sets := (sets k)(i \<mapsto> v(2 := 1, 1 := v 1 + 1)),
      undo := (undo k)(p := (undo k p)(i := ?u p)), pcs := (pcs k)(p := Closing i)\<rparr>"
    using st Using v by (auto simp: sem_close_def semop_def op_close_def goto_def split: if_split_asm)
  show ?thesis
    by (rule move_inv [OF inv v, of "Closing i" p "v(2 := 1, 1 := v 1 + 1)" ?u])
       (use set_ok_closing [OF ok, of p i] Using l N in \<open>auto simp: k'\<close>)
next
  case (Closing i)
  from set_found(1) [OF inv, of p i] Closing obtain v where v: "sets k i = Some v" by auto
  have ok: "set_ok N (Some v) (\<lambda>q. undo k q i) (\<lambda>q. role i (pcs k q))" using sem_invD(1) [OF inv, of i] v by simp
  have nz: "v 1 \<noteq> 0" using set_okD(6) [OF ok, of p] Closing by simp
  let ?c = "if v 1 = BIGCOUNT then Removing i else Unlocking i"
  have k': "k' = goto p ?c k" using st Closing v counter_pos(3) [OF ok nz N] by (simp add: sem_close_def)
  show ?thesis
    by (rule move_inv [OF inv v, of ?c p v "\<lambda>q. undo k q i"])
       (use set_ok_hold [OF ok, of p ?c v "\<lambda>q. undo k q i"] Closing v nz in \<open>auto simp: k' goto_def\<close>)
next
  case (Removing i)
  from set_found(1) [OF inv, of p i] Removing obtain v where v: "sets k i = Some v" by auto
  have ok: "set_ok N (Some v) (\<lambda>q. undo k q i) (\<lambda>q. role i (pcs k q))" using sem_invD(1) [OF inv, of i] v by simp
  note e = set_ok_removing [OF ok _ N, of p i]
  have r: "role i (pcs k q) = Idle" if "q \<noteq> p" for q
    using e(2) e(3) [of q] Removing that in_userset [of q "\<lambda>q. role i (pcs k q)"]
    by (auto simp: role_def hold_def uses_def split: if_split_asm)
  have k': "k' = goto p Idle (ipc_rmid i k)" using st Removing v by (simp add: sem_close_def sem_rm_def)
  show ?thesis
  proof (rule sem_inv_upd [OF inv, of _ i None p Idle])
    show "set_ok N None (\<lambda>q. undo k' q i) ((\<lambda>q. role i (pcs k q))(p := role i Idle))"
      using r by (auto simp: set_ok_def k' goto_def ipc_rmid_def)
    show "key_id k' = Some j \<Longrightarrow> sets k' j \<noteq> None" for j
      using sem_invD(2) [OF inv] by (auto simp: k' goto_def ipc_rmid_def split: if_split_asm)
  qed (use Removing in \<open>auto simp: k' goto_def ipc_rmid_def\<close>)
next
  case (Unlocking i)
  from set_found(1) [OF inv, of p i] Unlocking obtain v where v: "sets k i = Some v" by auto
  have ok: "set_ok N (Some v) (\<lambda>q. undo k q i) (\<lambda>q. role i (pcs k q))" using sem_invD(1) [OF inv, of i] v by simp
  let ?u = "(\<lambda>q. undo k q i)(p := (undo k p i)(2 := undo k p i 2 + 1))"
  have k': "k' = k\<lparr>sets := (sets k)(i \<mapsto> v(2 := v 2 - 1)), undo := (undo k)(p := (undo k p)(i := ?u p)), pcs := (pcs k)(p := Idle)\<rparr>"
    using st Unlocking v by (auto simp: sem_close_def semop_def op_unlock_def goto_def split: if_split_asm)
  show ?thesis
    by (rule move_inv [OF inv v, of Idle p "v(2 := v 2 - 1)" ?u])
       (use set_ok_unlock [OF ok, of p] Unlocking in \<open>auto simp: k'\<close>)
qed (use st in \<open>simp_all add: sem_close_def\<close>)

lemma step_inv: "sem_step N k k' \<Longrightarrow> sem_inv N k \<Longrightarrow> N < nat BIGCOUNT \<Longrightarrow> sem_inv N k'"
  by (induction rule: sem_step.induct) (auto intro: create_inv op_inv close_inv exit_inv)

lemma steps_inv: "(sem_step N)\<^sup>*\<^sup>* k k' \<Longrightarrow> sem_inv N k \<Longrightarrow> N < nat BIGCOUNT \<Longrightarrow> sem_inv N k'"
  by (induction rule: rtranclp_induct) (auto intro: step_inv)

definition no_sems :: sems where
  "no_sems = \<lparr>sets = Map.empty, key_id = None, next_id = 0, undo = (\<lambda>_ _ _. 0), pcs = (\<lambda>_. Idle)\<rparr>"

lemma no_sems_inv: "sem_inv N no_sems"
  by (simp add: sem_inv_def no_sems_def set_ok_def)

section \<open>Properties\<close>

text \<open>
  C7. As long as all processes enter by \<open>sem_create\<close> and there are fewer than \<open>BIGCOUNT\<close> of them, the
  protocol is safe in every interleaving, processes that end without closing included: the set
  a process uses exists, its counter is short of \<open>BIGCOUNT\<close> by exactly the number of users, and at most
  one process is in a section protected by the lock.
\<close>

theorem sem_protocol_safe:
  assumes "(sem_step N)\<^sup>*\<^sup>* no_sems k" "N < nat BIGCOUNT"
  shows "(\<forall>p i. pcs k p = Using i \<longrightarrow> (\<exists>v. sets k i = Some v \<and> v 1 = BIGCOUNT - int (card (users k i)))) \<and>
    (\<forall>p q i. lock_id (pcs k p) = Some i \<and> lock_id (pcs k q) = Some i \<longrightarrow> p = q)"
proof -
  have inv: "sem_inv N k" using steps_inv [OF assms(1) no_sems_inv assms(2)] .
  have us: "userset (\<lambda>q. role i (pcs k q)) = users k i" for i
    by (simp add: userset_def users_def role_uses)
  have "\<exists>v. sets k i = Some v \<and> v 1 = BIGCOUNT - int (card (users k i))" if p: "pcs k p = Using i" for p i
  proof -
    from set_found(1) [OF inv, of p i] p obtain v where v: "sets k i = Some v" by auto
    have ok: "set_ok N (Some v) (\<lambda>q. undo k q i) (\<lambda>q. role i (pcs k q))" using sem_invD(1) [OF inv, of i] v by simp
    have "v 1 \<noteq> 0" using set_okD(6) [OF ok, of p] p by simp
    from counter_pos(1) [OF ok this assms(2)] v us show ?thesis by simp
  qed
  moreover have "p = q" if l: "lock_id (pcs k p) = Some i" "lock_id (pcs k q) = Some i" for p q i
  proof -
    from set_found(1) [OF inv, of p i] l obtain v where v: "sets k i = Some v" by auto
    have ok: "set_ok N (Some v) (\<lambda>q. undo k q i) (\<lambda>q. role i (pcs k q))" using sem_invD(1) [OF inv, of i] v by simp
    show ?thesis by (rule set_okD(2) [OF ok]) (use l in \<open>simp_all add: role_def hold_def\<close>)
  qed
  ultimately show ?thesis by blast
qed

text \<open>Schedules: which process makes the next system call of which routine.\<close>

datatype call = Create | Open | Close

definition perform :: "call \<Rightarrow> nat \<Rightarrow> sems \<Rightarrow> sems option" where
  "perform c p k = (case c of Create \<Rightarrow> sem_create 1 5 p k | Open \<Rightarrow> sem_open 1 p k | Close \<Rightarrow> sem_close p k)"

fun schedule :: "(nat \<times> call) list \<Rightarrow> sems \<Rightarrow> sems option" where
  "schedule [] k = Some k"
| "schedule ((p, c) # cs) k = (case perform c p k of None \<Rightarrow> None | Some k \<Rightarrow> schedule cs k)"

text \<open>The same processes, with \<open>sem_open\<close> as a second way in.\<close>

inductive sem_step_open :: "nat \<Rightarrow> sems \<Rightarrow> sems \<Rightarrow> bool" for N where
  base: "sem_step N k k' \<Longrightarrow> sem_step_open N k k'"
| enter: "p < N \<Longrightarrow> sem_open key p k = Some k' \<Longrightarrow> sem_step_open N k k'"

lemma schedule_steps:
  "schedule cs k = Some k' \<Longrightarrow> \<forall>(p, c) \<in> set cs. p < N \<Longrightarrow> (sem_step_open N)\<^sup>*\<^sup>* k k'"
proof (induction cs k rule: schedule.induct)
  case (2 p c cs k)
  then obtain k1 where k1: "perform c p k = Some k1" "schedule cs k1 = Some k'" by (auto split: option.splits)
  have "sem_step_open N k k1"
    using k1(1) "2.prems"(2) by (cases c) (auto simp: perform_def intro: sem_step_open.intros sem_step.intros)
  moreover have "(sem_step_open N)\<^sup>*\<^sup>* k1 k'" using "2.IH" [OF k1] "2.prems"(2) by simp
  ultimately show ?case by (rule converse_rtranclp_into_rtranclp)
qed simp

lemma schedule_base_steps:
  "schedule cs k = Some k' \<Longrightarrow> \<forall>(p, c) \<in> set cs. p < N \<and> c \<noteq> Open \<Longrightarrow> (sem_step N)\<^sup>*\<^sup>* k k'"
proof (induction cs k rule: schedule.induct)
  case (2 p c cs k)
  then obtain k1 where k1: "perform c p k = Some k1" "schedule cs k1 = Some k'" by (auto split: option.splits)
  have "sem_step N k k1"
    using k1(1) "2.prems"(2) by (cases c) (auto simp: perform_def intro: sem_step.intros)
  moreover have "(sem_step N)\<^sup>*\<^sup>* k1 k'" using "2.IH" [OF k1] "2.prems"(2) by simp
  ultimately show ?case by (rule converse_rtranclp_into_rtranclp)
qed simp

theorem sem_protocol_safe_witness:
  "\<exists>k v. (sem_step 2)\<^sup>*\<^sup>* no_sems k \<and> pcs k 0 = Using 0 \<and> sets k 0 = Some v \<and> v 1 = BIGCOUNT - int (card (users k 0))"
proof -
  let ?cs = "replicate 7 (0, Create)"
  have "map_option (\<lambda>k. pcs k 0) (schedule ?cs no_sems) = Some (Using 0)" by code_simp
  then obtain k where k: "schedule ?cs no_sems = Some k" "pcs k 0 = Using 0" by auto
  have st: "(sem_step 2)\<^sup>*\<^sup>* no_sems k" by (rule schedule_base_steps [OF k(1)]) auto
  have "2 < nat BIGCOUNT" by (simp add: BIGCOUNT_def)
  from sem_protocol_safe [OF st this] k(2) st show ?thesis by blast
qed

text \<open>
  \<open>sem_open\<close> breaks the protocol, although its comment says that it needs no lock: when it
  decrements the counter between the test and the removal in a concurrent \<open>sem_close\<close>, the process
  is left using a semaphore that no longer exists.
\<close>

lemma sem_open_race:
  "\<exists>k. (sem_step_open 2)\<^sup>*\<^sup>* no_sems k \<and> pcs k 1 = Using 0 \<and> sets k 0 = None"
proof -
  let ?cs = "replicate 7 (0, Create) @ [(1, Open), (0, Close), (0, Close), (1, Open), (0, Close)]"
  have "map_option (\<lambda>k. (pcs k 1, Option.is_none (sets k 0))) (schedule ?cs no_sems) = Some (Using 0, True)" by code_simp
  then obtain k where k: "schedule ?cs no_sems = Some k" "pcs k 1 = Using 0" "Option.is_none (sets k 0)" by auto
  have "(sem_step_open 2)\<^sup>*\<^sup>* no_sems k" by (rule schedule_steps [OF k(1)]) auto
  with k show ?thesis by (auto simp: Option.is_none_def)
qed

end
