(* ===== verification/C_Array.thy ===== *)
theory C_Array
  imports C_Prelude
begin

text \<open>Linear searches in arrays, shared by the watch list, the access control lists and the table of clients.\<close>

text \<open>A loop over an array that returns the first index with a property.\<close>

primrec find_slot :: "('a \<Rightarrow> bool) \<Rightarrow> 'a list \<Rightarrow> nat option" where
  "find_slot P [] = None"
| "find_slot P (x # xs) = (if P x then Some 0 else map_option Suc (find_slot P xs))"

lemma find_slot_Some:
  "find_slot P xs = Some j \<Longrightarrow> j < length xs \<and> P (xs ! j) \<and> (\<forall>i < j. \<not> P (xs ! i))"
  by (induction xs arbitrary: j) (auto split: if_splits simp: less_Suc_eq_0_disj nth_Cons')

lemma find_slot_None: "find_slot P xs = None \<longleftrightarrow> (\<forall>x \<in> set xs. \<not> P x)"
  by (induction xs) auto

text \<open>An array of pairs with distinct keys as a map.\<close>

lemma map_of_upd_nth:
  assumes "i < length xs" "distinct (map fst xs)" "xs ! i = (k, v)"
  shows "map_of (xs[i := (k, u)]) = (map_of xs)(k \<mapsto> u)"
  using assms
proof (induction xs arbitrary: i)
  case (Cons x xs)
  show ?case
  proof (cases i)
    case 0
    with Cons.prems show ?thesis by (simp add: fun_eq_iff)
  next
    case (Suc j)
    then have j: "j < length xs" "xs ! j = (k, v)" using Cons.prems by simp_all
    have "k \<in> fst ` set xs" using nth_mem [OF j(1)] j(2) by force
    then have "fst x \<noteq> k" using Cons.prems(2) by auto
    then show ?thesis using Suc Cons.IH [OF j(1) _ j(2)] Cons.prems(2) by (cases x) (auto simp: fun_upd_twist)
  qed
qed simp

lemma map_of_delete_nth:
  assumes "i < length xs" "distinct (map fst xs)" "xs ! i = (k, v)"
  shows "map_of (take i xs @ drop (Suc i) xs) = (map_of xs)(k := None)"
proof -
  have xs: "xs = take i xs @ (k, v) # drop (Suc i) xs" using id_take_nth_drop [OF assms(1)] assms(3) by simp
  have "distinct (map fst (take i xs @ (k, v) # drop (Suc i) xs))" using assms(2) xs by simp
  then have n: "map_of (take i xs) k = None" "map_of (drop (Suc i) xs) k = None" by (auto simp: map_of_eq_None_iff)
  have "map_of xs = map_of (take i xs @ (k, v) # drop (Suc i) xs)" using xs by simp
  then show ?thesis using n by (auto simp: map_add_def fun_eq_iff split: option.split)
qed

lemma map_of_insert_at:
  assumes "map_of xs k = None"
  shows "map_of (take i xs @ (k, v) # drop i xs) = (map_of xs)(k \<mapsto> v)"
proof -
  have "map_of xs = map_of (take i xs @ drop i xs)" by simp
  then have e: "map_of xs = map_of (drop i xs) ++ map_of (take i xs)" unfolding map_of_append .
  have "map_of (take i xs) k = None" using assms unfolding e by (simp add: map_add_None)
  then show ?thesis unfolding e by (auto simp: map_add_def fun_eq_iff split: option.split)
qed

lemma map_upd_same: "f e = f (xs ! i) \<Longrightarrow> map f (xs[i := e]) = map f xs"
  by (cases "i < length xs") (auto intro!: nth_equalityI simp: nth_list_update)

text \<open>The values of one member in the entries that are in use.\<close>

lemma filter_map_split:
  "j < length xs \<Longrightarrow> filter P (map f xs) = filter P (map f (take j xs)) @ filter P [f (xs ! j)] @ filter P (map f (drop (Suc j) xs))"
  by (metis append_Cons append_Nil filter_append id_take_nth_drop list.simps(8,9) map_append)

lemma filter_map_upd:
  "j < length xs \<Longrightarrow> filter P (map f (xs[j := e])) = filter P (map f (take j xs)) @ filter P [f e] @ filter P (map f (drop (Suc j) xs))"
  using filter_map_split [of j "xs[j := e]" P f] by (simp add: drop_update_cancel)

end
