(* ===== verification/Wl_Cache.thy ===== *)
theory Wl_Cache
  imports C_Array
begin

text \<open>
  The watch list of \<open>inotify/inotify_dtree.c\<close>: an array of slots, each with a watch descriptor and the
  pathname of a directory, searched linearly and enlarged when it is full. Allocations succeed.
  The array is seen as a finite map from descriptors to pathnames.
\<close>

named_theorems wl_defs \<open>definitions of the operations on the watch list\<close>

section \<open>Slots\<close>

record watch =
  wd :: int
  path :: string

type_synonym wl_cache = "watch list"

definition PATH_MAX :: nat where "PATH_MAX = 4096"
definition ALLOC_INCR :: nat where "ALLOC_INCR = 200"

definition empty_slot :: watch where
  "empty_slot = \<lparr>wd = -1, path = []\<rparr>"

definition freeCache :: "wl_cache \<Rightarrow> wl_cache" where
  "freeCache c = []"

definition findWatch :: "int \<Rightarrow> wl_cache \<Rightarrow> nat option" where
  "findWatch w c = find_slot (\<lambda>s. wd s = w) c"

definition markCacheSlotEmpty :: "nat \<Rightarrow> wl_cache \<Rightarrow> wl_cache" where
  "markCacheSlotEmpty slot c = c[slot := empty_slot]"

definition findEmptyCacheSlot :: "wl_cache \<Rightarrow> nat \<times> wl_cache" where
  "findEmptyCacheSlot c =
     (case find_slot (\<lambda>s. wd s = -1) c of
        Some j \<Rightarrow> (j, c)
      | None \<Rightarrow> (length c, c @ replicate ALLOC_INCR empty_slot))"

text \<open>
  \<open>strncpy\<close> copies at most \<open>PATH_MAX\<close> characters; the kernel accepts no longer pathname, so that the
  copy is terminated.
\<close>

definition addWatchToCache :: "int \<Rightarrow> string \<Rightarrow> wl_cache \<Rightarrow> nat \<times> wl_cache" where
  "addWatchToCache w pathname c =
     (let (slot, c) = findEmptyCacheSlot c in (slot, c[slot := \<lparr>wd = w, path = take PATH_MAX pathname\<rparr>]))"

definition pathnameToCacheSlot :: "string \<Rightarrow> wl_cache \<Rightarrow> nat option" where
  "pathnameToCacheSlot pathname c = find_slot (\<lambda>s. 0 \<le> wd s \<and> path s = pathname) c"

definition pathnameInCache :: "string \<Rightarrow> wl_cache \<Rightarrow> bool" where
  "pathnameInCache pathname c \<longleftrightarrow> pathnameToCacheSlot pathname c \<noteq> None"

text \<open>The lines written for the slots in use, and the line with their number.\<close>

fun dump_from :: "nat \<Rightarrow> wl_cache \<Rightarrow> string list" where
  "dump_from j [] = []"
| "dump_from j (s # c) =
     (if 0 \<le> wd s then [dec j @ '': wd = '' @ dec_int (wd s) @ ''; '' @ path s] else []) @ dump_from (Suc j) c"

definition dump_lines :: "wl_cache \<Rightarrow> string list" where
  "dump_lines c = (let ls = dump_from 0 c in ls @ [''Total entries: '' @ dec (length ls)])"

section \<open>Subtrees\<close>

text \<open>The test of both loops over a subtree: \<open>p\<close> is the directory \<open>d\<close> or a pathname below it.\<close>

definition below :: "string \<Rightarrow> string \<Rightarrow> bool" where
  "below d p \<longleftrightarrow> take (length d) p = d \<and> (length p = length d \<or> p ! length d = CHR ''/'')"

text \<open>\<open>snprintf\<close> into a buffer of \<open>PATH_MAX\<close> bytes.\<close>

definition snprintf_path :: "string \<Rightarrow> string" where
  "snprintf_path s = take (PATH_MAX - 1) s"

definition rewriteCachedPaths :: "string \<Rightarrow> string \<Rightarrow> string \<Rightarrow> string \<Rightarrow> wl_cache \<Rightarrow> wl_cache" where
  "rewriteCachedPaths oldPathPrefix oldName newPathPrefix newName c =
     (let fullPath = snprintf_path (oldPathPrefix @ ''/'' @ oldName);
          newPrefix = snprintf_path (newPathPrefix @ ''/'' @ newName)
      in map (\<lambda>s. if below fullPath (path s)
                  then s\<lparr>path := take PATH_MAX (snprintf_path (newPrefix @ drop (length fullPath) (path s)))\<rparr>
                  else s) c)"

text \<open>
  The loop of \<open>zapSubtree\<close>. \<open>rm\<close> is the answer of \<open>inotify_rm_watch\<close>. The result has the number of
  entries, or nothing after a failed call, then the descriptors the call was made for.
\<close>

primrec zap_slots :: "(int \<Rightarrow> bool) \<Rightarrow> string \<Rightarrow> wl_cache \<Rightarrow> nat option \<times> int list \<times> wl_cache" where
  "zap_slots rm pn [] = (Some 0, [], [])"
| "zap_slots rm pn (s # c) =
     (if 0 \<le> wd s \<and> below pn (path s)
      then if \<not> rm (wd s) then (None, [wd s], s # c)
           else let (n, ws, c) = zap_slots rm pn c in (map_option Suc n, wd s # ws, empty_slot # c)
      else let (n, ws, c) = zap_slots rm pn c in (n, ws, s # c))"

section \<open>The array as a map\<close>

definition live :: "wl_cache \<Rightarrow> (int \<times> string) list" where
  "live c = map (\<lambda>s. (wd s, path s)) (filter (\<lambda>s. 0 \<le> wd s) c)"

definition watched :: "wl_cache \<Rightarrow> int \<rightharpoonup> string" where
  "watched c = map_of (live c)"

text \<open>No descriptor is in two slots, and a slot that is not in use is empty.\<close>

definition cache_ok :: "wl_cache \<Rightarrow> bool" where
  "cache_ok c \<longleftrightarrow> distinct (map fst (live c)) \<and> (\<forall>s \<in> set c. 0 \<le> wd s \<or> s = empty_slot)"

lemma empty_slot_wd [simp]: "wd empty_slot = -1"
  by (simp add: empty_slot_def)

lemma live_simps [simp]:
  "live [] = []" "live (s # c) = (if 0 \<le> wd s then (wd s, path s) # live c else live c)" "live (c @ d) = live c @ live d"
  "live (replicate n empty_slot) = []"
  by (simp_all add: live_def)

lemma live_upd:
  assumes "j < length c"
  shows "live (c[j := s]) = live (take j c) @ live [s] @ live (drop (Suc j) c)"
  using upd_conv_take_nth_drop [OF assms] live_simps(3) by (metis append_Cons append_Nil)

lemma live_split:
  assumes "j < length c"
  shows "live c = live (take j c) @ live [c ! j] @ live (drop (Suc j) c)"
  using id_take_nth_drop [OF assms] live_simps(3) by (metis append_Cons append_Nil)

lemma set_slot: "s \<in> set c \<Longrightarrow> 0 \<le> wd s \<Longrightarrow> (wd s, path s) \<in> set (live c)"
  by (auto simp: live_def)

lemma watched_nth:
  assumes "cache_ok c" "j < length c" "0 \<le> wd (c ! j)"
  shows "watched c (wd (c ! j)) = Some (path (c ! j))"
  using assms set_slot [OF nth_mem] by (auto simp: watched_def cache_ok_def)

lemma findWatch_None: "0 \<le> w \<Longrightarrow> findWatch w c = None \<longleftrightarrow> watched c w = None"
  by (auto simp: findWatch_def find_slot_None watched_def map_of_eq_None_iff live_def image_image)

lemma findWatch_Some:
  assumes "findWatch w c = Some j" "cache_ok c" "0 \<le> w"
  shows "j < length c" "wd (c ! j) = w" "watched c w = Some (path (c ! j))"
  using find_slot_Some [OF assms(1) [unfolded findWatch_def]] watched_nth [OF assms(2), of j] assms(3) by auto

lemma pathnameInCache_iff: "pathnameInCache p c \<longleftrightarrow> p \<in> snd ` set (live c)"
  by (auto simp: pathnameInCache_def pathnameToCacheSlot_def find_slot_None live_def image_iff)

lemma ran_watched: "cache_ok c \<Longrightarrow> ran (watched c) = snd ` set (live c)"
  by (simp add: watched_def cache_ok_def ran_distinct)

section \<open>What the operations do to the map\<close>

lemma findEmptyCacheSlot_facts:
  assumes "findEmptyCacheSlot c = (j, d)"
  shows "j < length d" "wd (d ! j) = -1" "live d = live c" "cache_ok c \<Longrightarrow> cache_ok d"
  using assms find_slot_Some [of "\<lambda>s. wd s = -1" c j]
  by (auto simp: findEmptyCacheSlot_def cache_ok_def ALLOC_INCR_def nth_append split: option.split_asm)

lemma slot_filled:
  assumes ok: "cache_ok d" and j: "j < length d" and e: "wd (d ! j) = -1" and w: "0 \<le> w" "watched d w = None"
  shows "cache_ok (d[j := \<lparr>wd = w, path = p\<rparr>])" "watched (d[j := \<lparr>wd = w, path = p\<rparr>]) = (watched d)(w \<mapsto> p)"
proof -
  let ?c = "d[j := \<lparr>wd = w, path = p\<rparr>]" let ?A = "live (take j d)" let ?B = "live (drop (Suc j) d)"
  have d: "live d = ?A @ ?B" using live_split [OF j] e by simp
  have c: "live ?c = ?A @ (w, p) # ?B" using live_upd [OF j] w(1) by simp
  have n: "w \<notin> fst ` set ?A" "w \<notin> fst ` set ?B"
    using w(2) unfolding watched_def d map_of_eq_None_iff by auto
  have "set ?c \<subseteq> insert \<lparr>wd = w, path = p\<rparr> (set d)" by (rule set_update_subset_insert)
  then show "cache_ok ?c" using ok w(1) n unfolding cache_ok_def c d by auto
  have nA: "map_of ?A w = None" using n(1) by (simp add: map_of_eq_None_iff)
  show "watched ?c = (watched d)(w \<mapsto> p)"
    unfolding watched_def c d by (rule ext) (simp add: map_add_def nA split: option.split)
qed

lemma addWatchToCache_facts:
  assumes "cache_ok c" "0 \<le> w" "watched c w = None" "length p < PATH_MAX"
  shows "cache_ok (snd (addWatchToCache w p c))" "watched (snd (addWatchToCache w p c)) = (watched c)(w \<mapsto> p)"
proof -
  obtain j d where e: "findEmptyCacheSlot c = (j, d)" by fastforce
  note f = findEmptyCacheSlot_facts [OF e]
  have "watched d = watched c" by (simp add: watched_def f(3))
  then show "cache_ok (snd (addWatchToCache w p c))" "watched (snd (addWatchToCache w p c)) = (watched c)(w \<mapsto> p)"
    using slot_filled [OF f(4) [OF assms(1)] f(1,2), of w p] assms(2-4) by (simp_all add: addWatchToCache_def e)
qed

lemma markCacheSlotEmpty_facts:
  assumes ok: "cache_ok c" and j: "j < length c" "0 \<le> wd (c ! j)"
  shows "cache_ok (markCacheSlotEmpty j c)" "watched (markCacheSlotEmpty j c) = (watched c)(wd (c ! j) := None)"
proof -
  let ?A = "live (take j c)" let ?B = "live (drop (Suc j) c)" let ?w = "wd (c ! j)"
  have d: "live c = ?A @ (?w, path (c ! j)) # ?B" using live_split [OF j(1)] j(2) by simp
  have m: "live (markCacheSlotEmpty j c) = ?A @ ?B" using live_upd [OF j(1)] by (simp add: markCacheSlotEmpty_def)
  have "set (markCacheSlotEmpty j c) \<subseteq> insert empty_slot (set c)"
    unfolding markCacheSlotEmpty_def by (rule set_update_subset_insert)
  then show "cache_ok (markCacheSlotEmpty j c)" using ok unfolding cache_ok_def m d by auto
  have n: "map_of ?A ?w = None" "map_of ?B ?w = None" using ok unfolding cache_ok_def d by (auto simp: map_of_eq_None_iff)
  show "watched (markCacheSlotEmpty j c) = (watched c)(?w := None)"
    unfolding watched_def m d by (rule ext) (auto simp: map_add_def n split: option.split)
qed

text \<open>The new pathname of an entry when the directory \<open>old\<close> becomes \<open>new\<close>.\<close>

definition renamed :: "string \<Rightarrow> string \<Rightarrow> string \<Rightarrow> string" where
  "renamed old new p =
     (if below old p then take PATH_MAX (snprintf_path (new @ drop (length old) p)) else p)"

lemma rewriteCachedPaths_renamed:
  "rewriteCachedPaths a n b m c =
     map (\<lambda>s. s\<lparr>path := renamed (snprintf_path (a @ ''/'' @ n)) (snprintf_path (b @ ''/'' @ m)) (path s)\<rparr>) c"
  by (auto simp: rewriteCachedPaths_def renamed_def Let_def)

lemma live_map_path: "live (map (\<lambda>s. s\<lparr>path := f (path s)\<rparr>) c) = map (\<lambda>(w, p). (w, f p)) (live c)"
  by (induction c) auto

lemma below_Nil [simp]: "below d [] \<longleftrightarrow> d = []"
  by (auto simp: below_def)

lemma snprintf_path_nonempty: "snprintf_path (a @ CHR ''/'' # n) \<noteq> []"
  by (simp add: snprintf_path_def PATH_MAX_def)

lemma rewriteCachedPaths_facts:
  assumes "cache_ok c"
  shows "cache_ok (rewriteCachedPaths a n b m c)"
    "watched (rewriteCachedPaths a n b m c) =
       map_option (renamed (snprintf_path (a @ ''/'' @ n)) (snprintf_path (b @ ''/'' @ m))) \<circ> watched c"
proof -
  let ?f = "renamed (snprintf_path (a @ ''/'' @ n)) (snprintf_path (b @ ''/'' @ m))"
  have l: "live (rewriteCachedPaths a n b m c) = map (\<lambda>(w, p). (w, ?f p)) (live c)"
    unfolding rewriteCachedPaths_renamed by (rule live_map_path)
  have "?f [] = []" by (simp add: renamed_def snprintf_path_nonempty)
  then have e: "empty_slot\<lparr>path := ?f (path empty_slot)\<rparr> = empty_slot" by (simp add: empty_slot_def)
  have "map fst (live (rewriteCachedPaths a n b m c)) = map fst (live c)" unfolding l by auto
  moreover have "0 \<le> wd s \<or> s = empty_slot" if "s \<in> set (rewriteCachedPaths a n b m c)" for s
    using that assms e unfolding rewriteCachedPaths_renamed cache_ok_def by fastforce
  ultimately show "cache_ok (rewriteCachedPaths a n b m c)" using assms unfolding cache_ok_def by simp
  show "watched (rewriteCachedPaths a n b m c) = map_option ?f \<circ> watched c"
    unfolding watched_def l by (rule map_of_map)
qed

lemma zap_slots_ok:
  assumes "cache_ok c" "zap_slots rm pn c = (n, ws, d)"
  shows "cache_ok d"
proof -
  have "set (live d) \<subseteq> set (live c) \<and> (distinct (map fst (live c)) \<longrightarrow> distinct (map fst (live d))) \<and>
    (\<forall>s \<in> set d. s \<in> set c \<or> s = empty_slot)"
    using assms(2)
  proof (induction c arbitrary: n ws d)
    case (Cons s c)
    obtain n' ws' d' where r: "zap_slots rm pn c = (n', ws', d')" by (metis prod_cases3)
    show ?case using Cons.prems Cons.IH [OF r] by (auto simp: r split: if_splits) (metis fst_conv image_eqI subsetD)
  qed simp
  then show ?thesis using assms(1) unfolding cache_ok_def by blast
qed

lemma zap_slots_all:
  assumes "\<forall>(w, p) \<in> set (live c). below pn p \<longrightarrow> rm w"
  shows "\<exists>d. zap_slots rm pn c = (Some (length (filter (\<lambda>(w, p). below pn p) (live c))),
      map fst (filter (\<lambda>(w, p). below pn p) (live c)), d) \<and>
    live d = filter (\<lambda>(w, p). \<not> below pn p) (live c)"
  using assms
proof (induction c)
  case (Cons s c)
  then obtain d where "zap_slots rm pn c = (Some (length (filter (\<lambda>(w, p). below pn p) (live c))),
      map fst (filter (\<lambda>(w, p). below pn p) (live c)), d)"
    "live d = filter (\<lambda>(w, p). \<not> below pn p) (live c)" by (auto split: if_splits)
  with Cons.prems show ?case by (cases "0 \<le> wd s \<and> below pn (path s)") (auto split: if_splits)
qed simp

lemma map_of_filter_snd:
  "distinct (map fst xs) \<Longrightarrow> map_of (filter (\<lambda>(w, p). P p) xs) w = (case map_of xs w of Some p \<Rightarrow> if P p then Some p else None | None \<Rightarrow> None)"
  by (induction xs) (auto split: option.split simp: map_of_eq_None_iff image_iff)

text \<open>What is left of a map when a subtree is removed.\<close>

definition without :: "string \<Rightarrow> (int \<rightharpoonup> string) \<Rightarrow> int \<rightharpoonup> string" where
  "without pn m = (\<lambda>w. case m w of Some p \<Rightarrow> if below pn p then None else Some p | None \<Rightarrow> None)"

lemma zap_slots_facts:
  assumes ok: "cache_ok c" and rm: "\<forall>w p. watched c w = Some p \<longrightarrow> below pn p \<longrightarrow> rm w"
  shows "\<exists>n ws d. zap_slots rm pn c = (Some n, ws, d) \<and> cache_ok d \<and> watched d = without pn (watched c) \<and>
    set ws = {w. \<exists>p. watched c w = Some p \<and> below pn p}"
proof -
  have iff: "watched c w = Some p \<longleftrightarrow> (w, p) \<in> set (live c)" for w p
    using ok by (simp add: watched_def cache_ok_def)
  have "\<forall>(w, p) \<in> set (live c). below pn p \<longrightarrow> rm w" using rm iff by auto
  from zap_slots_all [OF this] obtain d where
    z: "zap_slots rm pn c = (Some (length (filter (\<lambda>(w, p). below pn p) (live c))),
      map fst (filter (\<lambda>(w, p). below pn p) (live c)), d)" and
    l: "live d = filter (\<lambda>(w, p). \<not> below pn p) (live c)" by blast
  have "watched d = without pn (watched c)"
    using ok unfolding watched_def l cache_ok_def without_def
    by (intro ext) (auto simp: map_of_filter_snd [where P = "\<lambda>p. \<not> below pn p"] split: option.split)
  moreover have "set (map fst (filter (\<lambda>(w, p). below pn p) (live c))) = {w. \<exists>p. watched c w = Some p \<and> below pn p}"
    using iff by force
  ultimately show ?thesis using z zap_slots_ok [OF ok z] by blast
qed

section \<open>The interface of the watch list\<close>

text \<open>
  What the traversal of a tree relies on: a new descriptor can be added and is then found with
  its pathname. Adding the answers of a traversal one by one, where a known descriptor is
  skipped, adds them as a map.
\<close>

locale watch_map =
  fixes ok :: "'c \<Rightarrow> bool" and look :: "'c \<Rightarrow> int \<rightharpoonup> string" and valid :: "int \<Rightarrow> string \<Rightarrow> bool"
    and add :: "int \<Rightarrow> string \<Rightarrow> 'c \<Rightarrow> 'c" and none :: 'c
  assumes ok_none: "ok none" and look_none: "look none = Map.empty"
    and ok_add: "ok c \<Longrightarrow> valid w p \<Longrightarrow> look c w = None \<Longrightarrow> ok (add w p c)"
    and look_add: "ok c \<Longrightarrow> valid w p \<Longrightarrow> look c w = None \<Longrightarrow> look (add w p c) = (look c)(w \<mapsto> p)"
begin

lemma add_all:
  assumes "ok c" "\<forall>(w, p) \<in> set ws. valid w p"
  shows "ok (fold (\<lambda>(w, p) c. if look c w = None then add w p c else c) ws c) \<and>
    look (fold (\<lambda>(w, p) c. if look c w = None then add w p c else c) ws c) = map_of ws ++ look c"
  using assms
proof (induction ws arbitrary: c)
  case (Cons x ws)
  obtain w p where x: "x = (w, p)" by fastforce
  show ?case
  proof (cases "look c w = None")
    case True
    then have "ok (add w p c)" "look (add w p c) = (look c)(w \<mapsto> p)" using Cons.prems x ok_add look_add by auto
    with Cons.IH [of "add w p c"] Cons.prems True show ?thesis by (auto simp: x map_add_def fun_eq_iff split: option.split)
  next
    case False
    with Cons show ?thesis by (auto simp: x map_add_def fun_eq_iff split: option.split)
  qed
qed simp

lemma build:
  assumes "\<forall>(w, p) \<in> set ws. valid w p"
  shows "look (fold (\<lambda>(w, p) c. if look c w = None then add w p c else c) ws none) = map_of ws"
  using add_all [OF ok_none assms] by (simp add: look_none)

end

interpretation wl: watch_map cache_ok watched "\<lambda>w p. 0 \<le> w \<and> length p < PATH_MAX"
  "\<lambda>w p c. snd (addWatchToCache w p c)" "[]"
  by unfold_locales (use addWatchToCache_facts in \<open>auto simp: cache_ok_def watched_def\<close>)

end
