(* ===== verification/Dtree.thy ===== *)
theory Dtree
  imports Wl_Cache
begin

text \<open>
  The program \<open>inotify/inotify_dtree.c\<close>, which keeps a list of watched directories in step with the
  file system: the root directories, the traversal that adds watches, the handling of every kind
  of event, the loop over a buffer of events with its second, timed read, the commands and the
  start of the program. The kernel's answers (traversals, watch descriptors, file status, reads)
  are arguments. Messages are left out, except for the dump of the list to the log file.
\<close>

section \<open>State\<close>

datatype in_flag =
  IN_CREATE | IN_MOVED_FROM | IN_MOVED_TO | IN_DELETE_SELF | IN_MOVE_SELF | IN_ISDIR | IN_Q_OVERFLOW | IN_UNMOUNT
| IN_IGNORED | IN_ONLYDIR

record inotify_event =
  ev_wd :: int
  mask :: "in_flag set"
  cookie :: int
  ev_len :: int
  ev_name :: string

datatype syscall = Add_watch int string "in_flag set" | Rm_watch int int | Close int

text \<open>How the program ends: \<open>Undefined\<close> is the use of a null pointer or of an unset variable.\<close>

datatype dt_stop = Exit_success | Exit_failure | Aborted | Undefined

record dtree =
  wlCache :: wl_cache
  rootDirPaths :: "string option list"
  ignoreRootDirs :: nat
  inotifyFd :: int
  dirCnt :: nat
  reinitCnt :: nat
  overflowCnt :: nat
  inotifyReadCnt :: nat
  readBufferSize :: int
  verboseMask :: int
  checkCache :: bool
  dumpCache :: bool
  abortOnCacheProblem :: bool
  logfp :: "string list option"
  written :: "(string \<times> string list) list"
  calls :: "syscall list"

text \<open>
  The kernel's answers: what a traversal of a pathname visits, with the answer to the request for
  a watch; the descriptor of a new inotify instance; whether a watch can be removed; the status
  of a pathname (\<open>None\<close>: the call fails, otherwise whether it is a directory); whether a file can
  be opened for writing.
\<close>

datatype add_answer = Wd int | Enoent | Add_error

record visit =
  pathname :: string
  is_dir :: bool
  answer :: add_answer

record dt_env =
  nftw :: "string \<Rightarrow> visit list"
  inotify_init :: int
  rm_watch :: "int \<Rightarrow> bool"
  lstat :: "string \<Rightarrow> bool option"
  fopen :: "string \<Rightarrow> bool"

definition numRootDirs :: "dtree \<Rightarrow> nat" where
  "numRootDirs st = length (rootDirPaths st)"

definition syscall :: "syscall \<Rightarrow> dtree \<Rightarrow> dtree" where
  "syscall c st = st\<lparr>calls := calls st @ [c]\<rparr>"

section \<open>Checks and dumps\<close>

definition dumpCacheToLog :: "dtree \<Rightarrow> dt_stop + dtree" where
  "dumpCacheToLog st =
     (case logfp st of
        None \<Rightarrow> Inl Undefined
      | Some ls \<Rightarrow> Inr (st\<lparr>logfp := Some (ls @ dump_lines (wlCache st))\<rparr>))"

definition createStopFileAndAbort :: "dtree \<Rightarrow> dt_stop + 'a" where
  "createStopFileAndAbort st = bindR (dumpCacheToLog st) (\<lambda>_. Inl Aborted)"

text \<open>A pathname that is gone is reported; one that is no directory ends the program.\<close>

definition checkCacheConsistency :: "dt_env \<Rightarrow> dtree \<Rightarrow> dt_stop + dtree" where
  "checkCacheConsistency env st =
     (if list_ex (\<lambda>s. 0 \<le> wd s \<and> lstat env (path s) = Some False) (wlCache st) then Inl Exit_failure else Inr st)"

definition findWatchChecked :: "int \<Rightarrow> dtree \<Rightarrow> dt_stop + nat option" where
  "findWatchChecked w st =
     (case findWatch w (wlCache st) of
        Some slot \<Rightarrow> Inr (Some slot)
      | None \<Rightarrow> if abortOnCacheProblem st then createStopFileAndAbort st else Inr None)"

section \<open>Root directories\<close>

text \<open>
  \<open>first\<close> and \<open>second\<close> are the answers of the two calls of \<open>lstat\<close> for each argument: whether it is a
  directory, then i-node and device.
\<close>

primrec check_dirs :: "(string \<Rightarrow> bool option) \<Rightarrow> string list \<Rightarrow> bool" where
  "check_dirs first [] = True"
| "check_dirs first (p # ps) = (first p = Some True \<and> check_dirs first ps)"

fun copy_dirs :: "(string \<Rightarrow> (nat \<times> nat) option) \<Rightarrow> (nat \<times> nat) list \<Rightarrow> string list \<Rightarrow> bool" where
  "copy_dirs second seen [] = True"
| "copy_dirs second seen (p # ps) =
     (case second p of
        None \<Rightarrow> False
      | Some i \<Rightarrow> \<not> List.member seen i \<and> copy_dirs second (seen @ [i]) ps)"

definition copyRootDirPaths ::
  "(string \<Rightarrow> bool option) \<Rightarrow> (string \<Rightarrow> (nat \<times> nat) option) \<Rightarrow> string list \<Rightarrow> dtree \<Rightarrow> dt_stop + dtree" where
  "copyRootDirPaths first second argv st =
     (if check_dirs first argv \<and> copy_dirs second [] argv
      then Inr (st\<lparr>rootDirPaths := map Some argv, ignoreRootDirs := 0\<rparr>) else Inl Exit_failure)"

definition findRootDirPath :: "string \<Rightarrow> dtree \<Rightarrow> nat option" where
  "findRootDirPath p st = find_slot (\<lambda>r. r = Some p) (rootDirPaths st)"

definition isRootDirPath :: "string \<Rightarrow> dtree \<Rightarrow> bool" where
  "isRootDirPath p st \<longleftrightarrow> findRootDirPath p st \<noteq> None"

definition zapRootDirPath :: "string \<Rightarrow> dtree \<Rightarrow> dt_stop + dtree" where
  "zapRootDirPath p st =
     (case findRootDirPath p st of
        None \<Rightarrow> Inl Exit_failure
      | Some k \<Rightarrow>
          let st = st\<lparr>rootDirPaths := (rootDirPaths st)[k := None], ignoreRootDirs := Suc (ignoreRootDirs st)\<rparr>
          in if ignoreRootDirs st = numRootDirs st then Inl Exit_success else Inr st)"

section \<open>Watching a subtree\<close>

definition traverseTree :: "visit \<Rightarrow> dtree \<Rightarrow> dt_stop + dtree" where
  "traverseTree v st =
     (if \<not> is_dir v then Inr st
      else
        let flags = {IN_CREATE, IN_MOVED_FROM, IN_MOVED_TO, IN_DELETE_SELF} \<union>
                    (if isRootDirPath (pathname v) st then {IN_MOVE_SELF} else {});
            st = syscall (Add_watch (inotifyFd st) (pathname v) (flags \<union> {IN_ONLYDIR})) st
        in case answer v of
             Enoent \<Rightarrow> Inr st
           | Add_error \<Rightarrow> Inl Exit_failure
           | Wd w \<Rightarrow>
               if findWatch w (wlCache st) \<noteq> None then Inr st
               else Inr (st\<lparr>dirCnt := Suc (dirCnt st), wlCache := snd (addWatchToCache w (pathname v) (wlCache st))\<rparr>))"

primrec walk :: "visit list \<Rightarrow> dtree \<Rightarrow> dt_stop + dtree" where
  "walk [] st = Inr st"
| "walk (v # vs) st = bindR (traverseTree v st) (walk vs)"

definition watchDir :: "dt_env \<Rightarrow> string \<Rightarrow> dtree \<Rightarrow> dt_stop + dtree" where
  "watchDir env p st = walk (nftw env p) (st\<lparr>dirCnt := 0\<rparr>)"

definition watchSubtree :: "dt_env \<Rightarrow> string \<Rightarrow> dtree \<Rightarrow> dt_stop + dtree" where
  "watchSubtree env p st = watchDir env p st"

text \<open>The number of entries removed, or nothing when a watch could not be removed.\<close>

definition zapSubtree :: "dt_env \<Rightarrow> string \<Rightarrow> dtree \<Rightarrow> nat option \<times> dtree" where
  "zapSubtree env p st =
     (let (n, ws, c) = zap_slots (rm_watch env) p (wlCache st)
      in (n, st\<lparr>wlCache := c, calls := calls st @ map (Rm_watch (inotifyFd st)) ws\<rparr>))"

fun watch_roots :: "dt_env \<Rightarrow> string option list \<Rightarrow> dtree \<Rightarrow> dt_stop + dtree" where
  "watch_roots env [] st = Inr st"
| "watch_roots env (None # ps) st = watch_roots env ps st"
| "watch_roots env (Some p # ps) st = bindR (watchSubtree env p st) (watch_roots env ps)"

definition reinitialize :: "dt_env \<Rightarrow> int \<Rightarrow> dtree \<Rightarrow> dt_stop + dtree" where
  "reinitialize env oldInotifyFd st =
     (let st = (if 0 \<le> oldInotifyFd then syscall (Close oldInotifyFd) (st\<lparr>reinitCnt := Suc (reinitCnt st)\<rparr>)
                else st\<lparr>reinitCnt := 0\<rparr>)
      in if inotify_init env = -1 then Inl Exit_failure
         else watch_roots env (rootDirPaths st)
                (st\<lparr>inotifyFd := inotify_init env, wlCache := freeCache (wlCache st)\<rparr>))"

section \<open>Events\<close>

definition sizeof_event :: int where "sizeof_event = 16"

definition INOTIFY_READ_BUF_LEN :: int where "INOTIFY_READ_BUF_LEN = 100 * (sizeof_event + 255 + 1)"

definition event_size :: "inotify_event \<Rightarrow> int" where
  "event_size e = sizeof_event + ev_len e"

text \<open>
  The slot of the event's directory: not looked up for an overflow or an \<open>IN_IGNORED\<close>, not found, or
  found. A branch either falls through to the checks at the end or returns at once.
\<close>

datatype ev_slot = Unset | Lost | Slot nat
datatype outcome = Fall int dtree | Return int dtree

definition slot_path :: "ev_slot \<Rightarrow> dtree \<Rightarrow> dt_stop + string" where
  "slot_path sl st = (case sl of Slot j \<Rightarrow> Inr (path (wlCache st ! j)) | _ \<Rightarrow> Inl Undefined)"

definition slot_clear :: "ev_slot \<Rightarrow> dtree \<Rightarrow> dt_stop + dtree" where
  "slot_clear sl st =
     (case sl of Slot j \<Rightarrow> Inr (st\<lparr>wlCache := markCacheSlotEmpty j (wlCache st)\<rparr>) | _ \<Rightarrow> Inl Undefined)"

text \<open>The inotify instance and the list are rebuilt and the rest of the buffer is discarded.\<close>

definition rebuild :: "dt_env \<Rightarrow> dtree \<Rightarrow> dt_stop + outcome" where
  "rebuild env st = bindR (reinitialize env (inotifyFd st) st) (\<lambda>st. Inr (Return INOTIFY_READ_BUF_LEN st))"

definition ev_created :: "dt_env \<Rightarrow> inotify_event \<Rightarrow> ev_slot \<Rightarrow> dtree \<Rightarrow> dt_stop + outcome" where
  "ev_created env ev sl st =
     bindR (slot_path sl st) (\<lambda>d.
       let fullPath = snprintf_path (d @ ''/'' @ ev_name ev)
       in bindR (if pathnameInCache fullPath (wlCache st) then Inr st else watchSubtree env fullPath st)
            (\<lambda>st. Inr (Fall (event_size ev) st)))"

definition ev_deleted :: "inotify_event \<Rightarrow> ev_slot \<Rightarrow> dtree \<Rightarrow> dt_stop + outcome" where
  "ev_deleted ev sl st =
     bindR (slot_path sl st) (\<lambda>d.
     bindR (if isRootDirPath d st then zapRootDirPath d st else Inr st) (\<lambda>st.
     bindR (slot_clear sl st) (\<lambda>st. Inr (Fall (event_size ev) st))))"

definition ev_renamed :: "dt_env \<Rightarrow> inotify_event \<Rightarrow> inotify_event \<Rightarrow> ev_slot \<Rightarrow> dtree \<Rightarrow> dt_stop + outcome" where
  "ev_renamed env ev nextEv sl st =
     bindR (findWatchChecked (ev_wd nextEv) st) (\<lambda>r.
     case r of
       None \<Rightarrow> rebuild env st
     | Some k \<Rightarrow>
         bindR (slot_path sl st) (\<lambda>d.
         Inr (Fall (event_size ev + event_size nextEv)
           (st\<lparr>wlCache := rewriteCachedPaths d (ev_name ev) (path (wlCache st ! k)) (ev_name nextEv) (wlCache st)\<rparr>))))"

definition ev_moved_out :: "dt_env \<Rightarrow> inotify_event \<Rightarrow> ev_slot \<Rightarrow> dtree \<Rightarrow> dt_stop + outcome" where
  "ev_moved_out env ev sl st =
     bindR (slot_path sl st) (\<lambda>d.
     let (n, st) = zapSubtree env (snprintf_path (d @ ''/'' @ ev_name ev)) st
     in if n = None then rebuild env st else Inr (Fall (event_size ev) st))"

text \<open>\<open>rest\<close> are the events behind this one in the buffer, of which \<open>bufSize\<close> bytes are left.\<close>

definition ev_moved_from ::
  "dt_env \<Rightarrow> inotify_event \<Rightarrow> inotify_event list \<Rightarrow> int \<Rightarrow> bool \<Rightarrow> ev_slot \<Rightarrow> dtree \<Rightarrow> dt_stop + outcome" where
  "ev_moved_from env ev rest bufSize firstTry sl st =
     (if event_size ev < bufSize
      then case rest of
             [] \<Rightarrow> Inl Undefined
           | nextEv # _ \<Rightarrow>
               if IN_MOVED_TO \<in> mask nextEv \<and> cookie nextEv = cookie ev then ev_renamed env ev nextEv sl st
               else ev_moved_out env ev sl st
      else if \<not> firstTry then ev_moved_out env ev sl st
      else Inr (Return (-1) st))"

definition ev_overflow :: "dt_env \<Rightarrow> dtree \<Rightarrow> dt_stop + outcome" where
  "ev_overflow env st =
     (let st = st\<lparr>overflowCnt := Suc (overflowCnt st)\<rparr>
      in bindR (reinitialize env (inotifyFd st) st) (\<lambda>st. Inr (Fall INOTIFY_READ_BUF_LEN st)))"

definition ev_move_self :: "dt_env \<Rightarrow> inotify_event \<Rightarrow> ev_slot \<Rightarrow> dtree \<Rightarrow> dt_stop + outcome" where
  "ev_move_self env ev sl st =
     bindR (slot_path sl st) (\<lambda>d.
     if \<not> isRootDirPath d st then Inr (Fall (event_size ev) st)
     else bindR (zapRootDirPath d st) (\<lambda>st.
          let (n, st) = zapSubtree env d st
          in if n = None then rebuild env st else Inr (Fall (event_size ev) st)))"

definition handle_event ::
  "dt_env \<Rightarrow> inotify_event \<Rightarrow> inotify_event list \<Rightarrow> int \<Rightarrow> bool \<Rightarrow> ev_slot \<Rightarrow> dtree \<Rightarrow> dt_stop + outcome" where
  "handle_event env ev rest bufSize firstTry sl st =
     (if IN_ISDIR \<in> mask ev \<and> (IN_CREATE \<in> mask ev \<or> IN_MOVED_TO \<in> mask ev) then ev_created env ev sl st
      else if IN_DELETE_SELF \<in> mask ev then ev_deleted ev sl st
      else if IN_MOVED_FROM \<in> mask ev \<and> IN_ISDIR \<in> mask ev then ev_moved_from env ev rest bufSize firstTry sl st
      else if IN_Q_OVERFLOW \<in> mask ev then ev_overflow env st
      else if IN_UNMOUNT \<in> mask ev then bindR (slot_clear sl st) (\<lambda>st. Inr (Fall (event_size ev) st))
      else if IN_MOVE_SELF \<in> mask ev then ev_move_self env ev sl st
      else Inr (Fall (event_size ev) st))"

definition event_slot :: "inotify_event \<Rightarrow> dtree \<Rightarrow> dt_stop + ev_slot" where
  "event_slot ev st =
     (if ev_wd ev \<noteq> -1 \<and> IN_IGNORED \<notin> mask ev
      then bindR (findWatchChecked (ev_wd ev) st) (\<lambda>r. Inr (case r of None \<Rightarrow> Lost | Some j \<Rightarrow> Slot j))
      else Inr Unset)"

text \<open>The number of bytes consumed, or -1 when another read is needed first.\<close>

definition processNextInotifyEvent ::
  "dt_env \<Rightarrow> inotify_event list \<Rightarrow> int \<Rightarrow> bool \<Rightarrow> dtree \<Rightarrow> dt_stop + int \<times> dtree" where
  "processNextInotifyEvent env buf bufSize firstTry st =
     (case buf of
        [] \<Rightarrow> Inl Undefined
      | ev # rest \<Rightarrow>
          bindR (event_slot ev st) (\<lambda>sl.
          bindR (if sl = Lost then rebuild env st else handle_event env ev rest bufSize firstTry sl st) (\<lambda>r.
          case r of
            Return n st \<Rightarrow> Inr (n, st)
          | Fall n st \<Rightarrow>
              bindR (if checkCache st then checkCacheConsistency env st else Inr st) (\<lambda>st.
              bindR (if dumpCache st then dumpCacheToLog st else Inr st) (\<lambda>st. Inr (n, st))))))"

text \<open>The events behind the next \<open>n\<close> bytes of the buffer.\<close>

fun advance :: "int \<Rightarrow> inotify_event list \<Rightarrow> inotify_event list" where
  "advance n [] = []"
| "advance n (e # es) = (if event_size e \<le> n then advance (n - event_size e) es else e # es)"

definition bytes :: "inotify_event list \<Rightarrow> int" where
  "bytes es = sum_list (map event_size es)"

text \<open>
  The answers of \<open>read\<close>. The loop over the buffer: \<open>rem\<close> bytes of it are left, \<open>evs\<close> are the events in
  them. \<open>later\<close> are the answers to the timed reads; when none is left the alarm interrupts the read. As
  in the code, an interrupted read adds its result -1 to the number of bytes.
\<close>

datatype read_answer = Got "inotify_event list" | Eintr | Read_error | Eof

definition second_read :: "read_answer \<Rightarrow> inotify_event list \<Rightarrow> int \<Rightarrow> dtree \<Rightarrow> dt_stop + inotify_event list \<times> int \<times> dtree" where
  "second_read a evs numRead st =
     (case a of
        Read_error \<Rightarrow> Inl Exit_failure
      | Eof \<Rightarrow> Inl Exit_failure
      | Eintr \<Rightarrow> Inr (evs, numRead + -1, st\<lparr>inotifyReadCnt := Suc (inotifyReadCnt st)\<rparr>)
      | Got es \<Rightarrow> Inr (evs @ es, numRead + bytes es, st\<lparr>inotifyReadCnt := Suc (inotifyReadCnt st)\<rparr>))"

definition next_answer :: "read_answer list \<Rightarrow> read_answer" where
  "next_answer later = (case later of [] \<Rightarrow> Eintr | a # _ \<Rightarrow> a)"

primrec process_buffer ::
  "nat \<Rightarrow> (nat \<Rightarrow> dt_env) \<Rightarrow> read_answer list \<Rightarrow> inotify_event list \<Rightarrow> int \<Rightarrow> bool \<Rightarrow> dtree \<Rightarrow> (dt_stop + dtree) option" where
  "process_buffer 0 envs later evs rem firstTry st = (if rem \<le> 0 then Some (Inr st) else None)"
| "process_buffer (Suc fuel) envs later evs rem firstTry st =
     (if rem \<le> 0 then Some (Inr st)
      else case processNextInotifyEvent (envs 0) evs rem firstTry st of
             Inl e \<Rightarrow> Some (Inl e)
           | Inr (evLen, st) \<Rightarrow>
               if 0 < evLen then process_buffer fuel (\<lambda>k. envs (Suc k)) later (advance evLen evs) (rem - evLen) True st
               else (case second_read (next_answer later) evs rem st of
                       Inl e \<Rightarrow> Some (Inl e)
                     | Inr (evs, rem, st) \<Rightarrow> process_buffer fuel (\<lambda>k. envs (Suc k)) (tl later) evs rem False st))"

text \<open>The first read; a request for more bytes than the buffer has may overrun it.\<close>

definition processInotifyEvents ::
  "nat \<Rightarrow> (nat \<Rightarrow> dt_env) \<Rightarrow> read_answer \<Rightarrow> read_answer list \<Rightarrow> dtree \<Rightarrow> (dt_stop + dtree) option" where
  "processInotifyEvents fuel envs first later st =
     (case first of
        Got evs \<Rightarrow>
          if evs = [] then Some (Inl Exit_failure)
          else if INOTIFY_READ_BUF_LEN < bytes evs then Some (Inl Undefined)
          else process_buffer fuel envs later evs (bytes evs) True (st\<lparr>inotifyReadCnt := Suc (inotifyReadCnt st)\<rparr>)
      | _ \<Rightarrow> Some (Inl Exit_failure))"

section \<open>Commands and start\<close>

text \<open>\<open>sscanf(line, "%c %s")\<close> on a non-empty line: the command and, if there is one, its argument.\<close>

definition scan_command :: "string \<Rightarrow> char \<times> string option" where
  "scan_command line =
     (let r = takeWhile (\<lambda>c. \<not> isspace c) (dropWhile isspace (tl line)) in (hd line, if r = [] then None else Some r))"

text \<open>The commands with an argument read an unset buffer when it is missing.\<close>

definition with_arg :: "string option \<Rightarrow> (string \<Rightarrow> dt_stop + 'a) \<Rightarrow> dt_stop + 'a" where
  "with_arg a f = (case a of None \<Rightarrow> Inl Undefined | Some x \<Rightarrow> f x)"

definition executeCommand :: "dt_env \<Rightarrow> string \<Rightarrow> dtree \<Rightarrow> dt_stop + dtree" where
  "executeCommand env input st =
     (if input = [] then Inl Exit_failure
      else let line = cstr (butlast input) in
      if line = [] then Inr st
      else let (cmd, arg) = scan_command line in
        if cmd = CHR ''a'' then with_arg arg (\<lambda>a. watchSubtree env a (snd (zapSubtree env a st)))
        else if cmd = CHR ''c'' \<or> cmd = CHR ''C'' then checkCacheConsistency env st
        else if cmd = CHR ''l'' then Inr st
        else if cmd = CHR ''q'' then Inl Exit_success
        else if cmd = CHR ''v'' then
          Inr (st\<lparr>verboseMask := (case arg of Some a \<Rightarrow> atol a | None \<Rightarrow> if verboseMask st = 0 then 1 else 0)\<rparr>)
        else if cmd = CHR ''d'' then Inr (st\<lparr>dumpCache := \<not> dumpCache st\<rparr>)
        else if cmd = CHR ''x'' then Inr (st\<lparr>checkCache := \<not> checkCache st\<rparr>)
        else if cmd = CHR ''w'' then
          with_arg arg (\<lambda>a. if \<not> fopen env a then Inl Undefined
                            else Inr (st\<lparr>written := written st @ [(a, map snd (live (wlCache st)))]\<rparr>))
        else if cmd = CHR ''z'' then with_arg arg (\<lambda>a. Inr (snd (zapSubtree env a st)))
        else if cmd = CHR ''0'' then reinitialize env (-1) (syscall (Close (inotifyFd st)) st)
        else Inr st)"

text \<open>
  The start: the options as \<open>getopt\<close> delivers them, with their arguments, then the directories.
\<close>

fun dt_options :: "dt_env \<Rightarrow> (char \<times> string) list \<Rightarrow> dtree \<Rightarrow> dt_stop + dtree" where
  "dt_options env [] st = Inr st"
| "dt_options env ((c, optarg) # os) st =
     (if c = CHR ''a'' then dt_options env os (st\<lparr>abortOnCacheProblem := True\<rparr>)
      else if c = CHR ''x'' then dt_options env os (st\<lparr>checkCache := True\<rparr>)
      else if c = CHR ''d'' then dt_options env os (st\<lparr>dumpCache := True\<rparr>)
      else if c = CHR ''v'' then dt_options env os (st\<lparr>verboseMask := atol optarg\<rparr>)
      else if c = CHR ''b'' then dt_options env os (st\<lparr>readBufferSize := atol optarg\<rparr>)
      else if c = CHR ''l'' then if fopen env optarg then dt_options env os (st\<lparr>logfp := Some []\<rparr>) else Inl Exit_failure
      else Inl Exit_failure)"

definition dt_initial :: dtree where
  "dt_initial = \<lparr>wlCache = [], rootDirPaths = [], ignoreRootDirs = 0, inotifyFd = -1, dirCnt = 0, reinitCnt = 0,
     overflowCnt = 0, inotifyReadCnt = 0, readBufferSize = 0, verboseMask = 0, checkCache = False, dumpCache = False,
     abortOnCacheProblem = False, logfp = None, written = [], calls = []\<rparr>"

definition dt_start ::
  "dt_env \<Rightarrow> (string \<Rightarrow> (nat \<times> nat) option) \<Rightarrow> (char \<times> string) list \<Rightarrow> string list \<Rightarrow> dt_stop + dtree" where
  "dt_start env inode os dirs =
     bindR (dt_options env os dt_initial) (\<lambda>st.
     if dirs = [] then Inl Exit_failure
     else bindR (copyRootDirPaths (lstat env) inode dirs st) (reinitialize env (-1)))"

end
