(* ===== verification/Dtree_Inv.thy ===== *)
theory Dtree_Inv
  imports Dtree
begin

text \<open>
  What the operations of \<open>inotify_dtree.c\<close> do to the map of watched directories, and the invariant
  they keep.
\<close>

section \<open>Traversals\<close>

text \<open>The descriptors a traversal delivers, in order, with their pathnames.\<close>

fun answers :: "visit list \<Rightarrow> (int \<times> string) list" where
  "answers [] = []"
| "answers (v # vs) =
     (case answer v of Wd w \<Rightarrow> if is_dir v then (w, pathname v) # answers vs else answers vs | _ \<Rightarrow> answers vs)"

definition valid_visits :: "visit list \<Rightarrow> bool" where
  "valid_visits vs \<longleftrightarrow> (\<forall>(w, p) \<in> set (answers vs). 0 \<le> w \<and> length p < PATH_MAX)"

text \<open>The kernel's descriptors are not negative and it accepts no pathname of \<open>PATH_MAX\<close> bytes.\<close>

definition valid_env :: "dt_env \<Rightarrow> bool" where
  "valid_env env \<longleftrightarrow> (\<forall>p. valid_visits (nftw env p))"

abbreviation add_answers :: "(int \<times> string) list \<Rightarrow> wl_cache \<Rightarrow> wl_cache" where
  "add_answers ws c \<equiv> fold (\<lambda>(w, p) c. if watched c w = None then snd (addWatchToCache w p c) else c) ws c"

lemma valid_visits_Cons: "valid_visits (v # vs) \<longleftrightarrow> valid_visits [v] \<and> valid_visits vs"
  by (auto simp: valid_visits_def split: add_answer.split)

lemma answers_append: "answers (vs @ us) = answers vs @ answers us"
  by (induction vs) (auto split: add_answer.split)

lemma traverseTree_frame:
  assumes "traverseTree v st = Inr st'" "valid_visits [v]"
  shows "\<exists>n cs. st' = st\<lparr>dirCnt := n, calls := cs, wlCache := add_answers (answers [v]) (wlCache st)\<rparr>"
proof (cases "is_dir v")
  case False
  with assms(1) have "st' = st\<lparr>dirCnt := dirCnt st, calls := calls st, wlCache := add_answers (answers [v]) (wlCache st)\<rparr>"
    by (auto simp: traverseTree_def split: add_answer.split)
  then show ?thesis by blast
next
  case True
  show ?thesis
  proof (cases "answer v")
    case (Wd w)
    then have w: "0 \<le> w" using assms(2) True by (simp add: valid_visits_def)
    have f: "findWatch w (wlCache st) = None \<longleftrightarrow> watched (wlCache st) w = None" by (rule findWatch_None [OF w])
    have "st' = st\<lparr>dirCnt := dirCnt st', calls := calls st', wlCache := add_answers (answers [v]) (wlCache st)\<rparr>"
      using assms(1) True Wd f by (auto simp: traverseTree_def syscall_def Let_def split: if_splits)
    then show ?thesis by blast
  next
    case Enoent
    then have "st' = st\<lparr>dirCnt := dirCnt st', calls := calls st', wlCache := add_answers (answers [v]) (wlCache st)\<rparr>"
      using assms(1) True by (auto simp: traverseTree_def syscall_def Let_def)
    then show ?thesis by blast
  next
    case Add_error
    then show ?thesis using assms(1) True by (simp add: traverseTree_def Let_def)
  qed
qed

lemma answers_Cons: "answers (v # vs) = answers [v] @ answers vs"
  using answers_append [of "[v]" vs] unfolding append_Cons append_Nil .

lemma walk_frame:
  assumes "walk vs st = Inr st'" "valid_visits vs"
  shows "\<exists>n cs. st' = st\<lparr>dirCnt := n, calls := cs, wlCache := add_answers (answers vs) (wlCache st)\<rparr>"
  using assms
proof (induction vs arbitrary: st)
  case Nil
  then have "st' = st\<lparr>dirCnt := dirCnt st, calls := calls st, wlCache := add_answers (answers []) (wlCache st)\<rparr>" by simp
  then show ?case by blast
next
  case (Cons v vs)
  from Cons.prems(1) obtain s1 where s1: "traverseTree v st = Inr s1" "walk vs s1 = Inr st'" by (auto simp: bindR_eq_Inr)
  have v: "valid_visits [v]" "valid_visits vs" using Cons.prems(2) [unfolded valid_visits_Cons [of v vs]] by auto
  obtain n cs where a: "s1 = st\<lparr>dirCnt := n, calls := cs, wlCache := add_answers (answers [v]) (wlCache st)\<rparr>"
    using traverseTree_frame [OF s1(1) v(1)] by blast
  obtain n' cs' where b: "st' = s1\<lparr>dirCnt := n', calls := cs', wlCache := add_answers (answers vs) (wlCache s1)\<rparr>"
    using Cons.IH [OF s1(2) v(2)] by blast
  have "st' = st\<lparr>dirCnt := n', calls := cs', wlCache := add_answers (answers (v # vs)) (wlCache st)\<rparr>"
    unfolding b a answers_Cons [of v vs] by simp
  then show ?case by blast
qed

lemma walk_returns:
  assumes "\<forall>v \<in> set vs. is_dir v \<longrightarrow> answer v \<noteq> Add_error"
  shows "\<exists>st'. walk vs st = Inr st'"
  using assms
proof (induction vs arbitrary: st)
  case (Cons v vs)
  have "\<exists>s1. traverseTree v st = Inr s1"
    using Cons.prems by (cases "answer v") (auto simp: traverseTree_def Let_def)
  then show ?case using Cons by auto
qed simp

lemma watchSubtree_frame:
  assumes "watchSubtree env p st = Inr st'" "valid_visits (nftw env p)"
  shows "\<exists>n cs. st' = st\<lparr>dirCnt := n, calls := cs, wlCache := add_answers (answers (nftw env p)) (wlCache st)\<rparr>"
  using walk_frame [OF assms [unfolded watchSubtree_def watchDir_def]] by auto

lemma add_answers_facts:
  assumes "cache_ok c" "valid_visits vs"
  shows "cache_ok (add_answers (answers vs) c)" "watched (add_answers (answers vs) c) = map_of (answers vs) ++ watched c"
  using wl.add_all [OF assms(1), of "answers vs"] assms(2) by (auto simp: valid_visits_def)

text \<open>All roots: the answers of the traversals of those that are still monitored.\<close>

definition root_answers :: "dt_env \<Rightarrow> string option list \<Rightarrow> (int \<times> string) list" where
  "root_answers env rs = concat (map (\<lambda>r. case r of None \<Rightarrow> [] | Some p \<Rightarrow> answers (nftw env p)) rs)"

lemma watch_roots_frame:
  assumes "watch_roots env rs st = Inr st'" "valid_env env" "cache_ok (wlCache st)"
  shows "\<exists>n cs c. st' = st\<lparr>dirCnt := n, calls := cs, wlCache := c\<rparr> \<and> cache_ok c \<and>
    watched c = map_of (root_answers env rs) ++ watched (wlCache st)"
  using assms
proof (induction env rs st rule: watch_roots.induct)
  case (1 env st)
  then have "st' = st\<lparr>dirCnt := dirCnt st, calls := calls st, wlCache := wlCache st\<rparr>" by simp
  with "1.prems" show ?case unfolding root_answers_def by fastforce
next
  case (2 env ps st)
  then show ?case by (simp add: root_answers_def)
next
  case (3 env p ps st)
  from "3.prems"(1) obtain s1 where s1: "watchSubtree env p st = Inr s1" "watch_roots env ps s1 = Inr st'"
    by (auto simp: bindR_eq_Inr)
  have v: "valid_visits (nftw env p)" using "3.prems"(2) by (simp add: valid_env_def)
  obtain n cs where a: "s1 = st\<lparr>dirCnt := n, calls := cs, wlCache := add_answers (answers (nftw env p)) (wlCache st)\<rparr>"
    using watchSubtree_frame [OF s1(1) v] by blast
  note f = add_answers_facts [OF "3.prems"(3) v]
  have ok: "cache_ok (wlCache s1)" using f(1) by (simp add: a)
  obtain n' cs' c where b: "st' = s1\<lparr>dirCnt := n', calls := cs', wlCache := c\<rparr>" "cache_ok c"
    "watched c = map_of (root_answers env ps) ++ watched (wlCache s1)"
    using "3.IH" [OF s1(2) "3.prems"(2) ok] by blast
  have "st' = st\<lparr>dirCnt := n', calls := cs', wlCache := c\<rparr>" unfolding b(1) a by simp
  moreover have "watched c = map_of (root_answers env (Some p # ps)) ++ watched (wlCache st)"
    using b(3) f(2) by (simp add: a root_answers_def)
  ultimately show ?case using b(2) by blast
qed

lemma reinitialize_frame:
  assumes "reinitialize env fd st = Inr st'" "valid_env env"
  shows "\<exists>n cs c k. st' = st\<lparr>dirCnt := n, calls := cs, wlCache := c, reinitCnt := k, inotifyFd := inotify_init env\<rparr> \<and>
    cache_ok c \<and> watched c = map_of (root_answers env (rootDirPaths st)) \<and> inotify_init env \<noteq> -1"
proof -
  define s0 where "s0 = (if 0 \<le> fd then syscall (Close fd) (st\<lparr>reinitCnt := Suc (reinitCnt st)\<rparr>) else st\<lparr>reinitCnt := 0\<rparr>)"
  obtain k0 cs0 where s0: "s0 = st\<lparr>calls := cs0, reinitCnt := k0\<rparr>"
  proof (cases "0 \<le> fd")
    case True
    then show ?thesis using that [of "Suc (reinitCnt st)" "calls st @ [Close fd]"] by (simp add: s0_def syscall_def)
  next
    case False
    then show ?thesis using that [of 0 "calls st"] by (simp add: s0_def)
  qed
  let ?s1 = "s0\<lparr>inotifyFd := inotify_init env, wlCache := freeCache (wlCache s0)\<rparr>"
  have r: "inotify_init env \<noteq> -1" "watch_roots env (rootDirPaths s0) ?s1 = Inr st'"
    using assms(1) unfolding reinitialize_def s0_def [symmetric] Let_def by (auto split: if_splits)
  have "cache_ok (wlCache ?s1)" by (simp add: freeCache_def cache_ok_def)
  from watch_roots_frame [OF r(2) assms(2) this] obtain n cs c where
    "st' = ?s1\<lparr>dirCnt := n, calls := cs, wlCache := c\<rparr>" "cache_ok c" "watched c = map_of (root_answers env (rootDirPaths s0))"
    by (auto simp: freeCache_def watched_def)
  then show ?thesis using r(1) by (intro exI [of _ n] exI [of _ cs] exI [of _ c] exI [of _ k0]) (simp add: s0)
qed

lemma zapSubtree_frame:
  assumes "zapSubtree env p st = (n, st')"
  shows "\<exists>cs ws c. st' = st\<lparr>wlCache := c, calls := cs\<rparr> \<and> zap_slots (rm_watch env) p (wlCache st) = (n, ws, c)"
proof -
  obtain ws c where z: "zap_slots (rm_watch env) p (wlCache st) = (n, ws, c)"
    using assms by (auto simp: zapSubtree_def split: prod.split_asm)
  then have "st' = st\<lparr>wlCache := c, calls := calls st @ map (Rm_watch (inotifyFd st)) ws\<rparr>"
    using assms by (simp add: zapSubtree_def)
  with z show ?thesis by blast
qed

section \<open>The invariant\<close>

text \<open>
  The list is well formed, the counter of abandoned roots counts the cleared pathnames, and at
  least one root is still monitored.
\<close>

definition roots_ok :: "dtree \<Rightarrow> bool" where
  "roots_ok st \<longleftrightarrow> ignoreRootDirs st = length (filter (\<lambda>r. r = None) (rootDirPaths st)) \<and> ignoreRootDirs st < numRootDirs st"

definition dt_inv :: "dtree \<Rightarrow> bool" where
  "dt_inv st \<longleftrightarrow> cache_ok (wlCache st) \<and> roots_ok st"

definition outcome_state :: "outcome \<Rightarrow> dtree" where
  "outcome_state r = (case r of Fall n st \<Rightarrow> st | Return n st \<Rightarrow> st)"

definition valid_slot :: "ev_slot \<Rightarrow> dtree \<Rightarrow> bool" where
  "valid_slot sl st \<longleftrightarrow> (\<forall>j. sl = Slot j \<longrightarrow> j < length (wlCache st) \<and> 0 \<le> wd (wlCache st ! j))"

lemma outcome_state_simps [simp]: "outcome_state (Fall n st) = st" "outcome_state (Return n st) = st"
  by (simp_all add: outcome_state_def)

lemma roots_ok_frame [simp]:
  "roots_ok (st\<lparr>wlCache := c\<rparr>) = roots_ok st" "roots_ok (st\<lparr>calls := cs\<rparr>) = roots_ok st" "roots_ok (st\<lparr>dirCnt := n\<rparr>) = roots_ok st"
  "roots_ok (st\<lparr>reinitCnt := n\<rparr>) = roots_ok st" "roots_ok (st\<lparr>overflowCnt := n\<rparr>) = roots_ok st"
  "roots_ok (st\<lparr>inotifyReadCnt := n\<rparr>) = roots_ok st" "roots_ok (st\<lparr>inotifyFd := i\<rparr>) = roots_ok st"
  "roots_ok (st\<lparr>logfp := l\<rparr>) = roots_ok st" "roots_ok (st\<lparr>verboseMask := i\<rparr>) = roots_ok st"
  "roots_ok (st\<lparr>dumpCache := b\<rparr>) = roots_ok st" "roots_ok (st\<lparr>checkCache := b\<rparr>) = roots_ok st"
  "roots_ok (st\<lparr>written := ws\<rparr>) = roots_ok st"
  by (simp_all add: roots_ok_def numRootDirs_def)

lemma dt_inv_frame [simp]:
  "dt_inv (st\<lparr>verboseMask := i\<rparr>) = dt_inv st" "dt_inv (st\<lparr>dumpCache := b\<rparr>) = dt_inv st"
  "dt_inv (st\<lparr>checkCache := b\<rparr>) = dt_inv st" "dt_inv (st\<lparr>written := ws\<rparr>) = dt_inv st"
  by (simp_all add: dt_inv_def)

lemma count_cleared:
  assumes "k < length xs" "xs ! k \<noteq> None"
  shows "length (filter (\<lambda>r. r = None) (xs[k := None])) = Suc (length (filter (\<lambda>r. r = None) xs))"
proof -
  have "filter (\<lambda>r. r = None) xs = filter (\<lambda>r. r = None) (take k xs) @ filter (\<lambda>r. r = None) (drop (Suc k) xs)"
    by (subst id_take_nth_drop [OF assms(1)]) (simp add: assms(2))
  then show ?thesis using assms(1) by (simp add: upd_conv_take_nth_drop)
qed

lemma zapRootDirPath_inv:
  assumes "zapRootDirPath p st = Inr st'" "roots_ok st"
  shows "roots_ok st'" "wlCache st' = wlCache st" "rootDirPaths st' \<noteq> rootDirPaths st"
proof -
  obtain k where k: "findRootDirPath p st = Some k" using assms(1) by (cases "findRootDirPath p st") (auto simp: zapRootDirPath_def)
  then have f: "k < length (rootDirPaths st)" "rootDirPaths st ! k = Some p"
    using find_slot_Some unfolding findRootDirPath_def by fastforce+
  have c: "length (filter (\<lambda>r. r = None) ((rootDirPaths st)[k := None])) = Suc (length (filter (\<lambda>r. r = None) (rootDirPaths st)))"
    using count_cleared [OF f(1)] f(2) by simp
  have s: "st' = st\<lparr>rootDirPaths := (rootDirPaths st)[k := None], ignoreRootDirs := Suc (ignoreRootDirs st)\<rparr>"
    "Suc (ignoreRootDirs st) \<noteq> numRootDirs st"
    using assms(1) by (auto simp: zapRootDirPath_def k Let_def numRootDirs_def split: if_splits)
  show "roots_ok st'" using assms(2) s c by (simp add: roots_ok_def numRootDirs_def)
  show "wlCache st' = wlCache st" by (simp add: s(1))
  have "(rootDirPaths st)[k := None] ! k \<noteq> rootDirPaths st ! k" using f by simp
  then show "rootDirPaths st' \<noteq> rootDirPaths st" unfolding s(1) by (metis dtree.select_convs(2) dtree.surjective dtree.update_convs(2,3))
qed

lemma watchSubtree_inv:
  assumes "watchSubtree env p st = Inr st'" "valid_env env" "dt_inv st"
  shows "dt_inv st'"
proof -
  have v: "valid_visits (nftw env p)" using assms(2) by (simp add: valid_env_def)
  from watchSubtree_frame [OF assms(1) v] show ?thesis
    using assms(3) add_answers_facts(1) [OF _ v, of "wlCache st"] by (auto simp: dt_inv_def)
qed

lemma zapSubtree_inv:
  assumes "zapSubtree env p st = (n, st')" "dt_inv st"
  shows "dt_inv st'"
  using zapSubtree_frame [OF assms(1)] zap_slots_ok assms(2) by (auto simp: dt_inv_def)

lemma reinitialize_inv:
  assumes "reinitialize env fd st = Inr st'" "valid_env env" "roots_ok st"
  shows "dt_inv st'"
  using reinitialize_frame [OF assms(1,2)] assms(3) by (auto simp: dt_inv_def)

lemma rebuild_inv:
  assumes "rebuild env st = Inr r" "valid_env env" "roots_ok st"
  shows "dt_inv (outcome_state r)"
  using assms reinitialize_inv unfolding rebuild_def by (auto simp: bindR_eq_Inr)

lemma slot_clear_inv:
  assumes "slot_clear sl st = Inr st'" "valid_slot sl st" "dt_inv st"
  shows "dt_inv st'"
  using assms markCacheSlotEmpty_facts(1) by (auto simp: slot_clear_def valid_slot_def dt_inv_def split: ev_slot.splits)

lemma ev_created_inv:
  assumes "ev_created env ev sl st = Inr r" "valid_env env" "dt_inv st"
  shows "dt_inv (outcome_state r)"
proof -
  obtain p s1 where p: "(if pathnameInCache p (wlCache st) then Inr st else watchSubtree env p st) = Inr s1"
    "r = Fall (event_size ev) s1"
    using assms(1) unfolding ev_created_def Let_def by (auto simp only: bindR_eq_Inr sum.inject)
  then show ?thesis using watchSubtree_inv [OF _ assms(2,3)] assms(3) by (auto split: if_split_asm)
qed

lemma ev_deleted_inv:
  assumes "ev_deleted ev sl st = Inr r" "valid_slot sl st" "dt_inv st"
  shows "dt_inv (outcome_state r)"
proof -
  obtain d s1 s2 where d: "(if isRootDirPath d st then zapRootDirPath d st else Inr st) = Inr s1" "slot_clear sl s1 = Inr s2"
    "r = Fall (event_size ev) s2"
    using assms(1) unfolding ev_deleted_def by (auto simp: bindR_eq_Inr)
  have "dt_inv s1 \<and> wlCache s1 = wlCache st"
    using d(1) zapRootDirPath_inv assms(3) by (auto simp: dt_inv_def split: if_splits)
  then have "dt_inv s1" "valid_slot sl s1" using assms(2) by (simp_all add: valid_slot_def)
  from slot_clear_inv [OF d(2) this(2,1)] show ?thesis by (simp add: d(3))
qed

lemma ev_renamed_inv:
  assumes "ev_renamed env ev nextEv sl st = Inr r" "valid_env env" "dt_inv st"
  shows "dt_inv (outcome_state r)"
proof -
  obtain x where x: "findWatchChecked (ev_wd nextEv) st = Inr x" using assms(1) by (auto simp: ev_renamed_def bindR_eq_Inr)
  show ?thesis
  proof (cases x)
    case None
    then show ?thesis using assms x rebuild_inv by (simp add: ev_renamed_def dt_inv_def)
  next
    case (Some k)
    then show ?thesis
      using assms(1,3) x rewriteCachedPaths_facts(1) by (auto simp: ev_renamed_def bindR_eq_Inr dt_inv_def)
  qed
qed

lemma zap_or_rebuild_inv:
  assumes "(let (n, s) = zapSubtree env p st in if n = None then rebuild env s else Inr (Fall k s)) = Inr r"
    "valid_env env" "dt_inv st"
  shows "dt_inv (outcome_state r)"
proof -
  obtain n s where z: "zapSubtree env p st = (n, s)" by fastforce
  have i: "dt_inv s" by (rule zapSubtree_inv [OF z assms(3)])
  show ?thesis using assms(1,2) i rebuild_inv by (auto simp: z dt_inv_def split: if_splits)
qed

lemma ev_moved_out_inv:
  assumes "ev_moved_out env ev sl st = Inr r" "valid_env env" "dt_inv st"
  shows "dt_inv (outcome_state r)"
  using assms zap_or_rebuild_inv unfolding ev_moved_out_def by (auto simp only: bindR_eq_Inr)

lemma ev_moved_from_inv:
  assumes "ev_moved_from env ev rest n firstTry sl st = Inr r" "valid_env env" "dt_inv st"
  shows "dt_inv (outcome_state r)"
  using assms ev_renamed_inv ev_moved_out_inv unfolding ev_moved_from_def
  by (auto split: if_splits list.splits)

lemma ev_overflow_inv:
  assumes "ev_overflow env st = Inr r" "valid_env env" "dt_inv st"
  shows "dt_inv (outcome_state r)"
  using assms reinitialize_inv unfolding ev_overflow_def by (auto simp: bindR_eq_Inr Let_def dt_inv_def)

lemma ev_move_self_inv:
  assumes "ev_move_self env ev sl st = Inr r" "valid_env env" "dt_inv st"
  shows "dt_inv (outcome_state r)"
proof -
  obtain d where d: "(if \<not> isRootDirPath d st then Inr (Fall (event_size ev) st)
     else bindR (zapRootDirPath d st) (\<lambda>st. let (n, st) = zapSubtree env d st
          in if n = None then rebuild env st else Inr (Fall (event_size ev) st))) = Inr r"
    using assms(1) unfolding ev_move_self_def by (auto simp only: bindR_eq_Inr)
  show ?thesis
  proof (cases "isRootDirPath d st")
    case False
    then show ?thesis using d assms(3) by auto
  next
    case True
    with d obtain s1 where s1: "zapRootDirPath d st = Inr s1"
      "(let (n, st) = zapSubtree env d s1 in if n = None then rebuild env st else Inr (Fall (event_size ev) st)) = Inr r"
      by (auto simp only: bindR_eq_Inr not_True_eq_False if_False)
    have "dt_inv s1" using zapRootDirPath_inv [OF s1(1)] assms(3) by (simp add: dt_inv_def)
    with zap_or_rebuild_inv [OF s1(2) assms(2)] show ?thesis by blast
  qed
qed

lemma handle_event_inv:
  assumes "handle_event env ev rest n firstTry sl st = Inr r" "valid_env env" "dt_inv st" "valid_slot sl st"
  shows "dt_inv (outcome_state r)"
  using assms(1) unfolding handle_event_def
  by (auto simp: assms(3) bindR_eq_Inr split: if_split_asm
      intro: ev_created_inv [OF _ assms(2,3)] ev_deleted_inv [OF _ assms(4,3)] ev_moved_from_inv [OF _ assms(2,3)]
        ev_overflow_inv [OF _ assms(2,3)] slot_clear_inv [OF _ assms(4,3)] ev_move_self_inv [OF _ assms(2,3)])

lemma event_slot_valid:
  assumes "event_slot ev st = Inr sl" "dt_inv st"
  shows "valid_slot sl st"
proof -
  have "j < length (wlCache st) \<and> 0 \<le> wd (wlCache st ! j)"
    if "findWatch w (wlCache st) = Some j" "w \<noteq> -1" for w j
  proof -
    have j: "j < length (wlCache st)" "wd (wlCache st ! j) = w" using find_slot_Some [OF that(1) [unfolded findWatch_def]] by auto
    then have "0 \<le> w \<or> wlCache st ! j = empty_slot"
      using assms(2) nth_mem [OF j(1)] unfolding dt_inv_def cache_ok_def by auto
    with j that(2) show ?thesis by auto
  qed
  then show ?thesis using assms(1)
    by (auto simp: event_slot_def valid_slot_def bindR_eq_Inr findWatchChecked_def createStopFileAndAbort_def dumpCacheToLog_def
        split: if_split_asm option.split_asm)
qed

lemma checks_inv:
  assumes "bindR (if checkCache st then checkCacheConsistency env st else Inr st) (\<lambda>st.
      bindR (if dumpCache st then dumpCacheToLog st else Inr st) (\<lambda>st. Inr (n, st))) = Inr (m, st')" "dt_inv st"
  shows "dt_inv st'" "m = n"
proof -
  obtain s1 where s1: "(if checkCache st then checkCacheConsistency env st else Inr st) = Inr s1"
    "(if dumpCache s1 then dumpCacheToLog s1 else Inr s1) = Inr st'" "m = n"
    using assms(1) by (auto simp: bindR_eq_Inr)
  have "s1 = st" using s1(1) by (auto simp: checkCacheConsistency_def split: if_split_asm)
  with s1(2) assms(2) show "dt_inv st'" by (auto simp: dumpCacheToLog_def dt_inv_def split: if_split_asm option.split_asm)
  show "m = n" by (rule s1(3))
qed

lemma processNextInotifyEvent_cases:
  assumes "processNextInotifyEvent env (ev # rest) n firstTry st = Inr (m, st')"
  obtains sl r where "event_slot ev st = Inr sl"
    "(if sl = Lost then rebuild env st else handle_event env ev rest n firstTry sl st) = Inr r"
    "r = Return m st' \<or> (\<exists>k s1. r = Fall k s1 \<and>
      bindR (if checkCache s1 then checkCacheConsistency env s1 else Inr s1) (\<lambda>st.
      bindR (if dumpCache st then dumpCacheToLog st else Inr st) (\<lambda>st. Inr (k, st))) = Inr (m, st'))"
proof -
  obtain sl where sl: "event_slot ev st = Inr sl"
    using assms by (cases "event_slot ev st") (simp_all add: processNextInotifyEvent_def)
  obtain r where r: "(if sl = Lost then rebuild env st else handle_event env ev rest n firstTry sl st) = Inr r"
    using assms unfolding processNextInotifyEvent_def list.case sl bindR_Inr
    by (cases "if sl = Lost then rebuild env st else handle_event env ev rest n firstTry sl st") simp_all
  show ?thesis
    using assms unfolding processNextInotifyEvent_def list.case sl bindR_Inr r
    by (cases r) (auto intro: that [OF sl r])
qed

lemma processNextInotifyEvent_inv:
  assumes "processNextInotifyEvent env buf n firstTry st = Inr (m, st')" "valid_env env" "dt_inv st"
  shows "dt_inv st'"
proof (cases buf)
  case Nil
  then show ?thesis using assms(1) by (simp add: processNextInotifyEvent_def)
next
  case (Cons ev rest)
  from assms(1) [unfolded Cons] show ?thesis
  proof (cases rule: processNextInotifyEvent_cases)
    case (1 sl r)
    have "dt_inv (outcome_state r)"
      using "1"(2) handle_event_inv [OF _ assms(2,3) event_slot_valid [OF "1"(1) assms(3)]] rebuild_inv [OF _ assms(2)] assms(3)
      by (auto simp: dt_inv_def split: if_split_asm)
    with "1"(3) show ?thesis using checks_inv(1) by auto
  qed
qed

lemma process_buffer_inv:
  assumes "process_buffer fuel envs later evs n firstTry st = Some (Inr st')" "\<forall>k. valid_env (envs k)" "dt_inv st"
  shows "dt_inv st'"
  using assms
proof (induction fuel arbitrary: envs later evs n firstTry st)
  case 0
  then show ?case by (auto split: if_splits)
next
  case (Suc fuel)
  show ?case
  proof (cases "n \<le> 0")
    case True
    then show ?thesis using Suc.prems by simp
  next
    case False
    then obtain m s1 where s1: "processNextInotifyEvent (envs 0) evs n firstTry st = Inr (m, s1)"
      using Suc.prems(1) by (cases "processNextInotifyEvent (envs 0) evs n firstTry st") auto
    have i: "dt_inv s1" using processNextInotifyEvent_inv [OF s1] Suc.prems(2,3) by blast
    show ?thesis
    proof (cases "0 < m")
      case True
      then show ?thesis using Suc.prems(1,2) False s1 Suc.IH [OF _ _ i, of "\<lambda>k. envs (Suc k)"] by simp
    next
      case F: False
      obtain e k s2 where s2: "second_read (next_answer later) evs n s1 = Inr (e, k, s2)"
        using Suc.prems(1) False s1 F by (cases "second_read (next_answer later) evs n s1") auto
      have "dt_inv s2" using s2 i by (auto simp: second_read_def dt_inv_def split: read_answer.split_asm)
      with Suc.IH [OF _ _ this, of "\<lambda>k. envs (Suc k)"] Suc.prems(1,2) False s1 F s2 show ?thesis by simp
    qed
  qed
qed

lemma processInotifyEvents_inv:
  assumes "processInotifyEvents fuel envs first later st = Some (Inr st')" "\<forall>k. valid_env (envs k)" "dt_inv st"
  shows "dt_inv st'"
  using assms(1) process_buffer_inv [OF _ assms(2), of _ _ _ _ _ "st\<lparr>inotifyReadCnt := Suc (inotifyReadCnt st)\<rparr>"] assms(3)
  by (auto simp: processInotifyEvents_def dt_inv_def split: read_answer.split_asm if_split_asm)

end
