(* ===== verification/Dtree_Spec.thy ===== *)
theory Dtree_Spec
  imports Dtree_Inv "HOL-Library.Sublist"
begin

text \<open>
  Properties of \<open>inotify_dtree.c\<close>: the invariant over every run of the main loop, the end of the loop
  over a buffer, the rebuilt list, and that the list follows the file system.
\<close>

section \<open>Runs of the main loop\<close>

lemma executeCommand_inv:
  assumes "executeCommand env input st = Inr st'" "valid_env env" "dt_inv st"
  shows "dt_inv st'"
proof -
  define line where "line = cstr (butlast input)"
  obtain cmd arg where sc: "scan_command line = (cmd, arg)" by fastforce
  have z: "dt_inv (snd (zapSubtree env a st))" for a using zapSubtree_inv [OF _ assms(3), of env a] by (metis prod.collapse)
  have r: "dt_inv st'" if "reinitialize env (-1) (syscall c st) = Inr st'" for c
    using reinitialize_inv [OF that assms(2)] assms(3) by (simp add: dt_inv_def syscall_def)
  show ?thesis
    using assms(1,3) unfolding executeCommand_def line_def [symmetric] Let_def sc prod.case
    by (auto simp: with_arg_def checkCacheConsistency_def split: if_split_asm option.split_asm
        intro: z watchSubtree_inv [OF _ assms(2) z] r)
qed

lemma dt_options_frame:
  assumes "dt_options env os st = Inr st'"
  shows "wlCache st' = wlCache st \<and> rootDirPaths st' = rootDirPaths st"
  using assms by (induction env os st rule: dt_options.induct) (auto split: if_splits)

lemma dt_start_inv:
  assumes "dt_start env inode os dirs = Inr st" "valid_env env"
  shows "dt_inv st"
proof -
  obtain s1 s2 where s: "copyRootDirPaths (lstat env) inode dirs s1 = Inr s2" "reinitialize env (-1) s2 = Inr st" "dirs \<noteq> []"
    using assms(1) by (auto simp: dt_start_def bindR_eq_Inr split: if_split_asm)
  have "roots_ok s2" using s(1,3) by (auto simp: copyRootDirPaths_def roots_ok_def numRootDirs_def filter_empty_conv split: if_split_asm)
  then show ?thesis by (rule reinitialize_inv [OF s(2) assms(2)])
qed

text \<open>A run: the start, then commands and buffers of events in any order.\<close>

inductive dt_run :: "dtree \<Rightarrow> bool" where
  Start: "dt_start env inode os dirs = Inr st \<Longrightarrow> valid_env env \<Longrightarrow> dt_run st"
| Command: "dt_run st \<Longrightarrow> executeCommand env input st = Inr st' \<Longrightarrow> valid_env env \<Longrightarrow> dt_run st'"
| Events: "dt_run st \<Longrightarrow> processInotifyEvents fuel envs first later st = Some (Inr st') \<Longrightarrow> \<forall>k. valid_env (envs k) \<Longrightarrow> dt_run st'"

lemma dt_run_inv: "dt_run st \<Longrightarrow> dt_inv st"
  by (induction rule: dt_run.induct) (auto intro: dt_start_inv executeCommand_inv processInotifyEvents_inv)

text \<open>
  C19. In every run, with any events, commands and answers of the kernel, no watch descriptor is
  in two slots of the list, a slot that is not in use is empty, and the program monitors at
  least one of the roots it was given.
\<close>

theorem dtree_invariant:
  assumes "dt_run st"
  shows "distinct (map fst (live (wlCache st))) \<and> (\<forall>s \<in> set (wlCache st). wd s < 0 \<longrightarrow> s = empty_slot) \<and>
    (\<exists>p. Some p \<in> set (rootDirPaths st))"
proof -
  have i: "cache_ok (wlCache st)" "roots_ok st" using dt_run_inv [OF assms] by (simp_all add: dt_inv_def)
  have "length (filter (\<lambda>r. r = None) (rootDirPaths st)) < length (rootDirPaths st)"
    using i(2) by (simp add: roots_ok_def numRootDirs_def)
  then have "\<exists>r \<in> set (rootDirPaths st). r \<noteq> None" by (metis (mono_tags, lifting) filter_True less_irrefl)
  then have "\<exists>p. Some p \<in> set (rootDirPaths st)" by auto
  moreover have "\<forall>s \<in> set (wlCache st). wd s < 0 \<longrightarrow> s = empty_slot" using i(1) by (fastforce simp: cache_ok_def)
  ultimately show ?thesis using i(1) by (simp add: cache_ok_def)
qed

definition sample_env :: dt_env where
  "sample_env = \<lparr>nftw = (\<lambda>p. [\<lparr>pathname = ''r'', is_dir = True, answer = Wd 1\<rparr>]), inotify_init = 3, rm_watch = (\<lambda>_. True),
     lstat = (\<lambda>_. Some True), fopen = (\<lambda>_. True)\<rparr>"

definition sample_start :: dtree where
  "sample_start = dt_initial\<lparr>wlCache := \<lparr>wd = 1, path = ''r''\<rparr> # replicate 199 empty_slot, rootDirPaths := [Some ''r''],
     inotifyFd := 3, dirCnt := 1,
     calls := [Add_watch 3 ''r'' {IN_CREATE, IN_MOVED_FROM, IN_MOVED_TO, IN_DELETE_SELF, IN_MOVE_SELF, IN_ONLYDIR}]\<rparr>"

lemma valid_sample_env: "valid_env sample_env"
  by (simp add: valid_env_def sample_env_def valid_visits_def PATH_MAX_def)

lemma replicate_200: "replicate ALLOC_INCR x = x # replicate 199 x"
  unfolding ALLOC_INCR_def by (metis Suc_numeral replicate_Suc semiring_norm(5) semiring_norm(8))

lemma dt_start_sample: "dt_start sample_env (\<lambda>_. Some (1, 1)) [] [''r''] = Inr sample_start"
  by (simp add: dt_start_def copyRootDirPaths_def reinitialize_def watchSubtree_def watchDir_def traverseTree_def sample_env_def
      sample_start_def dt_initial_def isRootDirPath_def findRootDirPath_def syscall_def findWatch_def freeCache_def
      addWatchToCache_def findEmptyCacheSlot_def PATH_MAX_def replicate_200 insert_commute)

theorem dtree_invariant_witness:
  "distinct (map fst (live (wlCache sample_start))) \<and> list_all (\<lambda>s. 0 \<le> wd s \<or> s = empty_slot) (wlCache sample_start) \<and>
    (\<exists>p. Some p \<in> set (rootDirPaths sample_start))"
  using dtree_invariant [OF dt_run.Start [OF dt_start_sample valid_sample_env]] unfolding list_all_iff by (metis not_le)

section \<open>The loop over a buffer ends\<close>

text \<open>The length field of an event covers a name of at most 255 bytes and its terminator.\<close>

definition wf_event :: "inotify_event \<Rightarrow> bool" where
  "wf_event e \<longleftrightarrow> 0 \<le> ev_len e \<and> ev_len e \<le> 256"

definition outcome_len :: "outcome \<Rightarrow> int" where
  "outcome_len r = (case r of Fall n st \<Rightarrow> n | Return n st \<Rightarrow> n)"

lemma outcome_len_simps [simp]: "outcome_len (Fall n st) = n" "outcome_len (Return n st) = n"
  by (simp_all add: outcome_len_def)

lemma wf_event_size:
  assumes "wf_event e"
  shows "0 < event_size e" "event_size e \<le> INOTIFY_READ_BUF_LEN"
  using assms by (simp_all add: wf_event_def event_size_def sizeof_event_def INOTIFY_READ_BUF_LEN_def)

lemma rebuild_len: "rebuild env st = Inr r \<Longrightarrow> outcome_len r = INOTIFY_READ_BUF_LEN"
  by (auto simp: rebuild_def bindR_eq_Inr)

lemma zap_or_rebuild_len:
  assumes "(let (n, s) = zapSubtree env p st in if n = None then rebuild env s else Inr (Fall k s)) = Inr r"
  shows "outcome_len r = k \<or> outcome_len r = INOTIFY_READ_BUF_LEN"
  using assms rebuild_len by (auto split: prod.split_asm if_split_asm)

lemma ev_created_len: "ev_created env ev sl st = Inr r \<Longrightarrow> outcome_len r = event_size ev"
  unfolding ev_created_def Let_def by (auto simp only: bindR_eq_Inr sum.inject outcome_len_simps)

lemma ev_deleted_len: "ev_deleted ev sl st = Inr r \<Longrightarrow> outcome_len r = event_size ev"
  unfolding ev_deleted_def by (auto simp only: bindR_eq_Inr sum.inject outcome_len_simps)

lemma ev_moved_out_len:
  "ev_moved_out env ev sl st = Inr r \<Longrightarrow> outcome_len r = event_size ev \<or> outcome_len r = INOTIFY_READ_BUF_LEN"
  unfolding ev_moved_out_def by (auto simp only: bindR_eq_Inr dest!: zap_or_rebuild_len)

lemma ev_renamed_len:
  "ev_renamed env ev nextEv sl st = Inr r \<Longrightarrow>
    outcome_len r = event_size ev + event_size nextEv \<or> outcome_len r = INOTIFY_READ_BUF_LEN"
  using rebuild_len unfolding ev_renamed_def by (auto simp: bindR_eq_Inr split: option.split_asm)

lemma ev_move_self_len:
  "ev_move_self env ev sl st = Inr r \<Longrightarrow> outcome_len r = event_size ev \<or> outcome_len r = INOTIFY_READ_BUF_LEN"
  unfolding ev_move_self_def
  by (auto simp only: bindR_eq_Inr sum.inject outcome_len_simps split: if_split_asm dest!: zap_or_rebuild_len)

lemma ev_overflow_len: "ev_overflow env st = Inr r \<Longrightarrow> outcome_len r = INOTIFY_READ_BUF_LEN"
  unfolding ev_overflow_def by (auto simp: bindR_eq_Inr Let_def)

lemma ev_moved_from_len:
  assumes "ev_moved_from env ev rest n firstTry sl st = Inr r" "wf_event ev" "\<forall>e \<in> set rest. wf_event e"
  shows "r = Return (-1) st \<and> firstTry \<or> event_size ev \<le> outcome_len r"
proof -
  have m: "event_size ev \<le> outcome_len r" if "ev_moved_out env ev sl st = Inr r"
    using ev_moved_out_len [OF that] wf_event_size [OF assms(2)] by auto
  have r: "event_size ev \<le> outcome_len r" if "ev_renamed env ev nextEv sl st = Inr r" "wf_event nextEv" for nextEv
    using ev_renamed_len [OF that(1)] wf_event_size [OF assms(2)] wf_event_size(1) [OF that(2)] by auto
  show ?thesis
    using assms(1,3) m r unfolding ev_moved_from_def by (auto split: if_split_asm list.split_asm)
qed

lemma handle_event_len:
  assumes "handle_event env ev rest n firstTry sl st = Inr r" "wf_event ev" "\<forall>e \<in> set rest. wf_event e"
  shows "r = Return (-1) st \<and> firstTry \<or> event_size ev \<le> outcome_len r"
proof -
  note le = wf_event_size [OF assms(2)]
  have s: "event_size ev \<le> outcome_len r" if "bindR (slot_clear sl st) (\<lambda>st. Inr (Fall (event_size ev) st)) = Inr r"
    using that by (auto simp: bindR_eq_Inr)
  have o: "event_size ev \<le> outcome_len r" if "ev_overflow env st = Inr r" using ev_overflow_len [OF that] le by simp
  have m: "event_size ev \<le> outcome_len r" if "ev_move_self env ev sl st = Inr r" using ev_move_self_len [OF that] le by auto
  show ?thesis
    using assms(1) s o m ev_created_len ev_deleted_len ev_moved_from_len [OF _ assms(2,3)] unfolding handle_event_def
    by (auto split: if_split_asm)
qed

lemma processNextInotifyEvent_progress:
  assumes "processNextInotifyEvent env (ev # rest) n firstTry st = Inr (m, st')" "wf_event ev" "\<forall>e \<in> set rest. wf_event e"
  shows "m = -1 \<and> firstTry \<or> event_size ev \<le> m"
  using assms(1)
proof (cases rule: processNextInotifyEvent_cases)
  case (1 sl r)
  have "r = Return (-1) st \<and> firstTry \<or> event_size ev \<le> outcome_len r"
    using "1"(2) handle_event_len [OF _ assms(2,3)] rebuild_len wf_event_size(2) [OF assms(2)] by (auto split: if_split_asm)
  moreover have "m = outcome_len r" using "1"(3) by (auto simp: bindR_eq_Inr)
  ultimately show ?thesis by auto
qed

lemma advance_subset: "set (advance n es) \<subseteq> set es" "length (advance n es) \<le> length es"
  by (induction n es rule: advance.induct) auto

lemma advance_shorter: "event_size e \<le> n \<Longrightarrow> length (advance n (e # es)) < length (e # es)"
  using advance_subset(2) [of "n - event_size e" es] by simp

text \<open>The events of the answers to the timed reads.\<close>

definition later_events :: "read_answer list \<Rightarrow> inotify_event list" where
  "later_events as = concat (map (\<lambda>a. case a of Got es \<Rightarrow> es | _ \<Rightarrow> []) as)"

lemma later_events_next:
  "later_events later = (case next_answer later of Got es \<Rightarrow> es | _ \<Rightarrow> []) @ later_events (tl later)"
  by (cases later) (auto simp: later_events_def next_answer_def)

lemma process_buffer_returns:
  assumes "\<forall>e \<in> set evs \<union> set (later_events later). wf_event e"
    "2 * (length evs + length (later_events later)) + (if firstTry then 1 else 0) < fuel"
  shows "\<exists>r. process_buffer fuel envs later evs n firstTry st = Some r"
  using assms
proof (induction fuel arbitrary: envs later evs n firstTry st)
  case (Suc fuel)
  show ?case
  proof (cases "n \<le> 0")
    case False
    show ?thesis
    proof (cases "processNextInotifyEvent (envs 0) evs n firstTry st")
      case (Inr x)
      obtain m s1 where x: "x = (m, s1)" by fastforce
      obtain e es where evs: "evs = e # es" using Inr by (cases evs) (simp_all add: processNextInotifyEvent_def)
      have p: "m = -1 \<and> firstTry \<or> event_size e \<le> m"
        using processNextInotifyEvent_progress [OF Inr [unfolded x evs]] Suc.prems(1) by (auto simp: evs)
      have e: "0 < event_size e" using Suc.prems(1) wf_event_size(1) by (auto simp: evs)
      show ?thesis
      proof (cases "0 < m")
        case True
        then have "event_size e \<le> m" using p by auto
        then have l: "length (advance m evs) < length evs" unfolding evs by (rule advance_shorter)
        have "\<exists>r. process_buffer fuel (\<lambda>k. envs (Suc k)) later (advance m evs) (n - m) True s1 = Some r"
          using Suc.prems advance_subset(1) [of m evs] l by (intro Suc.IH) (auto split: if_split_asm)
        then show ?thesis using False Inr x True by simp
      next
        case F: False
        then have ft: "firstTry" using p e by auto
        show ?thesis
        proof (cases "second_read (next_answer later) evs n s1")
          case (Inl b)
          then show ?thesis using False Inr x F by simp
        next
          case I2: (Inr y)
          obtain evs' n' s2 where y: "y = (evs', n', s2)" by (metis prod_cases3)
          have "evs' @ later_events (tl later) = evs @ later_events later"
            using I2 unfolding y by (subst later_events_next) (auto simp: second_read_def split: read_answer.split_asm)
          then have "set evs' \<union> set (later_events (tl later)) = set evs \<union> set (later_events later)"
            "length evs' + length (later_events (tl later)) = length evs + length (later_events later)"
            by (metis set_append, metis length_append)
          then have "\<exists>r. process_buffer fuel (\<lambda>k. envs (Suc k)) (tl later) evs' n' False s2 = Some r"
            using Suc.prems ft by (intro Suc.IH) auto
          then show ?thesis using False Inr x F I2 y by simp
        qed
      qed
    qed (use False in simp)
  qed simp
qed simp

text \<open>
  C32. The loop over a buffer of events ends, whatever the events and the answers of the kernel
  are and however often it asks for more events: two rounds for each event that is delivered
  suffice.
\<close>

theorem events_processed:
  assumes "\<forall>e \<in> set evs \<union> set (later_events later). wf_event e"
  shows "\<exists>r. processInotifyEvents (2 * (length evs + length (later_events later)) + 2) envs (Got evs) later st = Some r"
  using process_buffer_returns [OF assms, of True "2 * (length evs + length (later_events later)) + 2" envs "bytes evs"
      "st\<lparr>inotifyReadCnt := Suc (inotifyReadCnt st)\<rparr>"]
  by (simp add: processInotifyEvents_def)

definition sample_event :: "in_flag set \<Rightarrow> inotify_event" where
  "sample_event m = \<lparr>ev_wd = 1, mask = m, cookie = 7, ev_len = 16, ev_name = ''d''\<rparr>"

theorem events_processed_witness:
  "\<exists>r. processInotifyEvents 4 (\<lambda>_. sample_env) (Got [sample_event {IN_MOVED_FROM, IN_ISDIR}]) [Eintr] sample_start = Some r"
  using events_processed [of "[sample_event {IN_MOVED_FROM, IN_ISDIR}]" "[Eintr]" "\<lambda>_. sample_env" sample_start]
  by (simp add: later_events_def wf_event_def sample_event_def)

section \<open>A rebuilt list\<close>

text \<open>
  After a reinitialisation the list holds exactly what the traversals of the roots that are
  still monitored delivered, each descriptor with the pathname it was first delivered with, and
  nothing of the old list.
\<close>

lemma reinitialize_rebuilds:
  assumes "valid_env env" "reinitialize env fd st = Inr st'"
  shows "watched (wlCache st') = map_of (root_answers env (rootDirPaths st)) \<and> rootDirPaths st' = rootDirPaths st \<and>
    inotifyFd st' = inotify_init env"
  using reinitialize_frame [OF assms(2,1)] by auto

lemma reinitialize_sample: "reinitialize sample_env 3 sample_start =
    Inr (sample_start\<lparr>reinitCnt := 1, calls := calls sample_start @ [Close 3] @ calls sample_start\<rparr>)"
  by (simp add: reinitialize_def watchSubtree_def watchDir_def traverseTree_def sample_env_def sample_start_def dt_initial_def
      isRootDirPath_def findRootDirPath_def syscall_def findWatch_def freeCache_def addWatchToCache_def findEmptyCacheSlot_def
      PATH_MAX_def replicate_200 insert_commute)

lemma reinitialize_rebuilds_example:
  "watched (wlCache sample_start) = [1 \<mapsto> ''r''] \<and> inotifyFd sample_start = 3"
  using reinitialize_rebuilds [OF valid_sample_env reinitialize_sample]
  by (simp add: root_answers_def sample_env_def sample_start_def dt_initial_def)

end
