(* ===== verification/Dtree_Mirror.thy ===== *)
theory Dtree_Mirror
  imports Dtree_Spec
begin

text \<open>
  The watch list of \<open>inotify_dtree.c\<close> follows the directories. A directory is a list of names; the
  test and the replacement of pathnames as texts are shown to be those of lists of names, and
  the events of a change of the tree make the list of pathnames that of the changed tree.
\<close>

section \<open>Pathnames and lists of names\<close>

fun pathstr :: "string list \<Rightarrow> string" where
  "pathstr [] = []"
| "pathstr [n] = n"
| "pathstr (n # m # ns) = n @ CHR ''/'' # pathstr (m # ns)"

fun split_slash :: "string \<Rightarrow> string list" where
  "split_slash [] = [[]]"
| "split_slash (c # cs) =
     (if c = CHR ''/'' then [] # split_slash cs else case split_slash cs of h # t \<Rightarrow> (c # h) # t | [] \<Rightarrow> [])"

definition slash_free :: "string list \<Rightarrow> bool" where
  "slash_free ns \<longleftrightarrow> (\<forall>n \<in> set ns. CHR ''/'' \<notin> set n)"

lemma pathstr_append: "xs \<noteq> [] \<Longrightarrow> ys \<noteq> [] \<Longrightarrow> pathstr (xs @ ys) = pathstr xs @ CHR ''/'' # pathstr ys"
proof (induction xs rule: pathstr.induct)
  case (2 n)
  then show ?case by (cases ys) auto
qed auto

lemma split_nonempty: "split_slash s \<noteq> []"
  by (induction s) (auto split: list.split)

lemma split_append: "split_slash (s @ CHR ''/'' # t) = split_slash s @ split_slash t"
proof (induction s)
  case (Cons c s)
  show ?case using split_nonempty [of s] by (cases "split_slash s") (auto simp: Cons.IH)
qed simp

lemma split_name: "CHR ''/'' \<notin> set n \<Longrightarrow> split_slash n = [n]"
  by (induction n) auto

lemma split_pathstr: "slash_free ns \<Longrightarrow> ns \<noteq> [] \<Longrightarrow> split_slash (pathstr ns) = ns"
  by (induction ns rule: pathstr.induct) (auto simp: slash_free_def split_name split_append)

lemma below_pathstr:
  assumes "slash_free xs" "xs \<noteq> []" "slash_free ys" "ys \<noteq> []"
  shows "below (pathstr xs) (pathstr ys) \<longleftrightarrow> prefix xs ys"
proof
  assume b: "below (pathstr xs) (pathstr ys)"
  show "prefix xs ys"
  proof (cases "length (pathstr ys) = length (pathstr xs)")
    case True
    then have "pathstr ys = pathstr xs" using b by (simp add: below_def)
    then have "ys = xs" using split_pathstr assms by metis
    then show ?thesis by simp
  next
    case False
    then have l: "length (pathstr xs) < length (pathstr ys)" "pathstr ys ! length (pathstr xs) = CHR ''/''"
      "take (length (pathstr xs)) (pathstr ys) = pathstr xs"
      using b unfolding below_def by (auto dest: arg_cong [where f = length] simp: min_def split: if_split_asm)
    then have "pathstr ys = pathstr xs @ CHR ''/'' # drop (Suc (length (pathstr xs))) (pathstr ys)"
      using id_take_nth_drop [OF l(1)] by simp
    then have "ys = xs @ split_slash (drop (Suc (length (pathstr xs))) (pathstr ys))"
      using split_append split_pathstr assms by metis
    then show ?thesis by (rule prefixI)
  qed
next
  assume "prefix xs ys"
  then obtain zs where "ys = xs @ zs" by (rule prefixE)
  then show "below (pathstr xs) (pathstr ys)" using assms(2) by (cases "zs = []") (simp_all add: below_def pathstr_append)
qed

text \<open>Where a directory is after \<open>old\<close> has become \<open>new\<close>.\<close>

definition rename_dir :: "string list \<Rightarrow> string list \<Rightarrow> string list \<Rightarrow> string list" where
  "rename_dir old new ns = (if prefix old ns then new @ drop (length old) ns else ns)"

text \<open>A directory whose pathname fits the buffers.\<close>

definition good_dir :: "string list \<Rightarrow> bool" where
  "good_dir ns \<longleftrightarrow> ns \<noteq> [] \<and> slash_free ns \<and> length (pathstr ns) < PATH_MAX"

lemma snprintf_path_fits: "length p < PATH_MAX \<Longrightarrow> snprintf_path p = p"
  by (simp add: snprintf_path_def)

lemma pathstr_snoc: "ns \<noteq> [] \<Longrightarrow> pathstr (ns @ [n]) = pathstr ns @ ''/'' @ n"
  by (simp add: pathstr_append)

lemma pathstr_rest:
  assumes "xs \<noteq> []" "ys \<noteq> []"
  shows "pathstr (ys @ drop (length xs) (xs @ zs)) = pathstr ys @ drop (length (pathstr xs)) (pathstr (xs @ zs))"
  using assms by (cases "zs = []") (simp_all add: pathstr_append)

text \<open>The replacement of a prefix in the text is the renaming of the directory.\<close>

lemma renamed_pathstr:
  assumes "good_dir old" "good_dir ns" "new \<noteq> []" "length (pathstr (rename_dir old new ns)) < PATH_MAX"
  shows "renamed (pathstr old) (pathstr new) (pathstr ns) = pathstr (rename_dir old new ns)"
proof (cases "prefix old ns")
  case True
  then obtain zs where z: "ns = old @ zs" by (rule prefixE)
  have b: "below (pathstr old) (pathstr ns)" using below_pathstr assms(1,2) True by (simp add: good_dir_def)
  have e: "pathstr (rename_dir old new ns) = pathstr new @ drop (length (pathstr old)) (pathstr ns)"
    using pathstr_rest [of old new zs] assms(1,3) True unfolding rename_dir_def z good_dir_def by simp
  show ?thesis using b assms(4) unfolding renamed_def e [symmetric] by (simp add: snprintf_path_fits)
next
  case False
  then have "\<not> below (pathstr old) (pathstr ns)" using below_pathstr assms(1,2) by (simp add: good_dir_def)
  then show ?thesis using False by (simp add: renamed_def rename_dir_def)
qed

section \<open>Changes of the tree\<close>

text \<open>
  The watched directories: where the directory of each descriptor is. A change names directories by
  the descriptor of their parent and their name there. With a new directory come the descriptors
  and places of the subtree that is found there.
\<close>

type_synonym dirs = "int \<rightharpoonup> string list"

datatype change = Mkdir int string "(int \<times> string list) list" | Rmdir int | Rename int string int string | Move_out int string

fun fs_change :: "change \<Rightarrow> dirs \<Rightarrow> dirs" where
  "fs_change (Mkdir w n subs) d = map_of (map (\<lambda>(v, rel). (v, the (d w) @ n # rel)) subs) ++ d"
| "fs_change (Rmdir w) d = d(w := None)"
| "fs_change (Rename w n v m) d = map_option (rename_dir (the (d w) @ [n]) (the (d v) @ [m])) \<circ> d"
| "fs_change (Move_out w n) d =
     (\<lambda>u. case d u of Some ns \<Rightarrow> if prefix (the (d w) @ [n]) ns then None else Some ns | None \<Rightarrow> None)"

text \<open>The events the kernel reports; names are padded to a multiple of 16 bytes.\<close>

definition event :: "int \<Rightarrow> in_flag set \<Rightarrow> string \<Rightarrow> inotify_event" where
  "event w m n = \<lparr>ev_wd = w, mask = m, cookie = 1, ev_len = (if n = [] then 0 else (int (length n) + 16) div 16 * 16), ev_name = n\<rparr>"

fun events_of :: "change \<Rightarrow> inotify_event list" where
  "events_of (Mkdir w n subs) = [event w {IN_CREATE, IN_ISDIR} n]"
| "events_of (Rmdir w) = [event w {IN_DELETE_SELF} [], event w {IN_IGNORED} []]"
| "events_of (Rename w n v m) = [event w {IN_MOVED_FROM, IN_ISDIR} n, event v {IN_MOVED_TO, IN_ISDIR} m]"
| "events_of (Move_out w n) = [event w {IN_MOVED_FROM, IN_ISDIR} n]"

definition name_ok :: "string \<Rightarrow> bool" where
  "name_ok n \<longleftrightarrow> n \<noteq> [] \<and> length n \<le> 255"

text \<open>
  A change of directories that are watched, and a kernel that agrees with it: the traversal of a
  new directory delivers its subtree, and the watches of a directory that is moved away can be
  removed. A root is not removed.
\<close>

fun agrees :: "string option list \<Rightarrow> dt_env \<Rightarrow> change \<Rightarrow> dirs \<Rightarrow> bool" where
  "agrees roots env (Mkdir w n subs) d \<longleftrightarrow>
     d w \<noteq> None \<and> name_ok n \<and> good_dir (the (d w) @ [n]) \<and> the (d w) @ [n] \<notin> ran d \<and>
     (\<forall>(v, rel) \<in> set subs. 0 \<le> v \<and> good_dir (the (d w) @ n # rel)) \<and>
     (\<forall>x \<in> set (nftw env (pathstr (the (d w) @ [n]))). is_dir x \<longrightarrow> answer x \<noteq> Add_error) \<and>
     answers (nftw env (pathstr (the (d w) @ [n]))) = map (\<lambda>(v, rel). (v, pathstr (the (d w) @ n # rel))) subs"
| "agrees roots env (Rmdir w) d \<longleftrightarrow> d w \<noteq> None \<and> Some (pathstr (the (d w))) \<notin> set roots"
| "agrees roots env (Rename w n v m) d \<longleftrightarrow>
     d w \<noteq> None \<and> d v \<noteq> None \<and> name_ok n \<and> name_ok m \<and> good_dir (the (d w) @ [n]) \<and> good_dir (the (d v) @ [m]) \<and>
     (\<forall>ns \<in> ran d. good_dir (rename_dir (the (d w) @ [n]) (the (d v) @ [m]) ns))"
| "agrees roots env (Move_out w n) d \<longleftrightarrow>
     d w \<noteq> None \<and> name_ok n \<and> good_dir (the (d w) @ [n]) \<and> (\<forall>u \<in> dom d. rm_watch env u)"

definition in_step :: "string option list \<Rightarrow> dtree \<Rightarrow> dirs \<Rightarrow> bool" where
  "in_step roots st d \<longleftrightarrow> cache_ok (wlCache st) \<and> watched (wlCache st) = map_option pathstr \<circ> d \<and>
     (\<forall>ns \<in> ran d. good_dir ns) \<and> \<not> checkCache st \<and> \<not> dumpCache st \<and> rootDirPaths st = roots"

lemma event_simps [simp]:
  "ev_wd (event w m n) = w" "mask (event w m n) = m" "ev_name (event w m n) = n" "cookie (event w m n) = 1"
  by (simp_all add: event_def)

lemma event_bounds:
  assumes "length n \<le> 255"
  shows "0 < event_size (event w m n)" "event_size (event w m n) \<le> 272" "1 < event_size (event w m n)"
proof -
  define q where "q = (int (length n) + 16) div 16"
  have "q \<le> 16" "0 \<le> q" using assms unfolding q_def by presburger+
  then show "0 < event_size (event w m n)" "event_size (event w m n) \<le> 272" "1 < event_size (event w m n)"
    unfolding event_def event_size_def sizeof_event_def q_def [symmetric] by simp_all
qed

lemma in_step_frame [simp]:
  "in_step roots (st\<lparr>inotifyReadCnt := k\<rparr>) d = in_step roots st d" "in_step roots (st\<lparr>dirCnt := n\<rparr>) d = in_step roots st d"
  "in_step roots (st\<lparr>calls := cs\<rparr>) d = in_step roots st d"
  by (simp_all add: in_step_def)

lemma watched_nonneg: "watched c w = Some p \<Longrightarrow> 0 \<le> w"
  by (auto simp: watched_def live_def dest!: map_of_SomeD)

lemma in_step_slot:
  assumes "in_step roots st d" "d w = Some a"
  shows "\<exists>j. findWatch w (wlCache st) = Some j \<and> j < length (wlCache st) \<and> wd (wlCache st ! j) = w \<and>
    path (wlCache st ! j) = pathstr a \<and> 0 \<le> w \<and> good_dir a"
proof -
  have p: "watched (wlCache st) w = Some (pathstr a)" "cache_ok (wlCache st)" "good_dir a"
    using assms by (auto simp: in_step_def ran_def)
  have w: "0 \<le> w" by (rule watched_nonneg [OF p(1)])
  obtain j where j: "findWatch w (wlCache st) = Some j" using findWatch_None [OF w] p(1) by fastforce
  from findWatch_Some [OF j p(2) w] p(1,3) j w show ?thesis by auto
qed

lemma process_event:
  assumes "in_step roots st d" "d (ev_wd ev) = Some a" "IN_IGNORED \<notin> mask ev"
    "\<And>j. findWatch (ev_wd ev) (wlCache st) = Some j \<Longrightarrow> handle_event env ev rest n firstTry (Slot j) st = Inr (Fall k st')"
    "\<not> checkCache st'" "\<not> dumpCache st'"
  shows "processNextInotifyEvent env (ev # rest) n firstTry st = Inr (k, st')"
proof -
  obtain j where j: "findWatch (ev_wd ev) (wlCache st) = Some j" "0 \<le> ev_wd ev" using in_step_slot [OF assms(1,2)] by blast
  have "event_slot ev st = Inr (Slot j)" using j assms(3) by (simp add: event_slot_def findWatchChecked_def)
  then show ?thesis using assms(4) [OF j(1)] assms(5,6) by (simp add: processNextInotifyEvent_def)
qed

section \<open>Each change\<close>

lemma process_one:
  assumes "processNextInotifyEvent (envs 0) evs n True st = Inr (k, st')" "0 < n" "n \<le> k"
  shows "process_buffer (Suc fuel) envs later evs n True st = Some (Inr st')"
  using assms by (cases fuel) auto

lemma in_step_upd:
  assumes "in_step roots st d" "cache_ok c" "watched c = map_option pathstr \<circ> d'" "\<forall>ns \<in> ran d'. good_dir ns"
  shows "in_step roots (st\<lparr>wlCache := c\<rparr>) d'"
  using assms by (simp add: in_step_def)

lemma map_of_subs: "map_of (map (\<lambda>(v, rel). (v, f rel)) subs) x = map_option f (map_of subs x)"
  by (simp add: map_of_map)

lemma full_path:
  assumes "good_dir (ns @ [n])" "ns \<noteq> []"
  shows "snprintf_path (pathstr ns @ ''/'' @ n) = pathstr (ns @ [n])"
  using assms pathstr_snoc [OF assms(2), of n] by (simp add: good_dir_def snprintf_path_fits)

lemma Mkdir_followed:
  assumes i: "in_step roots st d" and a: "agrees roots env (Mkdir w n subs) d"
  shows "\<exists>st'. process_buffer (Suc fuel) (\<lambda>_. env) later (events_of (Mkdir w n subs)) (bytes (events_of (Mkdir w n subs))) True st =
      Some (Inr st') \<and> in_step roots st' (fs_change (Mkdir w n subs) d)"
proof -
  obtain ns where ns: "d w = Some ns" using a by auto
  let ?p = "pathstr (ns @ [n])" let ?ev = "event w {IN_CREATE, IN_ISDIR} n" let ?d = "fs_change (Mkdir w n subs) d"
  have g: "good_dir (ns @ [n])" "ns @ [n] \<notin> ran d" "length n \<le> 255" using a ns by (auto simp: name_ok_def)
  have an: "answers (nftw env ?p) = map (\<lambda>(v, rel). (v, pathstr (ns @ n # rel))) subs" using a ns by simp
  have sb: "\<forall>(v, rel) \<in> set subs. 0 \<le> v \<and> good_dir (ns @ n # rel)" using a ns by simp
  then have vs: "valid_visits (nftw env ?p)" unfolding valid_visits_def an by (auto simp: good_dir_def)
  have c: "cache_ok (wlCache st)" "watched (wlCache st) = map_option pathstr \<circ> d" using i by (simp_all add: in_step_def)
  have "pathstr ms \<noteq> ?p" if "ms \<in> ran d" for ms
    using that i g split_pathstr [of ms] split_pathstr [of "ns @ [n]"] by (metis in_step_def good_dir_def)
  then have np: "\<not> pathnameInCache ?p (wlCache st)"
    unfolding pathnameInCache_iff ran_watched [OF c(1), symmetric] c(2) by (auto simp: ran_def)
  have full: "snprintf_path (pathstr ns @ ''/'' @ n) = ?p"
    using full_path [OF g(1)] in_step_slot [OF i ns] by (auto simp: good_dir_def)
  obtain st' where w: "watchSubtree env ?p st = Inr st'"
    using walk_returns [of "nftw env ?p" "st\<lparr>dirCnt := 0\<rparr>"] a ns by (auto simp: watchSubtree_def watchDir_def)
  then obtain k cs where st': "st' = st\<lparr>dirCnt := k, calls := cs, wlCache := add_answers (answers (nftw env ?p)) (wlCache st)\<rparr>"
    using watchSubtree_frame [OF w vs] by blast
  note f = add_answers_facts [OF c(1) vs]
  have m: "watched (add_answers (answers (nftw env ?p)) (wlCache st)) = map_option pathstr \<circ> ?d"
    unfolding f(2)
    by (rule ext) (simp add: c(2) an ns map_add_def map_of_subs option.map_comp comp_def split: option.split)
  have gd: "\<forall>ms \<in> ran d. good_dir ms" using i by (simp add: in_step_def)
  have "good_dir ms" if u: "?d u = Some ms" for u ms
  proof (cases "d u")
    case None
    then obtain rel where "map_of subs u = Some rel" "ms = ns @ n # rel" using u by (auto simp: ns map_add_def map_of_subs)
    then show ?thesis using sb map_of_SomeD by fastforce
  next
    case (Some x)
    then show ?thesis using u gd by (auto simp: map_add_def intro: ranI)
  qed
  then have "\<forall>ms \<in> ran ?d. good_dir ms" unfolding ran_def by blast
  from in_step_upd [OF i f(1) m this] have step: "in_step roots st' ?d" by (simp add: st' in_step_def)
  have h: "handle_event env ?ev [] (event_size ?ev) True (Slot j) st = Inr (Fall (event_size ?ev) st')"
    if "findWatch w (wlCache st) = Some j" for j
    using that in_step_slot [OF i ns] np w full by (auto simp: handle_event_def ev_created_def slot_path_def)
  have "\<not> checkCache st'" "\<not> dumpCache st'" using step by (simp_all add: in_step_def)
  then have "processNextInotifyEvent env [?ev] (event_size ?ev) True st = Inr (event_size ?ev, st')"
    using h ns by (intro process_event [OF i]) simp_all
  from process_one [of "\<lambda>_. env", OF this] event_bounds(1) [OF g(3)] step show ?thesis by (simp add: bytes_def)
qed

lemma Rmdir_followed:
  assumes i: "in_step roots st d" and a: "agrees roots env (Rmdir w) d"
  shows "\<exists>st'. process_buffer (Suc (Suc fuel)) (\<lambda>_. env) later (events_of (Rmdir w)) (bytes (events_of (Rmdir w))) True st =
      Some (Inr st') \<and> in_step roots st' (fs_change (Rmdir w) d)"
proof -
  obtain ns where ns: "d w = Some ns" "Some (pathstr ns) \<notin> set roots" using a by auto
  let ?e1 = "event w {IN_DELETE_SELF} []" let ?e2 = "event w {IN_IGNORED} []"
  obtain j where j: "findWatch w (wlCache st) = Some j" "j < length (wlCache st)" "wd (wlCache st ! j) = w"
    "path (wlCache st ! j) = pathstr ns" "0 \<le> w" using in_step_slot [OF i ns(1)] by blast
  have c: "cache_ok (wlCache st)" "watched (wlCache st) = map_option pathstr \<circ> d" "rootDirPaths st = roots"
    using i by (simp_all add: in_step_def)
  let ?c = "markCacheSlotEmpty j (wlCache st)" let ?st = "st\<lparr>wlCache := ?c\<rparr>"
  note f = markCacheSlotEmpty_facts [OF c(1) j(2)]
  have "watched ?c = map_option pathstr \<circ> fs_change (Rmdir w) d" using f(2) j(3,5) c(2) by (auto simp: fun_eq_iff)
  moreover have "\<forall>ms \<in> ran (fs_change (Rmdir w) d). good_dir ms" using i by (auto simp: in_step_def ran_def)
  moreover have "cache_ok ?c" using f(1) j(3,5) by simp
  ultimately have step: "in_step roots ?st (fs_change (Rmdir w) d)" using in_step_upd [OF i] by blast
  have r: "\<not> isRootDirPath (pathstr ns) st" using ns(2) c(3) by (auto simp: isRootDirPath_def findRootDirPath_def find_slot_None)
  have fl: "\<not> checkCache ?st" "\<not> dumpCache ?st" using step by (simp_all add: in_step_def)
  have "handle_event env ?e1 [?e2] (event_size ?e1 + event_size ?e2) True (Slot k) st = Inr (Fall (event_size ?e1) ?st)"
    if "findWatch w (wlCache st) = Some k" for k
    using that j r by (simp add: handle_event_def ev_deleted_def slot_path_def slot_clear_def)
  then have p1: "processNextInotifyEvent env [?e1, ?e2] (event_size ?e1 + event_size ?e2) True st = Inr (event_size ?e1, ?st)"
    using ns(1) fl by (intro process_event [OF i]) simp_all
  have p2: "processNextInotifyEvent env [?e2] (event_size ?e2) True ?st = Inr (event_size ?e2, ?st)"
    using fl by (simp add: processNextInotifyEvent_def event_slot_def handle_event_def)
  have "0 < event_size ?e1" "0 < event_size ?e2" using event_bounds(1) [of "[]"] by simp_all
  then have "process_buffer (Suc (Suc fuel)) (\<lambda>_. env) later [?e1, ?e2] (event_size ?e1 + event_size ?e2) True st = Some (Inr ?st)"
    using p1 process_one [of "\<lambda>_. env", OF p2, of fuel later] by simp
  then show ?thesis using step by (simp add: bytes_def)
qed

lemma Rename_followed:
  assumes i: "in_step roots st d" and a: "agrees roots env (Rename w n v m) d"
  shows "\<exists>st'. process_buffer (Suc fuel) (\<lambda>_. env) later (events_of (Rename w n v m)) (bytes (events_of (Rename w n v m))) True st =
      Some (Inr st') \<and> in_step roots st' (fs_change (Rename w n v m) d)"
proof -
  obtain ns ms where ns: "d w = Some ns" and ms: "d v = Some ms" using a by auto
  let ?e1 = "event w {IN_MOVED_FROM, IN_ISDIR} n" let ?e2 = "event v {IN_MOVED_TO, IN_ISDIR} m"
  let ?d = "fs_change (Rename w n v m) d"
  have g: "good_dir (ns @ [n])" "good_dir (ms @ [m])" "length n \<le> 255" "length m \<le> 255"
    "\<forall>x \<in> ran d. good_dir (rename_dir (ns @ [n]) (ms @ [m]) x)" using a ns ms by (auto simp: name_ok_def)
  have c: "cache_ok (wlCache st)" "watched (wlCache st) = map_option pathstr \<circ> d" "\<forall>x \<in> ran d. good_dir x"
    using i by (simp_all add: in_step_def)
  obtain k where k: "findWatch v (wlCache st) = Some k" "path (wlCache st ! k) = pathstr ms" "good_dir ms"
    using in_step_slot [OF i ms] by blast
  have gn: "good_dir ns" using in_step_slot [OF i ns] by blast
  let ?c = "rewriteCachedPaths (pathstr ns) n (pathstr ms) m (wlCache st)" let ?st = "st\<lparr>wlCache := ?c\<rparr>"
  note f = rewriteCachedPaths_facts [OF c(1), of "pathstr ns" n "pathstr ms" m]
  have fp: "snprintf_path (pathstr ns @ ''/'' @ n) = pathstr (ns @ [n])" "snprintf_path (pathstr ms @ ''/'' @ m) = pathstr (ms @ [m])"
    using full_path g(1,2) gn k(3) by (auto simp: good_dir_def)
  have "renamed (pathstr (ns @ [n])) (pathstr (ms @ [m])) (pathstr x) = pathstr (rename_dir (ns @ [n]) (ms @ [m]) x)" if "d u = Some x" for u x
    using that c(3) g(1,5) ranI [of d u x] by (intro renamed_pathstr) (auto simp: good_dir_def)
  then have "watched ?c = map_option pathstr \<circ> ?d"
    unfolding f(2) fp c(2) by (auto simp: fun_eq_iff ns ms option.map_comp intro!: option.map_cong)
  moreover have "\<forall>x \<in> ran ?d. good_dir x" using g(5) ns ms by (auto simp: ran_def)
  ultimately have step: "in_step roots ?st ?d" using in_step_upd [OF i f(1)] by blast
  have fl: "\<not> checkCache ?st" "\<not> dumpCache ?st" using step by (simp_all add: in_step_def)
  have e: "0 < event_size ?e1" "0 < event_size ?e2" using event_bounds(1) g(3,4) by blast+
  have "handle_event env ?e1 [?e2] (event_size ?e1 + event_size ?e2) True (Slot j) st = Inr (Fall (event_size ?e1 + event_size ?e2) ?st)"
    if "findWatch w (wlCache st) = Some j" for j
    using that in_step_slot [OF i ns] k e
    by (auto simp: handle_event_def ev_moved_from_def ev_renamed_def slot_path_def findWatchChecked_def)
  then have "processNextInotifyEvent env [?e1, ?e2] (event_size ?e1 + event_size ?e2) True st = Inr (event_size ?e1 + event_size ?e2, ?st)"
    using ns fl by (intro process_event [OF i]) simp_all
  from process_one [of "\<lambda>_. env", OF this] e step show ?thesis by (simp add: bytes_def)
qed

lemma Move_out_followed:
  assumes i: "in_step roots st d" and a: "agrees roots env (Move_out w n) d"
  shows "\<exists>st'. process_buffer (Suc (Suc fuel)) (\<lambda>_. env) [] (events_of (Move_out w n)) (bytes (events_of (Move_out w n))) True st =
      Some (Inr st') \<and> in_step roots st' (fs_change (Move_out w n) d)"
proof -
  obtain ns where ns: "d w = Some ns" using a by auto
  let ?ev = "event w {IN_MOVED_FROM, IN_ISDIR} n" let ?d = "fs_change (Move_out w n) d"
  let ?s1 = "st\<lparr>inotifyReadCnt := Suc (inotifyReadCnt st)\<rparr>"
  have g: "good_dir (ns @ [n])" "length n \<le> 255" "\<forall>u \<in> dom d. rm_watch env u" using a ns by (auto simp: name_ok_def)
  have c: "cache_ok (wlCache st)" "watched (wlCache st) = map_option pathstr \<circ> d" "\<forall>x \<in> ran d. good_dir x"
    using i by (simp_all add: in_step_def)
  have full: "snprintf_path (pathstr ns @ ''/'' @ n) = pathstr (ns @ [n])"
    using full_path [OF g(1)] in_step_slot [OF i ns] by (auto simp: good_dir_def)
  have "\<forall>u p. watched (wlCache st) u = Some p \<longrightarrow> below (pathstr (ns @ [n])) p \<longrightarrow> rm_watch env u" using g(3) c(2) by auto
  from zap_slots_facts [OF c(1) this] obtain k ws c' where z: "zap_slots (rm_watch env) (pathstr (ns @ [n])) (wlCache st) = (Some k, ws, c')" "cache_ok c'"
    "watched c' = without (pathstr (ns @ [n])) (watched (wlCache st))"
    by blast
  let ?st = "?s1\<lparr>wlCache := c', calls := calls st @ map (Rm_watch (inotifyFd st)) ws\<rparr>"
  have "below (pathstr (ns @ [n])) (pathstr x) \<longleftrightarrow> prefix (ns @ [n]) x" if "d u = Some x" for u x
    using that c(3) g(1) ranI [of d u x] by (intro below_pathstr) (auto simp: good_dir_def)
  then have "watched c' = map_option pathstr \<circ> ?d"
    unfolding z(3) c(2) without_def by (auto simp: fun_eq_iff ns split: option.split)
  moreover have "ran ?d \<subseteq> ran d" by (auto simp: ran_def split: option.split_asm if_split_asm)
  then have "\<forall>x \<in> ran ?d. good_dir x" using c(3) by blast
  ultimately have step: "in_step roots ?st ?d" using in_step_upd [OF i z(2)] by (simp add: in_step_def)
  have i1: "in_step roots ?s1 d" using i by simp
  have fl: "\<not> checkCache ?st" "\<not> dumpCache ?st" using step by (simp_all add: in_step_def)
  obtain j where j: "findWatch w (wlCache st) = Some j" "path (wlCache st ! j) = pathstr ns" "0 \<le> w" using in_step_slot [OF i ns] by blast
  have p1: "processNextInotifyEvent env [?ev] (event_size ?ev) True st = Inr (-1, st)"
    using j by (simp add: processNextInotifyEvent_def event_slot_def findWatchChecked_def handle_event_def ev_moved_from_def)
  have "handle_event env ?ev [] (event_size ?ev - 1) False (Slot l) ?s1 = Inr (Fall (event_size ?ev) ?st)"
    if "findWatch w (wlCache ?s1) = Some l" for l
    using that j z(1) full by (simp add: handle_event_def ev_moved_from_def ev_moved_out_def slot_path_def zapSubtree_def)
  then have p2: "processNextInotifyEvent env [?ev] (event_size ?ev - 1) False ?s1 = Inr (event_size ?ev, ?st)"
    using ns fl by (intro process_event [OF i1]) simp_all
  have "process_buffer (Suc fuel) (\<lambda>_. env) [] [?ev] (event_size ?ev - 1) False ?s1 = Some (Inr ?st)"
    using p2 event_bounds(3) [OF g(2), of w "{IN_MOVED_FROM, IN_ISDIR}"] by (cases fuel) auto
  then have "process_buffer (Suc (Suc fuel)) (\<lambda>_. env) [] [?ev] (event_size ?ev) True st = Some (Inr ?st)"
    using p1 event_bounds(1) [OF g(2), of w "{IN_MOVED_FROM, IN_ISDIR}"]
    by (subst process_buffer.simps(2)) (simp add: second_read_def next_answer_def del: process_buffer.simps)
  then show ?thesis using step by (simp add: bytes_def)
qed

section \<open>Sequences of changes\<close>

text \<open>The program processes the events of each change; nothing more arrives for a timed read.\<close>

primrec follow :: "(change \<times> dt_env) list \<Rightarrow> dtree \<Rightarrow> (dt_stop + dtree) option" where
  "follow [] st = Some (Inr st)"
| "follow (x # xs) st =
     (case processInotifyEvents 2 (\<lambda>_. snd x) (Got (events_of (fst x))) [] st of
        Some (Inr st) \<Rightarrow> follow xs st
      | r \<Rightarrow> r)"

primrec all_agree :: "string option list \<Rightarrow> (change \<times> dt_env) list \<Rightarrow> dirs \<Rightarrow> bool" where
  "all_agree roots [] d = True"
| "all_agree roots (x # xs) d = (agrees roots (snd x) (fst x) d \<and> all_agree roots xs (fs_change (fst x) d))"

lemma events_fit:
  assumes "agrees roots env ch d"
  shows "bytes (events_of ch) \<le> INOTIFY_READ_BUF_LEN" "events_of ch \<noteq> []"
proof -
  have le: "event_size (event w m n) \<le> 272" if "length n \<le> 255" for w m n by (rule event_bounds(2) [OF that])
  have le2: "event_size (event w m n) + event_size (event v l k) \<le> 544" if "length n \<le> 255" "length k \<le> 255" for w m n v l k
    using le [OF that(1), of w m] le [OF that(2), of v l] by linarith
  have "bytes (events_of ch) \<le> 544"
  proof (cases ch)
    case (Mkdir w n subs)
    then show ?thesis using assms le [of n w "{IN_CREATE, IN_ISDIR}"] by (simp add: bytes_def name_ok_def)
  next
    case (Rmdir w)
    then show ?thesis using le2 [of "[]" "[]"] by (simp add: bytes_def)
  next
    case (Rename w n v m)
    then show ?thesis using assms le2 [of n m] by (simp add: bytes_def name_ok_def)
  next
    case (Move_out w n)
    then show ?thesis using assms le [of n w "{IN_MOVED_FROM, IN_ISDIR}"] by (simp add: bytes_def name_ok_def)
  qed
  then show "bytes (events_of ch) \<le> INOTIFY_READ_BUF_LEN" by (simp add: INOTIFY_READ_BUF_LEN_def sizeof_event_def)
  show "events_of ch \<noteq> []" by (cases ch) simp_all
qed

lemma change_followed:
  assumes "in_step roots st d" "agrees roots env ch d"
  shows "\<exists>st'. processInotifyEvents 2 (\<lambda>_. env) (Got (events_of ch)) [] st = Some (Inr st') \<and> in_step roots st' (fs_change ch d)"
proof -
  let ?s = "st\<lparr>inotifyReadCnt := Suc (inotifyReadCnt st)\<rparr>"
  have i: "in_step roots ?s d" using assms(1) by simp
  have "\<exists>st'. process_buffer (Suc (Suc 0)) (\<lambda>_. env) [] (events_of ch) (bytes (events_of ch)) True ?s = Some (Inr st') \<and>
      in_step roots st' (fs_change ch d)"
    using assms(2) Mkdir_followed [OF i] Rmdir_followed [OF i] Rename_followed [OF i] Move_out_followed [OF i]
    by (cases ch) (simp_all del: process_buffer.simps events_of.simps fs_change.simps agrees.simps)
  then show ?thesis using events_fit [OF assms(2)]
    by (simp add: processInotifyEvents_def numeral_2_eq_2 del: process_buffer.simps)
qed

text \<open>
  C5. The list follows the file system: when it holds the pathnames of the watched directories, and
  directories are created (with whole subtrees), removed, renamed anywhere inside the monitored
  trees or moved out of them, then processing the events of each change makes the list hold
  exactly the pathnames of the directories as they are then.
\<close>

theorem tree_followed:
  assumes "in_step roots st d" "all_agree roots xs d"
  shows "\<exists>st'. follow xs st = Some (Inr st') \<and> watched (wlCache st') = map_option pathstr \<circ> fold (fs_change \<circ> fst) xs d"
  using assms
proof (induction xs arbitrary: st d)
  case (Cons x xs)
  then obtain st1 where s: "processInotifyEvents 2 (\<lambda>_. snd x) (Got (events_of (fst x))) [] st = Some (Inr st1)"
    "in_step roots st1 (fs_change (fst x) d)" using change_followed by fastforce
  with Cons.IH [OF s(2)] Cons.prems(2) show ?case by simp
qed (simp add: in_step_def)

definition sample_changes :: "(change \<times> dt_env) list" where
  "sample_changes =
     [(Mkdir 1 ''a'' [(2, []), (3, [''b''])],
       sample_env\<lparr>nftw := (\<lambda>_. [\<lparr>pathname = ''r/a'', is_dir = True, answer = Wd 2\<rparr>, \<lparr>pathname = ''r/a/f'', is_dir = False, answer = Enoent\<rparr>,
         \<lparr>pathname = ''r/a/b'', is_dir = True, answer = Wd 3\<rparr>])\<rparr>),
      (Rename 1 ''a'' 1 ''ab'', sample_env), (Move_out 2 ''b'', sample_env), (Rmdir 2, sample_env)]"

lemma sample_in_step: "in_step [Some ''r''] sample_start [1 \<mapsto> [''r'']]"
  by (simp add: in_step_def sample_start_def dt_initial_def cache_ok_def watched_def good_dir_def slash_free_def PATH_MAX_def fun_eq_iff)

theorem tree_followed_witness:
  "\<exists>st'. follow sample_changes sample_start = Some (Inr st') \<and> watched (wlCache st') = [1 \<mapsto> ''r'']"
proof -
  have a: "all_agree [Some ''r''] sample_changes [1 \<mapsto> [''r'']]"
    by (simp add: sample_changes_def good_dir_def slash_free_def PATH_MAX_def name_ok_def rename_dir_def sample_env_def)
  have "map_option pathstr \<circ> fold (fs_change \<circ> fst) sample_changes [1 \<mapsto> [''r'']] = [1 \<mapsto> ''r'']"
    by (simp add: sample_changes_def rename_dir_def fun_eq_iff)
  with tree_followed [OF sample_in_step a] show ?thesis by simp
qed

end
