(* ===== verification/Acl.thy ===== *)
theory Acl
  imports C_Array
begin

text \<open>
  The program \<open>acl/acl_update.c\<close>, which changes access control lists, with the name conversions of
  \<open>users_groups/ugid_functions.c\<close>. The password and group files and the library \<open>libacl\<close> are not part of the
  repository: their answers are arguments. An access control list in memory is the sequence of
  its entries as \<open>acl_get_entry\<close> delivers them. The calls that
  read or set the tag, the qualifier and the permissions of an entry succeed. Calls of \<open>acl_free\<close> and
  messages are left out.
\<close>

unbundle bit_operations_syntax

section \<open>Names and numbers\<close>

text \<open>\<open>strtol(s, &endptr, 10)\<close> on a 64-bit \<open>long\<close>: the value and the text at \<open>endptr\<close>.\<close>

definition strtol10 :: "string \<Rightarrow> int \<times> string" where
  "strtol10 s =
     (let t = dropWhile isspace s;
          neg = (case t of c # _ \<Rightarrow> c = CHR ''-'' | [] \<Rightarrow> False);
          u = (case t of c # r \<Rightarrow> if c = CHR ''-'' \<or> c = CHR ''+'' then r else t | [] \<Rightarrow> t);
          ds = takeWhile isdigit u;
          v = int (digits_val ds)
      in if ds = [] then (0, s)
         else (if neg then max (- (2 ^ 63)) (- v) else min (2 ^ 63 - 1) v, drop (length ds) u))"

record names =
  getpwnam :: "string \<Rightarrow> 32 word option"
  getgrnam :: "string \<Rightarrow> 32 word option"

text \<open>The identifiers are unsigned numbers of 32 bits, in which the error -1 is the largest number.\<close>

definition userIdFromName :: "names \<Rightarrow> string \<Rightarrow> 32 word" where
  "userIdFromName nm name =
     (if name = [] then -1
      else let (u, rest) = strtol10 name
           in if rest = [] then word_of_int u
              else case getpwnam nm name of None \<Rightarrow> -1 | Some pw_uid \<Rightarrow> pw_uid)"

definition groupIdFromName :: "names \<Rightarrow> string \<Rightarrow> 32 word" where
  "groupIdFromName nm name =
     (if name = [] then -1
      else let (g, rest) = strtol10 name
           in if rest = [] then word_of_int g
              else case getgrnam nm name of None \<Rightarrow> -1 | Some gr_gid \<Rightarrow> gr_gid)"

section \<open>Parsing\<close>

datatype acl_tag = ACL_USER_OBJ | ACL_USER | ACL_GROUP_OBJ | ACL_GROUP | ACL_MASK | ACL_OTHER

definition ACL_READ :: int where "ACL_READ = 4"
definition ACL_WRITE :: int where "ACL_WRITE = 2"
definition ACL_EXECUTE :: int where "ACL_EXECUTE = 1"
definition MAX_ENTRIES :: nat where "MAX_ENTRIES = 10000"

text \<open>The permissions are not set when none are specified.\<close>

record AccessControlEntry =
  tag :: acl_tag
  qual :: "32 word"
  perms :: "int option"

fun parse_perms :: "int \<Rightarrow> string \<Rightarrow> int option" where
  "parse_perms acc [] = Some acc"
| "parse_perms acc (p # ps) =
     (if p = CHR ''r'' then parse_perms (acc OR ACL_READ) ps
      else if p = CHR ''w'' then parse_perms (acc OR ACL_WRITE) ps
      else if p = CHR ''x'' then parse_perms (acc OR ACL_EXECUTE) ps
      else if p \<noteq> CHR ''-'' then None
      else parse_perms acc ps)"

definition tag_of :: "string \<Rightarrow> bool \<Rightarrow> acl_tag option" where
  "tag_of s hasQual =
     (if s = ''u'' \<or> s = ''user'' then Some (if hasQual then ACL_USER else ACL_USER_OBJ)
      else if s = ''g'' \<or> s = ''group'' then Some (if hasQual then ACL_GROUP else ACL_GROUP_OBJ)
      else if s = ''o'' \<or> s = ''other'' then Some ACL_OTHER
      else if s = ''m'' \<or> s = ''mask'' then Some ACL_MASK
      else None)"

definition parseEntrySpec :: "names \<Rightarrow> string \<Rightarrow> bool \<Rightarrow> AccessControlEntry option" where
  "parseEntrySpec nm entryStr permsReqd =
     (case strchr entryStr (CHR '':'') of
        None \<Rightarrow> None
      | Some (tagStr, r) \<Rightarrow>
          let hasQual = (r \<noteq> [] \<and> hd r \<noteq> CHR '':'');
              colon2 = strchr r (CHR '':'');
              qualifier = (case colon2 of None \<Rightarrow> r | Some (q, _) \<Rightarrow> q);
              permStr = (case colon2 of None \<Rightarrow> [] | Some (_, p) \<Rightarrow> p);
              hasPerms = (permStr \<noteq> [])
          in if hasPerms \<noteq> permsReqd then None
             else case tag_of tagStr hasQual of
                    None \<Rightarrow> None
                  | Some t \<Rightarrow>
                      let q = (if t = ACL_USER then userIdFromName nm qualifier
                               else if t = ACL_GROUP then groupIdFromName nm qualifier else 0)
                      in if (t = ACL_USER \<or> t = ACL_GROUP) \<and> q = -1 then None
                         else if hasPerms
                              then map_option (\<lambda>p. \<lparr>tag = t, qual = q, perms = Some p\<rparr>) (parse_perms 0 permStr)
                              else Some \<lparr>tag = t, qual = q, perms = None\<rparr>)"

text \<open>The loop over the comma-separated entries, of which \<open>n\<close> have been read.\<close>

function parse_entries :: "names \<Rightarrow> nat \<Rightarrow> string \<Rightarrow> bool \<Rightarrow> AccessControlEntry list option" where
  "parse_entries nm n s permsReqd =
     (if MAX_ENTRIES \<le> n then None
      else case strchr s (CHR '','') of
             None \<Rightarrow> map_option (\<lambda>e. [e]) (parseEntrySpec nm s permsReqd)
           | Some (a, b) \<Rightarrow>
               case parseEntrySpec nm a permsReqd of
                 None \<Rightarrow> None
               | Some e \<Rightarrow> map_option (\<lambda>es. e # es) (parse_entries nm (Suc n) b permsReqd))"
  by pat_completeness auto

termination
  by (relation "measure (\<lambda>(nm, n, s, b). length s)") (auto dest: strchr_Some)

declare parse_entries.simps [simp del]

definition parseACL :: "names \<Rightarrow> string \<Rightarrow> bool \<Rightarrow> AccessControlEntry list option" where
  "parseACL nm aclStr permsReqd = parse_entries nm 0 aclStr permsReqd"

section \<open>Access control lists\<close>

record acl_entry =
  e_tag :: acl_tag
  e_qual :: "32 word"
  e_perms :: int

type_synonym acl = "acl_entry list"

definition matches :: "acl_tag \<Rightarrow> 32 word \<Rightarrow> acl_entry \<Rightarrow> bool" where
  "matches t q e \<longleftrightarrow> e_tag e = t \<and> (t = ACL_USER \<or> t = ACL_GROUP \<longrightarrow> e_qual e = q)"

definition findEntry :: "acl \<Rightarrow> acl_tag \<Rightarrow> 32 word \<Rightarrow> nat option" where
  "findEntry a t q = find_slot (matches t q) a"

text \<open>The set of permissions is cleared and each requested one is added.\<close>

definition setPerms :: "int \<Rightarrow> acl_entry \<Rightarrow> acl_entry" where
  "setPerms p e = e\<lparr>e_perms := (if p AND ACL_READ \<noteq> 0 then ACL_READ else 0) + (if p AND ACL_WRITE \<noteq> 0 then ACL_WRITE else 0) +
     (if p AND ACL_EXECUTE \<noteq> 0 then ACL_EXECUTE else 0)\<rparr>"

text \<open>
  The library: where a new entry is put (if there is room for it), the recalculation of the mask,
  the check of a list, and the access to the lists of files (the flag is set for default lists).
\<close>

record libacl =
  acl_create_entry :: "acl \<Rightarrow> nat option"
  acl_calc_mask :: "acl \<Rightarrow> acl option"
  acl_valid :: "acl \<Rightarrow> bool"
  acl_get_file :: "string \<Rightarrow> bool \<Rightarrow> acl option"
  acl_set_file :: "string \<Rightarrow> bool \<Rightarrow> acl \<Rightarrow> bool"
  acl_delete_def_file :: "string \<Rightarrow> bool"

record acl_request =
  modifyACL :: bool
  recalcMask :: bool
  useDefaultACL :: bool

datatype acl_stop = Usage_error | Err_exit string | Exit_ok

definition change_entry :: "libacl \<Rightarrow> acl_request \<Rightarrow> AccessControlEntry \<Rightarrow> acl \<Rightarrow> acl_stop + acl" where
  "change_entry lib rq e a =
     (let found = findEntry a (tag e) (qual e)
      in if \<not> modifyACL rq then Inr (case found of None \<Rightarrow> a | Some i \<Rightarrow> take i a @ drop (Suc i) a)
         else case found of
                Some i \<Rightarrow> Inr (a[i := setPerms (the (perms e)) (a ! i)])
              | None \<Rightarrow>
                  (case acl_create_entry lib a of
                     None \<Rightarrow> Inl (Err_exit ''acl_create_entry'')
                   | Some k \<Rightarrow>
                       Inr (take k a @ [setPerms (the (perms e)) \<lparr>e_tag = tag e,
                              e_qual = (if tag e = ACL_USER \<or> tag e = ACL_GROUP then qual e else 0), e_perms = 0\<rparr>] @ drop k a)))"

definition update_entry :: "libacl \<Rightarrow> acl_request \<Rightarrow> string \<Rightarrow> AccessControlEntry \<Rightarrow> acl \<Rightarrow> acl_stop + acl" where
  "update_entry lib rq file_name e a =
     bindR (change_entry lib rq e a) (\<lambda>a.
     bindR (if recalcMask rq then case acl_calc_mask lib a of None \<Rightarrow> Inl (Err_exit ''acl_calc_mask'') | Some a \<Rightarrow> Inr a
            else Inr a) (\<lambda>a.
     if \<not> acl_valid lib a then Inl (Err_exit ''acl_valid'')
     else if \<not> acl_set_file lib file_name (useDefaultACL rq) a then Inl (Err_exit ''acl_set_file'')
     else Inr a))"

text \<open>All entries of the request; the second result are the lists that have been written to the file.\<close>

primrec update_entries ::
  "libacl \<Rightarrow> acl_request \<Rightarrow> string \<Rightarrow> AccessControlEntry list \<Rightarrow> acl \<Rightarrow> (acl_stop + acl) \<times> (string \<times> acl) list" where
  "update_entries lib rq file_name [] a = (Inr a, [])"
| "update_entries lib rq file_name (e # es) a =
     (case update_entry lib rq file_name e a of
        Inl x \<Rightarrow> (Inl x, [])
      | Inr a \<Rightarrow> (let (r, ws) = update_entries lib rq file_name es a in (r, (file_name, a) # ws)))"

primrec update_files ::
  "libacl \<Rightarrow> acl_request \<Rightarrow> AccessControlEntry list \<Rightarrow> string list \<Rightarrow> acl_stop \<times> (string \<times> acl) list" where
  "update_files lib rq aclist [] = (Exit_ok, [])"
| "update_files lib rq aclist (f # fs) =
     (case acl_get_file lib f (useDefaultACL rq) of
        None \<Rightarrow> (Err_exit ''acl_get_file'', [])
      | Some a \<Rightarrow>
          (case update_entries lib rq f aclist a of
             (Inl x, ws) \<Rightarrow> (x, ws)
           | (Inr a, ws) \<Rightarrow> (let (x, vs) = update_files lib rq aclist fs in (x, ws @ vs))))"

primrec delete_defaults :: "libacl \<Rightarrow> string list \<Rightarrow> acl_stop" where
  "delete_defaults lib [] = Exit_ok"
| "delete_defaults lib (f # fs) =
     (if acl_delete_def_file lib f then delete_defaults lib fs else Err_exit ''acl_delete_def_file'')"

section \<open>The command line\<close>

text \<open>What the options ask for: the operation chosen last, its argument and the number of operations.\<close>

record acl_opts =
  o_modify :: bool
  o_remove :: bool
  o_delete :: bool
  o_check :: bool
  o_default :: bool
  o_recalc :: bool
  aclSpec :: string
  optCnt :: nat

definition acl_opts0 :: acl_opts where
  "acl_opts0 = \<lparr>o_modify = False, o_remove = False, o_delete = False, o_check = False, o_default = False, o_recalc = True,
     aclSpec = [], optCnt = 0\<rparr>"

text \<open>The loop over the options, as \<open>getopt\<close> delivers them with their arguments.\<close>

fun acl_getopts :: "(char \<times> string) list \<Rightarrow> acl_opts \<Rightarrow> acl_opts option" where
  "acl_getopts [] o' = Some o'"
| "acl_getopts ((c, optarg) # os) o' =
     (if c = CHR ''m'' then acl_getopts os (o'\<lparr>o_modify := True, aclSpec := optarg, optCnt := Suc (optCnt o')\<rparr>)
      else if c = CHR ''x'' then acl_getopts os (o'\<lparr>o_remove := True, aclSpec := optarg, optCnt := Suc (optCnt o')\<rparr>)
      else if c = CHR ''k'' then acl_getopts os (o'\<lparr>o_delete := True, optCnt := Suc (optCnt o')\<rparr>)
      else if c = CHR ''V'' then acl_getopts os (o'\<lparr>o_check := True, aclSpec := optarg, optCnt := Suc (optCnt o')\<rparr>)
      else if c = CHR ''d'' then acl_getopts os (o'\<lparr>o_default := True\<rparr>)
      else if c = CHR ''n'' then acl_getopts os (o'\<lparr>o_recalc := False\<rparr>)
      else None)"

definition acl_update_main ::
  "names \<Rightarrow> libacl \<Rightarrow> (char \<times> string) list \<Rightarrow> string list \<Rightarrow> acl_stop \<times> (string \<times> acl) list" where
  "acl_update_main nm lib os files =
     (case acl_getopts os acl_opts0 of
        None \<Rightarrow> (Usage_error, [])
      | Some p \<Rightarrow>
          if optCnt p \<noteq> 1 \<or> o_check p \<and> o_default p then (Usage_error, [])
          else if o_check p then (if parseACL nm (aclSpec p) True = None then Err_exit ''Bad ACL entry specification'' else Exit_ok, [])
          else if o_delete p then (delete_defaults lib files, [])
          else (case parseACL nm (aclSpec p) (o_modify p) of
                  None \<Rightarrow> (Usage_error, [])
                | Some aclist \<Rightarrow>
                    update_files lib \<lparr>modifyACL = o_modify p, recalcMask = o_recalc p, useDefaultACL = o_default p\<rparr> aclist files))"

end
