(* ===== verification/Acl_Spec.thy ===== *)
theory Acl_Spec
  imports Acl
begin

text \<open>Properties of \<open>acl_update.c\<close>: what is parsed, and what a request does to the list of a file.\<close>

section \<open>Identifiers\<close>

lemma strtol10_dec:
  assumes "n < 2 ^ 63"
  shows "strtol10 (dec n) = (int n, [])"
proof -
  obtain c cs where d: "dec n = c # cs" using dec_not_Nil by (cases "dec n") auto
  have c: "isdigit c" using set_dec_digits [of c n] d by simp
  have tw: "takeWhile isdigit (dec n) = dec n" using takeWhile_isdigit_dec [of "[]" n] by simp
  have dw: "dropWhile isspace (dec n) = dec n" using isdigit_facts(7) [OF c] d by simp
  have cs: "(case dec n of c # _ \<Rightarrow> c = CHR ''-'' | [] \<Rightarrow> False) = False"
    "(case dec n of c # r \<Rightarrow> if c = CHR ''-'' \<or> c = CHR ''+'' then r else dec n | [] \<Rightarrow> dec n) = dec n"
    using isdigit_facts(1,2) [OF c] by (simp_all add: d)
  show ?thesis using assms unfolding strtol10_def dw Let_def cs tw by simp
qed

text \<open>
  A number is taken modulo 2 to the power 32: the entry for the user (or group) with a number
  beyond the range is silently the entry of another one, \<open>4294967296\<close> that of the superuser.
\<close>

lemma uid_wraps:
  assumes "n < 2 ^ 63"
  shows "userIdFromName nm (dec n) = of_nat n \<and> groupIdFromName nm (dec n) = of_nat n"
  using strtol10_dec [OF assms] by (simp add: userIdFromName_def groupIdFromName_def)

definition no_names :: names where
  "no_names = \<lparr>getpwnam = (\<lambda>_. None), getgrnam = (\<lambda>_. None)\<rparr>"

lemma uid_wraps_example: "userIdFromName no_names (dec 4294967296) = 0 \<and> groupIdFromName no_names (dec 4294967296) = 0"
  using uid_wraps [of 4294967296 no_names] by simp

section \<open>Round trip of a specification\<close>

text \<open>The text of an entry: the letter of the tag, the number of the user or group, the permissions.\<close>

definition print_perms :: "int \<Rightarrow> string" where
  "print_perms p = [if p AND ACL_READ \<noteq> 0 then CHR ''r'' else CHR ''-'', if p AND ACL_WRITE \<noteq> 0 then CHR ''w'' else CHR ''-'',
     if p AND ACL_EXECUTE \<noteq> 0 then CHR ''x'' else CHR ''-'']"

definition print_tag :: "acl_tag \<Rightarrow> string" where
  "print_tag t = (case t of ACL_USER_OBJ \<Rightarrow> ''u'' | ACL_USER \<Rightarrow> ''u'' | ACL_GROUP_OBJ \<Rightarrow> ''g'' | ACL_GROUP \<Rightarrow> ''g''
     | ACL_MASK \<Rightarrow> ''m'' | ACL_OTHER \<Rightarrow> ''o'')"

definition print_entry :: "AccessControlEntry \<Rightarrow> string" where
  "print_entry e = print_tag (tag e) @ CHR '':'' # (if tag e = ACL_USER \<or> tag e = ACL_GROUP then dec (unat (qual e)) else []) @
     CHR '':'' # print_perms (the (perms e))"

fun print_acl :: "AccessControlEntry list \<Rightarrow> string" where
  "print_acl [] = []"
| "print_acl [e] = print_entry e"
| "print_acl (e # f # es) = print_entry e @ CHR '','' # print_acl (f # es)"

text \<open>
  A well-typed entry: a qualifier only with the tags that have one, where it is not the error
  number, and a permission set of three bits when permissions are required.
\<close>

definition wf_ace :: "bool \<Rightarrow> AccessControlEntry \<Rightarrow> bool" where
  "wf_ace permsReqd e \<longleftrightarrow>
     (if tag e = ACL_USER \<or> tag e = ACL_GROUP then qual e \<noteq> -1 else qual e = 0) \<and>
     (case perms e of None \<Rightarrow> \<not> permsReqd | Some p \<Rightarrow> permsReqd \<and> p \<in> {0..7})"

lemma perms_cases: "(p :: int) \<in> {0..7} \<Longrightarrow> p = 0 \<or> p = 1 \<or> p = 2 \<or> p = 3 \<or> p = 4 \<or> p = 5 \<or> p = 6 \<or> p = 7"
  by auto

lemmas perm_bits = ACL_READ_def ACL_WRITE_def ACL_EXECUTE_def

lemma parse_print_perms: "p \<in> {0..7} \<Longrightarrow> parse_perms 0 (print_perms p) = Some p"
  by (drule perms_cases) (elim disjE; simp add: print_perms_def perm_bits)

lemma parse_perms_range: "parse_perms acc ps = Some p \<Longrightarrow> acc \<in> {0..7} \<Longrightarrow> p \<in> {0..7}"
proof (induction acc ps rule: parse_perms.induct)
  case (2 acc p ps)
  have "acc OR ACL_READ \<in> {0..7}" "acc OR ACL_WRITE \<in> {0..7}" "acc OR ACL_EXECUTE \<in> {0..7}"
    using perms_cases [OF "2.prems"(2)] by (elim disjE; simp add: perm_bits)+
  with "2" show ?case by (auto split: if_split_asm)
qed simp

lemma printed_facts:
  "CHR '':'' \<notin> set (print_tag t)" "CHR '','' \<notin> set (print_tag t)" "print_perms p \<noteq> []" "CHR '','' \<notin> set (print_perms p)"
  "tag_of (print_tag t) (t = ACL_USER \<or> t = ACL_GROUP) = Some t"
  by (cases t; simp add: print_tag_def print_perms_def tag_of_def)+

lemma comma_notin_dec: "CHR '','' \<notin> set (dec n)"
  using set_dec_digits [of "CHR '',''" n] by (auto simp: isdigit_def)

lemma comma_notin_entry: "CHR '','' \<notin> set (print_entry e)"
  using printed_facts(2,4) comma_notin_dec by (auto simp: print_entry_def)

lemma id_of_dec:
  "userIdFromName nm (dec (unat q)) = q" "groupIdFromName nm (dec (unat q)) = q"
proof -
  have "unat q < 2 ^ LENGTH(32)" by (rule unsigned_less)
  then have "unat q < 2 ^ 63" by simp
  then show "userIdFromName nm (dec (unat q)) = q" "groupIdFromName nm (dec (unat q)) = q"
    using strtol10_dec by (simp_all add: userIdFromName_def groupIdFromName_def)
qed

lemma parse_print_entry:
  assumes "wf_ace True e"
  shows "parseEntrySpec nm (print_entry e) True = Some e"
proof -
  obtain p where p: "perms e = Some p" "p \<in> {0..7}" using assms by (auto simp: wf_ace_def split: option.split_asm)
  let ?u = "tag e = ACL_USER \<or> tag e = ACL_GROUP"
  let ?q = "if ?u then dec (unat (qual e)) else []"
  have s1: "strchr (print_entry e) (CHR '':'') = Some (print_tag (tag e), ?q @ CHR '':'' # print_perms p)"
    unfolding print_entry_def p(1) option.sel by (rule strchr_append [OF printed_facts(1)])
  have s2: "strchr (?q @ CHR '':'' # print_perms p) (CHR '':'') = Some (?q, print_perms p)"
    by (rule strchr_append) simp
  have h: "(?q @ CHR '':'' # print_perms p \<noteq> [] \<and> hd (?q @ CHR '':'' # print_perms p) \<noteq> CHR '':'') = ?u"
    using dec_not_Nil [of "unat (qual e)"] dec_chars(1) [of "unat (qual e)"] by (cases "dec (unat (qual e))") auto
  have e: "\<lparr>tag = tag e, qual = qual e, perms = Some p\<rparr> = e" using p(1) by simp
  show ?thesis
    unfolding parseEntrySpec_def s1 option.case prod.case Let_def s2 h printed_facts(5)
    using assms printed_facts(3) parse_print_perms [OF p(2)] e by (auto simp: wf_ace_def id_of_dec)
qed

lemma parse_print_entries:
  assumes "es \<noteq> []" "\<forall>e \<in> set es. wf_ace True e" "n + length es \<le> MAX_ENTRIES"
  shows "parse_entries nm n (print_acl es) True = Some es"
  using assms
proof (induction es arbitrary: n rule: print_acl.induct)
  case (2 e)
  then show ?case using comma_notin_entry [of e] parse_print_entry [of e nm]
    by (subst parse_entries.simps) (simp add: strchr_None_iff [THEN iffD2])
next
  case (3 e f es)
  have s: "strchr (print_acl (e # f # es)) (CHR '','') = Some (print_entry e, print_acl (f # es))"
    using comma_notin_entry by simp
  have "parse_entries nm (Suc n) (print_acl (f # es)) True = Some (f # es)" using "3.prems" by (intro "3.IH") auto
  then show ?case using "3.prems" parse_print_entry [of e nm]
    by (subst parse_entries.simps) (simp del: print_acl.simps add: s)
qed simp

text \<open>
  A specification is read as it is meant: the text of a list of up to 10000 well-typed entries
  is parsed to exactly these entries.
\<close>

lemma acl_round_trip:
  assumes "es \<noteq> []" "length es \<le> MAX_ENTRIES" "\<forall>e \<in> set es. wf_ace True e"
  shows "parseACL nm (print_acl es) True = Some es"
  using parse_print_entries [OF assms(1,3), of 0] assms(2) by (simp add: parseACL_def)

definition sample_entries :: "AccessControlEntry list" where
  "sample_entries = [\<lparr>tag = ACL_USER, qual = 1000, perms = Some 6\<rparr>, \<lparr>tag = ACL_OTHER, qual = 0, perms = Some 0\<rparr>]"

lemma wf_sample: "sample_entries \<noteq> []" "length sample_entries \<le> MAX_ENTRIES" "\<forall>e \<in> set sample_entries. wf_ace True e"
  by (simp_all add: sample_entries_def wf_ace_def MAX_ENTRIES_def)

lemma acl_round_trip_example: "parseACL no_names (print_acl sample_entries) True = Some sample_entries"
  by (rule acl_round_trip [OF wf_sample])

section \<open>Well-typed entries\<close>

lemma parseEntrySpec_wf: "parseEntrySpec nm s permsReqd = Some e \<Longrightarrow> wf_ace permsReqd e"
  unfolding parseEntrySpec_def Let_def wf_ace_def
  using parse_perms_range [of 0]
  by (auto split: option.split_asm prod.split_asm if_split_asm)

lemma parse_entries_wf:
  assumes "parse_entries nm n s permsReqd = Some es"
  shows "es \<noteq> [] \<and> n + length es \<le> MAX_ENTRIES \<and> (\<forall>e \<in> set es. wf_ace permsReqd e)"
  using assms
proof (induction nm n s permsReqd arbitrary: es rule: parse_entries.induct)
  case (1 nm n s permsReqd)
  note u = "1.prems" [unfolded parse_entries.simps [of nm n s permsReqd]]
  have n: "\<not> MAX_ENTRIES \<le> n" using u by (simp split: if_split_asm)
  show ?case
  proof (cases "strchr s (CHR '','')")
    case None
    then show ?thesis using u n parseEntrySpec_wf by auto
  next
    case (Some x)
    obtain a b where x: "x = (a, b)" by fastforce
    obtain e fs where e: "parseEntrySpec nm a permsReqd = Some e" "parse_entries nm (Suc n) b permsReqd = Some fs" "es = e # fs"
      using u n Some x by (auto split: option.split_asm)
    from "1.IH" [OF n Some [unfolded x] refl e(1) e(2)] e(3) parseEntrySpec_wf [OF e(1)] show ?thesis by simp
  qed
qed

text \<open>
  C38. Whatever the text, a specification that is accepted gives between 1 and 10000 entries, and
  every entry is well typed: a qualifier only for users and groups and never the error number,
  and permissions of three bits exactly when they are required.
\<close>

theorem acl_well_typed:
  assumes "parseACL nm s permsReqd = Some es"
  shows "1 \<le> length es \<and> length es \<le> MAX_ENTRIES \<and> (\<forall>e \<in> set es. wf_ace permsReqd e)"
  using parse_entries_wf [OF assms [unfolded parseACL_def]] by (cases es) simp_all

theorem acl_well_typed_witness: "1 \<le> length sample_entries \<and> list_all (wf_ace True) sample_entries"
proof -
  have "parseACL no_names (print_acl sample_entries) True = Some sample_entries"
    using parse_print_entries [OF wf_sample(1,3), of 0] wf_sample(2) by (simp add: parseACL_def)
  from acl_well_typed [OF this] show ?thesis by (simp add: list_all_iff)
qed

section \<open>What a request does\<close>

text \<open>An access control list as a map from tag and qualifier to permissions.\<close>

definition named :: "acl_tag \<Rightarrow> bool" where
  "named t \<longleftrightarrow> t = ACL_USER \<or> t = ACL_GROUP"

definition key :: "acl_entry \<Rightarrow> acl_tag \<times> 32 word" where
  "key e = (e_tag e, if named (e_tag e) then e_qual e else 0)"

definition req_key :: "AccessControlEntry \<Rightarrow> acl_tag \<times> 32 word" where
  "req_key e = (tag e, if named (tag e) then qual e else 0)"

definition pairs :: "acl \<Rightarrow> ((acl_tag \<times> 32 word) \<times> int) list" where
  "pairs a = map (\<lambda>e. (key e, e_perms e)) a"

definition rights :: "acl \<Rightarrow> acl_tag \<times> 32 word \<rightharpoonup> int" where
  "rights a = map_of (pairs a)"

definition one_each :: "acl \<Rightarrow> bool" where
  "one_each a \<longleftrightarrow> distinct (map fst (pairs a))"

lemma matches_key: "matches (tag e) (qual e) x \<longleftrightarrow> key x = req_key e"
  by (auto simp: matches_def key_def req_key_def named_def)

lemma setPerms_perms: "p \<in> {0..7} \<Longrightarrow> e_perms (setPerms p e) = p"
  by (drule perms_cases) (elim disjE; simp add: setPerms_def perm_bits)

lemma key_setPerms [simp]: "key (setPerms p e) = key e"
  by (simp add: key_def setPerms_def)

lemma findEntry_cases:
  "findEntry a (tag e) (qual e) = None \<Longrightarrow> rights a (req_key e) = None"
  "findEntry a (tag e) (qual e) = Some i \<Longrightarrow> i < length a \<and> key (a ! i) = req_key e"
proof -
  assume "findEntry a (tag e) (qual e) = None"
  then have "\<forall>x \<in> set a. key x \<noteq> req_key e" by (simp add: findEntry_def find_slot_None matches_key)
  then show "rights a (req_key e) = None" by (auto simp: rights_def pairs_def map_of_eq_None_iff)
next
  assume "findEntry a (tag e) (qual e) = Some i"
  then show "i < length a \<and> key (a ! i) = req_key e"
    using find_slot_Some [of "matches (tag e) (qual e)" a i] by (simp add: findEntry_def matches_key)
qed

lemma change_entry_modifies:
  assumes "one_each a" "modifyACL rq" "change_entry lib rq e a = Inr b" "wf_ace True e"
  shows "rights b = (rights a)(req_key e \<mapsto> the (perms e)) \<and> one_each b"
proof -
  obtain p where p: "perms e = Some p" "p \<in> {0..7}" using assms(4) by (auto simp: wf_ace_def split: option.split_asm)
  show ?thesis
  proof (cases "findEntry a (tag e) (qual e)")
    case None
    define x where "x = setPerms p \<lparr>e_tag = tag e, e_qual = (if tag e = ACL_USER \<or> tag e = ACL_GROUP then qual e else 0), e_perms = 0\<rparr>"
    obtain k where b: "b = take k a @ [x] @ drop k a"
      using assms(2,3) None p(1) by (auto simp: change_entry_def x_def split: option.split_asm)
    have x: "key x = req_key e" "e_perms x = p" using setPerms_perms [OF p(2)] by (simp_all add: x_def key_def req_key_def named_def setPerms_def)
    have pb: "pairs b = take k (pairs a) @ (req_key e, p) # drop k (pairs a)"
      using x by (simp add: b pairs_def take_map drop_map)
    have n: "map_of (pairs a) (req_key e) = None" using findEntry_cases(1) [OF None] by (simp add: rights_def)
    have "map fst (take k (pairs a)) @ map fst (drop k (pairs a)) = map fst (pairs a)"
      by (metis append_take_drop_id map_append)
    then have d: "distinct (map fst (take k (pairs a)) @ map fst (drop k (pairs a)))"
      "req_key e \<notin> set (map fst (take k (pairs a)) @ map fst (drop k (pairs a)))"
      using assms(1) n unfolding one_each_def map_of_eq_None_iff by simp_all
    have "rights b = (rights a)(req_key e \<mapsto> p)" unfolding rights_def pb by (rule map_of_insert_at [OF n])
    moreover have "one_each b" using d unfolding one_each_def pb by auto
    ultimately show ?thesis by (simp add: p(1))
  next
    case (Some i)
    then have i: "i < length a" "key (a ! i) = req_key e" using findEntry_cases(2) by blast+
    have b: "b = a[i := setPerms p (a ! i)]" using assms(2,3) Some p(1) by (simp add: change_entry_def)
    have pb: "pairs b = (pairs a)[i := (req_key e, p)]"
      using i setPerms_perms [OF p(2)] by (simp add: b pairs_def map_update)
    have pi: "pairs a ! i = (req_key e, e_perms (a ! i))" using i by (simp add: pairs_def)
    have "rights b = (rights a)(req_key e \<mapsto> p)"
      unfolding rights_def pb using i assms(1) pi by (intro map_of_upd_nth) (simp_all add: pairs_def one_each_def)
    moreover have "map fst (pairs b) = map fst (pairs a)"
      using i pi unfolding pb by (simp add: map_update pairs_def list_update_same_conv)
    ultimately show ?thesis using assms(1) by (simp add: one_each_def p(1))
  qed
qed

lemma change_entry_removes:
  assumes "one_each a" "\<not> modifyACL rq"
  shows "\<exists>b. change_entry lib rq e a = Inr b \<and> rights b = (rights a)(req_key e := None) \<and> one_each b"
proof (cases "findEntry a (tag e) (qual e)")
  case None
  then show ?thesis using assms findEntry_cases(1) [OF None] by (auto simp: change_entry_def)
next
  case (Some i)
  then have i: "i < length a" "key (a ! i) = req_key e" using findEntry_cases(2) by blast+
  let ?b = "take i a @ drop (Suc i) a"
  have pb: "pairs ?b = take i (pairs a) @ drop (Suc i) (pairs a)" by (simp add: pairs_def take_map drop_map)
  have pi: "pairs a ! i = (req_key e, e_perms (a ! i))" using i by (simp add: pairs_def)
  have "rights ?b = (rights a)(req_key e := None)"
    unfolding rights_def pb using i assms(1) pi by (intro map_of_delete_nth) (simp_all add: pairs_def one_each_def)
  moreover have "one_each ?b"
    using assms(1) id_take_nth_drop [of i "map fst (pairs a)"] i unfolding one_each_def pb
    by (simp add: pairs_def take_map drop_map)
  ultimately show ?thesis using assms(2) Some by (auto simp: change_entry_def)
qed

text \<open>
  Documented behaviour of the library: when a call succeeds, the recalculation changes no entry but
  the mask, and there is still one entry for each key.
\<close>

definition mask_only :: "libacl \<Rightarrow> bool" where
  "mask_only lib \<longleftrightarrow> (\<forall>a b. acl_calc_mask lib a = Some b \<longrightarrow> one_each a \<longrightarrow>
     one_each b \<and> (\<forall>k. fst k \<noteq> ACL_MASK \<longrightarrow> rights b k = rights a k))"

text \<open>No call of the library fails.\<close>

definition lib_succeeds :: "libacl \<Rightarrow> bool" where
  "lib_succeeds lib \<longleftrightarrow> (\<forall>a. acl_create_entry lib a \<noteq> None \<and> acl_calc_mask lib a \<noteq> None \<and> acl_valid lib a) \<and>
     (\<forall>f d a. acl_set_file lib f d a)"

lemma update_entry_modifies:
  assumes "one_each a" "modifyACL rq" "wf_ace True e" "mask_only lib" "lib_succeeds lib"
  shows "\<exists>b. update_entry lib rq f e a = Inr b \<and> one_each b \<and>
    (\<forall>k. fst k \<noteq> ACL_MASK \<longrightarrow> rights b k = ((rights a)(req_key e \<mapsto> the (perms e))) k)"
proof -
  obtain k where "acl_create_entry lib a = Some k" using assms(5) unfolding lib_succeeds_def by blast
  then obtain c where c: "change_entry lib rq e a = Inr c"
    using assms(2) by (cases "findEntry a (tag e) (qual e)") (auto simp: change_entry_def)
  note m = change_entry_modifies [OF assms(1,2) c assms(3)]
  have v: "acl_valid lib x" "acl_set_file lib f d x" for x d using assms(5) by (simp_all add: lib_succeeds_def)
  show ?thesis
  proof (cases "recalcMask rq")
    case False
    then show ?thesis using c m v by (simp add: update_entry_def)
  next
    case True
    obtain b where b: "acl_calc_mask lib c = Some b" using assms(5) unfolding lib_succeeds_def by blast
    then have "one_each b \<and> (\<forall>k. fst k \<noteq> ACL_MASK \<longrightarrow> rights b k = rights c k)" using assms(4) m by (auto simp: mask_only_def)
    then show ?thesis using True c m v b by (simp add: update_entry_def)
  qed
qed

text \<open>The permissions the request asks for; of two entries with the same key the later one counts.\<close>

definition requested :: "AccessControlEntry list \<Rightarrow> acl_tag \<times> 32 word \<rightharpoonup> int" where
  "requested es = map_of (rev (map (\<lambda>e. (req_key e, the (perms e))) es))"

lemma update_entries_modifies:
  assumes "one_each a" "modifyACL rq" "\<forall>e \<in> set es. wf_ace True e" "mask_only lib" "lib_succeeds lib"
  shows "\<exists>b ws. update_entries lib rq f es a = (Inr b, ws) \<and> (es \<noteq> [] \<longrightarrow> ws \<noteq> [] \<and> last ws = (f, b)) \<and>
    (\<forall>k. fst k \<noteq> ACL_MASK \<longrightarrow> rights b k = (rights a ++ requested es) k)"
  using assms(1,3)
proof (induction es arbitrary: a)
  case Nil
  then show ?case by (simp add: requested_def)
next
  case (Cons e es)
  obtain c where c: "update_entry lib rq f e a = Inr c" "one_each c"
    "\<forall>k. fst k \<noteq> ACL_MASK \<longrightarrow> rights c k = ((rights a)(req_key e \<mapsto> the (perms e))) k"
    using update_entry_modifies [OF Cons.prems(1) assms(2) _ assms(4,5), of e f] Cons.prems(2) by auto
  obtain b ws where b: "update_entries lib rq f es c = (Inr b, ws)" "es \<noteq> [] \<longrightarrow> ws \<noteq> [] \<and> last ws = (f, b)"
    "\<forall>k. fst k \<noteq> ACL_MASK \<longrightarrow> rights b k = (rights c ++ requested es) k"
    using Cons.IH [OF c(2)] Cons.prems(2) by auto
  have u: "update_entries lib rq f (e # es) a = (Inr b, (f, c) # ws)" using c(1) b(1) by simp
  have "last ((f, c) # ws) = (f, b)" using b(1,2) by (cases "es = []") auto
  moreover have "rights b k = (rights a ++ requested (e # es)) k" if "fst k \<noteq> ACL_MASK" for k
  proof -
    have "rights b k = (rights c ++ requested es) k" "rights c k = ((rights a)(req_key e \<mapsto> the (perms e))) k"
      using b(3) c(3) that by blast+
    then show ?thesis by (simp add: requested_def map_add_def split: option.split)
  qed
  ultimately show ?case using u by (intro exI [of _ b] exI [of _ "(f, c) # ws"]) simp
qed


definition sample_acl :: acl where
  "sample_acl = [\<lparr>e_tag = ACL_USER_OBJ, e_qual = 0, e_perms = 6\<rparr>, \<lparr>e_tag = ACL_GROUP_OBJ, e_qual = 0, e_perms = 4\<rparr>,
     \<lparr>e_tag = ACL_OTHER, e_qual = 0, e_perms = 4\<rparr>]"

definition sample_lib :: libacl where
  "sample_lib = \<lparr>acl_create_entry = (\<lambda>a. Some (length a)),
     acl_calc_mask = (\<lambda>a. Some (filter (\<lambda>e. e_tag e \<noteq> ACL_MASK) a @ [\<lparr>e_tag = ACL_MASK, e_qual = 0, e_perms = 7\<rparr>])),
     acl_valid = (\<lambda>_. True), acl_get_file = (\<lambda>_ _. Some sample_acl), acl_set_file = (\<lambda>_ _ _. True), acl_delete_def_file = (\<lambda>_. True)\<rparr>"

lemma rights_no_mask:
  "fst k \<noteq> ACL_MASK \<Longrightarrow> rights (filter (\<lambda>e. e_tag e \<noteq> ACL_MASK) a @ [\<lparr>e_tag = ACL_MASK, e_qual = 0, e_perms = 7\<rparr>]) k = rights a k"
  by (induction a) (auto simp: rights_def pairs_def key_def named_def)

lemma one_each_mask:
  assumes "one_each a"
  shows "one_each (filter (\<lambda>e. e_tag e \<noteq> ACL_MASK) a @ [\<lparr>e_tag = ACL_MASK, e_qual = 0, e_perms = 7\<rparr>])"
proof -
  have "distinct (map fst (pairs (filter (\<lambda>e. e_tag e \<noteq> ACL_MASK) a)))"
    using assms unfolding one_each_def pairs_def by (simp add: distinct_map_filter)
  then show ?thesis unfolding one_each_def pairs_def by (auto simp: key_def named_def)
qed

lemma sample_lib_facts: "mask_only sample_lib" "lib_succeeds sample_lib"
  by (simp_all add: mask_only_def lib_succeeds_def sample_lib_def rights_no_mask one_each_mask)


end
