(* ===== verification/Fd_Pass.thy ===== *)
theory Fd_Pass
  imports C_Prelude
begin

text \<open>
  What the open and the call server share: passing descriptors (\<open>lib/sendfd.c\<close>, \<open>lib/senderr.c\<close>,
  \<open>lib/recvfd.c\<close>) and splitting a request into arguments (\<open>lib/bufargs.c\<close>). Writes to a connection succeed.
\<close>

definition MAXLINE :: nat where "MAXLINE = 4096"

section \<open>Passing descriptors\<close>

text \<open>What a call puts on the connection: bytes, and possibly a descriptor with them.\<close>

type_synonym message = "string \<times> int option"

definition byte_of :: "int \<Rightarrow> char" where
  "byte_of i = char_of i"

definition send_fd :: "int \<Rightarrow> message" where
  "send_fd fd_to_send =
     (if fd_to_send < 0
      then ([NUL, if byte_of (- fd_to_send) = NUL then byte_of 1 else byte_of (- fd_to_send)], None)
      else ([NUL, NUL], Some fd_to_send))"

definition send_err :: "int \<Rightarrow> string \<Rightarrow> message list" where
  "send_err errcode msg =
     (if msg \<noteq> [] then [(msg, None)] else []) @ [send_fd (if 0 \<le> errcode then -1 else errcode)]"

text \<open>
  The receiver: each element of the list is the answer of one \<open>recvmsg\<close>, the bytes with the
  descriptor. The result has the text handed to the user's function, which takes all of it.
\<close>

datatype recv_end = Closed | Format_error | No_fd

fun recv_fd :: "message list \<Rightarrow> string \<Rightarrow> string \<times> (recv_end + int)" where
  "recv_fd [] out = (out, Inl Closed)"
| "recv_fd ((buf, fd) # ms) out =
     (if buf = [] then (out, Inl Closed)
      else case strchr buf NUL of
             None \<Rightarrow> recv_fd ms (out @ buf)
           | Some (a, b) \<Rightarrow>
               if length b \<noteq> 1 then (out, Inl Format_error)
               else let status = of_char (hd b) :: int
                    in if status = 0
                       then (case fd of None \<Rightarrow> (out, Inl No_fd) | Some newfd \<Rightarrow> (out @ a, Inr newfd))
                       else (out @ a, Inr (- status)))"

section \<open>Arguments\<close>

definition MAXARGC :: nat where "MAXARGC = 50"

definition white :: "char \<Rightarrow> bool" where
  "white c \<longleftrightarrow> c = SPACE \<or> c = CHR 0x09 \<or> c = NEWLINE"

text \<open>\<open>strtok\<close>: the next piece and what is left behind the delimiter that ends it.\<close>

definition strtok :: "(char \<Rightarrow> bool) \<Rightarrow> string \<Rightarrow> (string \<times> string) option" where
  "strtok D s =
     (let t = dropWhile D s
      in if t = [] then None else Some (takeWhile (\<lambda>c. \<not> D c) t, drop 1 (dropWhile (\<lambda>c. \<not> D c) t)))"

lemma strtok_shrinks: "strtok D s = Some (w, r) \<Longrightarrow> length r < length s"
proof -
  assume a: "strtok D s = Some (w, r)"
  define t where "t = dropWhile D s"
  have t: "t \<noteq> []" "r = drop 1 (dropWhile (\<lambda>c. \<not> D c) t)" using a by (auto simp: strtok_def Let_def t_def split: if_split_asm)
  then have "\<not> D (hd t)" using hd_dropWhile unfolding t_def by blast
  then have "length (dropWhile (\<lambda>c. \<not> D c) t) < length t"
    using t(1) length_dropWhile_le [of "\<lambda>c. \<not> D c" "tl t"] by (cases t) auto
  moreover have "length t \<le> length s" unfolding t_def by (rule length_dropWhile_le)
  ultimately show ?thesis using t(2) by simp
qed

text \<open>The pieces \<open>strtok\<close> returns one after the other.\<close>

function tokens :: "string \<Rightarrow> string list" where
  "tokens s = (case strtok white s of None \<Rightarrow> [] | Some (w, r) \<Rightarrow> w # tokens r)"
  by pat_completeness auto
termination
  by (relation "measure length") (auto dest: strtok_shrinks)

declare tokens.simps [simp del]

text \<open>
  \<open>buf_args\<close>: the first argument is the buffer itself, so that it begins with the white space in front of
  the first piece. \<open>optfunc\<close> gets the arguments; \<open>None\<close> is the result -1 without a call.
\<close>

definition buf_args :: "string \<Rightarrow> (string list \<Rightarrow> 'a) \<Rightarrow> 'a option" where
  "buf_args buf optfunc =
     (case tokens buf of
        [] \<Rightarrow> None
      | t # ts \<Rightarrow>
          if MAXARGC - 1 \<le> length ts then None else Some (optfunc ((takeWhile white buf @ t) # ts)))"

text \<open>A message printed into the global buffer of \<open>MAXLINE\<close> bytes.\<close>

definition err_text :: "string \<Rightarrow> fault + string" where
  "err_text s = (if MAXLINE \<le> length s then Inl Overflow else Inr s)"

lemma of_char_byte_of: "0 \<le> i \<Longrightarrow> i < 256 \<Longrightarrow> of_char (byte_of i) = i"
  by (simp add: byte_of_def of_char_of)

lemma recv_pieces:
  assumes "\<forall>p \<in> set ps. p \<noteq> [] \<and> NUL \<notin> set p"
  shows "recv_fd (map (\<lambda>p. (p, None)) ps @ ms) out = recv_fd ms (out @ concat ps)"
  using assms by (induction ps arbitrary: out) (simp_all add: strchr_None_iff [THEN iffD2])

text \<open>However the text of an error is cut into pieces, the receiver passes it on and returns the code.\<close>

lemma recv_error:
  assumes "\<forall>p \<in> set ps. p \<noteq> []" "concat ps @ q = msg" "NUL \<notin> set msg"
  shows "recv_fd (map (\<lambda>p. (p, None)) ps @ [(q @ fst (send_fd (-1)), None)]) [] = (msg, Inr (-1))"
proof -
  have n: "\<forall>p \<in> set ps. p \<noteq> [] \<and> NUL \<notin> set p" "NUL \<notin> set q" using assms by auto
  have b: "byte_of 1 \<noteq> NUL" "of_char (byte_of 1) = (1 :: int)" using of_char_byte_of [of 1] by (auto simp: NUL_def)
  have "strchr (q @ [NUL, byte_of 1]) NUL = Some (q, [byte_of 1])" using strchr_append [OF n(2), of "[byte_of 1]"] by simp
  then show ?thesis using recv_pieces [OF n(1)] assms(2) b by (simp add: send_fd_def)
qed

lemma strtok_word:
  assumes "w \<noteq> []" "\<forall>c \<in> set w. \<not> D c"
  shows "strtok D w = Some (w, [])" "D c \<Longrightarrow> strtok D (w @ c # s) = Some (w, s)"
proof -
  have d: "dropWhile D w = w" "dropWhile D (w @ s) = w @ s" for s using assms by (cases w; simp)+
  have e: "dropWhile (\<lambda>c. \<not> D c) w = []" "takeWhile (\<lambda>c. \<not> D c) w = w" using assms(2) by simp_all
  show "strtok D w = Some (w, [])" using assms(1) unfolding strtok_def d Let_def e by simp
  assume c: "D c"
  have "takeWhile (\<lambda>c. \<not> D c) (w @ c # s) = w" "dropWhile (\<lambda>c. \<not> D c) (w @ c # s) = c # s"
    using assms(2) c by (simp_all add: takeWhile_append dropWhile_append)
  then show "strtok D (w @ c # s) = Some (w, s)" using assms(1) d(2) by (simp add: strtok_def)
qed

lemma tokens_word:
  assumes "w \<noteq> []" "\<forall>c \<in> set w. \<not> white c"
  shows "tokens w = [w]" "white c \<Longrightarrow> tokens (w @ c # s) = w # tokens s"
  using strtok_word [where D = white, OF assms] by (simp_all add: tokens.simps [of w] tokens.simps [of "w @ c # s"] tokens.simps [of "[]"] strtok_def)

lemma tokens_white: "white c \<Longrightarrow> tokens (c # s) = tokens s"
  by (simp add: tokens.simps [of "c # s"] tokens.simps [of s] strtok_def)

lemma white_facts: "white SPACE" "isdigit c \<Longrightarrow> \<not> white c"
  by (auto simp: white_def isdigit_def SPACE_def NEWLINE_def)

end
