(* ===== verification/Client_Table.thy ===== *)
theory Client_Table
  imports C_Array
begin

text \<open>
  The table of connected clients (\<open>opend/client.c\<close>, and the same code in \<open>calld/client.c\<close>, where an entry has
  more members): an array that grows, whose free entries have the descriptor -1. The argument \<open>e\<close> has the
  contents of new entries, which only their descriptor is set in. Allocations succeed.
\<close>

section \<open>The table\<close>

record client =
  fd :: int
  uid :: nat

definition NALLOC :: nat where "NALLOC = 10"

definition client_alloc :: "'a client_scheme \<Rightarrow> 'a client_scheme list \<Rightarrow> 'a client_scheme list" where
  "client_alloc e c = c @ replicate NALLOC (e\<lparr>fd := -1\<rparr>)"

text \<open>The search is repeated after the table has been enlarged; then it succeeds at the first new entry.\<close>

definition client_add :: "'a client_scheme \<Rightarrow> int \<Rightarrow> nat \<Rightarrow> 'a client_scheme list \<Rightarrow> nat \<times> 'a client_scheme list" where
  "client_add e f u c =
     (let c = (if c = [] then client_alloc e c else c)
      in case find_slot (\<lambda>e. fd e = -1) c of
           Some i \<Rightarrow> (i, c[i := (c ! i)\<lparr>fd := f, uid := u\<rparr>])
         | None \<Rightarrow> (let d = client_alloc e c in (length c, d[length c := (d ! length c)\<lparr>fd := f, uid := u\<rparr>])))"

definition client_del :: "int \<Rightarrow> 'a client_scheme list \<Rightarrow> fault + 'a client_scheme list" where
  "client_del f c =
     (case find_slot (\<lambda>e. fd e = f) c of
        Some i \<Rightarrow> Inr (c[i := (c ! i)\<lparr>fd := -1\<rparr>])
      | None \<Rightarrow> Inl (Log_exit ''can not find client entry''))"

section \<open>The descriptors in use\<close>

definition lfds :: "'a client_scheme list \<Rightarrow> int list" where
  "lfds c = filter (\<lambda>f. 0 \<le> f) (map fd c)"

lemma lfds_simps [simp]:
  "lfds [] = []" "lfds (e # c) = (if 0 \<le> fd e then fd e # lfds c else lfds c)" "lfds (c @ d) = lfds c @ lfds d"
  "fd e < 0 \<Longrightarrow> lfds (replicate k e) = []"
  by (simp_all add: lfds_def)

lemma lfds_split: "j < length c \<Longrightarrow> lfds c = lfds (take j c) @ lfds [c ! j] @ lfds (drop (Suc j) c)"
  using filter_map_split [of j c "\<lambda>f. 0 \<le> f" fd] by (simp add: lfds_def)

lemma lfds_upd: "j < length c \<Longrightarrow> lfds (c[j := e]) = lfds (take j c) @ lfds [e] @ lfds (drop (Suc j) c)"
  using filter_map_upd [of j c "\<lambda>f. 0 \<le> f" fd e] by (simp add: lfds_def)

text \<open>A new connection takes the first free entry of the table, enlarged if necessary; the others are kept.\<close>

lemma client_add_slot:
  assumes "client_add e f u c = (i, c')"
  shows "\<exists>k. let d = c @ replicate k (e\<lparr>fd := -1\<rparr>)
    in i < length d \<and> fd (d ! i) = -1 \<and> c' = d[i := (d ! i)\<lparr>fd := f, uid := u\<rparr>] \<and> (\<forall>j < i. fd (d ! j) \<noteq> -1)"
proof -
  define b where "b = (if c = [] then client_alloc e c else c)"
  obtain k0 where b: "b = c @ replicate k0 (e\<lparr>fd := -1\<rparr>)"
    by (cases "c = []") (auto simp: b_def client_alloc_def intro: that [of 0])
  show ?thesis
  proof (cases "find_slot (\<lambda>e. fd e = -1) b")
    case (Some j)
    then have "i = j" "c' = b[j := (b ! j)\<lparr>fd := f, uid := u\<rparr>]" using assms by (auto simp: client_add_def b_def [symmetric])
    then show ?thesis using find_slot_Some [OF Some] unfolding Let_def b by (intro exI [of _ k0]) simp
  next
    case None
    let ?d = "client_alloc e b"
    have e: "i = length b" "c' = ?d[length b := (?d ! length b)\<lparr>fd := f, uid := u\<rparr>]"
      using assms None by (auto simp: client_add_def b_def [symmetric] Let_def)
    have d: "?d = c @ replicate (k0 + NALLOC) (e\<lparr>fd := -1\<rparr>)" by (simp add: client_alloc_def b replicate_add)
    have "\<forall>j < length b. fd (b ! j) \<noteq> -1" using None nth_mem unfolding find_slot_None by blast
    then have "\<forall>j < i. fd (?d ! j) \<noteq> -1" by (simp add: e client_alloc_def nth_append)
    moreover have "i < length ?d" "fd (?d ! i) = -1" by (simp_all add: e client_alloc_def NALLOC_def nth_append)
    ultimately show ?thesis using e unfolding Let_def d by (intro exI [of _ "k0 + NALLOC"]) simp
  qed
qed

lemma client_add_first:
  assumes "client_add e f u c = (i, c')"
  shows "\<forall>j < i. j < length c \<longrightarrow> fd (c ! j) \<noteq> -1" "i \<le> length c" "i < length c'" "length c \<le> length c'"
    "i < length c \<Longrightarrow> fd (c ! i) = -1 \<and> c' ! i = (c ! i)\<lparr>fd := f, uid := u\<rparr>"
    "i = length c \<Longrightarrow> c' ! i = e\<lparr>fd := f, uid := u\<rparr>"
    "j < length c' \<Longrightarrow> j \<noteq> i \<Longrightarrow> c' ! j = (if j < length c then c ! j else e\<lparr>fd := -1\<rparr>)"
proof -
  obtain k where d: "i < length (c @ replicate k (e\<lparr>fd := -1\<rparr>))" "fd ((c @ replicate k (e\<lparr>fd := -1\<rparr>)) ! i) = -1"
    "c' = (c @ replicate k (e\<lparr>fd := -1\<rparr>))[i := ((c @ replicate k (e\<lparr>fd := -1\<rparr>)) ! i)\<lparr>fd := f, uid := u\<rparr>]"
    "\<forall>j < i. fd ((c @ replicate k (e\<lparr>fd := -1\<rparr>)) ! j) \<noteq> -1"
    using client_add_slot [OF assms] by (auto simp: Let_def)
  show "\<forall>j < i. j < length c \<longrightarrow> fd (c ! j) \<noteq> -1"
    using d(4) by (metis nth_append)
  show il: "i \<le> length c"
  proof (rule ccontr)
    assume "\<not> i \<le> length c"
    then have "length c < i" by simp
    then show False using d(1,4) by (auto simp: nth_append dest!: spec [of _ "length c"])
  qed
  show "i < length c'" "length c \<le> length c'" using d by simp_all
  show "i < length c \<Longrightarrow> fd (c ! i) = -1 \<and> c' ! i = (c ! i)\<lparr>fd := f, uid := u\<rparr>" using d(1-3) by (simp add: nth_append)
  show "i = length c \<Longrightarrow> c' ! i = e\<lparr>fd := f, uid := u\<rparr>" using d(1-3) by (simp add: nth_append)
  show "j < length c' \<Longrightarrow> j \<noteq> i \<Longrightarrow> c' ! j = (if j < length c then c ! j else e\<lparr>fd := -1\<rparr>)" using d(3) by (simp add: nth_append)
qed

lemma client_add_facts:
  assumes "client_add e f u c = (i, c')" "0 \<le> f" "f \<notin> set (lfds c)" "distinct (lfds c)"
  shows "set (lfds c') = insert f (set (lfds c))" "distinct (lfds c')"
proof -
  obtain k where d: "i < length (c @ replicate k (e\<lparr>fd := -1\<rparr>))" "fd ((c @ replicate k (e\<lparr>fd := -1\<rparr>)) ! i) = -1"
    "c' = (c @ replicate k (e\<lparr>fd := -1\<rparr>))[i := ((c @ replicate k (e\<lparr>fd := -1\<rparr>)) ! i)\<lparr>fd := f, uid := u\<rparr>]"
    using client_add_slot [OF assms(1)] by (auto simp: Let_def)
  define b where "b = c @ replicate k (e\<lparr>fd := -1\<rparr>)"
  note d = d [folded b_def]
  have lb: "lfds b = lfds c" by (simp add: b_def)
  have s: "lfds c = lfds (take i b) @ lfds (drop (Suc i) b)" using lfds_split [OF d(1)] d(2) lb by simp
  have t: "lfds c' = lfds (take i b) @ f # lfds (drop (Suc i) b)" using lfds_upd [OF d(1)] d(3) assms(2) by simp
  show "set (lfds c') = insert f (set (lfds c))" unfolding s t by auto
  show "distinct (lfds c')" using assms(3,4) unfolding s t by auto
qed

lemma client_add_live:
  assumes "client_add e f u c = (i, c')" "j < length c'" "0 \<le> fd (c' ! j)"
  shows "j = i \<or> j < length c \<and> 0 \<le> fd (c ! j)"
  using client_add_first(7) [OF assms(1,2)] assms(3) by (auto split: if_split_asm)

text \<open>A descriptor is in one entry only, so the entry that is cleared is the one that was read from.\<close>

lemma client_del_slot:
  assumes "distinct (lfds c)" "i < length c" "0 \<le> fd (c ! i)"
  shows "client_del (fd (c ! i)) c = Inr (c[i := (c ! i)\<lparr>fd := -1\<rparr>])"
proof -
  obtain j where j: "find_slot (\<lambda>e. fd e = fd (c ! i)) c = Some j"
    using find_slot_None [of "\<lambda>e. fd e = fd (c ! i)" c] nth_mem [OF assms(2)] by fastforce
  have jj: "j < length c" "fd (c ! j) = fd (c ! i)" "\<not> i < j" using find_slot_Some [OF j] by auto
  have s: "lfds c = lfds (take j c) @ fd (c ! i) # lfds (drop (Suc j) c)" using lfds_split [OF jj(1)] jj(2) assms(3) by simp
  have "c ! i \<in> set (drop (Suc j) c)" if "j < i" using that assms(2) by (auto simp: in_set_conv_nth intro!: exI [of _ "i - Suc j"])
  then have "fd (c ! i) \<in> set (lfds (drop (Suc j) c))" if "j < i" using that assms(3) by (auto simp: lfds_def)
  then have "i = j" using assms(1) jj(3) unfolding s by (cases "j < i") auto
  then show ?thesis using j by (simp add: client_del_def)
qed

lemma client_del_facts:
  assumes "distinct (lfds c)" "i < length c" "0 \<le> fd (c ! i)"
  shows "set (lfds (c[i := (c ! i)\<lparr>fd := -1\<rparr>])) = set (lfds c) - {fd (c ! i)}" "distinct (lfds (c[i := (c ! i)\<lparr>fd := -1\<rparr>]))"
proof -
  have s: "lfds c = lfds (take i c) @ fd (c ! i) # lfds (drop (Suc i) c)" using lfds_split [OF assms(2)] assms(3) by simp
  have t: "lfds (c[i := (c ! i)\<lparr>fd := -1\<rparr>]) = lfds (take i c) @ lfds (drop (Suc i) c)" using lfds_upd [OF assms(2)] by simp
  show "set (lfds (c[i := (c ! i)\<lparr>fd := -1\<rparr>])) = set (lfds c) - {fd (c ! i)}" "distinct (lfds (c[i := (c ! i)\<lparr>fd := -1\<rparr>]))"
    using assms(1) unfolding s t by auto
qed

end
