(* ===== verification/Open_Server.thy ===== *)
theory Open_Server
  imports Fd_Pass Client_Table
begin

text \<open>
  The open server: the client's call (\<open>open/open.c\<close>) and the server (\<open>opend/request.c\<close>, \<open>opend.fe/cliargs.c\<close>,
  \<open>opend/loop.select.c\<close>, \<open>opend/loop.poll.c\<close>). The answers of the system calls are arguments; log messages are left out.
\<close>

definition CL_OPEN :: string where "CL_OPEN = ''open''"

text \<open>\<open>cli_args\<close>: the pathname and the flags, or the message for the client.\<close>

definition cli_args :: "string list \<Rightarrow> string + string \<times> int" where
  "cli_args argv =
     (if length argv \<noteq> 3 \<or> argv ! 0 \<noteq> CL_OPEN then Inl (''usage: <pathname> <oflag>'' @ [NEWLINE])
      else Inr (argv ! 1, atoi (argv ! 2)))"

section \<open>A request\<close>

text \<open>
  The answer of \<open>open\<close>: a descriptor, or the text for the error. \<open>errmsg\<close> is the global buffer, which is
  sent as it was left when the arguments cannot be split.
\<close>

definition request ::
  "(string \<Rightarrow> int \<Rightarrow> string + int) \<Rightarrow> string \<Rightarrow> nat \<Rightarrow> string \<Rightarrow> fault + message list \<times> string" where
  "request open_file buf u errmsg =
     (if last buf \<noteq> NUL
      then bindR (err_text (''request from uid '' @ dec_int (wrap32 (int u)) @ '' not null terminated: '' @ pad (length buf) (cstr buf) @ [NEWLINE]))
             (\<lambda>errmsg. Inr (send_err (-1) errmsg, errmsg))
      else
        case buf_args (cstr buf) cli_args of
          None \<Rightarrow> Inr (send_err (-1) errmsg, errmsg)
        | Some (Inl m) \<Rightarrow> Inr (send_err (-1) m, m)
        | Some (Inr (pathname, oflag)) \<Rightarrow>
            (case open_file pathname oflag of
               Inl strerror \<Rightarrow>
                 bindR (err_text (''can'' @ [CHR 0x27] @ ''t open '' @ pathname @ '': '' @ strerror @ [NEWLINE]))
                   (\<lambda>errmsg. Inr (send_err (-1) errmsg, errmsg))
             | Inr newfd \<Rightarrow> Inr ([send_fd newfd], errmsg)))"

text \<open>The client's side: the text of the request; the flags are printed into a buffer of ten bytes.\<close>

definition csopen_request :: "string \<Rightarrow> int \<Rightarrow> fault + string" where
  "csopen_request name oflag =
     (let buf = [SPACE] @ dec_int oflag
      in if 10 \<le> length buf then Inl Overflow else Inr (CL_OPEN @ [SPACE] @ name @ buf @ [NUL]))"

section \<open>The loop with select\<close>

definition new_client :: client where "new_client = \<lparr>fd = -1, uid = 0\<rparr>"

record server =
  clients :: "client list"
  allset :: "int set"
  listenfd :: int
  maxfd :: int
  maxi :: int
  errbuf :: string
  sent :: "(int \<times> message list) list"

definition server_start :: "int \<Rightarrow> server" where
  "server_start l = \<lparr>clients = [], allset = {l}, listenfd = l, maxfd = l, maxi = -1, errbuf = [], sent = []\<rparr>"

text \<open>A new connection, with the client's user.\<close>

definition accept_client :: "int \<Rightarrow> nat \<Rightarrow> server \<Rightarrow> server" where
  "accept_client clifd u s =
     (let (i, c) = client_add new_client clifd u (clients s)
      in s\<lparr>clients := c, allset := insert clifd (allset s), maxfd := max (maxfd s) clifd, maxi := max (maxi s) (int i)\<rparr>)"

text \<open>
  One client that can be read. \<open>rd\<close> are the answers of \<open>read\<close>: an error ends the server, no bytes mean that
  the client has closed the connection.
\<close>

definition serve_client ::
  "(int \<Rightarrow> string option) \<Rightarrow> (string \<Rightarrow> int \<Rightarrow> string + int) \<Rightarrow> nat \<Rightarrow> server \<Rightarrow> fault + server" where
  "serve_client rd open_file i s =
     (let e = clients s ! i
      in case rd (fd e) of
           None \<Rightarrow> Inl (Log_exit ''read error'')
         | Some buf \<Rightarrow>
             if buf = []
             then bindR (client_del (fd e) (clients s)) (\<lambda>c. Inr (s\<lparr>clients := c, allset := allset s - {fd e}\<rparr>))
             else bindR (request open_file buf (uid e) (errbuf s)) (\<lambda>(ms, errmsg).
                  Inr (s\<lparr>errbuf := errmsg, sent := sent s @ [(fd e, ms)]\<rparr>)))"

primrec serve_clients ::
  "(int \<Rightarrow> string option) \<Rightarrow> (string \<Rightarrow> int \<Rightarrow> string + int) \<Rightarrow> int set \<Rightarrow> nat list \<Rightarrow> server \<Rightarrow> fault + server" where
  "serve_clients rd open_file rset [] s = Inr s"
| "serve_clients rd open_file rset (i # is) s =
     bindR (if 0 \<le> fd (clients s ! i) \<and> fd (clients s ! i) \<in> rset then serve_client rd open_file i s else Inr s)
       (serve_clients rd open_file rset is)"

text \<open>One round: the set \<open>select\<close> has reported; a new connection is accepted before anything else.\<close>

definition select_round ::
  "int set \<Rightarrow> (int \<times> nat) option \<Rightarrow> (int \<Rightarrow> string option) \<Rightarrow> (string \<Rightarrow> int \<Rightarrow> string + int) \<Rightarrow> server \<Rightarrow> fault + server" where
  "select_round rset acc rd open_file s =
     (if listenfd s \<in> rset
      then (case acc of None \<Rightarrow> Inl (Log_exit ''serv_accept error'') | Some (clifd, u) \<Rightarrow> Inr (accept_client clifd u s))
      else serve_clients rd open_file rset [0 ..< nat (maxi s + 1)] s)"

section \<open>The loop with poll\<close>

text \<open>
  Entry 0 of both tables is the listening socket. \<open>revents\<close> are the contents of the members of that name: for
  an entry that has just been filled, \<open>poll\<close> has not set it yet.
  \<open>mem\<close> is what the allocated array of \<open>poll\<close> holds at the start.
\<close>

datatype revent = Hup | In | Quiet

record poller =
  pclients :: "client list"
  pollfd :: "nat \<Rightarrow> int"
  pmaxi :: nat
  perrbuf :: string
  psent :: "(int \<times> message list) list"

definition poller_start :: "(nat \<Rightarrow> int) \<Rightarrow> int \<Rightarrow> poller" where
  "poller_start mem l = \<lparr>pclients = snd (client_add new_client l 0 []), pollfd = mem(0 := l), pmaxi = 0, perrbuf = [], psent = []\<rparr>"

definition poll_accept :: "int \<Rightarrow> nat \<Rightarrow> poller \<Rightarrow> poller" where
  "poll_accept clifd u s =
     (let (i, c) = client_add new_client clifd u (pclients s)
      in s\<lparr>pclients := c, pollfd := (pollfd s)(i := clifd), pmaxi := max (pmaxi s) i\<rparr>)"

definition poll_client ::
  "(nat \<Rightarrow> revent) \<Rightarrow> (int \<Rightarrow> string option) \<Rightarrow> (string \<Rightarrow> int \<Rightarrow> string + int) \<Rightarrow> nat \<Rightarrow> poller \<Rightarrow> fault + poller" where
  "poll_client revents rd open_file i s =
     (let e = pclients s ! i;
          hungup = bindR (client_del (fd e) (pclients s)) (\<lambda>c. Inr (s\<lparr>pclients := c, pollfd := (pollfd s)(i := -1)\<rparr>))
      in if fd e < 0 then Inr s
         else case revents i of
                Hup \<Rightarrow> hungup
              | Quiet \<Rightarrow> Inr s
              | In \<Rightarrow>
                  (case rd (fd e) of
                     None \<Rightarrow> Inl (Log_exit ''read error'')
                   | Some buf \<Rightarrow>
                       if buf = [] then hungup
                       else bindR (request open_file buf (uid e) (perrbuf s)) (\<lambda>(ms, errmsg).
                            Inr (s\<lparr>perrbuf := errmsg, psent := psent s @ [(fd e, ms)]\<rparr>))))"

primrec poll_clients ::
  "(nat \<Rightarrow> revent) \<Rightarrow> (int \<Rightarrow> string option) \<Rightarrow> (string \<Rightarrow> int \<Rightarrow> string + int) \<Rightarrow> nat list \<Rightarrow> poller \<Rightarrow> fault + poller" where
  "poll_clients revents rd open_file [] s = Inr s"
| "poll_clients revents rd open_file (i # is) s =
     bindR (poll_client revents rd open_file i s) (poll_clients revents rd open_file is)"

definition poll_round ::
  "(nat \<Rightarrow> revent) \<Rightarrow> (int \<times> nat) option \<Rightarrow> (int \<Rightarrow> string option) \<Rightarrow> (string \<Rightarrow> int \<Rightarrow> string + int) \<Rightarrow> poller \<Rightarrow> fault + poller" where
  "poll_round revents acc rd open_file s =
     bindR (if revents 0 = In
            then (case acc of None \<Rightarrow> Inl (Log_exit ''serv_accept error'') | Some (clifd, u) \<Rightarrow> Inr (poll_accept clifd u s))
            else Inr s)
       (\<lambda>s. poll_clients revents rd open_file [1 ..< Suc (pmaxi s)] s)"

end
