(* ===== verification/Open_Spec.thy ===== *)
theory Open_Spec
  imports Open_Server
begin

text \<open>Properties of the open server: a request from the client's call to its result, and the table of clients.\<close>

section \<open>From the call to the descriptor\<close>

text \<open>A pathname that \<open>csopen\<close> can transmit.\<close>

definition plain_name :: "string \<Rightarrow> bool" where
  "plain_name name \<longleftrightarrow> name \<noteq> [] \<and> (\<forall>c \<in> set name. \<not> white c \<and> c \<noteq> NUL)"

lemma request_parsed:
  assumes "plain_name name"
  shows "buf_args (CL_OPEN @ [SPACE] @ name @ [SPACE] @ dec n) cli_args = Some (cli_args [CL_OPEN, name, dec n])"
proof -
  have o: "CL_OPEN \<noteq> []" "\<forall>c \<in> set CL_OPEN. \<not> white c" by (auto simp: CL_OPEN_def white_def SPACE_def NEWLINE_def)
  have m: "name \<noteq> []" "\<forall>c \<in> set name. \<not> white c" using assms by (auto simp: plain_name_def)
  have d: "dec n \<noteq> []" "\<forall>c \<in> set (dec n). \<not> white c" using set_dec_digits white_facts(2) by auto
  have "tokens (CL_OPEN @ SPACE # name @ SPACE # dec n) = [CL_OPEN, name, dec n]"
    using tokens_word(2) [OF o white_facts(1)] tokens_word(2) [OF m white_facts(1)] tokens_word(1) [OF d] tokens_white [OF white_facts(1)]
    by simp
  moreover have "takeWhile white (CL_OPEN @ s) = []" for s using o(2) by (simp add: CL_OPEN_def)
  ultimately show ?thesis by (simp add: buf_args_def MAXARGC_def)
qed

lemma request_served:
  assumes "plain_name name" "n < 10 ^ 8" "csopen_request name (int n) = Inr req"
  shows "request open_file req u errmsg =
    (case open_file name (int n) of
       Inl strerror \<Rightarrow> bindR (err_text (''can'' @ [CHR 0x27] @ ''t open '' @ name @ '': '' @ strerror @ [NEWLINE]))
                   (\<lambda>errmsg. Inr (send_err (-1) errmsg, errmsg))
     | Inr newfd \<Rightarrow> Inr ([send_fd newfd], errmsg))"
proof -
  have r: "req = (CL_OPEN @ [SPACE] @ name @ [SPACE] @ dec n) @ [NUL]"
    using assms(3) unfolding csopen_request_def dec_int_def Let_def by (simp split: if_split_asm)
  have "NUL \<notin> set CL_OPEN" "NUL \<noteq> SPACE" by (simp_all add: CL_OPEN_def NUL_def SPACE_def)
  then have "NUL \<notin> set (CL_OPEN @ [SPACE] @ name @ [SPACE] @ dec n)" using assms(1) by (auto simp: plain_name_def)
  then have c: "cstr req = CL_OPEN @ [SPACE] @ name @ [SPACE] @ dec n" unfolding r by (rule cstr_append_NUL)
  have "atoi (dec n) = int n" using assms(2) by (simp add: atoi_def atol_dec wrap32_id)
  then have a: "cli_args [CL_OPEN, name, dec n] = Inr (name, int n)" by (simp add: cli_args_def)
  have l: "last req = NUL" unfolding r by simp
  have t: "(NUL \<noteq> NUL) = False" by simp
  show ?thesis unfolding request_def c request_parsed [OF assms(1)] a l t if_False option.case sum.case prod.case ..
qed



section \<open>No client is forgotten\<close>

definition srv_ok :: "server \<Rightarrow> bool" where
  "srv_ok s \<longleftrightarrow> distinct (lfds (clients s)) \<and> listenfd s \<notin> set (lfds (clients s)) \<and>
     allset s = insert (listenfd s) (set (lfds (clients s))) \<and> (\<forall>f \<in> allset s. f \<le> maxfd s) \<and>
     (\<forall>i < length (clients s). 0 \<le> fd (clients s ! i) \<longrightarrow> int i \<le> maxi s) \<and> maxi s < int (length (clients s))"

lemma accept_client_ok:
  assumes "srv_ok s" "0 \<le> f" "f \<notin> allset s"
  shows "srv_ok (accept_client f u s)"
proof -
  obtain i c' where a: "client_add new_client f u (clients s) = (i, c')" by fastforce
  have n: "f \<notin> set (lfds (clients s))" "distinct (lfds (clients s))" "f \<noteq> listenfd s" using assms by (auto simp: srv_ok_def)
  note F = client_add_facts [OF a assms(2) n(1,2)]
  have "int j \<le> max (maxi s) (int i)" if "j < length c'" "0 \<le> fd (c' ! j)" for j
    using client_add_live [OF a that] assms(1) by (auto simp: srv_ok_def)
  moreover have "maxi s < int (length c')" 
    using client_add_slot [OF a] assms(1) by (auto simp: srv_ok_def Let_def)
  moreover have "\<forall>g \<in> insert f (allset s). g \<le> max (maxfd s) f" using assms(1) by (auto simp: srv_ok_def le_max_iff_disj)
  ultimately show ?thesis using assms(1) F client_add_first(3) [OF a] n by (auto simp: srv_ok_def accept_client_def a)
qed

lemma serve_client_ok:
  assumes "srv_ok s" "serve_client rd open_file i s = Inr s'" "i < length (clients s)" "0 \<le> fd (clients s ! i)"
  shows "srv_ok s' \<and> maxi s' = maxi s \<and> listenfd s' = listenfd s \<and> length (clients s') = length (clients s)"
proof -
  have d: "distinct (lfds (clients s))" using assms(1) by (simp add: srv_ok_def)
  obtain buf where buf: "rd (fd (clients s ! i)) = Some buf"
    using assms(2) by (cases "rd (fd (clients s ! i))") (simp_all add: serve_client_def Let_def)
  show ?thesis
  proof (cases "buf = []")
    case True
    let ?c = "(clients s)[i := (clients s ! i)\<lparr>fd := -1\<rparr>]"
    note c = client_del_facts [OF d assms(3,4)]
    have s': "s' = s\<lparr>clients := ?c, allset := allset s - {fd (clients s ! i)}\<rparr>"
      using assms(2) buf True client_del_slot [OF d assms(3,4)] by (simp add: serve_client_def Let_def)
    have "fd (clients s ! i) \<in> set (lfds (clients s))" using assms(3,4) by (auto simp: lfds_def)
    then have "fd (clients s ! i) \<noteq> listenfd s" using assms(1) by (auto simp: srv_ok_def)
    moreover have "int j \<le> maxi s" if "j < length (clients s)" "0 \<le> fd (?c ! j)" for j
      using assms(1) that by (cases "j = i") (auto simp: srv_ok_def)
    ultimately show ?thesis using assms(1) c unfolding s' srv_ok_def by auto
  next
    case False
    then show ?thesis using assms(1,2) buf by (auto simp: serve_client_def Let_def bindR_eq_Inr srv_ok_def)
  qed
qed

lemma serve_clients_ok:
  assumes "srv_ok s" "serve_clients rd open_file rset is s = Inr s'" "\<forall>i \<in> set is. i < length (clients s)"
  shows "srv_ok s'"
  using assms
proof (induction "is" arbitrary: s)
  case (Cons i js)
  obtain s1 where s1: "(if 0 \<le> fd (clients s ! i) \<and> fd (clients s ! i) \<in> rset then serve_client rd open_file i s else Inr s) = Inr s1"
    "serve_clients rd open_file rset js s1 = Inr s'" using Cons.prems(2) by (auto simp: bindR_eq_Inr)
  have "srv_ok s1 \<and> length (clients s1) = length (clients s)"
    using s1(1) serve_client_ok [OF Cons.prems(1), of rd open_file i] Cons.prems by (auto split: if_split_asm)
  with Cons.IH [OF _ s1(2)] Cons.prems(3) show ?case by simp
qed simp

text \<open>A run of the server: the kernel's descriptor for a new connection is not one in use.\<close>

inductive srv_run :: "server \<Rightarrow> bool" where
  Srv_start: "0 \<le> l \<Longrightarrow> srv_run (server_start l)"
| Srv_round: "srv_run s \<Longrightarrow> select_round rset acc rd open_file s = Inr s' \<Longrightarrow>
    (\<forall>f u. acc = Some (f, u) \<longrightarrow> 0 \<le> f \<and> f \<notin> allset s) \<Longrightarrow> srv_run s'"

lemma srv_run_ok: "srv_run s \<Longrightarrow> srv_ok s"
proof (induction rule: srv_run.induct)
  case (Srv_start l)
  then show ?case by (simp add: srv_ok_def server_start_def)
next
  case (Srv_round s rset acc rd open_file s')
  show ?case
  proof (cases "listenfd s \<in> rset")
    case True
    then obtain f u where "acc = Some (f, u)" "s' = accept_client f u s"
      using Srv_round.hyps(2) by (auto simp: select_round_def split: option.split_asm)
    then show ?thesis using Srv_round accept_client_ok by simp
  next
    case False
    then have "serve_clients rd open_file rset [0 ..< nat (maxi s + 1)] s = Inr s'"
      using Srv_round.hyps(2) by (simp add: select_round_def)
    moreover have "\<forall>i \<in> set [0 ..< nat (maxi s + 1)]. i < length (clients s)" using Srv_round.IH by (auto simp: srv_ok_def)
    ultimately show ?thesis using serve_clients_ok [OF Srv_round.IH] by blast
  qed
qed

text \<open>
  C33. The server with \<open>select\<close> forgets no client: in every run the descriptors it waits for are exactly the
  listening socket and the connections in its table, all within the limit it passes to \<open>select\<close>, each
  connection is in one entry, and every entry in use is below the limit of its loop over the table.
\<close>

theorem no_client_forgotten:
  assumes "srv_run s"
  shows "allset s = insert (listenfd s) (set (lfds (clients s))) \<and> (\<forall>f \<in> allset s. f \<le> maxfd s) \<and> distinct (lfds (clients s)) \<and>
    (\<forall>i < length (clients s). 0 \<le> fd (clients s ! i) \<longrightarrow> int i \<le> maxi s)"
  using srv_run_ok [OF assms] by (simp add: srv_ok_def)

definition sample_server :: server where
  "sample_server = accept_client 4 100 (server_start 3)"

lemma sample_server_run: "srv_run sample_server"
proof (rule srv_run.Srv_round [OF srv_run.Srv_start [of 3]])
  show "select_round {3} (Some (4, 100)) (\<lambda>_. None) (\<lambda>_ _. Inl []) (server_start 3) = Inr sample_server"
    by (simp add: select_round_def server_start_def sample_server_def)
qed (simp_all add: server_start_def)

theorem no_client_forgotten_witness:
  "allset sample_server = {3, 4} \<and> allset sample_server = insert (listenfd sample_server) (set (lfds (clients sample_server)))"
proof
  show "allset sample_server = {3, 4}"
    by (auto simp: sample_server_def accept_client_def server_start_def split: prod.split)
  show "allset sample_server = insert (listenfd sample_server) (set (lfds (clients sample_server)))"
    using no_client_forgotten [OF sample_server_run] by blast
qed

section \<open>The loop with poll\<close>

text \<open>
  The table beside the array given to \<open>poll\<close>: up to the limit both have the same descriptors, beyond it
  every entry of the table is free, and entry 0 is the listening socket.
\<close>

definition poll_ok :: "int \<Rightarrow> poller \<Rightarrow> bool" where
  "poll_ok l s \<longleftrightarrow> distinct (lfds (pclients s)) \<and> fd (pclients s ! 0) = l \<and> pmaxi s < length (pclients s) \<and>
     (\<forall>i \<le> pmaxi s. pollfd s i = fd (pclients s ! i)) \<and>
     (\<forall>i < length (pclients s). pmaxi s < i \<longrightarrow> fd (pclients s ! i) = -1)"

lemma poller_start_ok: "0 \<le> l \<Longrightarrow> poll_ok l (poller_start mem l)"
proof -
  have "client_add new_client l 0 [] = (0, \<lparr>fd = l, uid = 0\<rparr> # replicate 9 \<lparr>fd = -1, uid = 0\<rparr>)"
    by (simp add: client_add_def client_alloc_def NALLOC_def new_client_def numeral_eq_Suc)
  then show ?thesis by (auto simp: poll_ok_def poller_start_def nth_Cons' simp del: replicate.simps)
qed

lemma poll_okD:
  assumes "poll_ok l s"
  shows "distinct (lfds (pclients s))" "fd (pclients s ! 0) = l" "pmaxi s < length (pclients s)"
    "i \<le> pmaxi s \<Longrightarrow> pollfd s i = fd (pclients s ! i)"
    "i < length (pclients s) \<Longrightarrow> pmaxi s < i \<Longrightarrow> fd (pclients s ! i) = -1"
  using assms by (simp_all add: poll_ok_def)

lemma poll_accept_ok:
  assumes "poll_ok l s" "0 \<le> l" "0 \<le> f" "f \<notin> set (lfds (pclients s))"
  shows "poll_ok l (poll_accept f u s)"
proof -
  obtain i c' where a: "client_add new_client f u (pclients s) = (i, c')" by fastforce
  note P = poll_okD [OF assms(1)]
  have n: "pclients s \<noteq> []" using P(3) by auto
  note F = client_add_first [OF a]
  have new: "fd (c' ! i) = f" using F(2,5,6) by (cases "i = length (pclients s)") simp_all
  have keep: "fd (c' ! j) = fd (pclients s ! j)" if "j \<noteq> i" "j < length (pclients s)" for j
    using F(4) F(7) [of j] that by simp
  have free: "fd (c' ! j) = -1" if "j \<noteq> i" "length (pclients s) \<le> j" "j < length c'" for j using F(7) [of j] that by simp
  have i: "i \<le> Suc (pmaxi s)"
  proof (rule ccontr)
    assume "\<not> i \<le> Suc (pmaxi s)"
    then have "Suc (pmaxi s) < i" by simp
    with F(1,2) have "fd (pclients s ! Suc (pmaxi s)) \<noteq> -1" "Suc (pmaxi s) < length (pclients s)" by simp_all
    with P(5) [of "Suc (pmaxi s)"] show False by simp
  qed
  have "i \<noteq> 0" using F(5) P(2) assms(2) n by (cases "i = 0") simp_all
  then have "fd (c' ! 0) = l" using keep [of 0] P(2) n by simp
  moreover have "distinct (lfds c')" using client_add_facts(2) [OF a assms(3,4) P(1)] .
  moreover have "fd (c' ! j) = -1" if "j < length c'" "max (pmaxi s) i < j" for j
    using keep [of j] free [of j] P(5) [of j] that by (cases "j < length (pclients s)") simp_all
  moreover have "((pollfd s)(i := f)) j = fd (c' ! j)" if "j \<le> max (pmaxi s) i" for j
  proof (cases "j = i")
    case False
    then have "j \<le> pmaxi s" using that i by (simp add: max_def split: if_split_asm)
    then show ?thesis using False keep [of j] P(3) P(4) [of j] by simp
  qed (simp add: new)
  moreover have "max (pmaxi s) i < length c'" using P(3) F(3,4) by simp
  ultimately show ?thesis unfolding poll_ok_def poll_accept_def a Let_def prod.case by simp
qed

lemma poll_client_ok:
  assumes "poll_ok l s" "poll_client revents rd open_file i s = Inr s'" "0 < i" "i \<le> pmaxi s"
  shows "poll_ok l s' \<and> pmaxi s' = pmaxi s"
proof (cases "0 \<le> fd (pclients s ! i)")
  case True
  have d: "distinct (lfds (pclients s))" "i < length (pclients s)" using assms(1,4) by (auto simp: poll_ok_def)
  let ?c = "(pclients s)[i := (pclients s ! i)\<lparr>fd := -1\<rparr>]"
  have h: "poll_ok l (s\<lparr>pclients := ?c, pollfd := (pollfd s)(i := -1)\<rparr>)"
    using assms(1,3,4) client_del_facts(2) [OF d True] by (auto simp: poll_ok_def nth_list_update)
  show ?thesis
    using assms(1,2) h True client_del_slot [OF d True]
    by (auto simp: poll_client_def Let_def bindR_eq_Inr poll_ok_def split: revent.split_asm option.split_asm if_split_asm)
qed (use assms in \<open>auto simp: poll_client_def\<close>)

lemma poll_clients_ok:
  "poll_ok l s \<Longrightarrow> poll_clients revents rd open_file is s = Inr s' \<Longrightarrow> \<forall>i \<in> set is. 0 < i \<and> i \<le> pmaxi s \<Longrightarrow> poll_ok l s'"
proof (induction "is" arbitrary: s)
  case (Cons i js)
  obtain s1 where s1: "poll_client revents rd open_file i s = Inr s1" "poll_clients revents rd open_file js s1 = Inr s'"
    using Cons.prems(2) by (auto simp: bindR_eq_Inr)
  show ?case using Cons.IH [OF _ s1(2)] poll_client_ok [OF Cons.prems(1) s1(1)] Cons.prems(3) by auto
qed simp

lemma poll_round_ok:
  assumes "poll_ok l s" "0 \<le> l" "poll_round revents acc rd open_file s = Inr s'"
    "\<forall>f u. acc = Some (f, u) \<longrightarrow> 0 \<le> f \<and> f \<notin> set (lfds (pclients s))"
  shows "poll_ok l s'"
proof -
  obtain s1 where s1: "(if revents 0 = In then (case acc of None \<Rightarrow> Inl (Log_exit ''serv_accept error'')
      | Some (clifd, u) \<Rightarrow> Inr (poll_accept clifd u s)) else Inr s) = Inr s1"
    "poll_clients revents rd open_file [1 ..< Suc (pmaxi s1)] s1 = Inr s'"
    using assms(3) unfolding poll_round_def bindR_eq_Inr by blast
  have "poll_ok l s1"
  proof (cases "revents 0 = In")
    case True
    then obtain f u where "acc = Some (f, u)" "s1 = poll_accept f u s" using s1(1) by (cases acc) auto
    then show ?thesis using poll_accept_ok [OF assms(1,2)] assms(4) by simp
  qed (use s1(1) assms(1) in simp)
  moreover have "\<forall>i \<in> set [1 ..< Suc (pmaxi s1)]. 0 < i \<and> i \<le> pmaxi s1" by (simp only: set_upt) auto
  ultimately show ?thesis by (rule poll_clients_ok [OF _ s1(2)])
qed

inductive poll_run :: "int \<Rightarrow> poller \<Rightarrow> bool" for l where
  Poll_start: "0 \<le> l \<Longrightarrow> poll_run l (poller_start mem l)"
| Poll_round: "poll_run l s \<Longrightarrow> poll_round revents acc rd open_file s = Inr s' \<Longrightarrow>
    (\<forall>f u. acc = Some (f, u) \<longrightarrow> 0 \<le> f \<and> f \<notin> set (lfds (pclients s))) \<Longrightarrow> poll_run l s'"

lemma poll_run_ok: "poll_run l s \<Longrightarrow> 0 \<le> l \<and> poll_ok l s"
proof (induction rule: poll_run.induct)
  case (Poll_start mem)
  then show ?case using poller_start_ok by simp
next
  case (Poll_round s revents acc rd open_file s')
  then show ?case using poll_round_ok by blast
qed

text \<open>
  The server with \<open>poll\<close> keeps its two tables together: in every run entry 0 is the listening socket, the
  entries given to \<open>poll\<close> have the descriptors of the table of clients, one entry for each connection, and no
  connection is in an entry beyond those given to \<open>poll\<close>.
\<close>

lemma poll_tables_agree:
  assumes "poll_run l s"
  shows "pollfd s 0 = l \<and> (\<forall>i \<le> pmaxi s. pollfd s i = fd (pclients s ! i)) \<and> distinct (lfds (pclients s)) \<and>
    (\<forall>i < length (pclients s). 0 \<le> fd (pclients s ! i) \<longrightarrow> i \<le> pmaxi s)"
proof -
  note P = poll_okD [OF conjunct2 [OF poll_run_ok [OF assms]]]
  have "i \<le> pmaxi s" if "i < length (pclients s)" "0 \<le> fd (pclients s ! i)" for i
    using P(5) [of i] that by (cases "i \<le> pmaxi s") simp_all
  then show ?thesis using P(1,2,4) by simp
qed

definition quiet_but :: "nat \<Rightarrow> nat \<Rightarrow> revent" where
  "quiet_but i = (\<lambda>_. Quiet)(i := In)"

definition sample_poller :: poller where
  "sample_poller = poll_accept 4 100 (poller_start (\<lambda>_. 7) 3)"

lemma sample_poller_run: "poll_run 3 sample_poller"
proof (rule poll_run.Poll_round [OF poll_run.Poll_start [of 3 "\<lambda>_. 7"]])
  have a: "client_add new_client 3 0 [] = (0, \<lparr>fd = 3, uid = 0\<rparr> # replicate 9 \<lparr>fd = -1, uid = 0\<rparr>)"
    by (simp add: client_add_def client_alloc_def NALLOC_def new_client_def numeral_eq_Suc)
  have b: "client_add new_client 4 100 (\<lparr>fd = 3, uid = 0\<rparr> # replicate 9 \<lparr>fd = -1, uid = 0\<rparr>) =
      (1, \<lparr>fd = 3, uid = 0\<rparr> # \<lparr>fd = 4, uid = 100\<rparr> # replicate 8 \<lparr>fd = -1, uid = 0\<rparr>)"
    by (simp add: client_add_def numeral_eq_Suc)
  show "poll_round (quiet_but 0) (Some (4, 100)) (\<lambda>_. None) (\<lambda>_ _. Inl []) (poller_start (\<lambda>_. 7) 3) = Inr sample_poller"
    by (simp add: poll_round_def quiet_but_def sample_poller_def poll_accept_def poller_start_def a b poll_client_def)
  show "\<forall>f u. Some (4, 100) = Some (f, u) \<longrightarrow> 0 \<le> f \<and> f \<notin> set (lfds (pclients (poller_start (\<lambda>_. 7) 3)))"
    by (simp add: poller_start_def a del: replicate.simps)
qed simp

lemma poll_tables_agree_example: "pollfd sample_poller 0 = 3 \<and> distinct (lfds (pclients sample_poller))"
  using poll_tables_agree [OF sample_poller_run] by blast

end
