(* ===== verification/C_Getopt.thy ===== *)
theory C_Getopt
  imports C_Prelude
begin

text \<open>
  \<open>getopt\<close> as POSIX describes it: the options up to the first operand, each with its argument. An unknown
  letter, or one without the argument it needs, is delivered as a question mark with the letter.
\<close>

function getopt :: "(char \<Rightarrow> bool) \<Rightarrow> (char \<Rightarrow> bool) \<Rightarrow> string \<Rightarrow> string list \<Rightarrow> (char \<times> string) list \<times> string list" where
  "getopt F A [] [] = ([], [])"
| "getopt F A [] (a # as) =
     (if a = ''--'' then ([], as)
      else if 2 \<le> length a \<and> hd a = CHR ''-'' then getopt F A (tl a) as
      else ([], a # as))"
| "getopt F A (c # cs) args =
     (if F c then apfst (Cons (c, [])) (getopt F A cs args)
      else if A c \<and> cs \<noteq> [] then apfst (Cons (c, cs)) (getopt F A [] args)
      else if A c \<and> args \<noteq> [] then apfst (Cons (c, hd args)) (getopt F A [] (tl args))
      else apfst (Cons (CHR ''?'', [c])) (getopt F A cs args))"
  by pat_completeness auto
termination
proof (relation "measure (\<lambda>(F, A, pend, args). length pend + sum_list (map (\<lambda>a. length a + 1) args))", goal_cases)
  case (5 F A c cs args)
  then show ?case by (cases args) simp_all
qed auto

text \<open>One argument with a single option, or with a letter that takes the next argument.\<close>

lemma getopt_flag: "F c \<Longrightarrow> c \<noteq> CHR ''-'' \<Longrightarrow> getopt F A [] ([CHR ''-'', c] # as) = apfst (Cons (c, [])) (getopt F A [] as)"
  by simp

lemma getopt_arg:
  "\<not> F c \<Longrightarrow> A c \<Longrightarrow> c \<noteq> CHR ''-'' \<Longrightarrow> getopt F A [] ([CHR ''-'', c] # a # as) = apfst (Cons (c, a)) (getopt F A [] as)"
  by simp

lemma getopt_operand: "a = [] \<or> hd a \<noteq> CHR ''-'' \<Longrightarrow> getopt F A [] (a # as) = ([], a # as)"
  by auto

end
