(* ===== verification/Calld.thy ===== *)
theory Calld
  imports Fd_Pass Client_Table C_Getopt
begin

text \<open>
  The call server (\<open>calld\<close>): the locks of the devices (\<open>lock.c\<close>), the files of systems, devices and dialers
  (\<open>sysfile.c\<close>, \<open>devfile.c\<close>, \<open>dialfile.c\<close>), the options of a client (\<open>cliargs.c\<close>), the search for a device
  (\<open>request.c\<close>), the end of a child (\<open>sigchld.c\<close>, \<open>client.c\<close>) and the main loop (\<open>loop.c\<close>). The three files
  exist and do not change while the server runs. Log and debugging messages are left out.
\<close>

section \<open>Locks\<close>

record lock =
  line :: string
  owner :: int

text \<open>The entry of a device, appended when it is not there.\<close>

definition find_line :: "string \<Rightarrow> lock list \<Rightarrow> nat \<times> lock list" where
  "find_line l lk =
     (case find_slot (\<lambda>e. line e = l) lk of
        Some i \<Rightarrow> (i, lk)
      | None \<Rightarrow> (length lk, lk @ [\<lparr>line = l, owner = 0\<rparr>]))"

definition lock_set :: "string \<Rightarrow> int \<Rightarrow> lock list \<Rightarrow> lock list" where
  "lock_set l p lk = (let (i, lk) = find_line l lk in lk[i := (lk ! i)\<lparr>owner := p\<rparr>])"

definition lock_rel :: "int \<Rightarrow> lock list \<Rightarrow> lock list" where
  "lock_rel p lk =
     (case find_slot (\<lambda>e. owner e = p) lk of
        Some i \<Rightarrow> lk[i := (lk ! i)\<lparr>owner := 0\<rparr>]
      | None \<Rightarrow> lk)"

definition is_locked :: "string \<Rightarrow> lock list \<Rightarrow> int \<times> lock list" where
  "is_locked l lk = (let (i, lk) = find_line l lk in (owner (lk ! i), lk))"

section \<open>The files\<close>

record systems =
  s_name :: string
  s_time :: string
  s_type :: string
  s_class :: string
  s_phone :: string
  s_login :: string

record devices =
  d_type :: string
  d_line :: string
  d_line2 :: string
  d_class :: string
  d_dialer :: string

record dialers =
  dl_dialer :: string
  dl_sub :: string
  dl_expsend :: string

record files =
  sysfile :: string
  devfile :: string
  dialfile :: string

text \<open>What one line is: to be ignored, without a field the message names, or an entry.\<close>

datatype 'a entry = Ignore | Missing string | Entry 'a

definition field :: "string \<Rightarrow> (char \<Rightarrow> bool) \<Rightarrow> string \<Rightarrow> (string \<Rightarrow> string \<Rightarrow> 'a entry) \<Rightarrow> 'a entry" where
  "field msg D s k = (case strtok D s of None \<Rightarrow> Missing msg | Some (w, r) \<Rightarrow> k w r)"

definition first_field :: "string \<Rightarrow> string \<Rightarrow> (string \<Rightarrow> string \<Rightarrow> 'a entry) \<Rightarrow> 'a entry" where
  "first_field msg buf k =
     (case strtok white (cstr buf) of
        None \<Rightarrow> if hd buf = NEWLINE then Ignore else Missing msg
      | Some (w, r) \<Rightarrow> if hd w = CHR ''#'' then Ignore else k w r)"

definition newline :: "char \<Rightarrow> bool" where
  "newline c \<longleftrightarrow> c = NEWLINE"

definition sys_line :: "string \<Rightarrow> systems entry" where
  "sys_line sysline =
     first_field ''name'' sysline (\<lambda>name r.
     field ''time'' white r (\<lambda>time r.
     field ''type'' white r (\<lambda>type r.
     field ''class'' white r (\<lambda>cls r.
     field ''phone'' white r (\<lambda>phone r.
     field ''login'' newline r (\<lambda>login r.
     Entry \<lparr>s_name = name, s_time = time, s_type = type, s_class = cls, s_phone = phone, s_login = login\<rparr>))))))"

text \<open>The next entry from a position of the file, with the position behind it; \<open>None\<close> at the end.\<close>

function sys_next :: "string \<Rightarrow> nat \<Rightarrow> fault + (systems \<times> nat) option" where
  "sys_next f pos =
     (case fgets MAXLINE (drop pos f) of
        None \<Rightarrow> Inr None
      | Some (sysline, r) \<Rightarrow>
          (case sys_line sysline of
             Ignore \<Rightarrow> sys_next f (pos + length sysline)
           | Missing m \<Rightarrow> Inl (Log_exit (''missing '' @ m @ '' in Systems file''))
           | Entry e \<Rightarrow> Inr (Some (e, pos + length sysline))))"
  by pat_completeness auto
termination
proof (relation "measure (\<lambda>(f, pos). length f - pos)", goal_cases)
  case (2 f pos x sysline r)
  then have "fgets MAXLINE (drop pos f) = Some (sysline, r)" by simp
  from fgets_position(1,2) [OF this] have "0 < length sysline" "pos + length sysline \<le> length f" by (simp_all add: MAXLINE_def)
  then have "length f - (pos + length sysline) < length f - pos" by linarith
  then show ?case by simp
qed auto

declare sys_next.simps [simp del]

definition dev_line :: "string \<Rightarrow> devices entry" where
  "dev_line devline =
     first_field ''type'' devline (\<lambda>type r.
     field ''line'' white r (\<lambda>l r.
     field ''line2'' white r (\<lambda>line2 r.
     field ''class'' white r (\<lambda>cls r.
     field ''dialer'' white r (\<lambda>dialer r.
     Entry \<lparr>d_type = type, d_line = l, d_line2 = line2, d_class = cls, d_dialer = dialer\<rparr>)))))"

function dev_next :: "string \<Rightarrow> fault + (devices \<times> string) option" where
  "dev_next s =
     (case fgets MAXLINE s of
        None \<Rightarrow> Inr None
      | Some (devline, r) \<Rightarrow>
          (case dev_line devline of
             Ignore \<Rightarrow> dev_next r
           | Missing m \<Rightarrow> Inl (Log_exit (''missing '' @ m @ '' in Devices file''))
           | Entry e \<Rightarrow> Inr (Some (e, r))))"
  by pat_completeness auto
termination
  by (relation "measure length") (auto dest: fgets_shrinks simp: MAXLINE_def)

declare dev_next.simps [simp del]

lemma dev_next_shrinks: "dev_next s = Inr (Some (d, r)) \<Longrightarrow> length r < length s"
proof (induction s rule: dev_next.induct)
  case (1 s)
  then obtain l t where f: "fgets MAXLINE s = Some (l, t)" by (cases "fgets MAXLINE s") (auto simp: dev_next.simps [of s])
  have t: "length t < length s" using fgets_shrinks [OF f] by (simp add: MAXLINE_def)
  show ?case
  proof (cases "dev_line l")
    case Ignore
    then show ?thesis using 1 f t by (force simp: dev_next.simps [of s])
  qed (use 1 f t in \<open>auto simp: dev_next.simps [of s]\<close>)
qed

text \<open>The first device of the type and class, from the beginning of the file.\<close>

function dev_search :: "systems \<Rightarrow> string \<Rightarrow> fault + devices option" where
  "dev_search sy s =
     (case dev_next s of
        Inl x \<Rightarrow> Inl x
      | Inr None \<Rightarrow> Inr None
      | Inr (Some (d, r)) \<Rightarrow> if s_type sy = d_type d \<and> s_class sy = d_class d then Inr (Some d) else dev_search sy r)"
  by pat_completeness auto
termination
  by (relation "measure (\<lambda>(sy, s). length s)") (auto dest: dev_next_shrinks)

declare dev_search.simps [simp del]

definition quoted :: "string \<Rightarrow> string" where
  "quoted s = [CHR 0x60] @ s @ [CHR 0x27]"

text \<open>The result is the device, or the message when there is none.\<close>

definition dev_find :: "files \<Rightarrow> systems \<Rightarrow> fault + (string + devices)" where
  "dev_find fs sy =
     bindR (dev_search sy (devfile fs)) (\<lambda>d.
       case d of
         Some d \<Rightarrow> Inr (Inr d)
       | None \<Rightarrow> bindR (err_text (''device '' @ quoted (s_type sy) @ ''/'' @ quoted (s_class sy) @ '' not found'' @ [NEWLINE]))
                   (\<lambda>m. Inr (Inl m)))"

definition dial_line :: "string \<Rightarrow> dialers entry" where
  "dial_line dialline =
     first_field ''dialer'' dialline (\<lambda>dialer r.
     field ''sub'' white r (\<lambda>sub r.
     field ''expsend'' newline r (\<lambda>expsend r.
     Entry \<lparr>dl_dialer = dialer, dl_sub = sub, dl_expsend = expsend\<rparr>)))"

text \<open>
  The search for a dialer. \<open>dialptr\<close> is the pointer in the member \<open>dialer\<close>, which every line sets, a
  comment or an empty one too; the message at the end of the file prints it.
\<close>

function dial_search :: "string \<Rightarrow> string option \<Rightarrow> string \<Rightarrow> fault + string option + dialers" where
  "dial_search dialer dialptr s =
     (case fgets MAXLINE s of
        None \<Rightarrow> Inr (Inl dialptr)
      | Some (dialline, r) \<Rightarrow>
          (case dial_line dialline of
             Ignore \<Rightarrow> dial_search dialer (map_option fst (strtok white (cstr dialline))) r
           | Missing m \<Rightarrow> Inl (Log_exit (''missing '' @ m @ '' in Dialers file''))
           | Entry e \<Rightarrow> if dl_dialer e = dialer then Inr (Inr e) else dial_search dialer (Some (dl_dialer e)) r))"
  by pat_completeness auto
termination
  by (relation "measure (\<lambda>(d, p, s). length s)") (auto dest: fgets_shrinks simp: MAXLINE_def)

declare dial_search.simps [simp del]

definition dial_find :: "files \<Rightarrow> devices \<Rightarrow> fault + (string + dialers)" where
  "dial_find fs dv =
     bindR (dial_search (d_dialer dv) None (dialfile fs)) (\<lambda>r.
       case r of
         Inr e \<Rightarrow> Inr (Inr e)
       | Inl None \<Rightarrow> Inl Segv
       | Inl (Some p) \<Rightarrow> bindR (err_text (''dialer '' @ quoted p @ '' not found'' @ [NEWLINE])) (\<lambda>m. Inr (Inl m)))"

section \<open>The options of a client\<close>

datatype parity = NONE | EVEN | ODD

record call_opts =
  o_debug :: bool
  o_parity :: parity
  o_speed :: string
  o_host :: string

definition CL_CALL :: string where "CL_CALL = ''call''"

definition call_flag :: "char \<Rightarrow> bool" where
  "call_flag c \<longleftrightarrow> c = CHR ''d'' \<or> c = CHR ''e'' \<or> c = CHR ''o''"

definition call_arg :: "char \<Rightarrow> bool" where
  "call_arg c \<longleftrightarrow> c = CHR ''s''"

text \<open>The loop over the options; a question mark ends it with a message.\<close>

fun set_options :: "(char \<times> string) list \<Rightarrow> call_opts \<Rightarrow> string + call_opts" where
  "set_options [] p = Inr p"
| "set_options ((c, optarg) # os) p =
     (if c = CHR ''d'' then set_options os (p\<lparr>o_debug := True\<rparr>)
      else if c = CHR ''e'' then set_options os (p\<lparr>o_parity := EVEN\<rparr>)
      else if c = CHR ''o'' then set_options os (p\<lparr>o_parity := ODD\<rparr>)
      else if c = CHR ''s'' then set_options os (p\<lparr>o_speed := optarg\<rparr>)
      else Inl (''unrecognized option: -'' @ optarg @ [NEWLINE]))"

definition cli_args :: "string list \<Rightarrow> string + call_opts" where
  "cli_args argv =
     (if length argv < 2 \<or> argv ! 0 \<noteq> CL_CALL then Inl ''usage: call <options> <hostname>''
      else
        let (os, ops) = getopt call_flag call_arg [] (tl argv)
        in case set_options os \<lparr>o_debug = False, o_parity = NONE, o_speed = [], o_host = []\<rparr> of
             Inl m \<Rightarrow> Inl m
           | Inr p \<Rightarrow>
               if ops = [] then Inl (''missing <hostname> to call'' @ [NEWLINE])
               else Inr (p\<lparr>o_host := hd ops\<rparr>))"

section \<open>The state of the server\<close>

record call_client = client +
  pid :: int
  childdone :: nat
  sysftell :: int
  foundone :: nat
  debug :: bool
  par :: parity
  speed :: string
  sysname :: string

text \<open>
  \<open>dialing\<close> records each child with the client, the entry and the device it was started for, \<open>sent\<close> what the
  server sent.
\<close>

record calld =
  clients :: "call_client list"
  locks :: "lock list"
  errmsg :: string
  allset :: "int set"
  listenfd :: int
  maxfd :: int
  maxi :: int
  chld_flag :: bool
  dialing :: "(int \<times> nat \<times> systems \<times> devices) list"
  sent :: "(int \<times> message list) list"

definition calld_start :: "int \<Rightarrow> calld" where
  "calld_start l = \<lparr>clients = [], locks = [], errmsg = [], allset = {l}, listenfd = l, maxfd = l, maxi = -1,
     chld_flag = False, dialing = [], sent = []\<rparr>"

definition MAXSYSNAME :: nat where "MAXSYSNAME = 256"
definition MAXSPEEDSTR :: nat where "MAXSPEEDSTR = 256"

definition set_client :: "nat \<Rightarrow> (call_client \<Rightarrow> call_client) \<Rightarrow> calld \<Rightarrow> calld" where
  "set_client i g s = s\<lparr>clients := (clients s)[i := g (clients s ! i)]\<rparr>"

section \<open>A request\<close>

text \<open>The end of a search without a device: the message that is left for the client.\<close>

definition give_up :: "nat \<Rightarrow> calld \<Rightarrow> fault + bool \<times> calld" where
  "give_up i s =
     (let c = clients s ! i
      in if foundone c = 0
         then bindR (err_text (''system '' @ quoted (sysname c) @ '' not found'' @ [NEWLINE])) (\<lambda>m. Inr (False, s\<lparr>errmsg := m\<rparr>))
         else if errmsg s = []
         then bindR (err_text (''unable to connect to system '' @ quoted (sysname c) @ [NEWLINE])) (\<lambda>m. Inr (False, s\<lparr>errmsg := m\<rparr>))
         else Inr (False, s))"

definition wanted :: "call_client \<Rightarrow> systems \<Rightarrow> bool" where
  "wanted c sy \<longleftrightarrow> sysname c = s_name sy \<and> (speed c = [] \<or> speed c = s_class sy)"

definition start_child :: "int \<Rightarrow> nat \<Rightarrow> systems \<Rightarrow> devices \<Rightarrow> calld \<Rightarrow> calld" where
  "start_child p i sy dv s =
     (set_client i (\<lambda>c. c\<lparr>pid := p\<rparr>) s)\<lparr>locks := lock_set (d_line dv) p (locks s), dialing := dialing s @ [(p, i, sy, dv)]\<rparr>"

text \<open>The loop over the Systems file from a position; \<open>child\<close> is the answer of \<open>fork\<close>.\<close>

lemma sys_next_forward: "sys_next f pos = Inr (Some (sy, q)) \<Longrightarrow> pos < q \<and> q \<le> length f"
proof (induction f pos rule: sys_next.induct)
  case (1 f pos)
  then obtain l t where g: "fgets MAXLINE (drop pos f) = Some (l, t)"
    by (cases "fgets MAXLINE (drop pos f)") (auto simp: sys_next.simps [of f pos])
  then have b: "0 < length l" "pos + length l \<le> length f" using fgets_position(1,2) [OF g] by (simp_all add: MAXLINE_def)
  show ?case
  proof (cases "sys_line l")
    case Ignore
    then have "sys_next f (pos + length l) = Inr (Some (sy, q))" using 1(2) g by (simp add: sys_next.simps [of f pos])
    then show ?thesis using 1(1) [OF g refl Ignore] b by simp
  qed (use 1(2) g b in \<open>auto simp: sys_next.simps [of f pos]\<close>)
qed

function req_loop :: "files \<Rightarrow> int option \<Rightarrow> nat \<Rightarrow> nat \<Rightarrow> calld \<Rightarrow> fault + bool \<times> calld" where
  "req_loop fs child i pos s =
     (case sys_next (sysfile fs) pos of
        Inl x \<Rightarrow> Inl x
      | Inr None \<Rightarrow> give_up i (set_client i (\<lambda>c. c\<lparr>sysftell := -1\<rparr>) s)
      | Inr (Some (sy, q)) \<Rightarrow>
          if \<not> wanted (clients s ! i) sy then req_loop fs child i q (set_client i (\<lambda>c. c\<lparr>sysftell := int q\<rparr>) s)
          else
            let s = set_client i (\<lambda>c. c\<lparr>sysftell := int q, foundone := Suc (foundone c)\<rparr>) s
            in case dev_find fs sy of
                 Inl x \<Rightarrow> Inl x
               | Inr (Inl m) \<Rightarrow> give_up i (s\<lparr>errmsg := m\<rparr>)
               | Inr (Inr dv) \<Rightarrow>
                   let (p, lk) = is_locked (d_line dv) (locks s)
                   in if p \<noteq> 0
                      then (case err_text (''device '' @ quoted (d_line dv) @ '' already locked by pid '' @ dec_int p @ [NEWLINE]) of
                              Inl x \<Rightarrow> Inl x
                            | Inr m \<Rightarrow> req_loop fs child i q (s\<lparr>locks := lk, errmsg := m\<rparr>))
                      else (case child of
                              None \<Rightarrow> Inl (Log_exit ''fork error'')
                            | Some p \<Rightarrow> Inr (True, start_child p i sy dv (s\<lparr>locks := lk\<rparr>))))"
  by pat_completeness auto
termination
  by (relation "measure (\<lambda>(fs, child, i, pos, s). length (sysfile fs) - pos)") (auto dest: sys_next_forward)

declare req_loop.simps [simp del]

definition request :: "files \<Rightarrow> int option \<Rightarrow> nat \<Rightarrow> calld \<Rightarrow> fault + bool \<times> calld" where
  "request fs child i s =
     (if sysftell (clients s ! i) < 0 then Inl (Log_exit ''fseek error'')
      else req_loop fs child i (nat (sysftell (clients s ! i))) (s\<lparr>errmsg := []\<rparr>))"

section \<open>The loop\<close>

text \<open>A client is removed: its entry is free again, and its connection closed.\<close>

definition cli_done :: "int \<Rightarrow> calld \<Rightarrow> fault + calld" where
  "cli_done f s = bindR (client_del f (clients s)) (\<lambda>c. Inr (s\<lparr>clients := c, allset := allset s - {f}\<rparr>))"

text \<open>The call of \<open>request\<close> with the answer to a client that cannot be served.\<close>

definition try_request :: "files \<Rightarrow> int option \<Rightarrow> nat \<Rightarrow> calld \<Rightarrow> fault + calld" where
  "try_request fs child i s =
     (let f = fd (clients s ! i)
      in bindR (request fs child i s) (\<lambda>(ok, s).
         if ok then Inr s else cli_done f (s\<lparr>sent := sent s @ [(f, send_err (-1) (errmsg s))]\<rparr>)))"

text \<open>\<open>memory\<close> has the contents of new entries of the table; only the descriptor and the user are set.\<close>

definition accept_call :: "call_client \<Rightarrow> int \<Rightarrow> nat \<Rightarrow> calld \<Rightarrow> calld" where
  "accept_call memory clifd u s =
     (let (i, c) = client_add memory clifd u (clients s)
      in s\<lparr>clients := c, allset := insert clifd (allset s), maxfd := max (maxfd s) clifd, maxi := max (maxi s) (int i)\<rparr>)"

text \<open>The options are copied to the entry of the client, into arrays of fixed size.\<close>

definition set_request :: "nat \<Rightarrow> call_opts \<Rightarrow> calld \<Rightarrow> fault + calld" where
  "set_request i p s =
     (if MAXSYSNAME \<le> length (o_host p) \<or> MAXSPEEDSTR \<le> length (o_speed p) then Inl Overflow
      else Inr (set_client i (\<lambda>c. c\<lparr>childdone := 0, sysftell := 0, foundone := 0, debug := o_debug p, par := o_parity p,
                                  speed := o_speed p, sysname := o_host p\<rparr>) s))"

definition serve_call :: "files \<Rightarrow> (nat \<Rightarrow> int option) \<Rightarrow> (int \<Rightarrow> string option) \<Rightarrow> nat \<Rightarrow> calld \<Rightarrow> fault + calld" where
  "serve_call fs fork rd i s =
     (let e = clients s ! i
      in case rd (fd e) of
           None \<Rightarrow> Inl (Log_exit ''read error'')
         | Some buf \<Rightarrow>
             if buf = [] then cli_done (fd e) (s\<lparr>locks := lock_rel (pid e) (locks s)\<rparr>)
             else if last buf \<noteq> NUL then Inl (Log_exit ''request not null terminated'')
             else
               case buf_args (cstr buf) cli_args of
                 None \<Rightarrow> Inl (Log_exit ''command line error'')
               | Some (Inl m) \<Rightarrow> Inl (Log_exit ''command line error'')
               | Some (Inr p) \<Rightarrow> bindR (set_request i p s) (try_request fs (fork i) i))"

primrec serve_calls ::
  "files \<Rightarrow> (nat \<Rightarrow> int option) \<Rightarrow> (int \<Rightarrow> string option) \<Rightarrow> int set \<Rightarrow> nat list \<Rightarrow> calld \<Rightarrow> fault + calld" where
  "serve_calls fs fork rd rset [] s = Inr s"
| "serve_calls fs fork rd rset (i # is) s =
     bindR (if 0 \<le> fd (clients s ! i) \<and> fd (clients s ! i) \<in> rset then serve_call fs fork rd i s else Inr s)
       (serve_calls fs fork rd rset is)"

definition call_round ::
  "files \<Rightarrow> (nat \<Rightarrow> int option) \<Rightarrow> call_client \<Rightarrow> int set \<Rightarrow> (int \<times> nat) option \<Rightarrow> (int \<Rightarrow> string option) \<Rightarrow> calld \<Rightarrow> fault + calld" where
  "call_round fs fork memory rset acc rd s =
     (if listenfd s \<in> rset
      then (case acc of None \<Rightarrow> Inl (Log_exit ''serv_accept error'') | Some (clifd, u) \<Rightarrow> Inr (accept_call memory clifd u s))
      else serve_calls fs fork rd rset [0 ..< nat (maxi s + 1)] s)"

text \<open>
  The signal of a child that has ended: with its exit status the first entry with its process number is
  marked. A child that was killed is only logged.
\<close>

definition client_sigchld :: "int \<Rightarrow> nat \<Rightarrow> calld \<Rightarrow> fault + calld" where
  "client_sigchld p stat s =
     (case find_slot (\<lambda>e. pid e = p) (clients s) of
        Some i \<Rightarrow> Inr (set_client i (\<lambda>c. c\<lparr>childdone := stat\<rparr>) s)
      | None \<Rightarrow> Inl (Log_exit ''can not find client entry''))"

definition sig_chld :: "int \<Rightarrow> nat option \<Rightarrow> calld \<Rightarrow> fault + calld" where
  "sig_chld p stat s =
     (let s = s\<lparr>chld_flag := True\<rparr>
      in case stat of Some st \<Rightarrow> client_sigchld p (st + 1) s | None \<Rightarrow> Inr s)"

text \<open>One pass of \<open>child_done\<close> over the table: a child that failed is followed by another attempt.\<close>

definition child_ended :: "files \<Rightarrow> (nat \<Rightarrow> int option) \<Rightarrow> nat \<Rightarrow> calld \<Rightarrow> fault + calld" where
  "child_ended fs fork i s =
     (let e = clients s ! i; s' = set_client i (\<lambda>c. c\<lparr>childdone := 0\<rparr>) s
      in if fd e < 0 \<or> childdone e = 0 then Inr s
         else if childdone e = 1 then Inr s'
         else try_request fs (fork i) i (s'\<lparr>locks := lock_rel (pid e) (locks s')\<rparr>))"

primrec child_pass :: "files \<Rightarrow> (nat \<Rightarrow> int option) \<Rightarrow> nat list \<Rightarrow> calld \<Rightarrow> fault + calld" where
  "child_pass fs fork [] s = Inr s"
| "child_pass fs fork (i # is) s = bindR (child_ended fs fork i s) (child_pass fs fork is)"

definition child_done :: "files \<Rightarrow> (nat \<Rightarrow> int option) \<Rightarrow> calld \<Rightarrow> fault + calld" where
  "child_done fs fork s = child_pass fs fork [0 ..< nat (maxi s + 1)] (s\<lparr>chld_flag := False\<rparr>)"

end
