(* ===== verification/Calld_Spec.thy ===== *)
theory Calld_Spec
  imports Calld
begin

text \<open>
  Properties of the call server: which device a request gets, and that the locks of the devices belong to
  connected clients.
\<close>

section \<open>Locks\<close>

definition lock_owners :: "lock list \<Rightarrow> int list" where
  "lock_owners lk = filter (\<lambda>p. p \<noteq> 0) (map owner lk)"

definition locks_ok :: "lock list \<Rightarrow> bool" where
  "locks_ok lk \<longleftrightarrow> distinct (map line lk) \<and> distinct (lock_owners lk)"

definition line_locked :: "lock list \<Rightarrow> string \<Rightarrow> bool" where
  "line_locked lk l \<longleftrightarrow> (\<exists>e \<in> set lk. line e = l \<and> owner e \<noteq> 0)"

lemma owners_append [simp]: "lock_owners (lk @ lk') = lock_owners lk @ lock_owners lk'"
  by (simp add: lock_owners_def)

lemma owners_single [simp]: "lock_owners [e] = (if owner e = 0 then [] else [owner e])"
  by (simp add: lock_owners_def)

lemma owners_split: "i < length lk \<Longrightarrow> lock_owners lk = lock_owners (take i lk) @ lock_owners [lk ! i] @ lock_owners (drop (Suc i) lk)"
  using filter_map_split [of i lk "\<lambda>p. p \<noteq> 0" owner] by (simp add: lock_owners_def)

lemma owners_upd: "i < length lk \<Longrightarrow> lock_owners (lk[i := e]) = lock_owners (take i lk) @ lock_owners [e] @ lock_owners (drop (Suc i) lk)"
  using filter_map_upd [of i lk "\<lambda>p. p \<noteq> 0" owner e] by (simp add: lock_owners_def)

lemma map_line_upd: "i < length lk \<Longrightarrow> map line (lk[i := (lk ! i)\<lparr>owner := p\<rparr>]) = map line lk"
  by (metis list_update_id lock.select_convs(1) lock.surjective lock.update_convs(2) map_update)

lemma zero_no_owner [simp]: "0 \<notin> set (lock_owners lk)"
  by (simp add: lock_owners_def)

lemma find_line_facts:
  assumes "find_line l lk = (i, lk')"
  shows "i < length lk'" "line (lk' ! i) = l" "lock_owners lk' = lock_owners lk" "locks_ok lk \<Longrightarrow> locks_ok lk'" "find_line l lk' = (i, lk')"
    "line_locked lk' = line_locked lk" "\<exists>new. lk' = lk @ new \<and> (\<forall>e \<in> set new. owner e = 0)"
proof -
  have "i < length lk' \<and> line (lk' ! i) = l \<and> lock_owners lk' = lock_owners lk \<and> (locks_ok lk \<longrightarrow> locks_ok lk') \<and> find_line l lk' = (i, lk') \<and>
    line_locked lk' = line_locked lk \<and> (\<exists>new. lk' = lk @ new \<and> (\<forall>e \<in> set new. owner e = 0))"
  proof (cases "find_slot (\<lambda>e. line e = l) lk")
    case (Some j)
    then have "i = j" "lk' = lk" using assms by (auto simp: find_line_def)
    then show ?thesis using find_slot_Some [OF Some] Some by (auto simp: find_line_def)
  next
    case None
    then have e: "i = length lk" "lk' = lk @ [\<lparr>line = l, owner = 0\<rparr>]" using assms by (auto simp: find_line_def)
    have n: "\<forall>e \<in> set lk. line e \<noteq> l" using None unfolding find_slot_None .
    then have "find_slot (\<lambda>e. line e = l) lk' = Some (length lk)" unfolding e(2) by (induction lk) auto
    moreover have "lock_owners lk' = lock_owners lk" by (simp add: e)
    ultimately show ?thesis using n by (auto simp: e find_line_def locks_ok_def line_locked_def fun_eq_iff)
  qed
  then show "i < length lk'" "line (lk' ! i) = l" "lock_owners lk' = lock_owners lk" "locks_ok lk \<Longrightarrow> locks_ok lk'" "find_line l lk' = (i, lk')"
    "line_locked lk' = line_locked lk" "\<exists>new. lk' = lk @ new \<and> (\<forall>e \<in> set new. owner e = 0)" by blast+
qed

lemma is_locked_facts:
  assumes "is_locked l lk = (p, lk')" "locks_ok lk"
  shows "p \<noteq> 0 \<longleftrightarrow> line_locked lk l" "lock_owners lk' = lock_owners lk" "locks_ok lk'" "line_locked lk' = line_locked lk" "p \<noteq> 0 \<Longrightarrow> p \<in> set (lock_owners lk)"
proof -
  obtain i where f: "find_line l lk = (i, lk')" "p = owner (lk' ! i)" using assms(1) by (auto simp: is_locked_def split: prod.split_asm)
  note F = find_line_facts [OF f(1)]
  show "lock_owners lk' = lock_owners lk" "locks_ok lk'" "line_locked lk' = line_locked lk" using F assms(2) by simp_all
  have m: "lk' ! i \<in> set lk'" using F(1) by simp
  have "e = lk' ! i" if "e \<in> set lk'" "line e = l" for e
    using that F(1,2) F(4) [OF assms(2)] by (auto simp: locks_ok_def in_set_conv_nth distinct_conv_nth)
  then have "p \<noteq> 0 \<longleftrightarrow> line_locked lk' l" using F(1,2) m unfolding line_locked_def f(2) by blast
  then show "p \<noteq> 0 \<longleftrightarrow> line_locked lk l" using F(6) by simp
  assume "p \<noteq> 0"
  then have "p \<in> set (lock_owners lk')" using m f(2) by (auto simp: lock_owners_def)
  then show "p \<in> set (lock_owners lk)" using F(3) by simp
qed

lemma lock_set_facts:
  assumes "is_locked l lk = (0, lk')" "locks_ok lk" "p \<noteq> 0" "p \<notin> set (lock_owners lk)"
  shows "locks_ok (lock_set l p lk')" "set (lock_owners (lock_set l p lk')) = insert p (set (lock_owners lk))" "line_locked (lock_set l p lk') l"
proof -
  obtain i where f: "find_line l lk = (i, lk')" "owner (lk' ! i) = 0" using assms(1) by (auto simp: is_locked_def split: prod.split_asm)
  note F = find_line_facts [OF f(1)]
  have e: "lock_set l p lk' = lk'[i := (lk' ! i)\<lparr>owner := p\<rparr>]" by (simp add: lock_set_def F(5))
  have s: "lock_owners lk = lock_owners (take i lk') @ lock_owners (drop (Suc i) lk')" using owners_split [OF F(1)] f(2) F(3) by simp
  have t: "lock_owners (lock_set l p lk') = lock_owners (take i lk') @ p # lock_owners (drop (Suc i) lk')"
    unfolding e using owners_upd [OF F(1), of "(lk' ! i)\<lparr>owner := p\<rparr>"] assms(3) by simp
  have "map line (lock_set l p lk') = map line lk'" unfolding e by (rule map_line_upd [OF F(1)])
  then show "locks_ok (lock_set l p lk')" using F(4) [OF assms(2)] assms(2,4) unfolding locks_ok_def s t by auto
  show "set (lock_owners (lock_set l p lk')) = insert p (set (lock_owners lk))" unfolding s t by auto
  have "(lk' ! i)\<lparr>owner := p\<rparr> \<in> set (lock_set l p lk')" unfolding e using F(1) by (simp add: set_update_memI)
  moreover have "line ((lk' ! i)\<lparr>owner := p\<rparr>) = l" "owner ((lk' ! i)\<lparr>owner := p\<rparr>) \<noteq> 0" using F(2) assms(3) by simp_all
  ultimately show "line_locked (lock_set l p lk') l" unfolding line_locked_def by blast
qed

lemma lock_rel_facts:
  assumes "locks_ok lk"
  shows "locks_ok (lock_rel p lk)" "set (lock_owners (lock_rel p lk)) = set (lock_owners lk) - {p}"
proof -
  have "locks_ok (lock_rel p lk) \<and> set (lock_owners (lock_rel p lk)) = set (lock_owners lk) - {p}"
  proof (cases "find_slot (\<lambda>e. owner e = p) lk")
    case (Some i)
    then have i: "i < length lk" "owner (lk ! i) = p" using find_slot_Some [OF Some] by auto
    have e: "lock_rel p lk = lk[i := (lk ! i)\<lparr>owner := 0\<rparr>]" by (simp add: lock_rel_def Some)
    have t: "lock_owners (lock_rel p lk) = lock_owners (take i lk) @ lock_owners (drop (Suc i) lk)"
      unfolding e using owners_upd [OF i(1), of "(lk ! i)\<lparr>owner := 0\<rparr>"] by simp
    have s: "lock_owners lk = lock_owners (take i lk) @ (if p = 0 then [] else [p]) @ lock_owners (drop (Suc i) lk)" using owners_split [OF i(1)] i(2) by simp
    have "map line (lock_rel p lk) = map line lk" unfolding e by (rule map_line_upd [OF i(1)])
    then show ?thesis using assms unfolding locks_ok_def t s by (auto split: if_split_asm)
  next
    case None
    then have "p \<notin> set (lock_owners lk)" unfolding find_slot_None by (auto simp: lock_owners_def)
    then show ?thesis using assms None by (simp add: lock_rel_def)
  qed
  then show "locks_ok (lock_rel p lk)" "set (lock_owners (lock_rel p lk)) = set (lock_owners lk) - {p}" by blast+
qed

section \<open>What a request changes\<close>

text \<open>
  The part of the state a search leaves alone. Only the entry of the client changes, and in it neither
  the descriptor nor, unless a child is started, the process number.
\<close>

definition same_but :: "nat \<Rightarrow> calld \<Rightarrow> calld \<Rightarrow> bool" where
  "same_but i s s' \<longleftrightarrow> map fd (clients s') = map fd (clients s) \<and> (\<forall>j. j \<noteq> i \<longrightarrow> clients s' ! j = clients s ! j) \<and>
     allset s' = allset s \<and> listenfd s' = listenfd s \<and> maxfd s' = maxfd s \<and> maxi s' = maxi s \<and> sent s' = sent s"

lemma same_but_refl [simp]: "same_but i s s"
  by (simp add: same_but_def)

lemma same_but_trans: "same_but i s s' \<Longrightarrow> same_but i s' s'' \<Longrightarrow> same_but i s s''"
  by (simp add: same_but_def)

lemma same_but_set_client [simp]: "(\<And>c. fd (g c) = fd c) \<Longrightarrow> same_but i s (set_client i g s)"
  by (simp add: same_but_def set_client_def map_upd_same)

lemma same_but_fields [simp]:
  "same_but i s (s'\<lparr>locks := lk\<rparr>) = same_but i s s'" "same_but i s (s'\<lparr>errmsg := m\<rparr>) = same_but i s s'"
  "same_but i s (s'\<lparr>dialing := d\<rparr>) = same_but i s s'" "same_but i (s\<lparr>errmsg := m\<rparr>) s' = same_but i s s'"
  "same_but i (s\<lparr>locks := lk\<rparr>) s' = same_but i s s'"
  by (simp_all add: same_but_def)

lemma same_but_length: "same_but i s s' \<Longrightarrow> length (clients s') = length (clients s)"
  unfolding same_but_def by (metis length_map)

lemma same_but_fd: "same_but i s s' \<Longrightarrow> j < length (clients s) \<Longrightarrow> fd (clients s' ! j) = fd (clients s ! j)"
  using same_but_length [of i s s'] unfolding same_but_def by (metis nth_map)

lemma set_client_simps [simp]:
  "locks (set_client i g s) = locks s" "errmsg (set_client i g s) = errmsg s" "length (clients (set_client i g s)) = length (clients s)"
  "i < length (clients s) \<Longrightarrow> clients (set_client i g s) ! i = g (clients s ! i)"
  by (simp_all add: set_client_def)

lemma give_up_state: "give_up i s = Inr (ok, s') \<Longrightarrow> \<not> ok \<and> (\<exists>m. s' = s\<lparr>errmsg := m\<rparr>)"
proof -
  have "\<exists>m. s = s\<lparr>errmsg := m\<rparr>" by (rule exI [of _ "errmsg s"]) simp
  then show "give_up i s = Inr (ok, s') \<Longrightarrow> \<not> ok \<and> (\<exists>m. s' = s\<lparr>errmsg := m\<rparr>)"
    by (auto simp: give_up_def Let_def bindR_eq_Inr split: if_split_asm)
qed

text \<open>A child gets a number that is neither 0 nor the owner of a lock.\<close>

definition fresh_pid :: "int option \<Rightarrow> lock list \<Rightarrow> bool" where
  "fresh_pid child lk \<longleftrightarrow> (\<forall>p. child = Some p \<longrightarrow> p \<noteq> 0 \<and> p \<notin> set (lock_owners lk))"

definition request_effect :: "int option \<Rightarrow> nat \<Rightarrow> calld \<Rightarrow> bool \<Rightarrow> calld \<Rightarrow> bool" where
  "request_effect child i s ok s' \<longleftrightarrow> same_but i s s' \<and> locks_ok (locks s') \<and>
     (if ok then \<exists>p. child = Some p \<and> pid (clients s' ! i) = p \<and> set (lock_owners (locks s')) = insert p (set (lock_owners (locks s)))
      else pid (clients s' ! i) = pid (clients s ! i) \<and> set (lock_owners (locks s')) = set (lock_owners (locks s)))"

lemma request_effect_step:
  assumes "request_effect child i s1 ok s'" "same_but i s s1" "pid (clients s1 ! i) = pid (clients s ! i)"
    "set (lock_owners (locks s1)) = set (lock_owners (locks s))"
  shows "request_effect child i s ok s'"
  using assms same_but_trans by (auto simp: request_effect_def split: if_split_asm)

lemma start_child_effect:
  assumes "is_locked (d_line dv) (locks s) = (0, lk)" "locks_ok (locks s)" "fresh_pid (Some p) (locks s)" "i < length (clients s)"
  shows "request_effect (Some p) i s True (start_child p i sy dv (s\<lparr>locks := lk\<rparr>))"
  using lock_set_facts(1,2) [OF assms(1,2), of p] assms(3,4)
  by (simp add: request_effect_def start_child_def fresh_pid_def same_but_def set_client_def map_upd_same)

lemma give_up_effect:
  assumes "give_up i s1 = Inr (ok, s')" "same_but i s s1" "pid (clients s1 ! i) = pid (clients s ! i)"
    "lock_owners (locks s1) = lock_owners (locks s)" "locks_ok (locks s1)"
  shows "request_effect child i s ok s'"
  using give_up_state [OF assms(1)] assms(2-5) by (auto simp: request_effect_def)

text \<open>The ways the loop goes on at the next entry of the file.\<close>

definition found :: "nat \<Rightarrow> nat \<Rightarrow> calld \<Rightarrow> calld" where
  "found i q s = set_client i (\<lambda>c. c\<lparr>sysftell := int q, foundone := Suc (foundone c)\<rparr>) s"

definition lock_msg :: "devices \<Rightarrow> int \<Rightarrow> string" where
  "lock_msg dv p = ''device '' @ quoted (d_line dv) @ '' already locked by pid '' @ dec_int p @ [NEWLINE]"

lemma req_loop_unfold:
  "req_loop fs child i pos s =
     (case sys_next (sysfile fs) pos of
        Inl x \<Rightarrow> Inl x
      | Inr None \<Rightarrow> give_up i (set_client i (\<lambda>c. c\<lparr>sysftell := -1\<rparr>) s)
      | Inr (Some (sy, q)) \<Rightarrow>
          if \<not> wanted (clients s ! i) sy then req_loop fs child i q (set_client i (\<lambda>c. c\<lparr>sysftell := int q\<rparr>) s)
          else
            case dev_find fs sy of
              Inl x \<Rightarrow> Inl x
            | Inr (Inl m) \<Rightarrow> give_up i ((found i q s)\<lparr>errmsg := m\<rparr>)
            | Inr (Inr dv) \<Rightarrow>
                let (p, lk) = is_locked (d_line dv) (locks s)
                in if p \<noteq> 0 then bindR (err_text (lock_msg dv p)) (\<lambda>m. req_loop fs child i q ((found i q s)\<lparr>locks := lk, errmsg := m\<rparr>))
                   else (case child of
                           None \<Rightarrow> Inl (Log_exit ''fork error'')
                         | Some p \<Rightarrow> Inr (True, start_child p i sy dv ((found i q s)\<lparr>locks := lk\<rparr>))))"
  unfolding req_loop.simps [of fs child i pos s] found_def [symmetric] lock_msg_def [symmetric] Let_def
  by (simp add: found_def bindR_def split: sum.split option.split prod.split)

lemma req_loop_cases [consumes 1, case_names Eof Skip No_device Locked Start]:
  assumes "req_loop fs child i pos s = Inr (ok, s')"
  obtains "sys_next (sysfile fs) pos = Inr None" "give_up i (set_client i (\<lambda>c. c\<lparr>sysftell := -1\<rparr>) s) = Inr (ok, s')"
  | sy q where "sys_next (sysfile fs) pos = Inr (Some (sy, q))" "\<not> wanted (clients s ! i) sy"
      "req_loop fs child i q (set_client i (\<lambda>c. c\<lparr>sysftell := int q\<rparr>) s) = Inr (ok, s')"
  | sy q m where "sys_next (sysfile fs) pos = Inr (Some (sy, q))" "wanted (clients s ! i) sy" "dev_find fs sy = Inr (Inl m)"
      "give_up i ((found i q s)\<lparr>errmsg := m\<rparr>) = Inr (ok, s')"
  | sy q dv p lk m where "sys_next (sysfile fs) pos = Inr (Some (sy, q))" "wanted (clients s ! i) sy" "dev_find fs sy = Inr (Inr dv)"
      "is_locked (d_line dv) (locks s) = (p, lk)" "p \<noteq> 0"
      "req_loop fs child i q ((found i q s)\<lparr>locks := lk, errmsg := m\<rparr>) = Inr (ok, s')"
  | sy q dv lk p where "sys_next (sysfile fs) pos = Inr (Some (sy, q))" "wanted (clients s ! i) sy" "dev_find fs sy = Inr (Inr dv)"
      "is_locked (d_line dv) (locks s) = (0, lk)" "child = Some p" "ok" "s' = start_child p i sy dv ((found i q s)\<lparr>locks := lk\<rparr>)"
  using assms unfolding req_loop_unfold [of fs child i pos s]
  by (auto simp: bindR_eq_Inr Let_def split: sum.split_asm option.split_asm prod.split_asm if_split_asm)

lemma found_simps [simp]:
  "locks (found i q s) = locks s" "errmsg (found i q s) = errmsg s" "length (clients (found i q s)) = length (clients s)"
  "same_but i s (found i q s)"
  "i < length (clients s) \<Longrightarrow> clients (found i q s) ! i = (clients s ! i)\<lparr>sysftell := int q, foundone := Suc (foundone (clients s ! i))\<rparr>"
  by (simp_all add: found_def)

lemma sys_next_measure: "sys_next f pos = Inr (Some (sy, q)) \<Longrightarrow> length f - q < length f - pos"
  using sys_next_forward [of f pos sy q] by linarith

lemma req_loop_effect:
  assumes "req_loop fs child i pos s = Inr (ok, s')" "locks_ok (locks s)" "fresh_pid child (locks s)" "i < length (clients s)"
  shows "request_effect child i s ok s'"
  using assms
proof (induction "length (sysfile fs) - pos" arbitrary: pos s rule: less_induct)
  case less
  have IH: "request_effect child i s1 ok s'"
    if "sys_next (sysfile fs) pos = Inr (Some (sy, q))" "req_loop fs child i q s1 = Inr (ok, s')" "locks_ok (locks s1)"
      "lock_owners (locks s1) = lock_owners (locks s)" "length (clients s1) = length (clients s)" for sy q s1
    using less(1) [of q s1] sys_next_measure [OF that(1)] that(2-5) less(4,5) by (simp add: fresh_pid_def)
  show ?case using less(2)
  proof (cases rule: req_loop_cases)
    case Eof
    then show ?thesis using less(3,5) by (intro give_up_effect [OF Eof(2)]) simp_all
  next
    case (Skip sy q)
    then show ?thesis using less(3,5) by (intro request_effect_step [OF IH [OF Skip(1,3)]]) simp_all
  next
    case (No_device sy q m)
    then show ?thesis using less(3,5) by (intro give_up_effect [OF No_device(4)]) simp_all
  next
    case (Locked sy q dv p lk m)
    then show ?thesis
      using less(3,5) is_locked_facts(2,3) [OF Locked(4) less(3)] by (intro request_effect_step [OF IH [OF Locked(1,6)]]) simp_all
  next
    case (Start sy q dv lk p)
    then have "request_effect child i (found i q s) ok s'" using start_child_effect [of dv "found i q s" lk p i sy] less(3-5) by simp
    then show ?thesis by (rule request_effect_step) (simp_all add: less(5))
  qed
qed

lemma request_effect:
  assumes "request fs child i s = Inr (ok, s')" "locks_ok (locks s)" "fresh_pid child (locks s)" "i < length (clients s)"
  shows "request_effect child i s ok s'"
proof -
  have "req_loop fs child i (nat (sysftell (clients s ! i))) (s\<lparr>errmsg := []\<rparr>) = Inr (ok, s')"
    using assms(1) by (simp add: request_def split: if_split_asm)
  from req_loop_effect [OF this] assms(2-4) have "request_effect child i (s\<lparr>errmsg := []\<rparr>) ok s'" by simp
  then show ?thesis by (rule request_effect_step) simp_all
qed

section \<open>The owner of a lock is connected\<close>

definition call_ok :: "calld \<Rightarrow> bool" where
  "call_ok s \<longleftrightarrow> locks_ok (locks s) \<and> distinct (lfds (clients s)) \<and> maxi s < int (length (clients s)) \<and>
     (\<forall>p \<in> set (lock_owners (locks s)). \<exists>i < length (clients s). 0 \<le> fd (clients s ! i) \<and> pid (clients s ! i) = p)"

lemma call_okD:
  assumes "call_ok s"
  shows "locks_ok (locks s)" "distinct (lfds (clients s))" "maxi s < int (length (clients s))"
    "p \<in> set (lock_owners (locks s)) \<Longrightarrow> \<exists>i < length (clients s). 0 \<le> fd (clients s ! i) \<and> pid (clients s ! i) = p"
  using assms by (simp_all add: call_ok_def)

lemma lfds_same: "map fd c = map fd c' \<Longrightarrow> lfds c = lfds c'"
  by (simp add: lfds_def)

text \<open>A client that owns no lock can be removed.\<close>

lemma cli_done_ok:
  assumes "call_ok s" "i < length (clients s)" "0 \<le> fd (clients s ! i)" "pid (clients s ! i) \<notin> set (lock_owners (locks s))"
  shows "\<exists>s'. cli_done (fd (clients s ! i)) s = Inr s' \<and> call_ok s' \<and> locks s' = locks s \<and> map pid (clients s') = map pid (clients s) \<and>
    length (clients s') = length (clients s) \<and> (\<forall>j. j \<noteq> i \<longrightarrow> clients s' ! j = clients s ! j)"
proof -
  note C = call_okD [OF assms(1)]
  let ?c = "(clients s)[i := (clients s ! i)\<lparr>fd := -1\<rparr>]"
  have d: "cli_done (fd (clients s ! i)) s = Inr (s\<lparr>clients := ?c, allset := allset s - {fd (clients s ! i)}\<rparr>)"
    using client_del_slot [OF C(2) assms(2,3)] by (simp add: cli_done_def)
  have "\<exists>j < length ?c. 0 \<le> fd (?c ! j) \<and> pid (?c ! j) = p" if p: "p \<in> set (lock_owners (locks s))" for p
  proof -
    obtain j where "j < length (clients s)" "0 \<le> fd (clients s ! j)" "pid (clients s ! j) = p" using C(4) [OF p] by blast
    moreover have "j \<noteq> i" using calculation(3) assms(4) p by auto
    ultimately show ?thesis by (intro exI [of _ j]) simp
  qed
  moreover have "map pid ?c = map pid (clients s)" by (rule map_upd_same) simp
  ultimately show ?thesis using C(1,3) client_del_facts(2) [OF C(2) assms(2,3)] unfolding d by (simp add: call_ok_def)
qed

text \<open>Neither the invariant nor the sets of process numbers depend on the other members of the entries.\<close>

definition same_pids :: "calld \<Rightarrow> calld \<Rightarrow> bool" where
  "same_pids s t \<longleftrightarrow> locks t = locks s \<and> map fd (clients t) = map fd (clients s) \<and> map pid (clients t) = map pid (clients s) \<and> maxi t = maxi s"

lemma same_pidsD:
  assumes "same_pids s t"
  shows "locks t = locks s" "length (clients t) = length (clients s)" "lfds (clients t) = lfds (clients s)" "maxi t = maxi s"
    "pid ` set (clients t) = pid ` set (clients s)" "j < length (clients s) \<Longrightarrow> fd (clients t ! j) = fd (clients s ! j)"
    "j < length (clients s) \<Longrightarrow> pid (clients t ! j) = pid (clients s ! j)"
proof -
  have e: "map fd (clients t) = map fd (clients s)" "map pid (clients t) = map pid (clients s)" using assms by (simp_all add: same_pids_def)
  show l: "length (clients t) = length (clients s)" using e(1) by (metis length_map)
  show "lfds (clients t) = lfds (clients s)" by (rule lfds_same [OF e(1)])
  show "pid ` set (clients t) = pid ` set (clients s)" using e(2) by (metis list.set_map)
  show "j < length (clients s) \<Longrightarrow> fd (clients t ! j) = fd (clients s ! j)" using e(1) l by (metis nth_map)
  show "j < length (clients s) \<Longrightarrow> pid (clients t ! j) = pid (clients s ! j)" using e(2) l by (metis nth_map)
qed (use assms in \<open>simp_all add: same_pids_def\<close>)

lemma call_ok_same: "same_pids s t \<Longrightarrow> call_ok s \<Longrightarrow> call_ok t"
  using same_pidsD(1-4) [of s t] same_pidsD(6,7) [of s t] by (fastforce simp: call_ok_def)

lemma same_pids_set_client: "(\<And>c. fd (g c) = fd c) \<Longrightarrow> (\<And>c. pid (g c) = pid c) \<Longrightarrow> same_pids s (set_client i g s)"
  by (simp add: same_pids_def set_client_def map_upd_same)

text \<open>
  The answers of \<open>fork\<close> in one round: new process numbers, which neither own a lock nor are still
  remembered in the table.
\<close>

definition fresh_forks :: "(nat \<Rightarrow> int option) \<Rightarrow> nat list \<Rightarrow> calld \<Rightarrow> bool" where
  "fresh_forks fork is s \<longleftrightarrow> distinct is \<and> (\<forall>i \<in> set is. \<forall>j \<in> set is. i \<noteq> j \<longrightarrow> fork i = None \<or> fork i \<noteq> fork j) \<and>
     (\<forall>i \<in> set is. fresh_pid (fork i) (locks s) \<and> (\<forall>p. fork i = Some p \<longrightarrow> p \<notin> pid ` set (clients s)))"

text \<open>What a step for client i may do to the locks and process numbers.\<close>

definition pids_step :: "nat \<Rightarrow> int option \<Rightarrow> calld \<Rightarrow> calld \<Rightarrow> bool" where
  "pids_step i child s s' \<longleftrightarrow> set (lock_owners (locks s')) \<subseteq> set (lock_owners (locks s)) \<union> set_option child \<and>
     pid ` set (clients s') \<subseteq> pid ` set (clients s) \<union> set_option child \<and> length (clients s') = length (clients s) \<and>
     (\<forall>j < length (clients s). j \<noteq> i \<longrightarrow> fd (clients s' ! j) = fd (clients s ! j) \<and> pid (clients s' ! j) = pid (clients s ! j))"

lemma pids_step_refl [simp]: "pids_step i child s s"
  by (auto simp: pids_step_def)

lemma pids_step_same: "same_pids s t \<Longrightarrow> pids_step i child s t"
  using same_pidsD [of s t] by (auto simp: pids_step_def)

lemma fresh_forks_step:
  assumes "fresh_forks fork (i # is) s" "pids_step i (fork i) s s'"
  shows "fresh_forks fork is s'"
proof -
  have "fresh_pid (fork j) (locks s') \<and> (\<forall>p. fork j = Some p \<longrightarrow> p \<notin> pid ` set (clients s'))" if "j \<in> set is" for j
  proof -
    have n: "fork i = None \<or> fork i \<noteq> fork j" using assms(1) that by (auto simp: fresh_forks_def)
    have f: "fresh_pid (fork j) (locks s)" "\<forall>p. fork j = Some p \<longrightarrow> p \<notin> pid ` set (clients s)"
      using assms(1) that unfolding fresh_forks_def by auto
    have "p \<notin> set_option (fork i)" if "fork j = Some p" for p using n that by (cases "fork i") auto
    then show ?thesis using f assms(2) unfolding fresh_pid_def pids_step_def by blast
  qed
  then show ?thesis using assms(1) by (simp add: fresh_forks_def)
qed

lemma try_request_ok:
  assumes "call_ok s" "try_request fs child i s = Inr s'" "i < length (clients s)" "0 \<le> fd (clients s ! i)"
    "pid (clients s ! i) \<notin> set (lock_owners (locks s))" "fresh_pid child (locks s)"
  shows "call_ok s' \<and> pids_step i child s s'"
proof -
  note C = call_okD [OF assms(1)]
  obtain ok t where t: "request fs child i s = Inr (ok, t)"
    "(if ok then Inr t else cli_done (fd (clients s ! i)) (t\<lparr>sent := sent t @ [(fd (clients s ! i), send_err (-1) (errmsg t))]\<rparr>)) = Inr s'"
    using assms(2) by (auto simp: try_request_def Let_def bindR_eq_Inr)
  have R: "request_effect child i s ok t" by (rule request_effect [OF t(1) C(1) assms(6,3)])
  then have sb: "same_but i s t" "locks_ok (locks t)" by (simp_all add: request_effect_def)
  have len: "length (clients t) = length (clients s)" "lfds (clients t) = lfds (clients s)" "maxi t = maxi s"
    using sb(1) same_but_length [OF sb(1)] lfds_same by (auto simp: same_but_def)
  have other: "\<exists>j < length (clients t). 0 \<le> fd (clients t ! j) \<and> pid (clients t ! j) = p" if p: "p \<in> set (lock_owners (locks s))" for p
  proof -
    obtain j where j: "j < length (clients s)" "0 \<le> fd (clients s ! j)" "pid (clients s ! j) = p" using C(4) [OF p] by blast
    then have "j \<noteq> i" using assms(5) p by auto
    then show ?thesis using j len(1) sb(1) by (intro exI [of _ j]) (simp add: same_but_def)
  qed
  have "pid (clients t ! j) \<in> insert (pid (clients t ! i)) (pid ` set (clients s))" if "j < length (clients t)" for j
    using that len(1) sb(1) by (cases "j = i") (auto simp: same_but_def)
  then have mem: "pid ` set (clients t) \<subseteq> insert (pid (clients t ! i)) (pid ` set (clients s))"
    by (metis (no_types, lifting) image_subsetI in_set_conv_nth)
  show ?thesis
  proof (cases ok)
    case True
    then obtain p where p: "child = Some p" "pid (clients t ! i) = p" "set (lock_owners (locks t)) = insert p (set (lock_owners (locks s)))"
      using R by (auto simp: request_effect_def)
    have "0 \<le> fd (clients t ! i)" using same_but_fd [OF sb(1) assms(3)] assms(4) by simp
    then have "call_ok t" using C sb(2) len other p(2,3) assms(3) unfolding call_ok_def by auto
    moreover have "pids_step i child s t" using p len(1) mem sb(1) by (auto simp: pids_step_def same_but_def)
    ultimately show ?thesis using t(2) True by simp
  next
    case False
    then have p: "pid (clients t ! i) = pid (clients s ! i)" "set (lock_owners (locks t)) = set (lock_owners (locks s))"
      using R by (auto simp: request_effect_def)
    let ?t = "t\<lparr>sent := sent t @ [(fd (clients s ! i), send_err (-1) (errmsg t))]\<rparr>"
    have f: "fd (clients ?t ! i) = fd (clients s ! i)" using same_but_fd [OF sb(1) assms(3)] by simp
    have "call_ok ?t" using C sb(2) len other p(2) unfolding call_ok_def by simp
    from cli_done_ok [OF this, of i] obtain u where "cli_done (fd (clients s ! i)) ?t = Inr u" "call_ok u" "locks u = locks t"
      "map pid (clients u) = map pid (clients t)" "length (clients u) = length (clients t)" "\<forall>j. j \<noteq> i \<longrightarrow> clients u ! j = clients t ! j"
      using assms(3-5) p len(1) f by auto
    moreover have "pid ` set (clients u) = pid ` set (clients t)" using calculation(4) by (metis list.set_map)
    moreover have "pid ` set (clients t) \<subseteq> pid ` set (clients s)" using mem p(1) assms(3) by auto
    moreover have "\<forall>j. j \<noteq> i \<longrightarrow> clients t ! j = clients s ! j" using sb(1) by (simp add: same_but_def)
    ultimately show ?thesis using t(2) False p(2) len(1) by (auto simp: pids_step_def)
  qed
qed

lemma serve_call_ok:
  assumes "call_ok s" "serve_call fs fork rd i s = Inr s'" "i < length (clients s)" "0 \<le> fd (clients s ! i)"
    "fresh_pid (fork i) (locks s)" "rd (fd (clients s ! i)) \<noteq> Some [] \<Longrightarrow> pid (clients s ! i) \<notin> set (lock_owners (locks s))"
  shows "call_ok s' \<and> pids_step i (fork i) s s'"
proof -
  note C = call_okD [OF assms(1)]
  obtain buf where buf: "rd (fd (clients s ! i)) = Some buf"
    using assms(2) by (cases "rd (fd (clients s ! i))") (simp_all add: serve_call_def Let_def)
  show ?thesis
  proof (cases "buf = []")
    case True
    let ?s = "s\<lparr>locks := lock_rel (pid (clients s ! i)) (locks s)\<rparr>"
    note K = lock_rel_facts [OF C(1), of "pid (clients s ! i)"]
    have "call_ok ?s" using C K by (auto simp: call_ok_def)
    from cli_done_ok [OF this, of i] obtain u where u: "cli_done (fd (clients s ! i)) ?s = Inr u" "call_ok u"
      "locks u = locks ?s" "map pid (clients u) = map pid (clients s)" "length (clients u) = length (clients s)" "\<forall>j. j \<noteq> i \<longrightarrow> clients u ! j = clients s ! j"
      using assms(3,4) K(2) by auto
    then have "s' = u" using assms(2) buf True by (simp add: serve_call_def Let_def)
    moreover have "pid ` set (clients u) = pid ` set (clients s)" using u(4) by (metis list.set_map)
    ultimately show ?thesis using u K(2) by (auto simp: pids_step_def)
  next
    case False
    then obtain p where p: "bindR (set_request i p s) (try_request fs (fork i) i) = Inr s'"
      using assms(2) buf by (auto simp: serve_call_def Let_def split: if_split_asm option.split_asm sum.split_asm)
    then obtain t where t: "set_request i p s = Inr t" "try_request fs (fork i) i t = Inr s'" by (auto simp: bindR_eq_Inr)
    have n: "pid (clients s ! i) \<notin> set (lock_owners (locks s))" using assms(6) buf False by simp
    have sp: "same_pids s t" using t(1) by (auto simp: set_request_def intro: same_pids_set_client split: if_split_asm)
    note e = same_pidsD [OF sp]
    have "call_ok t" by (rule call_ok_same [OF sp assms(1)])
    from try_request_ok [OF this t(2)] have "call_ok s' \<and> pids_step i (fork i) t s'" using assms(3-5) n e by simp
    then show ?thesis using e by (simp add: pids_step_def)
  qed
qed

lemma child_ended_ok:
  assumes "call_ok s" "child_ended fs fork i s = Inr s'" "i < length (clients s)" "fresh_pid (fork i) (locks s)"
  shows "call_ok s' \<and> pids_step i (fork i) s s'"
proof -
  note C = call_okD [OF assms(1)]
  define t where "t = set_client i (\<lambda>c. c\<lparr>childdone := 0\<rparr>) s"
  have sp: "same_pids s t" unfolding t_def by (rule same_pids_set_client) simp_all
  note e = same_pidsD [OF sp]
  have ok: "call_ok t" by (rule call_ok_same [OF sp assms(1)])
  have E: "child_ended fs fork i s = (if fd (clients s ! i) < 0 \<or> childdone (clients s ! i) = 0 then Inr s else if childdone (clients s ! i) = 1 then Inr t
      else try_request fs (fork i) i (t\<lparr>locks := lock_rel (pid (clients s ! i)) (locks t)\<rparr>))"
    by (simp only: child_ended_def Let_def t_def)
  show ?thesis
  proof (cases "fd (clients s ! i) < 0 \<or> childdone (clients s ! i) = 0")
    case True
    then show ?thesis using assms(1,2) unfolding E by simp
  next
    case live: False
    show ?thesis
    proof (cases "childdone (clients s ! i) = 1")
      case True
      then show ?thesis using assms(2) live ok pids_step_same [OF sp] unfolding E by simp
    next
      case False
      let ?t = "t\<lparr>locks := lock_rel (pid (clients s ! i)) (locks t)\<rparr>"
      have r: "try_request fs (fork i) i ?t = Inr s'" using assms(2) live False unfolding E by simp
      note K = lock_rel_facts [OF call_okD(1) [OF ok], of "pid (clients s ! i)"]
      have i: "i < length (clients ?t)" "0 \<le> fd (clients ?t ! i)" "pid (clients ?t ! i) \<notin> set (lock_owners (locks ?t))"
        using assms(3) live K(2) e(2) e(6,7) [OF assms(3)] by simp_all
      have "call_ok ?t" using call_okD [OF ok] K by (auto simp: call_ok_def)
      moreover have "fresh_pid (fork i) (locks ?t)" using assms(4) K(2) e(1) by (simp add: fresh_pid_def)
      ultimately have "call_ok s' \<and> pids_step i (fork i) ?t s'" using try_request_ok [OF _ r i] by blast
      then show ?thesis using e(1,2,5,6,7) K(2) by (auto simp: pids_step_def)
    qed
  qed
qed

text \<open>
  The loops over the table. A client sends one request: what arrives from a client whose call is being made
  or has been made is the end of the connection.
\<close>

definition asks_once :: "(int \<Rightarrow> string option) \<Rightarrow> int set \<Rightarrow> calld \<Rightarrow> nat \<Rightarrow> bool" where
  "asks_once rd rset s i \<longleftrightarrow> (0 \<le> fd (clients s ! i) \<and> fd (clients s ! i) \<in> rset \<and> rd (fd (clients s ! i)) \<noteq> Some [] \<longrightarrow>
     pid (clients s ! i) \<notin> set (lock_owners (locks s)))"

lemma asks_once_step:
  assumes "asks_once rd rset s j" "pids_step i (fork i) s s'" "fresh_forks fork (i # is) s" "j \<in> set is" "j < length (clients s)"
  shows "asks_once rd rset s' j"
proof -
  have "j \<noteq> i" using assms(3,4) by (auto simp: fresh_forks_def)
  then have e: "fd (clients s' ! j) = fd (clients s ! j)" "pid (clients s' ! j) = pid (clients s ! j)"
    using assms(2,5) by (auto simp: pids_step_def)
  have "pid (clients s ! j) \<in> pid ` set (clients s)" using assms(5) by simp
  then have "pid (clients s ! j) \<notin> set_option (fork i)" using assms(3) by (cases "fork i") (auto simp: fresh_forks_def)
  then show ?thesis using assms(1,2) e unfolding asks_once_def pids_step_def by auto
qed

lemma serve_calls_ok:
  assumes "call_ok s" "serve_calls fs fork rd rset is s = Inr s'" "fresh_forks fork is s"
    "\<forall>i \<in> set is. i < length (clients s) \<and> asks_once rd rset s i"
  shows "call_ok s'"
  using assms
proof (induction "is" arbitrary: s)
  case (Cons i js)
  obtain t where t: "(if 0 \<le> fd (clients s ! i) \<and> fd (clients s ! i) \<in> rset then serve_call fs fork rd i s else Inr s) = Inr t"
    "serve_calls fs fork rd rset js t = Inr s'" using Cons.prems(2) by (auto simp: bindR_eq_Inr)
  have f: "fresh_pid (fork i) (locks s)" using Cons.prems(3) by (simp add: fresh_forks_def)
  have k: "call_ok t \<and> pids_step i (fork i) s t"
  proof (cases "0 \<le> fd (clients s ! i) \<and> fd (clients s ! i) \<in> rset")
    case True
    then show ?thesis
      using t(1) Cons.prems(4) f by (intro serve_call_ok [OF Cons.prems(1), of fs fork rd]) (simp_all add: asks_once_def)
  next
    case False
    then have "t = s" using t(1) by auto
    then show ?thesis using Cons.prems(1) by simp
  qed
  have "\<forall>j \<in> set js. j < length (clients t) \<and> asks_once rd rset t j"
    using Cons.prems(3,4) k asks_once_step by (auto simp: pids_step_def)
  then show ?case using Cons.IH [OF _ t(2)] k fresh_forks_step [OF Cons.prems(3)] by blast
qed simp

lemma child_pass_ok:
  assumes "call_ok s" "child_pass fs fork is s = Inr s'" "fresh_forks fork is s" "\<forall>i \<in> set is. i < length (clients s)"
  shows "call_ok s'"
  using assms
proof (induction "is" arbitrary: s)
  case (Cons i js)
  obtain t where t: "child_ended fs fork i s = Inr t" "child_pass fs fork js t = Inr s'" using Cons.prems(2) by (auto simp: bindR_eq_Inr)
  have f: "fresh_pid (fork i) (locks s)" using Cons.prems(3) by (simp add: fresh_forks_def)
  have k: "call_ok t" "pids_step i (fork i) s t" using child_ended_ok [OF Cons.prems(1) t(1) _ f] Cons.prems(4) by simp_all
  then show ?case using Cons.IH [OF k(1) t(2) fresh_forks_step [OF Cons.prems(3) k(2)]] Cons.prems(4) by (simp add: pids_step_def)
qed simp

lemma accept_call_ok:
  assumes "call_ok s" "0 \<le> f" "f \<notin> set (lfds (clients s))"
  shows "call_ok (accept_call memory f u s)"
proof -
  note C = call_okD [OF assms(1)]
  obtain i c' where a: "client_add memory f u (clients s) = (i, c')" by fastforce
  note F = client_add_first [OF a]
  have "\<exists>j < length c'. 0 \<le> fd (c' ! j) \<and> pid (c' ! j) = p" if p: "p \<in> set (lock_owners (locks s))" for p
  proof -
    obtain j where j: "j < length (clients s)" "0 \<le> fd (clients s ! j)" "pid (clients s ! j) = p" using C(4) [OF p] by blast
    then have "j \<noteq> i" using F(5) by auto
    then show ?thesis using j F(4) F(7) [of j] by (intro exI [of _ j]) simp
  qed
  then show ?thesis
    using C(1,3) client_add_facts(2) [OF a assms(2,3) C(2)] F(3,4) by (simp add: call_ok_def accept_call_def a)
qed

lemma sig_chld_ok: "call_ok s \<Longrightarrow> sig_chld p stat s = Inr s' \<Longrightarrow> call_ok s'"
proof -
  assume a: "call_ok s" "sig_chld p stat s = Inr s'"
  then have "s' = s\<lparr>chld_flag := True\<rparr> \<or> (\<exists>i st. s' = set_client i (\<lambda>c. c\<lparr>childdone := st\<rparr>) (s\<lparr>chld_flag := True\<rparr>))"
    by (auto simp: sig_chld_def client_sigchld_def Let_def split: option.split_asm)
  moreover have "same_pids s (s\<lparr>chld_flag := True\<rparr>)" by (simp add: same_pids_def)
  moreover have "same_pids s (set_client i (\<lambda>c. c\<lparr>childdone := st\<rparr>) (s\<lparr>chld_flag := True\<rparr>))" for i st
    by (simp add: same_pids_def set_client_def map_upd_same)
  ultimately show "call_ok s'" using call_ok_same [OF _ a(1)] by blast
qed

text \<open>
  A run: rounds of the loop, signals and passes of \<open>child_done\<close> in any order. The kernel gives new
  connections and children numbers that are not in use, and every client asks once.
\<close>

inductive call_run :: "files \<Rightarrow> calld \<Rightarrow> bool" for fs where
  Call_start: "call_run fs (calld_start l)"
| Call_round: "call_run fs s \<Longrightarrow> call_round fs fork memory rset acc rd s = Inr s' \<Longrightarrow>
    (\<forall>f u. acc = Some (f, u) \<longrightarrow> 0 \<le> f \<and> f \<notin> set (lfds (clients s))) \<Longrightarrow> fresh_forks fork [0 ..< nat (maxi s + 1)] s \<Longrightarrow>
    (\<forall>i < length (clients s). asks_once rd rset s i) \<Longrightarrow> call_run fs s'"
| Call_signal: "call_run fs s \<Longrightarrow> sig_chld p stat s = Inr s' \<Longrightarrow> call_run fs s'"
| Call_child: "call_run fs s \<Longrightarrow> child_done fs fork s = Inr s' \<Longrightarrow> fresh_forks fork [0 ..< nat (maxi s + 1)] s \<Longrightarrow> call_run fs s'"

lemma call_run_ok: "call_run fs s \<Longrightarrow> call_ok s"
proof (induction rule: call_run.induct)
  case (Call_start l)
  then show ?case by (simp add: call_ok_def calld_start_def locks_ok_def lock_owners_def)
next
  case (Call_round s fork memory rset acc rd s')
  have b: "\<forall>i \<in> set [0 ..< nat (maxi s + 1)]. i < length (clients s)" using call_okD(3) [OF Call_round.IH] by auto
  show ?case
  proof (cases "listenfd s \<in> rset")
    case True
    then obtain f u where "acc = Some (f, u)" "s' = accept_call memory f u s"
      using Call_round.hyps(2) by (auto simp: call_round_def split: option.split_asm)
    then show ?thesis using Call_round.hyps(3) accept_call_ok [OF Call_round.IH] by simp
  next
    case False
    then have "serve_calls fs fork rd rset [0 ..< nat (maxi s + 1)] s = Inr s'" using Call_round.hyps(2) by (simp add: call_round_def)
    then show ?thesis using serve_calls_ok [OF Call_round.IH _ Call_round.hyps(4)] Call_round.hyps(5) b by blast
  qed
next
  case (Call_signal s p stat s')
  then show ?case using sig_chld_ok by blast
next
  case (Call_child s fork s')
  let ?s = "s\<lparr>chld_flag := False\<rparr>"
  have "same_pids s ?s" by (simp add: same_pids_def)
  then have "call_ok ?s" using Call_child.IH by (rule call_ok_same)
  moreover have "fresh_forks fork [0 ..< nat (maxi s + 1)] ?s" using Call_child.hyps(3) by (simp add: fresh_forks_def)
  moreover have "\<forall>i \<in> set [0 ..< nat (maxi s + 1)]. i < length (clients ?s)" using call_okD(3) [OF Call_child.IH] by auto
  ultimately show ?case using Call_child.hyps(2) child_pass_ok unfolding child_done_def by blast
qed


end
