(* ===== verification/Calld_Request.thy ===== *)
theory Calld_Request
  imports Calld_Spec
begin

text \<open>Which device a request of the call server gets, and what a second attempt goes on with.\<close>

section \<open>The entries of the files\<close>

function sys_entries :: "string \<Rightarrow> nat \<Rightarrow> fault + (systems \<times> nat) list" where
  "sys_entries f pos =
     (case sys_next f pos of
        Inl x \<Rightarrow> Inl x
      | Inr None \<Rightarrow> Inr []
      | Inr (Some (sy, q)) \<Rightarrow> (case sys_entries f q of Inl x \<Rightarrow> Inl x | Inr es \<Rightarrow> Inr ((sy, q) # es)))"
  by pat_completeness auto
termination
  by (relation "measure (\<lambda>(f, pos). length f - pos)") (auto dest: sys_next_measure)

declare sys_entries.simps [simp del]

function dev_entries :: "string \<Rightarrow> fault + devices list" where
  "dev_entries s =
     (case dev_next s of
        Inl x \<Rightarrow> Inl x
      | Inr None \<Rightarrow> Inr []
      | Inr (Some (d, r)) \<Rightarrow> (case dev_entries r of Inl x \<Rightarrow> Inl x | Inr ds \<Rightarrow> Inr (d # ds)))"
  by pat_completeness auto
termination
  by (relation "measure length") (auto dest: dev_next_shrinks)

declare dev_entries.simps [simp del]

definition fits_system :: "systems \<Rightarrow> devices \<Rightarrow> bool" where
  "fits_system sy d \<longleftrightarrow> s_type sy = d_type d \<and> s_class sy = d_class d"

lemma dev_search_find: "dev_entries s = Inr ds \<Longrightarrow> dev_search sy s = Inr (find (fits_system sy) ds)"
proof (induction s arbitrary: ds rule: dev_entries.induct)
  case (1 s)
  show ?case
  proof (cases "dev_next s")
    case (Inl x)
    then show ?thesis using 1(2) by (simp add: dev_entries.simps [of s])
  next
    case (Inr r)
    show ?thesis
    proof (cases r)
      case None
      then show ?thesis using 1(2) Inr by (simp add: dev_entries.simps [of s] dev_search.simps [of sy s])
    next
      case (Some a)
      then obtain d t es where e: "dev_next s = Inr (Some (d, t))" "dev_entries t = Inr es" "ds = d # es"
        using 1(2) Inr by (cases a) (auto simp: dev_entries.simps [of s] split: sum.split_asm)
      from 1(1) [OF e(1) refl _ e(2)] show ?thesis using e by (simp add: dev_search.simps [of sy s] fits_system_def)
    qed
  qed
qed

lemma sys_entries_cases:
  assumes "sys_entries f pos = Inr es"
  obtains "es = []" "sys_next f pos = Inr None"
  | sy q es' where "es = (sy, q) # es'" "sys_next f pos = Inr (Some (sy, q))" "sys_entries f q = Inr es'"
  using assms by (auto simp: sys_entries.simps [of f pos] split: sum.split_asm option.split_asm)

section \<open>The search\<close>

text \<open>Every message of the search fits into its buffer.\<close>

definition msgs_fit :: "devices list \<Rightarrow> (systems \<times> nat) list \<Rightarrow> call_client \<Rightarrow> lock list \<Rightarrow> bool" where
  "msgs_fit ds es c lk \<longleftrightarrow> (\<forall>e \<in> set es. length (s_type (fst e)) + length (s_class (fst e)) < 4000) \<and>
     (\<forall>d \<in> set ds. length (d_line d) < 4000) \<and> length (sysname c) < MAXSYSNAME \<and> (\<forall>p \<in> set (lock_owners lk). \<bar>p\<bar> < 10 ^ 10)"

text \<open>The entries the client asks for, by name and, when it gave one, by speed.\<close>

definition asks_for :: "call_client \<Rightarrow> systems \<Rightarrow> bool" where
  "asks_for c sy \<longleftrightarrow> s_name sy = sysname c \<and> (speed c \<noteq> [] \<longrightarrow> s_class sy = speed c)"

lemma wanted_iff: "wanted c sy \<longleftrightarrow> asks_for c sy"
  by (auto simp: wanted_def asks_for_def)

text \<open>Entries that cannot be used now: another system or speed, or a device that is in use.\<close>

definition passed_over :: "devices list \<Rightarrow> call_client \<Rightarrow> lock list \<Rightarrow> systems \<times> nat \<Rightarrow> bool" where
  "passed_over ds c lk e \<longleftrightarrow> (asks_for c (fst e) \<longrightarrow> (\<exists>d. find (fits_system (fst e)) ds = Some d \<and> line_locked lk (d_line d)))"

definition request_outcome ::
  "files \<Rightarrow> devices list \<Rightarrow> (systems \<times> nat) list \<Rightarrow> int \<Rightarrow> nat \<Rightarrow> calld \<Rightarrow> bool \<Rightarrow> calld \<Rightarrow> bool" where
  "request_outcome fs ds es p i s ok s' \<longleftrightarrow>
     (if ok then \<exists>pre sy q post d. es = pre @ (sy, q) # post \<and> list_all (passed_over ds (clients s ! i) (locks s)) pre \<and>
        asks_for (clients s ! i) sy \<and> find (fits_system sy) ds = Some d \<and> \<not> line_locked (locks s) (d_line d) \<and>
        dialing s' = dialing s @ [(p, i, sy, d)] \<and> line_locked (locks s') (d_line d) \<and> pid (clients s' ! i) = p \<and>
        sysftell (clients s' ! i) = int q \<and> sys_entries (sysfile fs) q = Inr post
      else \<exists>pre post. es = pre @ post \<and> list_all (passed_over ds (clients s ! i) (locks s)) pre \<and>
        (post = [] \<or> asks_for (clients s ! i) (fst (hd post)) \<and> find (fits_system (fst (hd post))) ds = None) \<and>
        dialing s' = dialing s \<and> errmsg s' \<noteq> [])"

lemma passed_over_cong:
  "sysname c' = sysname c \<Longrightarrow> speed c' = speed c \<Longrightarrow> line_locked lk' = line_locked lk \<Longrightarrow> passed_over ds c' lk' = passed_over ds c lk"
  by (simp add: passed_over_def asks_for_def fun_eq_iff)

lemma outcome_dial:
  assumes "es = pre @ (sy, q) # post" "list_all (passed_over ds (clients s ! i) (locks s)) pre"
    "asks_for (clients s ! i) sy" "find (fits_system sy) ds = Some d" "\<not> line_locked (locks s) (d_line d)"
    "dialing s' = dialing s @ [(p, i, sy, d)]" "line_locked (locks s') (d_line d)" "pid (clients s' ! i) = p"
    "sysftell (clients s' ! i) = int q" "sys_entries (sysfile fs) q = Inr post"
  shows "request_outcome fs ds es p i s True s'"
  using assms unfolding request_outcome_def by auto

lemma outcome_fail:
  assumes "es = pre @ post" "list_all (passed_over ds (clients s ! i) (locks s)) pre"
    "post = [] \<or> asks_for (clients s ! i) (fst (hd post)) \<and> find (fits_system (fst (hd post))) ds = None"
    "dialing s' = dialing s" "errmsg s' \<noteq> []"
  shows "request_outcome fs ds es p i s False s'"
  using assms unfolding request_outcome_def by auto

lemma outcome_Cons:
  assumes "request_outcome fs ds es p i t ok s'" "passed_over ds (clients s ! i) (locks s) e" "dialing t = dialing s"
    "sysname (clients t ! i) = sysname (clients s ! i)" "speed (clients t ! i) = speed (clients s ! i)" "line_locked (locks t) = line_locked (locks s)"
  shows "request_outcome fs ds (e # es) p i s ok s'"
proof -
  have c: "passed_over ds (clients t ! i) (locks t) = passed_over ds (clients s ! i) (locks s)" by (rule passed_over_cong [OF assms(4-6)])
  have w: "asks_for (clients t ! i) = asks_for (clients s ! i)" using assms(4,5) by (simp add: asks_for_def fun_eq_iff)
  show ?thesis
  proof (cases ok)
    case True
    then obtain pre sy q post d where *: "es = pre @ (sy, q) # post" "list_all (passed_over ds (clients s ! i) (locks s)) pre"
      "asks_for (clients s ! i) sy" "find (fits_system sy) ds = Some d" "\<not> line_locked (locks s) (d_line d)"
      "dialing s' = dialing s @ [(p, i, sy, d)]" "line_locked (locks s') (d_line d)" "pid (clients s' ! i) = p"
      "sysftell (clients s' ! i) = int q" "sys_entries (sysfile fs) q = Inr post"
      using assms(1,3,6) unfolding request_outcome_def c w by auto
    have "request_outcome fs ds (e # es) p i s True s'" by (rule outcome_dial [of _ "e # pre", OF _ _ *(3-)]) (use *(1,2) assms(2) in simp_all)
    then show ?thesis using True by simp
  next
    case False
    then obtain pre post where *: "es = pre @ post" "list_all (passed_over ds (clients s ! i) (locks s)) pre"
      "post = [] \<or> asks_for (clients s ! i) (fst (hd post)) \<and> find (fits_system (fst (hd post))) ds = None"
      "dialing s' = dialing s" "errmsg s' \<noteq> []"
      using assms(1,3) unfolding request_outcome_def c w by auto
    have "request_outcome fs ds (e # es) p i s False s'" by (rule outcome_fail [of _ "e # pre", OF _ _ *(3-)]) (use *(1,2) assms(2) in simp_all)
    then show ?thesis using False by simp
  qed
qed

lemma err_text_fits: "length m < MAXLINE \<Longrightarrow> err_text m = Inr m"
  by (simp add: err_text_def)

lemma length_quoted [simp]: "length (quoted s) = length s + 2"
  by (simp add: quoted_def)

lemma give_up_fits:
  assumes "length (sysname (clients s ! i)) < MAXSYSNAME"
  shows "\<exists>s'. give_up i s = Inr (False, s') \<and> dialing s' = dialing s \<and> errmsg s' \<noteq> []"
  using assms by (auto simp: give_up_def Let_def err_text_fits MAXLINE_def MAXSYSNAME_def)

lemma dev_find_fits:
  assumes "dev_entries (devfile fs) = Inr ds" "length (s_type sy) + length (s_class sy) < 4000"
  shows "case find (fits_system sy) ds of Some d \<Rightarrow> dev_find fs sy = Inr (Inr d) | None \<Rightarrow> \<exists>m. dev_find fs sy = Inr (Inl m) \<and> m \<noteq> []"
  using assms(2) unfolding dev_find_def dev_search_find [OF assms(1)]
  by (cases "find (fits_system sy) ds") (simp_all add: err_text_fits MAXLINE_def)

lemma req_loop_outcome:
  assumes "sys_entries (sysfile fs) pos = Inr es" "dev_entries (devfile fs) = Inr ds" "locks_ok (locks s)" "i < length (clients s)"
    "msgs_fit ds es (clients s ! i) (locks s)" "fresh_pid (Some p) (locks s)"
  shows "\<exists>ok s'. req_loop fs (Some p) i pos s = Inr (ok, s') \<and> request_outcome fs ds es p i s ok s'"
  using assms
proof (induction es arbitrary: pos s)
  case Nil
  then have n: "sys_next (sysfile fs) pos = Inr None" by (cases rule: sys_entries_cases) simp_all
  have "length (sysname (clients (set_client i (\<lambda>c. c\<lparr>sysftell := -1\<rparr>) s) ! i)) < MAXSYSNAME" using Nil(4,5) by (simp add: msgs_fit_def)
  from give_up_fits [OF this] obtain s' where "give_up i (set_client i (\<lambda>c. c\<lparr>sysftell := -1\<rparr>) s) = Inr (False, s')"
    "dialing s' = dialing s" "errmsg s' \<noteq> []" by (auto simp: set_client_def)
  then show ?case using n outcome_fail [of "[]" "[]" "[]"] by (fastforce simp: req_loop_unfold [of fs "Some p" i pos s])
next
  case (Cons e es)
  obtain sy q where n: "e = (sy, q)" "sys_next (sysfile fs) pos = Inr (Some (sy, q))" "sys_entries (sysfile fs) q = Inr es"
    using Cons.prems(1) by (cases rule: sys_entries_cases) simp_all
  have fit: "length (s_type sy) + length (s_class sy) < 4000" "length (sysname (clients s ! i)) < MAXSYSNAME"
    "\<And>d. d \<in> set ds \<Longrightarrow> length (d_line d) < 4000" "\<And>p. p \<in> set (lock_owners (locks s)) \<Longrightarrow> \<bar>p\<bar> < 10 ^ 10"
    using Cons.prems(5) by (simp_all add: msgs_fit_def n(1))
  have IH: "\<exists>ok s'. req_loop fs (Some p) i q t = Inr (ok, s') \<and> request_outcome fs ds (e # es) p i s ok s'"
    if "locks_ok (locks t)" "lock_owners (locks t) = lock_owners (locks s)" "length (clients t) = length (clients s)"
      "sysname (clients t ! i) = sysname (clients s ! i)" "speed (clients t ! i) = speed (clients s ! i)"
      "line_locked (locks t) = line_locked (locks s)" "dialing t = dialing s" "passed_over ds (clients s ! i) (locks s) e" for t
  proof -
    note T = that
    have "msgs_fit ds es (clients t ! i) (locks t)" using Cons.prems(5) T(2,4) by (simp add: msgs_fit_def)
    then obtain ok s' where "req_loop fs (Some p) i q t = Inr (ok, s')" "request_outcome fs ds es p i t ok s'"
      using Cons.IH [OF n(3) Cons.prems(2) T(1)] Cons.prems(4,6) T(2,3) by (auto simp: fresh_pid_def)
    then show ?thesis using outcome_Cons [OF _ T(8,7,4,5,6)] by blast
  qed
  note U = req_loop_unfold [of fs "Some p" i pos s]
  show ?case
  proof (cases "wanted (clients s ! i) sy")
    case False
    then have "passed_over ds (clients s ! i) (locks s) e" by (simp add: passed_over_def n(1) wanted_iff)
    then show ?thesis using IH [of "set_client i (\<lambda>c. c\<lparr>sysftell := int q\<rparr>) s"] Cons.prems(3,4) False n(2) U by (simp add: set_client_def)
  next
    case w: True
    note w' = w [unfolded wanted_iff]
    note D = dev_find_fits [OF Cons.prems(2) fit(1)]
    show ?thesis
    proof (cases "find (fits_system sy) ds")
      case None
      then obtain m where m: "dev_find fs sy = Inr (Inl m)" using D by auto
      have "length (sysname (clients ((found i q s)\<lparr>errmsg := m\<rparr>) ! i)) < MAXSYSNAME" using fit(2) Cons.prems(4) by simp
      from give_up_fits [OF this] obtain s' where "give_up i ((found i q s)\<lparr>errmsg := m\<rparr>) = Inr (False, s')"
        "dialing s' = dialing s" "errmsg s' \<noteq> []" by (auto simp: found_def set_client_def)
      then show ?thesis using U n w w' m None outcome_fail [of "e # es" "[]" "e # es" ds s i s' fs p] by fastforce
    next
      case (Some d)
      then have d: "dev_find fs sy = Inr (Inr d)" using D by simp
      have "d \<in> set ds" using Some by (auto simp: find_Some_iff)
      note dl = fit(3) [OF this]
      obtain k lk where lk: "is_locked (d_line d) (locks s) = (k, lk)" by fastforce
      note K = is_locked_facts [OF lk Cons.prems(3)]
      show ?thesis
      proof (cases "k = 0")
        case True
        let ?s = "start_child p i sy d ((found i q s)\<lparr>locks := lk\<rparr>)"
        have r: "req_loop fs (Some p) i pos s = Inr (True, ?s)" using U n(2) w d lk True by simp
        have "line_locked (locks ?s) (d_line d)"
          using lock_set_facts(3) [OF lk [unfolded True] Cons.prems(3)] Cons.prems(6) by (simp add: start_child_def fresh_pid_def)
        then have "request_outcome fs ds (e # es) p i s True ?s"
          using outcome_dial [of "e # es" "[]" sy q es ds s i d ?s p fs] n w' Some K(1) True Cons.prems(4)
          by (simp add: start_child_def found_def set_client_def)
        then show ?thesis using r by blast
      next
        case False
        then have "\<bar>k\<bar> < 10 ^ 10" using K(5) fit(4) by blast
        then have "err_text (lock_msg d k) = Inr (lock_msg d k)"
          using length_dec_int [of k] dl by (intro err_text_fits) (simp add: lock_msg_def MAXLINE_def)
        moreover have "passed_over ds (clients s ! i) (locks s) e" using Some K(1) False by (simp add: passed_over_def n(1))
        ultimately show ?thesis
          using IH [of "(found i q s)\<lparr>locks := lk, errmsg := lock_msg d k\<rparr>"] K(2-4) Cons.prems(4) U n(2) w d lk False
          by (simp add: found_def set_client_def)
      qed
    qed
  qed
qed

text \<open>
  C11. A request gets the first device that can be used: it goes through the entries of the Systems file from
  the position where the client's last attempt ended, passes over other systems and speeds and over devices
  that are locked, and starts a child for the first entry whose device, the first of the type and class in
  the Devices file, is free; that device is locked, and the position is moved behind the entry, so that a
  further attempt goes on with the entries that follow. It fails, with a message, only if there is no such
  entry before the end or before an entry of the system whose device does not exist. The files are well-formed
  and the messages fit into their buffer.
\<close>

theorem request_first_free:
  assumes "sys_entries (sysfile fs) (nat (sysftell (clients s ! i))) = Inr es" "dev_entries (devfile fs) = Inr ds"
    "0 \<le> sysftell (clients s ! i)" "i < length (clients s)" "locks_ok (locks s)" "fresh_pid (Some p) (locks s)"
    "msgs_fit ds es (clients s ! i) (locks s)"
  shows "\<exists>ok s'. request fs (Some p) i s = Inr (ok, s') \<and> request_outcome fs ds es p i s ok s'"
proof -
  obtain ok s' where r: "req_loop fs (Some p) i (nat (sysftell (clients s ! i))) (s\<lparr>errmsg := []\<rparr>) = Inr (ok, s')"
    "request_outcome fs ds es p i (s\<lparr>errmsg := []\<rparr>) ok s'"
    using req_loop_outcome [OF assms(1,2), of "s\<lparr>errmsg := []\<rparr>" i p] assms(4-7) by auto
  moreover have "request_outcome fs ds es p i (s\<lparr>errmsg := []\<rparr>) ok s' = request_outcome fs ds es p i s ok s'" by (simp add: request_outcome_def)
  ultimately have "request_outcome fs ds es p i s ok s'" by simp
  then show ?thesis using r(1) assms(3) by (auto simp: request_def)
qed

section \<open>A sample\<close>

definition sample_files :: files where
  "sample_files = \<lparr>sysfile = ''h Any A 9600 5 x'' @ [NEWLINE], devfile = ''A t - 9600 d'' @ [NEWLINE], dialfile = []\<rparr>"

definition sample_system :: systems where
  "sample_system = \<lparr>s_name = ''h'', s_time = ''Any'', s_type = ''A'', s_class = ''9600'', s_phone = ''5'', s_login = ''x''\<rparr>"

definition sample_device :: devices where
  "sample_device = \<lparr>d_type = ''A'', d_line = ''t'', d_line2 = ''-'', d_class = ''9600'', d_dialer = ''d''\<rparr>"

definition sample_client :: call_client where
  "sample_client = \<lparr>fd = 4, uid = 100, pid = 0, childdone = 0, sysftell = 0, foundone = 0, debug = False, par = NONE, speed = [], sysname = ''h''\<rparr>"

lemmas sample_eval = strtok_def Let_def white_def newline_def SPACE_def NEWLINE_def NUL_def cstr_def first_field_def field_def

lemma sample_fgets:
  "fgets MAXLINE (''h Any A 9600 5 x'' @ [NEWLINE]) = Some (''h Any A 9600 5 x'' @ [NEWLINE], [])"
  "fgets MAXLINE (''A t - 9600 d'' @ [NEWLINE]) = Some (''A t - 9600 d'' @ [NEWLINE], [])" "fgets MAXLINE [] = None"
  using fgets_line [of "''h Any A 9600 5 x''" MAXLINE "[]"] fgets_line [of "''A t - 9600 d''" MAXLINE "[]"]
  by (simp_all add: NEWLINE_def MAXLINE_def fgets_def)

lemma sample_sys_next:
  "sys_next (sysfile sample_files) 0 = Inr (Some (sample_system, 17))" "sys_next (sysfile sample_files) 17 = Inr None"
proof -
  have "sys_line (''h Any A 9600 5 x'' @ [NEWLINE]) = Entry sample_system"
    by (simp add: sys_line_def sample_eval sample_system_def)
  then show "sys_next (sysfile sample_files) 0 = Inr (Some (sample_system, 17))"
    using sample_fgets(1) by (simp add: sys_next.simps [of _ 0] sample_files_def)
  show "sys_next (sysfile sample_files) 17 = Inr None"
    using sample_fgets(3) by (simp add: sys_next.simps [of _ 17] sample_files_def)
qed

lemma sample_sys_entries:
  "sys_entries (sysfile sample_files) 0 = Inr [(sample_system, 17)]" "sys_entries (sysfile sample_files) 17 = Inr []"
  using sample_sys_next by (simp_all add: sys_entries.simps [of _ 0] sys_entries.simps [of _ 17])

lemma sample_dev_entries: "dev_entries (devfile sample_files) = Inr [sample_device]"
proof -
  have "dev_line (''A t - 9600 d'' @ [NEWLINE]) = Entry sample_device"
    by (simp add: dev_line_def sample_eval sample_device_def)
  then have "dev_next (devfile sample_files) = Inr (Some (sample_device, []))"
    using sample_fgets(2) by (subst dev_next.simps) (simp add: sample_files_def)
  moreover have "dev_next [] = Inr None" using sample_fgets(3) by (subst dev_next.simps) simp
  ultimately show ?thesis by (simp add: dev_entries.simps [of "devfile sample_files"] dev_entries.simps [of "[]"])
qed

theorem request_first_free_witness:
  "\<exists>ok s'. request sample_files (Some 7) 0 ((calld_start 3)\<lparr>clients := [sample_client]\<rparr>) = Inr (ok, s') \<and>
    request_outcome sample_files [sample_device] [(sample_system, 17)] 7 0 ((calld_start 3)\<lparr>clients := [sample_client]\<rparr>) ok s'"
proof (rule request_first_free)
  show "msgs_fit [sample_device] [(sample_system, 17)] (clients ((calld_start 3)\<lparr>clients := [sample_client]\<rparr>) ! 0)
      (locks ((calld_start 3)\<lparr>clients := [sample_client]\<rparr>))"
    by (simp add: msgs_fit_def sample_device_def sample_system_def sample_client_def calld_start_def lock_owners_def MAXSYSNAME_def)
qed (simp_all add: sample_sys_entries sample_dev_entries sample_client_def calld_start_def locks_ok_def fresh_pid_def lock_owners_def)

end
