(* ===== verification/Calld_Runs.thy ===== *)
theory Calld_Runs
  imports Calld_Request
begin

text \<open>Runs of the call server: one call, and two sequences of events after which its tables are wrong.\<close>

definition client_entry :: "int \<Rightarrow> nat \<Rightarrow> int \<Rightarrow> nat \<Rightarrow> int \<Rightarrow> nat \<Rightarrow> string \<Rightarrow> call_client" where
  "client_entry f u p cd ft fo h = \<lparr>fd = f, uid = u, pid = p, childdone = cd, sysftell = ft, foundone = fo, debug = False, par = NONE,
     speed = [], sysname = h\<rparr>"

text \<open>A server that listens on descriptor 3 and has one entry in use.\<close>

definition one_client :: "call_client \<Rightarrow> lock list \<Rightarrow> string \<Rightarrow> int set \<Rightarrow> int \<Rightarrow> bool \<Rightarrow> (int \<times> nat \<times> systems \<times> devices) list \<Rightarrow>
    (int \<times> message list) list \<Rightarrow> calld" where
  "one_client c lk m fds mx flag dl snt = \<lparr>clients = c # replicate 9 (client_entry (-1) 0 0 0 0 0 []), locks = lk, errmsg = m, allset = fds,
     listenfd = 3, maxfd = mx, maxi = 0, chld_flag = flag, dialing = dl, sent = snt\<rparr>"

lemma accept_first: "accept_call (client_entry (-1) 0 0 0 0 0 []) 4 100 (calld_start 3) = one_client (client_entry 4 100 0 0 0 0 []) [] [] {3, 4} 4 False [] []"
proof -
  have "client_add (client_entry (-1) 0 0 0 0 0 []) 4 100 [] = (0, client_entry 4 100 0 0 0 0 [] # replicate 9 (client_entry (-1) 0 0 0 0 0 []))"
    by (simp add: client_add_def client_alloc_def NALLOC_def client_entry_def numeral_eq_Suc)
  then show ?thesis by (simp add: accept_call_def calld_start_def one_client_def insert_commute)
qed

lemma call_h: "buf_args (cstr (''call h'' @ [NUL])) cli_args = Some (Inr \<lparr>o_debug = False, o_parity = NONE, o_speed = [], o_host = ''h''\<rparr>)"
proof -
  have "tokens ''call h'' = [''call'', ''h'']" by (simp add: tokens.simps strtok_def white_def SPACE_def NEWLINE_def)
  then show ?thesis by (simp add: cstr_def NUL_def buf_args_def MAXARGC_def white_def SPACE_def NEWLINE_def cli_args_def CL_CALL_def)
qed

lemma sample_dev_find: "dev_find sample_files sample_system = Inr (Inr sample_device)"
  by (simp add: dev_find_def dev_search_find [OF sample_dev_entries] fits_system_def sample_system_def sample_device_def)

lemma server_clients [simp]:
  "clients (one_client c lk m fds mx flag dl snt) ! 0 = c" "locks (one_client c lk m fds mx flag dl snt) = lk"
  "errmsg (one_client c lk m fds mx flag dl snt) = m" "maxi (one_client c lk m fds mx flag dl snt) = 0" "listenfd (one_client c lk m fds mx flag dl snt) = 3"
  "(one_client c lk m fds mx flag dl snt)\<lparr>errmsg := m'\<rparr> = one_client c lk m' fds mx flag dl snt"
  "(one_client c lk m fds mx flag dl snt)\<lparr>locks := lk'\<rparr> = one_client c lk' m fds mx flag dl snt"
  "(one_client c lk m fds mx flag dl snt)\<lparr>chld_flag := flag'\<rparr> = one_client c lk m fds mx flag' dl snt"
  "set_client 0 g (one_client c lk m fds mx flag dl snt) = one_client (g c) lk m fds mx flag dl snt"
  by (simp_all add: one_client_def set_client_def)

text \<open>A search from the beginning: the device is free, or locked.\<close>

lemma request_free:
  assumes "sysftell c = 0" "sysname c = ''h''" "speed c = []"
  shows "request sample_files (Some p) 0 (one_client c [] m fds mx flag dl snt) =
    Inr (True, one_client (c\<lparr>sysftell := 17, foundone := Suc (foundone c), pid := p\<rparr>) [\<lparr>line = ''t'', owner = p\<rparr>] [] fds mx flag
      (dl @ [(p, 0, sample_system, sample_device)]) snt)"
proof -
  have w: "wanted c sample_system" using assms by (simp add: wanted_def sample_system_def)
  have l: "is_locked (d_line sample_device) [] = (0, [\<lparr>line = ''t'', owner = 0\<rparr>])"
    by (simp add: is_locked_def find_line_def sample_device_def)
  show ?thesis
    using assms(1) w l by (simp add: request_def req_loop_unfold [of _ _ _ 0] sample_sys_next sample_dev_find found_def start_child_def
        lock_set_def find_line_def sample_device_def) (simp add: one_client_def)
qed

lemma request_busy:
  assumes "sysftell c = 0" "sysname c = ''h''" "speed c = []" "0 < p" "p < 10"
  shows "request sample_files child 0 (one_client c [\<lparr>line = ''t'', owner = p\<rparr>] m fds mx flag dl snt) =
    Inr (False, one_client (c\<lparr>foundone := Suc (foundone c), sysftell := -1\<rparr>) [\<lparr>line = ''t'', owner = p\<rparr>] (lock_msg sample_device p) fds mx flag dl snt)"
proof -
  have w: "wanted c sample_system" using assms by (simp add: wanted_def sample_system_def)
  have l: "is_locked (d_line sample_device) [\<lparr>line = ''t'', owner = p\<rparr>] = (p, [\<lparr>line = ''t'', owner = p\<rparr>])"
    by (simp add: is_locked_def find_line_def sample_device_def)
  have "length (dec_int p) \<le> 11" by (rule length_dec_int) (use assms(4,5) in simp)
  then have e: "err_text (lock_msg sample_device p) = Inr (lock_msg sample_device p)"
    by (intro err_text_fits) (simp add: lock_msg_def sample_device_def MAXLINE_def)
  have n: "lock_msg sample_device p \<noteq> []" by (simp add: lock_msg_def)
  show ?thesis
    using assms(1,4) w l e n by (simp add: request_def req_loop_unfold [of _ _ _ 0] req_loop_unfold [of _ _ _ 17] sample_sys_next sample_dev_find
        found_def give_up_def)
qed

lemma serve_first:
  assumes "listenfd (one_client c lk m fds mx flag dl snt) \<notin> rset" "0 \<le> fd c" "fd c \<in> rset"
  shows "call_round fs fork memory rset acc rd (one_client c lk m fds mx flag dl snt) = serve_call fs fork rd 0 (one_client c lk m fds mx flag dl snt)"
  using assms by (cases "serve_call fs fork rd 0 (one_client c lk m fds mx flag dl snt)") (simp_all add: call_round_def)

lemma cli_done_first:
  "0 \<le> fd c \<Longrightarrow> cli_done (fd c) (one_client c lk m fds mx flag dl snt) = Inr (one_client (c\<lparr>fd := -1\<rparr>) lk m (fds - {fd c}) mx flag dl snt)"
  by (simp add: cli_done_def client_del_def one_client_def)

definition ask_h :: "int \<Rightarrow> string option" where
  "ask_h f = Some (''call h'' @ [NUL])"

lemma serve_ask_h:
  "serve_call sample_files fork ask_h 0 (one_client (client_entry f u p cd ft fo h) lk m fds mx flag dl snt) =
    try_request sample_files (fork 0) 0 (one_client (client_entry f u p 0 0 0 ''h'') lk m fds mx flag dl snt)"
  using call_h by (simp add: serve_call_def ask_h_def set_request_def MAXSYSNAME_def MAXSPEEDSTR_def client_entry_def)

text \<open>The server after a client has connected and asked for the system: child 7 dials.\<close>

definition dialed :: calld where
  "dialed = one_client (client_entry 4 100 7 0 17 1 ''h'') [\<lparr>line = ''t'', owner = 7\<rparr>] [] {3, 4} 4 False [(7, 0, sample_system, sample_device)] []"

lemma round_asks:
  "call_round sample_files (\<lambda>_. Some 7) (client_entry (-1) 0 0 0 0 0 []) {4} None ask_h (one_client (client_entry 4 100 0 0 0 0 []) [] [] {3, 4} 4 False [] []) = Inr dialed"
proof -
  have "try_request sample_files (Some 7) 0 (one_client (client_entry 4 100 0 0 0 0 ''h'') [] [] {3, 4} 4 False [] []) = Inr dialed"
    using request_free [of "client_entry 4 100 0 0 0 0 ''h''" 7 "[]" "{3, 4}" 4 False "[]" "[]"]
    by (simp add: try_request_def client_entry_def dialed_def)
  then show ?thesis by (subst serve_first) (simp_all add: serve_ask_h, simp_all add: client_entry_def)
qed

lemma dialed_run: "call_run sample_files dialed"
proof (rule call_run.Call_round [OF _ round_asks])
  have "call_round sample_files (\<lambda>_. None) (client_entry (-1) 0 0 0 0 0 []) {3} (Some (4, 100)) (\<lambda>_. None) (calld_start 3) =
      Inr (one_client (client_entry 4 100 0 0 0 0 []) [] [] {3, 4} 4 False [] [])"
    by (simp add: call_round_def accept_first) (simp add: calld_start_def)
  from call_run.Call_round [OF call_run.Call_start this]
  show "call_run sample_files (one_client (client_entry 4 100 0 0 0 0 []) [] [] {3, 4} 4 False [] [])"
    by (simp add: calld_start_def fresh_forks_def)
  show "fresh_forks (\<lambda>_. Some 7) [0 ..< nat (maxi (one_client (client_entry 4 100 0 0 0 0 []) [] [] {3, 4} 4 False [] []) + 1)]
      (one_client (client_entry 4 100 0 0 0 0 []) [] [] {3, 4} 4 False [] [])"
    by (simp add: fresh_forks_def fresh_pid_def one_client_def client_entry_def lock_owners_def)
qed (simp_all add: asks_once_def lock_owners_def)



text \<open>The retry for a child that is not the client's.\<close>

definition gone_msg :: string where
  "gone_msg = ''unable to connect to system '' @ quoted ''h'' @ [NEWLINE]"

lemma retry_blames:
  "child_done sample_files (\<lambda>_. Some 8) (one_client (client_entry 5 200 7 2 17 1 ''h'') [\<lparr>line = ''t'', owner = 0\<rparr>] [] {3, 5} 5 True dl []) =
    Inr (one_client (client_entry (-1) 200 7 0 (-1) 1 ''h'') [\<lparr>line = ''t'', owner = 0\<rparr>] gone_msg {3} 5 False dl [(5, send_err (-1) gone_msg)])"
proof -
  define m where "m = gone_msg"
  define lk where "lk = [\<lparr>line = ''t'', owner = 0\<rparr>]"
  have rel: "lock_rel 7 lk = lk" by (simp add: lk_def lock_rel_def)
  have e: "{3, 5} - {5} = {3 :: int}" by auto
  have n: "m \<noteq> []" "err_text m = Inr m" by (simp_all add: m_def gone_msg_def quoted_def err_text_def MAXLINE_def)
  have "req_loop sample_files (Some 8) 0 17 (one_client (client_entry 5 200 7 0 17 1 ''h'') lk [] {3, 5} 5 False dl []) =
      Inr (False, one_client (client_entry 5 200 7 0 (-1) 1 ''h'') lk m {3, 5} 5 False dl [])"
    using n(2) by (simp add: req_loop_unfold [of _ _ _ 17] sample_sys_next give_up_def m_def gone_msg_def) (simp add: client_entry_def)
  then have "request sample_files (Some 8) 0 (one_client (client_entry 5 200 7 0 17 1 ''h'') lk [] {3, 5} 5 False dl []) =
      Inr (False, one_client (client_entry 5 200 7 0 (-1) 1 ''h'') lk m {3, 5} 5 False dl [])"
    by (simp add: request_def) (simp add: client_entry_def)
  then have "try_request sample_files (Some 8) 0 (one_client (client_entry 5 200 7 0 17 1 ''h'') lk [] {3, 5} 5 False dl []) =
      cli_done 5 (one_client (client_entry 5 200 7 0 (-1) 1 ''h'') lk m {3, 5} 5 False dl [(5, send_err (-1) m)])"
    by (simp add: try_request_def) (simp add: client_entry_def one_client_def)
  also have "\<dots> = Inr (one_client (client_entry (-1) 200 7 0 (-1) 1 ''h'') lk m {3} 5 False dl [(5, send_err (-1) m)])"
    using cli_done_first [of "client_entry 5 200 7 0 (-1) 1 ''h''"] e by (simp add: client_entry_def)
  finally show ?thesis using rel unfolding lk_def [symmetric] m_def [symmetric]
    by (simp add: child_done_def child_ended_def) (simp add: client_entry_def)
qed

text \<open>
  The failure of a child can hit the wrong client. A client whose child dials closes the connection, and
  the next client gets its entry of the table, in which only the descriptor and the user are set; when the
  child then fails, the server goes on with the first client's request for the new one, which has asked for
  nothing, and here sends it a message and closes its connection.
\<close>

lemma stale_child_blamed:
  "\<exists>s1 s2 s3 s4. call_round sample_files (\<lambda>_. None) (client_entry (-1) 0 0 0 0 0 []) {4} None (\<lambda>_. Some []) dialed = Inr s1 \<and>
    call_round sample_files (\<lambda>_. None) (client_entry (-1) 0 0 0 0 0 []) {3} (Some (5, 200)) (\<lambda>_. None) s1 = Inr s2 \<and> lfds (clients s2) = [5] \<and>
    sig_chld 7 (Some 1) s2 = Inr s3 \<and> child_done sample_files (\<lambda>_. Some 8) s3 = Inr s4 \<and>
    lfds (clients s4) = [] \<and> sent s4 = [(5, send_err (-1) (''unable to connect to system '' @ quoted ''h'' @ [NEWLINE]))]"
proof -
  define dl where "dl = [(7 :: int, 0 :: nat, sample_system, sample_device)]"
  define m where "m = gone_msg"
  define lk where "lk = [\<lparr>line = ''t'', owner = 0\<rparr>]"
  have e: "{3, 4} - {4} = {3 :: int}" by auto
  have "call_round sample_files (\<lambda>_. None) (client_entry (-1) 0 0 0 0 0 []) {4} None (\<lambda>_. Some []) dialed =
      serve_call sample_files (\<lambda>_. None) (\<lambda>_. Some []) 0 dialed"
    unfolding dialed_def by (rule serve_first) (simp_all add: client_entry_def)
  also have "\<dots> = cli_done 4 (one_client (client_entry 4 100 7 0 17 1 ''h'') lk [] {3, 4} 4 False dl [])"
    by (simp add: serve_call_def dialed_def lock_rel_def lk_def dl_def) (simp add: client_entry_def)
  also have "\<dots> = Inr (one_client (client_entry (-1) 100 7 0 17 1 ''h'') lk [] {3} 4 False dl [])"
    using cli_done_first [of "client_entry 4 100 7 0 17 1 ''h''"] e by (simp add: client_entry_def)
  finally have 1: "call_round sample_files (\<lambda>_. None) (client_entry (-1) 0 0 0 0 0 []) {4} None (\<lambda>_. Some []) dialed =
      Inr (one_client (client_entry (-1) 100 7 0 17 1 ''h'') lk [] {3} 4 False dl [])" .
  have 2: "call_round sample_files (\<lambda>_. None) (client_entry (-1) 0 0 0 0 0 []) {3} (Some (5, 200)) (\<lambda>_. None)
      (one_client (client_entry (-1) 100 7 0 17 1 ''h'') lk [] {3} 4 False dl []) = Inr (one_client (client_entry 5 200 7 0 17 1 ''h'') lk [] {3, 5} 5 False dl [])"
    by (simp add: call_round_def accept_call_def client_add_def client_entry_def one_client_def insert_commute)
  have 3: "sig_chld 7 (Some 1) (one_client (client_entry 5 200 7 0 17 1 ''h'') lk [] {3, 5} 5 False dl []) =
      Inr (one_client (client_entry 5 200 7 2 17 1 ''h'') lk [] {3, 5} 5 True dl [])"
    by (simp add: sig_chld_def client_sigchld_def) (simp add: one_client_def client_entry_def set_client_def)
  have "lfds (clients (one_client (client_entry 5 200 7 0 17 1 ''h'') lk [] {3, 5} 5 False dl [])) = [5]"
    "lfds (clients (one_client (client_entry (-1) 200 7 0 (-1) 1 ''h'') lk m {3} 5 False dl [(5, send_err (-1) m)])) = []"
    "sent (one_client (client_entry (-1) 200 7 0 (-1) 1 ''h'') lk m {3} 5 False dl [(5, send_err (-1) m)]) = [(5, send_err (-1) m)]"
    by (simp_all add: one_client_def client_entry_def)
  with 1 2 3 retry_blames [of dl, folded m_def lk_def] show ?thesis unfolding m_def gone_msg_def by blast
qed

end
