(* ===== verification/Calld_Dial.thy ===== *)
theory Calld_Dial
  imports Calld "HOL-Library.Sublist"
begin

text \<open>
  The child of the call server: opening the line (\<open>ttyopen.c\<close>), the dialogue with the modem (\<open>expectstr.c\<close>,
  \<open>sendstr.c\<close>, \<open>ttydial.c\<close>) and the end of the child (\<open>childdial.c\<close>). The line delivers a list of bytes and is
  silent then. Debugging output and pauses are left out.
\<close>

section \<open>Printable characters\<close>

definition ctl_str :: "char \<Rightarrow> string" where
  "ctl_str c =
     (let n = of_char c :: nat
      in if n = 0 then [CHR 0x5C, CHR ''0'']
         else if n < 32 then [CHR ''^'', char_of (n + 64)]
         else if n = 127 then ''DEL''
         else if 127 < n then [CHR 0x5C, digit (n div 64), digit (n div 8 mod 8), digit (n mod 8)]
         else [c])"

section \<open>Expecting\<close>

definition BACKSLASH :: char where "BACKSLASH = CHR 0x5C"
definition RETURN :: char where "RETURN = CHR 0x0D"

record tty =
  input :: string
  outp :: string
  msg :: string

text \<open>The expect string with its escape sequences replaced, or what is wrong with it.\<close>

datatype bad_escape = Dangling | Unknown char

fun exp_conv :: "string \<Rightarrow> bad_escape + string" where
  "exp_conv [] = Inr []"
| "exp_conv (c # s) =
     (if c = BACKSLASH
      then (case s of
              [] \<Rightarrow> Inl Dangling
            | d # s \<Rightarrow>
                if d = CHR ''r'' then map_sum id (Cons RETURN) (exp_conv s)
                else if d = CHR ''s'' then map_sum id (Cons SPACE) (exp_conv s)
                else Inl (Unknown d))
      else map_sum id (Cons c) (exp_conv s))"

text \<open>
  \<open>exp_read\<close> into the buffer. Its result -1 of a timeout is unsigned, so that the test for a negative result
  in \<open>expect_str\<close> never succeeds: a timeout leaves the byte as it is, and the caller goes on.
\<close>

definition exp_read :: "(nat \<Rightarrow> char) \<Rightarrow> nat \<Rightarrow> string \<Rightarrow> (nat \<Rightarrow> char) \<times> string" where
  "exp_read buf k inp = (case inp of [] \<Rightarrow> (buf, []) | c # inp \<Rightarrow> (buf(k := c), inp))"

primrec exp_fill :: "nat \<Rightarrow> nat \<Rightarrow> (nat \<Rightarrow> char) \<times> string \<Rightarrow> (nat \<Rightarrow> char) \<times> string" where
  "exp_fill 0 k bi = bi"
| "exp_fill (Suc n) k bi = exp_fill n (Suc k) (exp_read (fst bi) k (snd bi))"

text \<open>\<open>strncmp\<close> at an index of \<open>inbuf\<close>; it stops at the first difference.\<close>

definition cmp_at :: "(nat \<Rightarrow> char) \<Rightarrow> nat \<Rightarrow> string \<Rightarrow> fault + bool" where
  "cmp_at buf k e =
     (if k + length e \<le> MAXLINE then Inr (map buf [k ..< k + length e] = e)
      else if map buf [k ..< MAXLINE] = take (MAXLINE - k) e then Inl Overflow else Inr False)"

function exp_match :: "string \<Rightarrow> nat \<Rightarrow> (nat \<Rightarrow> char) \<Rightarrow> string \<Rightarrow> fault + string" where
  "exp_match e k buf inp =
     (case cmp_at buf k e of
        Inl x \<Rightarrow> Inl x
      | Inr True \<Rightarrow> Inr inp
      | Inr False \<Rightarrow>
          if inp \<noteq> [] \<and> MAXLINE \<le> k + length e then Inl Overflow
          else exp_match e (Suc k) (fst (exp_read buf (k + length e) inp)) (snd (exp_read buf (k + length e) inp)))"
  by pat_completeness auto
termination
proof (relation "measure (\<lambda>(e, k, buf, inp). MAXLINE - k)", goal_cases)
  case (2 e k buf inp b)
  then have c: "cmp_at buf k e = Inr False" by simp
  have "k < MAXLINE"
  proof (rule ccontr)
    assume "\<not> k < MAXLINE"
    then show False using c by (cases e) (auto simp: cmp_at_def split: if_split_asm)
  qed
  then show ?case by simp
qed auto

declare exp_match.simps [simp del]

text \<open>
  \<open>expect_str\<close>; \<open>mem\<close> has the contents of \<open>inbuf\<close> at the start. When the first character never comes, the first
  loop does not end. The result is false for an invalid expect string.
\<close>

definition expect_str :: "(nat \<Rightarrow> char) \<Rightarrow> string \<Rightarrow> tty \<Rightarrow> fault + bool \<times> tty" where
  "expect_str mem ptr s =
     (if ptr = [CHR 0x22, CHR 0x22] then Inr (True, s)
      else
        case exp_conv ptr of
          Inl Dangling \<Rightarrow>
            bindR (err_text (''invalid expect string: '' @ ptr @ [NEWLINE])) (\<lambda>m. Inr (False, s\<lparr>msg := m\<rparr>))
        | Inl (Unknown c) \<Rightarrow>
            bindR (err_text (''unknown expect escape char: '' @ [BACKSLASH] @ ctl_str c @ [NEWLINE])) (\<lambda>m. Inr (False, s\<lparr>msg := m\<rparr>))
        | Inr e \<Rightarrow>
            (case dropWhile (\<lambda>c. c \<noteq> hd (e @ [NUL])) (input s) of
               [] \<Rightarrow> Inl Hangs
             | c # inp \<Rightarrow>
                 let (buf, inp) = exp_fill (length e - 1) 1 (mem(0 := c), inp)
                 in bindR (exp_match e 0 buf inp) (\<lambda>inp. Inr (True, s\<lparr>input := inp\<rparr>))))"

section \<open>Sending\<close>

definition send_char :: "bool \<Rightarrow> char \<Rightarrow> tty \<Rightarrow> fault + tty" where
  "send_char echocheck c s =
     (let s = s\<lparr>outp := outp s @ [c]\<rparr>
      in if echocheck
         then (case dropWhile (\<lambda>t. t \<noteq> c) (input s) of [] \<Rightarrow> Inl Hangs | _ # inp \<Rightarrow> Inr (s\<lparr>input := inp\<rparr>))
         else Inr s)"

text \<open>\<open>fuel\<close> bounds the nesting of the calls for the phone number.\<close>

function send_str :: "nat \<Rightarrow> string \<Rightarrow> bool \<Rightarrow> string \<Rightarrow> tty \<Rightarrow> fault + bool \<times> tty" where
  "send_str fuel phone echocheck [] s = bindR (send_char False RETURN s) (\<lambda>s. Inr (True, s))"
| "send_str fuel phone echocheck (c # ptr) s =
     (if c = BACKSLASH
      then (case ptr of
              [] \<Rightarrow> Inr (False, s\<lparr>msg := ''backslash at end of send string'' @ [NEWLINE]\<rparr>)
            | d # ptr \<Rightarrow>
                if d = CHR ''c'' then (if ptr = [] then Inr (True, s) else send_str fuel phone echocheck ptr s)
                else if d = CHR ''d'' \<or> d = CHR ''p'' then send_str fuel phone echocheck ptr s
                else if d = CHR ''e'' then send_str fuel phone False ptr s
                else if d = CHR ''E'' then send_str fuel phone True ptr s
                else if d = CHR ''T''
                then (case fuel of
                        0 \<Rightarrow> Inl Hangs
                      | Suc fuel' \<Rightarrow>
                          (case send_str fuel' phone echocheck phone s of
                             Inl x \<Rightarrow> Inl x
                           | Inr (_, s) \<Rightarrow> send_str fuel phone echocheck ptr s))
                else if d = CHR ''r'' \<or> d = CHR ''s''
                then (case send_char echocheck (if d = CHR ''r'' then RETURN else SPACE) s of
                        Inl x \<Rightarrow> Inl x
                      | Inr s \<Rightarrow> send_str fuel phone echocheck ptr s)
                else bindR (err_text (''unknown send escape char: '' @ [BACKSLASH] @ ctl_str d @ [NEWLINE])) (\<lambda>m. Inr (False, s\<lparr>msg := m\<rparr>)))
      else case send_char echocheck c s of Inl x \<Rightarrow> Inl x | Inr s \<Rightarrow> send_str fuel phone echocheck ptr s)"
  by pat_completeness auto
termination
  by (relation "measures [\<lambda>(fuel, phone, e, ptr, s). fuel, \<lambda>(fuel, phone, e, ptr, s). length ptr]") auto

section \<open>The dialogue\<close>

fun chat :: "nat \<Rightarrow> (nat \<Rightarrow> char) \<Rightarrow> string \<Rightarrow> string list \<Rightarrow> tty \<Rightarrow> fault + bool \<times> tty" where
  "chat fuel mem phone [] s = Inl Segv"
| "chat fuel mem phone (w # ws) s =
     bindR (expect_str mem w s) (\<lambda>(ok, s).
       if \<not> ok then Inr (False, s)
       else case ws of
              [] \<Rightarrow> Inr (True, s)
            | v # vs \<Rightarrow>
                bindR (send_str fuel phone False v s) (\<lambda>(ok, s).
                  if \<not> ok then Inr (False, s) else if vs = [] then Inr (True, s) else chat fuel mem phone vs s))"

definition tty_dial :: "nat \<Rightarrow> (nat \<Rightarrow> char) \<Rightarrow> string \<Rightarrow> string \<Rightarrow> tty \<Rightarrow> fault + bool \<times> tty" where
  "tty_dial fuel mem phone expsend s = chat fuel mem phone (tokens expsend) s"

section \<open>The line\<close>

datatype cflag = CS8 | CS7 | PARENB | PARODD | CREAD | HUPCL | CLOCAL

record termios =
  c_cflag :: "cflag set"
  baud :: nat

definition baud_rate :: "string \<Rightarrow> nat option" where
  "baud_rate cls = map_of
     [(''38400'', 38400), (''19200'', 19200), (''9600'', 9600), (''4800'', 4800), (''2400'', 2400), (''1800'', 1800), (''1200'', 1200),
      (''600'', 600), (''300'', 300), (''200'', 200), (''150'', 150), (''134'', 134), (''110'', 110), (''75'', 75), (''50'', 50)] cls"

definition parity_flags :: "parity \<Rightarrow> cflag set" where
  "parity_flags p = (case p of NONE \<Rightarrow> {CS8} | EVEN \<Rightarrow> {CS7, PARENB} | ODD \<Rightarrow> {CS7, PARENB, PARODD})"

text \<open>The result is the descriptor and the settings, or the message. \<open>opn\<close> answers \<open>open\<close>, \<open>tt\<close> says whether it is a terminal.\<close>

definition tty_open :: "(string \<Rightarrow> string + int) \<Rightarrow> (int \<Rightarrow> bool) \<Rightarrow> string \<Rightarrow> string \<Rightarrow> parity \<Rightarrow> bool \<Rightarrow> fault + (string + int \<times> termios)" where
  "tty_open opn tt cls l p modem =
     (let devname = ''/dev/'' @ l
      in if 100 \<le> length devname then Inl Overflow
         else case opn devname of
                Inl strerror \<Rightarrow> bindR (err_text (''can'' @ [CHR 0x27] @ ''t open '' @ devname @ '': '' @ strerror @ [NEWLINE])) (\<lambda>m. Inr (Inl m))
              | Inr f \<Rightarrow>
                  if \<not> tt f then Inr (Inl (devname @ '' is not a tty'' @ [NEWLINE]))
                  else case baud_rate cls of
                         None \<Rightarrow> bindR (err_text (''invalid baud rate: '' @ cls @ [NEWLINE])) (\<lambda>m. Inr (Inl m))
                       | Some b \<Rightarrow>
                           Inr (Inr (f, \<lparr>c_cflag = parity_flags p \<union> {CREAD, HUPCL} \<union> (if modem then {} else {CLOCAL}), baud = b\<rparr>)))"

section \<open>The child\<close>

text \<open>The exit status and what is sent to the client: the descriptor of the line, or a message without an end mark.\<close>

definition child_dial ::
  "nat \<Rightarrow> (nat \<Rightarrow> char) \<Rightarrow> files \<Rightarrow> (string \<Rightarrow> string + int) \<Rightarrow> (int \<Rightarrow> bool) \<Rightarrow> parity \<Rightarrow> systems \<Rightarrow> devices \<Rightarrow> tty \<Rightarrow>
    fault + nat \<times> message list \<times> tty" where
  "child_dial fuel mem fs opn tt p sy dv s =
     (let die = (\<lambda>m s. Inr (1, [(m, None)], s))
      in if d_dialer dv = ''direct''
         then bindR (tty_open opn tt (s_class sy) (d_line dv) p False) (\<lambda>r.
                case r of Inl m \<Rightarrow> die m s | Inr (f, _) \<Rightarrow> Inr (0, [send_fd f], s))
         else bindR (dial_find fs dv) (\<lambda>r.
                case r of
                  Inl m \<Rightarrow> die m s
                | Inr dl \<Rightarrow>
                    bindR (tty_open opn tt (s_class sy) (d_line dv) p True) (\<lambda>r.
                      case r of
                        Inl m \<Rightarrow> die m s
                      | Inr (f, _) \<Rightarrow>
                          bindR (tty_dial fuel mem (s_phone sy) (dl_expsend dl) s) (\<lambda>(ok, s).
                            if ok then Inr (0, [send_fd f], s) else die (msg s) s))))"

end
