(* ===== verification/Dial_Spec.thy ===== *)
theory Dial_Spec
  imports Calld_Dial
begin

text \<open>Properties of the dialogue with a modem: what is expected and found, what is sent, and the missing timeout.\<close>

section \<open>The search for an expect string\<close>

text \<open>The buffer holds the beginning of the text read so far.\<close>

definition holds :: "(nat \<Rightarrow> char) \<Rightarrow> string \<Rightarrow> bool" where
  "holds buf w \<longleftrightarrow> (\<forall>i < length w. buf i = w ! i)"

lemma holds_slice: "holds buf w \<Longrightarrow> k + n \<le> length w \<Longrightarrow> map buf [k ..< k + n] = take n (drop k w)"
  by (intro nth_equalityI) (simp_all add: holds_def)

lemma exp_fill_reads:
  "holds buf w \<Longrightarrow> n \<le> length inp \<Longrightarrow>
    \<exists>buf'. exp_fill n (length w) (buf, inp) = (buf', drop n inp) \<and> holds buf' (w @ take n inp)"
proof (induction n arbitrary: buf w inp)
  case (Suc n)
  obtain c r where i: "inp = c # r" using Suc.prems(2) by (cases inp) auto
  have "holds (buf(length w := c)) (w @ [c])" using Suc.prems(1) by (auto simp: holds_def nth_append)
  with Suc.IH [of "buf(length w := c)" "w @ [c]" r] show ?case using Suc.prems(2) unfolding i exp_fill.simps exp_read_def fst_conv snd_conv list.case
    by (simp del: fun_upd_apply)
qed simp

text \<open>An occurrence of the string in the text.\<close>

definition occurs_at :: "string \<Rightarrow> string \<Rightarrow> nat \<Rightarrow> bool" where
  "occurs_at e t p \<longleftrightarrow> take (length e) (drop p t) = e"

lemma occurs_at_bound: "occurs_at e t p \<Longrightarrow> e \<noteq> [] \<Longrightarrow> p + length e \<le> length t"
proof -
  assume a: "occurs_at e t p" "e \<noteq> []"
  then have "length e \<le> length t - p" using arg_cong [of _ _ length, OF a(1) [unfolded occurs_at_def]] by simp
  moreover have "0 < length e" using a(2) by simp
  ultimately show "p + length e \<le> length t" by linarith
qed

lemma exp_match_finds:
  assumes "e \<noteq> []" "holds buf w" "length w = k + length e" "occurs_at e (w @ inp) p" "k \<le> p" "\<forall>j. k \<le> j \<and> j < p \<longrightarrow> \<not> occurs_at e (w @ inp) j"
    "p + length e \<le> MAXLINE"
  shows "exp_match e k buf inp = Inr (drop (p + length e) (w @ inp))"
  using assms
proof (induction "p - k" arbitrary: k buf w inp)
  case 0
  then have k: "p = k" by simp
  have "map buf [k ..< k + length e] = take (length e) (drop k w)" using holds_slice [OF 0(3)] 0(4) by simp
  also have "\<dots> = e" using 0(4,5) k by (simp add: occurs_at_def)
  finally have "cmp_at buf k e = Inr True" using 0(8) k by (simp add: cmp_at_def)
  then show ?case using 0(4) k by (simp add: exp_match.simps [of e k])
next
  case (Suc n)
  have kp: "k < p" using Suc(2) by simp
  have "map buf [k ..< k + length e] = take (length e) (drop k w)" using holds_slice [OF Suc(4)] Suc(5) by simp
  also have "take (length e) (drop k w) = take (length e) (drop k (w @ inp))" using Suc(5) by simp
  finally have "map buf [k ..< k + length e] \<noteq> e" using Suc(8) kp unfolding occurs_at_def by (metis order_refl)
  moreover have "k + length e \<le> MAXLINE" using Suc(9) kp by linarith
  ultimately have c: "cmp_at buf k e = Inr False" unfolding cmp_at_def by presburger
  have "p + length e \<le> length w + length inp" using occurs_at_bound [OF Suc(6,3)] by simp
  then obtain x r where i: "inp = x # r" using Suc(5) kp by (cases inp) auto
  have h: "holds (buf(length w := x)) (w @ [x])" using Suc(4) by (auto simp: holds_def nth_append)
  have o: "occurs_at e ((w @ [x]) @ r) p" "\<forall>j. Suc k \<le> j \<and> j < p \<longrightarrow> \<not> occurs_at e ((w @ [x]) @ r) j" using Suc(6,8) i by simp_all
  have l: "length (w @ [x]) = Suc k + length e" "n = p - Suc k" "Suc k \<le> p" using Suc(2,5) kp by simp_all
  have "exp_match e (Suc k) (buf(length w := x)) r = Inr (drop (p + length e) ((w @ [x]) @ r))"
    by (rule Suc(1) [OF l(2) Suc(3) h l(1) o(1) l(3) o(2) Suc(9)])
  moreover have "exp_read buf (k + length e) inp = (buf(length w := x), r)" using Suc(5) by (simp add: i exp_read_def)
  moreover have "\<not> MAXLINE \<le> k + length e" using Suc(9) kp by simp
  ultimately show ?case using c i by (simp add: exp_match.simps [of e k] del: fun_upd_apply)
qed

text \<open>
  C23. An expect string is found where it is: when the converted string occurs in what the modem sends, within
  the size of the buffer, \<open>expect_str\<close> succeeds and has read exactly up to the end of the first occurrence.
\<close>

theorem expect_finds_first:
  assumes "ptr \<noteq> [CHR 0x22, CHR 0x22]" "exp_conv ptr = Inr e" "e \<noteq> []" "input s = pre @ e @ post"
    "\<forall>j < length pre. \<not> occurs_at e (input s) j" "length pre + length e \<le> MAXLINE"
  shows "expect_str mem ptr s = Inr (True, s\<lparr>input := post\<rparr>)"
proof -
  obtain c es where e: "e = c # es" using assms(3) by (cases e) auto
  define pre1 where "pre1 = takeWhile (\<lambda>x. x \<noteq> c) pre"
  define t where "t = dropWhile (\<lambda>x. x \<noteq> c) (input s)"
  have p: "pre = pre1 @ dropWhile (\<lambda>x. x \<noteq> c) pre" by (simp add: pre1_def)
  define pre2 where "pre2 = dropWhile (\<lambda>x. x \<noteq> c) pre"
  have t: "t = pre2 @ e @ post"
  proof (cases "c \<in> set pre")
    case True
    then show ?thesis using assms(4) by (auto simp: t_def pre2_def dropWhile_append)
  next
    case False
    then have "dropWhile (\<lambda>x. x \<noteq> c) pre = []" by auto
    moreover have "dropWhile (\<lambda>x. x \<noteq> c) (pre @ e @ post) = e @ post" using False e by (auto simp: dropWhile_append)
    ultimately show ?thesis using assms(4) by (simp add: t_def pre2_def)
  qed
  then have tn: "t \<noteq> []" "length e \<le> length t" using e by simp_all
  then obtain r where r: "t = c # r" using hd_dropWhile [of "\<lambda>x. x \<noteq> c" "input s"] unfolding t_def by (cases "dropWhile (\<lambda>x. x \<noteq> c) (input s)") auto
  have inp: "input s = pre1 @ t" using assms(4) t p by (simp add: pre2_def)
  have "holds (mem(0 := c)) [c]" by (simp add: holds_def)
  then obtain buf where
    f: "exp_fill (length e - 1) 1 (mem(0 := c), r) = (buf, drop (length e - 1) r)" "holds buf ([c] @ take (length e - 1) r)"
  proof -
    have "length e - 1 \<le> length r" using tn(2) r by simp
    from exp_fill_reads [OF \<open>holds (mem(0 := c)) [c]\<close> this] show thesis using that by auto
  qed
  define w where "w = [c] @ take (length e - 1) r"
  have w: "w @ drop (length e - 1) r = t" "length w = 0 + length e" using tn(2) r e by (simp_all add: w_def)
  have o: "occurs_at e t (length pre2)" by (simp add: occurs_at_def t)
  have n: "\<forall>j. 0 \<le> j \<and> j < length pre2 \<longrightarrow> \<not> occurs_at e t j"
  proof (intro allI impI)
    fix j assume "0 \<le> j \<and> j < length pre2"
    then have "length pre1 + j < length pre" using p by (metis length_append nat_add_left_cancel_less pre2_def)
    moreover have "occurs_at e (input s) (length pre1 + j) = occurs_at e t j" by (simp add: occurs_at_def inp)
    ultimately show "\<not> occurs_at e t j" using assms(5) by blast
  qed
  have "length pre2 + length e \<le> MAXLINE" using assms(6) p by (metis add_le_mono1 le_add2 length_append order_trans pre2_def)
  with exp_match_finds [OF assms(3) f(2) [folded w_def] w(2), of "drop (length e - 1) r" "length pre2", unfolded w(1)] o n
  have "exp_match e 0 buf (drop (length e - 1) r) = Inr (drop (length pre2 + length e) t)" by blast
  also have "drop (length pre2 + length e) t = post" by (simp add: t)
  finally show ?thesis using assms(1,2) r f(1) e by (simp add: expect_str_def t_def)
qed

theorem expect_finds_first_witness:
  "expect_str (\<lambda>_. NUL) ''ok'' \<lparr>input = ''aook!'', outp = [], msg = []\<rparr> = Inr (True, \<lparr>input = ''!'', outp = [], msg = []\<rparr>)"
proof -
  have "expect_str (\<lambda>_. NUL) ''ok'' \<lparr>input = ''aook!'', outp = [], msg = []\<rparr> =
      Inr (True, \<lparr>input = ''aook!'', outp = [], msg = []\<rparr>\<lparr>input := ''!''\<rparr>)"
  proof (rule expect_finds_first [of _ "''ok''" _ "''ao''"])
    show "exp_conv ''ok'' = Inr ''ok''" by (simp add: BACKSLASH_def)
    show "\<forall>j < length ''ao''. \<not> occurs_at ''ok'' (input \<lparr>input = ''aook!'', outp = [], msg = []\<rparr>) j"
      by (auto simp: occurs_at_def less_Suc_eq numeral_2_eq_2)
  qed (simp_all add: MAXLINE_def)
  then show ?thesis by simp
qed

text \<open>
  The timeout of 45 seconds has no effect: with a valid expect string \<open>expect_str\<close> never reports that it
  has not got it, whatever arrives, and when the first character does not arrive it never returns. The
  function that reads a byte returns -1 as an unsigned number, which is not negative.
\<close>

lemma expect_never_times_out:
  assumes "exp_conv ptr = Inr e"
  shows "expect_str mem ptr s \<noteq> Inr (False, s') \<and>
    (ptr \<noteq> [CHR 0x22, CHR 0x22] \<and> e \<noteq> [] \<and> hd e \<notin> set (input s) \<longrightarrow> expect_str mem ptr s = Inl Hangs)"
proof
  show "expect_str mem ptr s \<noteq> Inr (False, s')"
    using assms by (auto simp: expect_str_def bindR_eq_Inr split: list.split_asm if_split_asm prod.split_asm)
  show "ptr \<noteq> [CHR 0x22, CHR 0x22] \<and> e \<noteq> [] \<and> hd e \<notin> set (input s) \<longrightarrow> expect_str mem ptr s = Inl Hangs"
  proof
    assume a: "ptr \<noteq> [CHR 0x22, CHR 0x22] \<and> e \<noteq> [] \<and> hd e \<notin> set (input s)"
    then have d: "dropWhile (\<lambda>c. c \<noteq> hd (e @ [NUL])) (input s) = []" by auto
    show "expect_str mem ptr s = Inl Hangs" using a unfolding expect_str_def assms sum.case d list.case by simp
  qed
qed

lemma expect_never_times_out_example:
  "expect_str (\<lambda>_. NUL) ''ok'' \<lparr>input = ''BUSY'', outp = [], msg = []\<rparr> = Inl Hangs"
proof -
  have "exp_conv ''ok'' = Inr ''ok''" by (simp add: BACKSLASH_def)
  from expect_never_times_out [OF this, of "\<lambda>_. NUL" "\<lparr>input = ''BUSY'', outp = [], msg = []\<rparr>" undefined] show ?thesis by simp
qed

section \<open>What is sent\<close>

lemma send_plain:
  "BACKSLASH \<notin> set ptr \<Longrightarrow> send_str fuel phone False (ptr @ rest) s = send_str fuel phone False rest (s\<lparr>outp := outp s @ ptr\<rparr>)"
  by (induction ptr arbitrary: s) (auto simp: send_char_def)

lemma send_text: "BACKSLASH \<notin> set ptr \<Longrightarrow> send_str fuel phone False ptr s = Inr (True, s\<lparr>outp := outp s @ ptr @ [RETURN]\<rparr>)"
  using send_plain [of ptr fuel phone "[]" s] by (simp add: send_char_def)

text \<open>The phone number is sent with a carriage return of its own, wherever it stands.\<close>

lemma send_phone:
  assumes "BACKSLASH \<notin> set v" "BACKSLASH \<notin> set phone"
  shows "send_str (Suc fuel) phone False (v @ [BACKSLASH, CHR ''T'']) s = Inr (True, s\<lparr>outp := outp s @ v @ phone @ [RETURN, RETURN]\<rparr>)"
  using send_plain [OF assms(1), of "Suc fuel" phone "[BACKSLASH, CHR ''T'']" s] send_text [OF assms(2)] by (simp add: send_char_def)

text \<open>A phone number that refers to itself is never sent.\<close>

lemma send_phone_loops: "send_str fuel [BACKSLASH, CHR ''T''] e [BACKSLASH, CHR ''T''] s = Inl Hangs"
  by (induction fuel) simp_all

text \<open>
  C12. A modem is dialled: when the device can be opened and the dialer's dialogue is to send a text with the
  phone number and to expect an answer, and the modem gives that answer, the child writes the text, the number
  and its carriage returns to the line, reads up to the end of the answer, sends the descriptor of the line to
  the client and ends with status 0.
\<close>

theorem modem_dialled:
  assumes "d_dialer dv \<noteq> ''direct''" "dial_find fs dv = Inr (Inr dl)" "tokens (dl_expsend dl) = [[CHR 0x22, CHR 0x22], v @ [BACKSLASH, CHR ''T''], w]"
    "length (d_line dv) < 95" "opn (''/dev/'' @ d_line dv) = Inr f" "tt f" "baud_rate (s_class sy) = Some b"
    "BACKSLASH \<notin> set v" "BACKSLASH \<notin> set (s_phone sy)" "w \<noteq> [CHR 0x22, CHR 0x22]" "exp_conv w = Inr e" "e \<noteq> []"
    "input s = pre @ e @ post" "\<forall>j < length pre. \<not> occurs_at e (input s) j" "length pre + length e \<le> MAXLINE"
  shows "child_dial (Suc fuel) mem fs opn tt p sy dv s =
    Inr (0, [send_fd f], s\<lparr>input := post, outp := outp s @ v @ s_phone sy @ [RETURN, RETURN]\<rparr>)"
proof -
  let ?s = "s\<lparr>outp := outp s @ v @ s_phone sy @ [RETURN, RETURN]\<rparr>"
  have "expect_str mem w ?s = Inr (True, ?s\<lparr>input := post\<rparr>)"
    by (rule expect_finds_first [OF assms(10-12), of _ pre]) (use assms(13-15) in simp_all)
  moreover have "expect_str mem [CHR 0x22, CHR 0x22] s = Inr (True, s)" by (simp add: expect_str_def)
  ultimately have "tty_dial (Suc fuel) mem (s_phone sy) (dl_expsend dl) s = Inr (True, ?s\<lparr>input := post\<rparr>)"
    using send_phone [OF assms(8,9), of fuel s] unfolding tty_dial_def assms(3) by simp
  moreover obtain t where "tty_open opn tt (s_class sy) (d_line dv) p True = Inr (Inr (f, t))"
    using assms(4-7) by (simp add: tty_open_def)
  ultimately show ?thesis using assms(1,2) by (simp add: child_dial_def)
qed

definition modem_files :: files where
  "modem_files = \<lparr>sysfile = [], devfile = [],
     dialfile = ''d x '' @ [CHR 0x22, CHR 0x22] @ '' D'' @ [BACKSLASH, CHR ''T''] @ '' ok'' @ [NEWLINE]\<rparr>"

definition modem_dialer :: dialers where
  "modem_dialer = \<lparr>dl_dialer = ''d'', dl_sub = ''x'', dl_expsend = [CHR 0x22, CHR 0x22] @ '' D'' @ [BACKSLASH, CHR ''T''] @ '' ok''\<rparr>"

definition modem_system :: systems where
  "modem_system = \<lparr>s_name = ''h'', s_time = ''Any'', s_type = ''A'', s_class = ''9600'', s_phone = ''5'', s_login = ''x''\<rparr>"

definition modem_device :: devices where
  "modem_device = \<lparr>d_type = ''A'', d_line = ''t'', d_line2 = ''-'', d_class = ''9600'', d_dialer = ''d''\<rparr>"

lemmas text_eval = strtok_def Let_def white_def newline_def SPACE_def NEWLINE_def NUL_def BACKSLASH_def cstr_def first_field_def field_def

lemma modem_dial_find: "dial_find modem_files modem_device = Inr (Inr modem_dialer)"
proof -
  let ?l = "''d x '' @ [CHR 0x22, CHR 0x22] @ '' D'' @ [BACKSLASH, CHR ''T''] @ '' ok''"
  have "dial_line (?l @ [NEWLINE]) = Entry modem_dialer" by (simp add: dial_line_def modem_dialer_def text_eval)
  moreover have "fgets MAXLINE (?l @ NEWLINE # []) = Some (?l @ [NEWLINE], [])"
    by (rule fgets_line) (simp_all add: NEWLINE_def BACKSLASH_def MAXLINE_def)
  ultimately have "dial_search ''d'' None (?l @ [NEWLINE]) = Inr (Inr modem_dialer)"
    by (subst dial_search.simps) (simp add: modem_dialer_def)
  then show ?thesis by (simp add: dial_find_def modem_device_def modem_files_def)
qed

theorem modem_dialled_witness:
  "child_dial 1 (\<lambda>_. NUL) modem_files (\<lambda>_. Inr 6) (\<lambda>_. True) NONE modem_system modem_device \<lparr>input = ''aook!'', outp = [], msg = []\<rparr> =
    Inr (0, [send_fd 6], \<lparr>input = ''!'', outp = ''D5'' @ [RETURN, RETURN], msg = []\<rparr>)"
proof -
  have "child_dial (Suc 0) (\<lambda>_. NUL) modem_files (\<lambda>_. Inr 6) (\<lambda>_. True) NONE modem_system modem_device \<lparr>input = ''aook!'', outp = [], msg = []\<rparr> =
    Inr (0, [send_fd 6], \<lparr>input = ''aook!'', outp = [], msg = []\<rparr>\<lparr>input := ''!'', outp := outp \<lparr>input = ''aook!'', outp = [], msg = []\<rparr> @ ''D'' @
      s_phone modem_system @ [RETURN, RETURN]\<rparr>)"
  proof (rule modem_dialled [where v = "''D''" and w = "''ok''" and b = 9600 and e = "''ok''" and pre = "''ao''" and post = "''!''", OF _ modem_dial_find])
    show "tokens (dl_expsend modem_dialer) = [[CHR 0x22, CHR 0x22], ''D'' @ [BACKSLASH, CHR ''T''], ''ok'']"
      by (simp add: modem_dialer_def tokens.simps text_eval)
    show "\<forall>j < length ''ao''. \<not> occurs_at ''ok'' (input \<lparr>input = ''aook!'', outp = [], msg = []\<rparr>) j"
      by (auto simp: occurs_at_def less_Suc_eq numeral_2_eq_2)
  qed (simp_all add: modem_device_def modem_system_def baud_rate_def MAXLINE_def BACKSLASH_def)
  then show ?thesis by (simp add: modem_system_def)
qed

end
