(* ===== verification/Call.thy ===== *)
theory Call
  imports Calld
begin

text \<open>
  The program \<open>call\<close>, which asks the call server for a connection (\<open>call/main.c\<close>, \<open>call/call.c\<close>) and then passes
  characters between the terminal and the remote system (\<open>call/loop.poll.c\<close>, \<open>call/escape.c\<close>), with the
  commands that copy files (\<open>call/take.c\<close>, \<open>call/put.c\<close>, \<open>call/takeput.c\<close>). What the terminal and the line
  deliver are the answers of the reads to come, without what \<open>put\<close> discards from the line; settings of the
  terminal, pauses, prompts, messages and the counter of lines are left out, and writing succeeds unless a
  parameter says otherwise.
\<close>

section \<open>The request\<close>

definition option_text :: "char \<Rightarrow> string \<Rightarrow> string" where
  "option_text c optarg = (if c = CHR ''s'' then ''-s '' @ optarg @ [SPACE] else [CHR ''-'', c, SPACE])"

text \<open>The options are appended to a buffer of \<open>MAXLINE\<close> bytes; an unknown one ends the program.\<close>

fun add_options :: "(char \<times> string) list \<Rightarrow> string \<Rightarrow> fault + string" where
  "add_options [] args = Inr args"
| "add_options ((c, optarg) # os) args =
     (if c = CHR ''?'' then Inl (Log_exit ''unrecognized option'')
      else bindR (err_text (args @ option_text c optarg)) (add_options os))"

definition call_args :: "string list \<Rightarrow> fault + string" where
  "call_args argv =
     (let (os, ops) = getopt call_flag call_arg [] argv
      in bindR (add_options os []) (\<lambda>args.
         if ops = [] then Inl (Log_exit ''missing <hostname> to call'') else err_text (args @ hd ops)))"

definition call_request :: "string \<Rightarrow> string" where
  "call_request args = CL_CALL @ [SPACE] @ args @ [NUL]"

section \<open>Copying files\<close>

text \<open>The bytes left of the last read, and the answers of the reads to come.\<close>

type_synonym remote = "string \<times> string list"

definition seven :: "char \<Rightarrow> char" where
  "seven c = char_of (of_char c mod 128 :: nat)"

definition rem_read :: "remote \<Rightarrow> char \<times> remote" where
  "rem_read r =
     (case fst r of
        c # b \<Rightarrow> (seven c, (b, snd r))
      | [] \<Rightarrow> (case snd r of
                 [] \<Rightarrow> (NUL, ([], []))
               | [] # rs \<Rightarrow> (NUL, ([], rs))
               | (c # b) # rs \<Rightarrow> (seven c, (b, rs))))"

definition rem_size :: "remote \<Rightarrow> nat" where
  "rem_size r = length (fst r) + sum_list (map length (snd r))"

lemma rem_read_size: "rem_read r = (c, r') \<Longrightarrow> c \<noteq> NUL \<Longrightarrow> rem_size r' < rem_size r"
  by (cases r) (auto simp: rem_read_def rem_size_def split: list.split_asm)

definition CTRLA :: char where "CTRLA = CHR 0x01"
definition CR :: char where "CR = CHR 0x0D"

text \<open>The echo of the command, up to the end of its line; \<open>None\<close> when the line has dropped.\<close>

function take_echo :: "remote \<Rightarrow> remote option" where
  "take_echo r =
     (let (c, r') = rem_read r
      in if c = NUL then None else if c = NEWLINE then Some r' else take_echo r')"
  by pat_completeness auto
termination
  by (relation "measure rem_size") (auto dest: rem_read_size [OF sym])

function take_file :: "remote \<Rightarrow> string \<Rightarrow> string \<times> remote" where
  "take_file r out =
     (let (c, r') = rem_read r
      in if c = NUL \<or> c = CTRLA then (out, r')
         else if c = CR then take_file r' out
         else take_file r' (out @ [c]))"
  by pat_completeness auto
termination
  by (relation "measure (\<lambda>(r, out). rem_size r)") (auto dest: rem_read_size [OF sym])

declare take_echo.simps [simp del] take_file.simps [simp del]

definition take_put_args :: "string list \<Rightarrow> (string \<times> string) option" where
  "take_put_args argv =
     (if length argv = 1 then Some (argv ! 0, argv ! 0)
      else if length argv = 2 then Some (argv ! 0, argv ! 1)
      else None)"

text \<open>A line of the terminal, cut to the size of the buffer, and what is left of the terminal's input.\<close>

definition prompt_read :: "string \<Rightarrow> (string \<times> string) option \<times> string" where
  "prompt_read inp =
     (let l = takeWhile (\<lambda>c. c \<noteq> NEWLINE) inp
      in ((case buf_args (cstr (take (MAXLINE - 2) l)) take_put_args of Some r \<Rightarrow> r | None \<Rightarrow> None), drop (length l + 1) inp))"

text \<open>
  The program's state: the input of the terminal, what the line delivers, what was written to the line
  and to the terminal, the local files, and whether the next character begins a line. That flag is not
  initialised by the program.
\<close>

record call_state =
  keys :: string
  remote :: remote
  to_remote :: string
  screen :: string
  files :: "string \<Rightarrow> string option"
  bol :: bool

definition take_cmd :: "string \<Rightarrow> string" where
  "take_cmd src = ''cat '' @ src @ ''; echo '' @ [CTRLA, CR]"

definition put_cmd :: "string \<Rightarrow> string" where
  "put_cmd dst = ''stty -echo; cat >'' @ dst @ ''; stty echo'' @ [CR]"

text \<open>\<open>take\<close>: \<open>wr\<close> says which files can be opened for writing; opening empties the file.\<close>

definition take_remote :: "(string \<Rightarrow> bool) \<Rightarrow> call_state \<Rightarrow> fault + call_state" where
  "take_remote wr s =
     (case prompt_read (keys s) of
        (None, k) \<Rightarrow> Inr (s\<lparr>keys := k\<rparr>)
      | (Some (src, dst), k) \<Rightarrow>
          if \<not> wr dst then Inr (s\<lparr>keys := k\<rparr>)
          else
            bindR (err_text (take_cmd src)) (\<lambda>cmd.
              let s = s\<lparr>keys := k, files := (files s)(dst \<mapsto> []), to_remote := to_remote s @ cmd\<rparr>
              in case take_echo ([], snd (remote s)) of
                   None \<Rightarrow> Inr (s\<lparr>remote := ([], [])\<rparr>)
                 | Some r \<Rightarrow>
                     (let (out, r) = take_file r []
                      in Inr (s\<lparr>remote := r, files := (files s)(dst \<mapsto> out), to_remote := to_remote s @ [NEWLINE]\<rparr>))))"

text \<open>\<open>put\<close>: \<open>room\<close> is the number of bytes of the file the line takes before it drops, \<open>veof\<close> the end character.\<close>

definition put_remote :: "nat \<Rightarrow> char \<Rightarrow> call_state \<Rightarrow> fault + call_state" where
  "put_remote room veof s =
     (case prompt_read (keys s) of
        (None, k) \<Rightarrow> Inr (s\<lparr>keys := k\<rparr>)
      | (Some (src, dst), k) \<Rightarrow>
          (case files s src of
             None \<Rightarrow> Inr (s\<lparr>keys := k\<rparr>)
           | Some text \<Rightarrow>
               bindR (err_text (put_cmd dst)) (\<lambda>cmd.
                 Inr (s\<lparr>keys := k, to_remote := to_remote s @ cmd @ take room text @ [veof, NEWLINE]\<rparr>))))"

section \<open>The terminal\<close>

definition escapec :: char where "escapec = CHR 0x7E"

datatype escape = Terminate | Processed | Plain char

text \<open>
  The character behind the escape character; \<open>susp\<close> is the one that suspends the program. The character is
  returned as a signed number: one above 127 ends the program like the code -1.
\<close>

definition doescape :: "(string \<Rightarrow> bool) \<Rightarrow> nat \<Rightarrow> char \<Rightarrow> char \<Rightarrow> call_state \<Rightarrow> fault + escape \<times> call_state" where
  "doescape wr room veof susp s =
     (case keys s of
        [] \<Rightarrow> Inl (Log_exit ''read error from stdin'')
      | c # k \<Rightarrow>
          let s = s\<lparr>keys := k\<rparr>
          in if c = escapec then Inr (Plain escapec, s)
             else if c = CHR ''.'' then Inr (Terminate, s\<lparr>screen := screen s @ ''~.'' @ [NEWLINE, CR]\<rparr>)
             else if c = susp \<or> c = CHR ''#'' then Inr (Processed, s)
             else if c = CHR ''t'' then bindR (take_remote wr s) (\<lambda>s. Inr (Processed, s))
             else if c = CHR ''p'' then bindR (put_remote room veof s) (\<lambda>s. Inr (Processed, s))
             else if c = NUL then Inr (Processed, s)
             else if 128 \<le> (of_char c :: nat) then Inr (Terminate, s)
             else Inr (Plain c, s))"

definition send_key :: "char \<Rightarrow> call_state \<Rightarrow> call_state" where
  "send_key c s = s\<lparr>bol := (c = CR \<or> c = NEWLINE), to_remote := to_remote s @ [c]\<rparr>"

text \<open>What \<open>poll\<close> reports about the terminal and the line: data, hangup.\<close>

record events =
  key_in :: bool
  key_hup :: bool
  rem_in :: bool
  rem_hup :: bool

datatype verdict = Go_on | Continue | Done

definition key_step :: "(string \<Rightarrow> bool) \<Rightarrow> nat \<Rightarrow> char \<Rightarrow> char \<Rightarrow> call_state \<Rightarrow> fault + verdict \<times> call_state" where
  "key_step wr room veof susp s =
     (case keys s of
        [] \<Rightarrow> Inl (Log_exit ''read error from stdin'')
      | c # k \<Rightarrow>
          let s = s\<lparr>keys := k\<rparr>
          in if c = escapec \<and> bol s
             then bindR (doescape wr room veof susp s) (\<lambda>(e, s).
                    case e of
                      Terminate \<Rightarrow> Inr (Done, s)
                    | Processed \<Rightarrow> Inr (Continue, s)
                    | Plain c \<Rightarrow> Inr (Go_on, send_key c s))
             else Inr (Go_on, send_key c s))"

definition remote_step :: "call_state \<Rightarrow> verdict \<times> call_state" where
  "remote_step s =
     (case snd (remote s) of
        [] \<Rightarrow> (Done, s)
      | b # rs \<Rightarrow> if b = [] then (Done, s\<lparr>remote := (fst (remote s), rs)\<rparr>)
                 else (Go_on, s\<lparr>remote := (fst (remote s), rs), screen := screen s @ b\<rparr>))"

fun call_loop :: "(string \<Rightarrow> bool) \<Rightarrow> nat \<Rightarrow> char \<Rightarrow> char \<Rightarrow> events list \<Rightarrow> call_state \<Rightarrow> fault + verdict \<times> call_state" where
  "call_loop wr room veof susp [] s = Inr (Go_on, s)"
| "call_loop wr room veof susp (ev # evs) s =
     bindR (if key_in ev then key_step wr room veof susp s else Inr (Go_on, s)) (\<lambda>(v, s).
       case v of
         Done \<Rightarrow> Inr (Done, s)
       | Continue \<Rightarrow> call_loop wr room veof susp evs s
       | Go_on \<Rightarrow>
           if key_hup ev then Inr (Done, s)
           else
             let (v, s) = (if rem_in ev then remote_step s else (Go_on, s))
             in if v = Done \<or> rem_hup ev then Inr (Done, s) else call_loop wr room veof susp evs s)"

end
