(* ===== verification/Call_Spec.thy ===== *)
theory Call_Spec
  imports Call
begin

text \<open>Properties of the program \<open>call\<close>: its options reach the server, text reaches the remote system, and files arrive.\<close>

section \<open>Options\<close>

definition plain_word :: "string \<Rightarrow> bool" where
  "plain_word w \<longleftrightarrow> w \<noteq> [] \<and> (\<forall>c \<in> set w. \<not> white c \<and> c \<noteq> NUL)"

definition option_words :: "char \<times> string \<Rightarrow> string list" where
  "option_words o' = (if fst o' = CHR ''s'' then [''-s'', snd o'] else [[CHR ''-'', fst o']])"

definition known_option :: "char \<times> string \<Rightarrow> bool" where
  "known_option o' \<longleftrightarrow> (call_flag (fst o') \<and> snd o' = []) \<or> (fst o' = CHR ''s'' \<and> plain_word (snd o'))"

lemma tokens_words:
  assumes "\<forall>w \<in> set ws. plain_word w"
  shows "tokens (concat (map (\<lambda>w. w @ [SPACE]) ws) @ rest) = ws @ tokens rest"
  using assms
proof (induction ws)
  case (Cons w ws)
  then have "w \<noteq> []" "\<forall>c \<in> set w. \<not> white c" by (auto simp: plain_word_def)
  from tokens_word(2) [OF this white_facts(1)] show ?case using Cons by simp
qed simp

lemma option_text_words: "known_option o' \<Longrightarrow> option_text (fst o') (snd o') = concat (map (\<lambda>w. w @ [SPACE]) (option_words o'))"
  by (simp add: option_text_def option_words_def SPACE_def)

lemma option_words_plain: "known_option o' \<Longrightarrow> \<forall>w \<in> set (option_words o'). plain_word w"
  by (auto simp: known_option_def option_words_def plain_word_def call_flag_def white_def SPACE_def NEWLINE_def NUL_def)

lemma getopt_words:
  assumes "\<forall>o' \<in> set os. known_option o'" "hd host \<noteq> CHR ''-''"
  shows "getopt call_flag call_arg [] (concat (map option_words os) @ [host]) = (os, [host])"
  using assms(1)
proof (induction os)
  case Nil
  then show ?case using assms(2) getopt_operand [of host] by simp
next
  case (Cons o' os)
  then show ?case
    by (cases o') (auto simp: known_option_def option_words_def call_flag_def call_arg_def)
qed

lemma add_options_text:
  "\<forall>o' \<in> set os. known_option o' \<Longrightarrow> add_options os args = Inr a \<Longrightarrow>
    a = args @ concat (map (\<lambda>w. w @ [SPACE]) (concat (map option_words os)))"
proof (induction os arbitrary: args)
  case (Cons o' os)
  obtain c oa where o: "o' = (c, oa)" by (cases o')
  have "c \<noteq> CHR ''?''" using Cons.prems(1) o by (auto simp: known_option_def call_flag_def)
  then have "add_options os (args @ option_text c oa) = Inr a"
    using Cons.prems(2) o by (auto simp: bindR_eq_Inr err_text_def split: if_split_asm)
  then have "a = (args @ option_text c oa) @ concat (map (\<lambda>w. w @ [SPACE]) (concat (map option_words os)))"
    using Cons.IH Cons.prems(1) by (metis list.set_intros(2))
  then show ?case using option_text_words [of o'] Cons.prems(1) o by simp
qed simp

text \<open>
  C24. The options of the command reach the server: the request \<open>call\<close> builds from its command line is
  parsed by the server to the same options, in the same order, and to the same host. Words have no white
  space, the host does not begin with a dash, and there are fewer than 49 words.
\<close>

theorem call_options_round_trip:
  assumes "getopt call_flag call_arg [] argv = (os, host # ops)" "\<forall>o' \<in> set os. known_option o'" "plain_word host" "hd host \<noteq> CHR ''-''"
    "call_args argv = Inr args" "length (concat (map option_words os)) < MAXARGC - 2"
    "set_options os \<lparr>o_debug = False, o_parity = NONE, o_speed = [], o_host = []\<rparr> = Inr p"
  shows "buf_args (cstr (call_request args)) cli_args = Some (Inr (p\<lparr>o_host := host\<rparr>))"
proof -
  let ?ws = "concat (map option_words os)"
  let ?t = "CL_CALL @ [SPACE] @ args"
  obtain a where a: "add_options os [] = Inr a" "err_text (a @ host) = Inr args"
    using assms(1,5) by (auto simp: call_args_def bindR_eq_Inr split: if_split_asm)
  then have args: "args = concat (map (\<lambda>w. w @ [SPACE]) ?ws) @ host"
    using add_options_text [OF assms(2) a(1)] by (simp add: err_text_def split: if_split_asm)
  have pw: "\<forall>w \<in> set (CL_CALL # ?ws). plain_word w"
    proof -
    have "plain_word CL_CALL" by (simp add: plain_word_def CL_CALL_def white_def SPACE_def NEWLINE_def NUL_def)
    moreover have "\<forall>w \<in> set ?ws. plain_word w" using option_words_plain assms(2) by auto
    ultimately show ?thesis by simp
  qed
  have t: "?t = concat (map (\<lambda>w. w @ [SPACE]) (CL_CALL # ?ws)) @ host" by (simp add: args)
  have "tokens host = [host]" using assms(3) by (intro tokens_word(1)) (simp_all add: plain_word_def)
  then have tok: "tokens ?t = CL_CALL # ?ws @ [host]" unfolding t using tokens_words [OF pw, of host] by simp
  have "NUL \<noteq> SPACE" by (simp add: NUL_def SPACE_def)
  moreover have "NUL \<notin> set w" if "plain_word w" for w using that by (auto simp: plain_word_def)
  ultimately have "NUL \<notin> set ?t" using pw assms(3) unfolding t set_append set_concat set_map by auto
  then have c: "cstr (call_request args) = ?t" unfolding call_request_def using cstr_append_NUL [of ?t "[]"] by simp
  have "takeWhile white (CL_CALL @ [SPACE] @ args) = []" by (simp add: CL_CALL_def white_def SPACE_def NEWLINE_def)
  then have b: "buf_args ?t cli_args = Some (cli_args (CL_CALL # ?ws @ [host]))"
    using assms(6) unfolding buf_args_def tok by (simp add: MAXARGC_def)
  have "cli_args (CL_CALL # ?ws @ [host]) = Inr (p\<lparr>o_host := host\<rparr>)"
    using getopt_words [OF assms(2,4)] assms(7) by (simp add: cli_args_def)
  then show ?thesis unfolding c b by simp
qed

theorem call_options_round_trip_witness:
  "buf_args (cstr (call_request ''-e -s 9600 h'')) cli_args = Some (Inr \<lparr>o_debug = False, o_parity = EVEN, o_speed = ''9600'', o_host = ''h''\<rparr>)"
proof -
  have g: "getopt call_flag call_arg [] [''-es'', ''9600'', ''h''] = ([(CHR ''e'', []), (CHR ''s'', ''9600'')], [''h''])"
    by (simp add: call_flag_def call_arg_def)
  have "buf_args (cstr (call_request ''-e -s 9600 h'')) cli_args =
      Some (Inr (\<lparr>o_debug = False, o_parity = EVEN, o_speed = ''9600'', o_host = []\<rparr>\<lparr>o_host := ''h''\<rparr>))"
  proof (rule call_options_round_trip [OF g])
    show "call_args [''-es'', ''9600'', ''h''] = Inr ''-e -s 9600 h''"
      by (simp add: call_args_def call_flag_def call_arg_def option_text_def err_text_def MAXLINE_def SPACE_def)
  qed (simp_all add: known_option_def plain_word_def call_flag_def white_def SPACE_def NEWLINE_def NUL_def option_words_def MAXARGC_def)
  then show ?thesis by simp
qed

section \<open>Characters\<close>

lemma key_step_plain:
  "escapec \<notin> set (keys s) \<Longrightarrow> key_step wr room veof susp s = Inr (v, s') \<Longrightarrow>
    \<exists>c k. keys s = c # k \<and> v = Go_on \<and> s' = send_key c (s\<lparr>keys := k\<rparr>)"
  by (cases "keys s") (auto simp: key_step_def Let_def)

lemma remote_step_keeps:
  "remote_step s = (v, s') \<Longrightarrow> screen s' @ concat (snd (remote s')) = screen s @ concat (snd (remote s)) \<and>
    keys s' = keys s \<and> to_remote s' = to_remote s \<and> files s' = files s"
  by (auto simp: remote_step_def split: list.split_asm if_split_asm)

text \<open>
  C25. The connection is transparent: as long as the user types no escape character, whatever \<open>poll\<close> reports and
  in whatever order, what has been sent to the remote system followed by what is still to be read from the
  terminal is what the user typed, and what is on the screen followed by what the line still delivers is what
  the remote system sent; no local file is touched.
\<close>

theorem call_transparent:
  assumes "escapec \<notin> set (keys s)" "call_loop wr room veof susp evs s = Inr (v, s')"
  shows "to_remote s' @ keys s' = to_remote s @ keys s \<and> screen s' @ concat (snd (remote s')) = screen s @ concat (snd (remote s)) \<and>
    files s' = files s"
  using assms
proof (induction evs arbitrary: s)
  case (Cons ev evs)
  obtain w t where t: "(if key_in ev then key_step wr room veof susp s else Inr (Go_on, s)) = Inr (w, t)"
    "(case w of Done \<Rightarrow> Inr (Done, t) | Continue \<Rightarrow> call_loop wr room veof susp evs t
      | Go_on \<Rightarrow> if key_hup ev then Inr (Done, t)
         else let (v, s) = (if rem_in ev then remote_step t else (Go_on, t))
              in if v = Done \<or> rem_hup ev then Inr (Done, s) else call_loop wr room veof susp evs s) = Inr (v, s')"
    using Cons.prems(2) by (auto simp: bindR_eq_Inr)
  have k: "w = Go_on" "to_remote t @ keys t = to_remote s @ keys s" "screen t = screen s" "remote t = remote s" "files t = files s"
    "escapec \<notin> set (keys t)"
  proof -
    have "w = Go_on \<and> to_remote t @ keys t = to_remote s @ keys s \<and> screen t = screen s \<and> remote t = remote s \<and> files t = files s \<and>
      escapec \<notin> set (keys t)"
    proof (cases "key_in ev")
      case True
      then have "key_step wr room veof susp s = Inr (w, t)" using t(1) by simp
      from key_step_plain [OF Cons.prems(1) this] show ?thesis using Cons.prems(1) by (auto simp: send_key_def)
    qed (use t(1) Cons.prems(1) in simp)
    then show "w = Go_on" "to_remote t @ keys t = to_remote s @ keys s" "screen t = screen s" "remote t = remote s" "files t = files s"
      "escapec \<notin> set (keys t)" by simp_all
  qed
  obtain x u where u: "(if rem_in ev then remote_step t else (Go_on, t)) = (x, u)" by fastforce
  have r: "screen u @ concat (snd (remote u)) = screen t @ concat (snd (remote t))" "keys u = keys t" "to_remote u = to_remote t" "files u = files t"
    using u remote_step_keeps [of t x u] by (simp_all split: if_split_asm)
  have "s' = t \<or> s' = u \<or> call_loop wr room veof susp evs u = Inr (v, s')"
    using t(2) unfolding k(1) verdict.case u Let_def prod.case by (auto split: if_split_asm)
  then show ?case using Cons.IH [of u] k r by auto
qed simp

theorem call_transparent_witness:
  "\<exists>s'. call_loop (\<lambda>_. True) 0 NUL NUL [\<lparr>key_in = True, key_hup = False, rem_in = True, rem_hup = False\<rparr>]
      \<lparr>keys = ''hi'', remote = ([], [''ok'']), to_remote = [], screen = [], files = (\<lambda>_. None), bol = True\<rparr> = Inr (Go_on, s') \<and>
    to_remote s' @ keys s' = ''hi'' \<and> screen s' @ concat (snd (remote s')) = ''ok''"
proof -
  let ?s = "\<lparr>keys = ''hi'', remote = ([], [''ok'']), to_remote = [], screen = [], files = (\<lambda>_. None), bol = True\<rparr> :: call_state"
  let ?ev = "[\<lparr>key_in = True, key_hup = False, rem_in = True, rem_hup = False\<rparr>]"
  obtain s' where "call_loop (\<lambda>_. True) 0 NUL NUL ?ev ?s = Inr (Go_on, s')" by (simp add: key_step_def escapec_def remote_step_def send_key_def)
  with call_transparent [OF _ this] show ?thesis by (auto simp: escapec_def)
qed

section \<open>Files\<close>

definition flat :: "remote \<Rightarrow> string" where
  "flat r = fst r @ concat (snd r)"

definition steady :: "remote \<Rightarrow> bool" where
  "steady r \<longleftrightarrow> (\<forall>b \<in> set (snd r). b \<noteq> [])"

lemma rem_read_flat:
  assumes "steady r" "flat r = c # t"
  shows "\<exists>r'. rem_read r = (seven c, r') \<and> steady r' \<and> flat r' = t"
proof (cases "fst r")
  case Nil
  then obtain b rs where "snd r = b # rs" using assms(2) by (cases "snd r") (auto simp: flat_def)
  moreover obtain d b' where "b = d # b'" using assms(1) calculation by (cases b) (auto simp: steady_def)
  ultimately show ?thesis using assms Nil by (auto simp: rem_read_def flat_def steady_def)
qed (use assms in \<open>auto simp: rem_read_def flat_def steady_def\<close>)

lemma take_echo_line:
  assumes "steady r" "flat r = echo @ c # t" "\<forall>d \<in> set echo. seven d \<noteq> NUL \<and> seven d \<noteq> NEWLINE" "seven c = NEWLINE"
  shows "\<exists>r'. take_echo r = Some r' \<and> steady r' \<and> flat r' = t"
  using assms
proof (induction echo arbitrary: r)
  case Nil
  obtain r' where "rem_read r = (NEWLINE, r')" "steady r'" "flat r' = t" using rem_read_flat [of r c t] Nil by auto
  moreover have "NEWLINE \<noteq> NUL" by (simp add: NEWLINE_def NUL_def)
  ultimately show ?case by (simp add: take_echo.simps [of r])
next
  case (Cons d echo)
  obtain r' where r: "rem_read r = (seven d, r')" "steady r'" "flat r' = echo @ c # t" using rem_read_flat [of r d "echo @ c # t"] Cons.prems by auto
  then show ?case using Cons.IH [OF r(2,3)] Cons.prems(3,4) by (simp add: take_echo.simps [of r])
qed

lemma take_file_reads:
  assumes "steady r" "flat r = x @ c # t" "\<forall>d \<in> set x. seven d \<noteq> NUL \<and> seven d \<noteq> CTRLA" "seven c = CTRLA"
  shows "\<exists>r'. take_file r out = (out @ filter (\<lambda>d. d \<noteq> CR) (map seven x), r') \<and> flat r' = t"
  using assms
proof (induction x arbitrary: r out)
  case Nil
  obtain r' where "rem_read r = (CTRLA, r')" "flat r' = t" using rem_read_flat [of r c t] Nil by auto
  then show ?case by (simp add: take_file.simps [of r])
next
  case (Cons d x)
  obtain r' where r: "rem_read r = (seven d, r')" "steady r'" "flat r' = x @ c # t" using rem_read_flat [of r d "x @ c # t"] Cons.prems by auto
  have x: "\<forall>d \<in> set x. seven d \<noteq> NUL \<and> seven d \<noteq> CTRLA" using Cons.prems(3) by simp
  show ?case using Cons.IH [OF r(2,3) x Cons.prems(4), of "if seven d = CR then out else out @ [seven d]"] r(1) Cons.prems(3)
    by (auto simp: take_file.simps [of r])
qed

text \<open>A text as the remote terminal shows it, and the texts that survive it.\<close>

definition crlf :: "string \<Rightarrow> string" where
  "crlf body = concat (map (\<lambda>c. if c = NEWLINE then [CR, NEWLINE] else [c]) body)"

definition plain_text :: "string \<Rightarrow> bool" where
  "plain_text body \<longleftrightarrow> (\<forall>c \<in> set body. (of_char c :: nat) < 128 \<and> c \<noteq> NUL \<and> c \<noteq> CTRLA \<and> c \<noteq> CR)"

lemma seven_id [simp]: "(of_char c :: nat) < 128 \<Longrightarrow> seven c = c"
  by (simp add: seven_def)

lemma crlf_read: "plain_text body \<Longrightarrow> filter (\<lambda>d. d \<noteq> CR) (map seven (crlf body)) = body"
proof (induction body)
  case (Cons c body)
  have "(of_char CR :: nat) < 128" "NEWLINE \<noteq> CR" "(of_char NEWLINE :: nat) < 128" by (simp_all add: CR_def NEWLINE_def)
  then show ?case using Cons by (auto simp: crlf_def plain_text_def)
qed (simp add: crlf_def)

lemma crlf_plain: "plain_text body \<Longrightarrow> \<forall>d \<in> set (crlf body). seven d \<noteq> NUL \<and> seven d \<noteq> CTRLA"
proof -
  have "(of_char CR :: nat) < 128" "CR \<noteq> NUL" "CR \<noteq> CTRLA" "(of_char NEWLINE :: nat) < 128" "NEWLINE \<noteq> NUL" "NEWLINE \<noteq> CTRLA"
    by (simp_all add: CR_def NEWLINE_def NUL_def CTRLA_def)
  then show "plain_text body \<Longrightarrow> \<forall>d \<in> set (crlf body). seven d \<noteq> NUL \<and> seven d \<noteq> CTRLA"
    by (auto simp: crlf_def plain_text_def split: if_split_asm)
qed



end
