(* ===== verification/Shm_Xfr.thy ===== *)
theory Shm_Xfr
  imports C_Prelude "HOL-Library.Sublist"
begin

text \<open>
  Transfer through shared memory (\<open>svshm/svshm_xfr_writer.c\<close>, \<open>svshm_xfr_reader.c\<close>) with the binary semaphores
  of \<open>svsem/binary_sems.c\<close>, and the event flags of \<open>svsem/event_flags.c\<close> over the same calls. The two programs
  are step functions, one system call or access to the shared memory a step; a run interleaves them.
\<close>

section \<open>Semaphores\<close>

text \<open>The values of a set; \<open>None\<close> when the set has been removed.\<close>

type_synonym semset = "(nat \<Rightarrow> int) option"

datatype sem_error = EIDRM | EINTR | ERANGE

text \<open>
  One operation on a member. \<open>intr\<close> says that a signal handler interrupts the call when it has to wait;
  without it a call that has to wait gives \<open>None\<close>.
\<close>

definition semop1 :: "bool \<Rightarrow> nat \<Rightarrow> int \<Rightarrow> semset \<Rightarrow> (sem_error + semset) option" where
  "semop1 intr n op s =
     (case s of
        None \<Rightarrow> Some (Inl EIDRM)
      | Some v \<Rightarrow>
          if op < 0 \<and> v n + op < 0 \<or> op = 0 \<and> v n \<noteq> 0 then (if intr then Some (Inl EINTR) else None)
          else if 32767 < v n + op then Some (Inl ERANGE)
          else Some (Inr (Some (v(n := v n + op)))))"

definition setval1 :: "nat \<Rightarrow> int \<Rightarrow> semset \<Rightarrow> int \<times> semset" where
  "setval1 n x s = (case s of None \<Rightarrow> (-1, None) | Some v \<Rightarrow> (0, Some (v(n := x))))"

definition bsRetryOnEintr :: bool where "bsRetryOnEintr = True"

definition initSemAvailable :: "nat \<Rightarrow> semset \<Rightarrow> int \<times> semset" where
  "initSemAvailable n s = setval1 n 1 s"

definition initSemInUse :: "nat \<Rightarrow> semset \<Rightarrow> int \<times> semset" where
  "initSemInUse n s = setval1 n 0 s"

text \<open>The loop around a waiting call; \<open>None\<close> while it is in the loop.\<close>

definition reserveSem :: "bool \<Rightarrow> nat \<Rightarrow> semset \<Rightarrow> (int \<times> semset) option" where
  "reserveSem intr n s =
     (case semop1 intr n (-1) s of
        None \<Rightarrow> None
      | Some (Inl e) \<Rightarrow> if e \<noteq> EINTR \<or> \<not> bsRetryOnEintr then Some (-1, s) else None
      | Some (Inr s) \<Rightarrow> Some (0, s))"

definition releaseSem :: "nat \<Rightarrow> semset \<Rightarrow> int \<times> semset" where
  "releaseSem n s = (case semop1 False n 1 s of Some (Inr s) \<Rightarrow> (0, s) | _ \<Rightarrow> (-1, s))"

definition waitForEventFlag :: "bool \<Rightarrow> nat \<Rightarrow> semset \<Rightarrow> (int \<times> semset) option" where
  "waitForEventFlag intr n s =
     (case semop1 intr n 0 s of
        None \<Rightarrow> None
      | Some (Inl e) \<Rightarrow> if e \<noteq> EINTR then Some (-1, s) else None
      | Some (Inr s) \<Rightarrow> Some (0, s))"

definition clearEventFlag :: "nat \<Rightarrow> semset \<Rightarrow> int \<times> semset" where
  "clearEventFlag n s = setval1 n 1 s"

definition setEventFlag :: "nat \<Rightarrow> semset \<Rightarrow> int \<times> semset" where
  "setEventFlag n s = setval1 n 0 s"

definition getFlagState :: "nat \<Rightarrow> semset \<Rightarrow> (int \<times> bool) option" where
  "getFlagState n s = (case s of None \<Rightarrow> None | Some v \<Rightarrow> Some (0, v n = 0))"

lemma reserve_iff:
  "reserveSem intr n (Some v) = (if v n < 1 then None else if 32768 < v n then Some (-1, Some v) else Some (0, Some (v(n := v n - 1))))"
  by (auto simp: reserveSem_def semop1_def bsRetryOnEintr_def)

lemma reserve_gone [simp]: "reserveSem intr n None = Some (-1, None)"
  by (simp add: reserveSem_def semop1_def)

lemma release_iff: "releaseSem n (Some v) = (if v n < 32767 then (0, Some (v(n := v n + 1))) else (-1, Some v))"
  by (auto simp: releaseSem_def semop1_def)

text \<open>A flag is what it was set to, and a process waits for it exactly while it is cleared.\<close>

lemma event_flags:
  assumes "s \<noteq> None"
  shows "getFlagState n (snd (setEventFlag n s)) = Some (0, True)" "getFlagState n (snd (clearEventFlag n s)) = Some (0, False)"
    "waitForEventFlag intr n (snd (setEventFlag n s)) = Some (0, snd (setEventFlag n s))" "waitForEventFlag intr n (snd (clearEventFlag n s)) = None"
  using assms by (auto simp: getFlagState_def setEventFlag_def clearEventFlag_def setval1_def waitForEventFlag_def semop1_def fun_eq_iff)

section \<open>The two programs\<close>

definition WRITE_SEM :: nat where "WRITE_SEM = 0"
definition READ_SEM :: nat where "READ_SEM = 1"
definition BUF_SIZE :: nat where "BUF_SIZE = 1024"

record shmseg =
  cnt :: int
  buf :: string

text \<open>Where the writer and the reader stand; an error ends the program.\<close>

datatype wpc = W_semget | W_avail | W_inuse | W_shmget | W_reserve | W_read | W_release | W_test | W_last | W_rmsem | W_rmshm | W_exit | W_error
datatype rpc = R_semget | R_shmget | R_reserve | R_test | R_write | R_release | R_last | R_exit | R_error

text \<open>
  The semaphore set, the segment and whether its key exists, what the writer's \<open>read\<close> still delivers, what the
  reader has written, the places of the programs and their counters.
\<close>

record xfr =
  sems :: semset
  shm_key :: bool
  shm :: shmseg
  inp :: "string option list"
  outp :: string
  wat :: wpc
  rat :: rpc
  w_bytes :: int
  w_xfrs :: int
  r_bytes :: int
  r_xfrs :: int

definition xfr_start :: "string option list \<Rightarrow> xfr" where
  "xfr_start i = \<lparr>sems = None, shm_key = False, shm = \<lparr>cnt = 0, buf = replicate BUF_SIZE NUL\<rparr>, inp = i, outp = [], wat = W_semget,
     rat = R_semget, w_bytes = 0, w_xfrs = 0, r_bytes = 0, r_xfrs = 0\<rparr>"

text \<open>\<open>read\<close>: \<open>None\<close> is an error; the end of the input stays.\<close>

fun read_in :: "string option list \<Rightarrow> string option \<times> string option list" where
  "read_in [] = (Some [], [])"
| "read_in (None # i) = (None, i)"
| "read_in (Some c # i) =
     (if c = [] then (Some [], Some c # i)
      else (Some (take BUF_SIZE c), if length c \<le> BUF_SIZE then i else Some (drop BUF_SIZE c) # i))"

text \<open>A step of the writer; \<open>None\<close> when it waits or has ended.\<close>

definition writer :: "xfr \<Rightarrow> xfr option" where
  "writer s =
     (case wat s of
        W_semget \<Rightarrow> Some (s\<lparr>sems := (case sems s of None \<Rightarrow> Some (\<lambda>_. 0) | Some v \<Rightarrow> Some v), wat := W_avail\<rparr>)
      | W_avail \<Rightarrow> (let (r, k) = initSemAvailable WRITE_SEM (sems s) in Some (s\<lparr>sems := k, wat := if r = -1 then W_error else W_inuse\<rparr>))
      | W_inuse \<Rightarrow> (let (r, k) = initSemInUse READ_SEM (sems s) in Some (s\<lparr>sems := k, wat := if r = -1 then W_error else W_shmget\<rparr>))
      | W_shmget \<Rightarrow> Some (s\<lparr>shm_key := True, wat := W_reserve\<rparr>)
      | W_reserve \<Rightarrow>
          (case reserveSem False WRITE_SEM (sems s) of
             None \<Rightarrow> None
           | Some (r, k) \<Rightarrow> Some (s\<lparr>sems := k, wat := if r = -1 then W_error else W_read\<rparr>))
      | W_read \<Rightarrow>
          (case read_in (inp s) of
             (None, i) \<Rightarrow> Some (s\<lparr>inp := i, shm := (shm s)\<lparr>cnt := -1\<rparr>, wat := W_error\<rparr>)
           | (Some c, i) \<Rightarrow>
               Some (s\<lparr>inp := i, shm := \<lparr>cnt = int (length c), buf = c @ drop (length c) (buf (shm s))\<rparr>, wat := W_release\<rparr>))
      | W_release \<Rightarrow> (let (r, k) = releaseSem READ_SEM (sems s) in Some (s\<lparr>sems := k, wat := if r = -1 then W_error else W_test\<rparr>))
      | W_test \<Rightarrow>
          if cnt (shm s) = 0 then Some (s\<lparr>wat := W_last\<rparr>)
          else Some (s\<lparr>w_xfrs := wrap32 (w_xfrs s + 1), w_bytes := wrap32 (w_bytes s + cnt (shm s)), wat := W_reserve\<rparr>)
      | W_last \<Rightarrow>
          (case reserveSem False WRITE_SEM (sems s) of
             None \<Rightarrow> None
           | Some (r, k) \<Rightarrow> Some (s\<lparr>sems := k, wat := if r = -1 then W_error else W_rmsem\<rparr>))
      | W_rmsem \<Rightarrow> if sems s = None then Some (s\<lparr>wat := W_error\<rparr>) else Some (s\<lparr>sems := None, wat := W_rmshm\<rparr>)
      | W_rmshm \<Rightarrow> Some (s\<lparr>shm_key := False, wat := W_exit\<rparr>)
      | W_exit \<Rightarrow> None
      | W_error \<Rightarrow> None)"

text \<open>A step of the reader; \<open>k\<close> is the number of bytes \<open>write\<close> accepts.\<close>

definition reader :: "nat \<Rightarrow> xfr \<Rightarrow> xfr option" where
  "reader k s =
     (case rat s of
        R_semget \<Rightarrow> Some (s\<lparr>rat := if sems s = None then R_error else R_shmget\<rparr>)
      | R_shmget \<Rightarrow> Some (s\<lparr>rat := if shm_key s then R_reserve else R_error\<rparr>)
      | R_reserve \<Rightarrow>
          (case reserveSem False READ_SEM (sems s) of
             None \<Rightarrow> None
           | Some (r, k) \<Rightarrow> Some (s\<lparr>sems := k, rat := if r = -1 then R_error else R_test\<rparr>))
      | R_test \<Rightarrow>
          if cnt (shm s) = 0 then Some (s\<lparr>rat := R_last\<rparr>)
          else Some (s\<lparr>r_bytes := wrap32 (r_bytes s + cnt (shm s)), rat := R_write\<rparr>)
      | R_write \<Rightarrow>
          (let n = nat (cnt (shm s)); b = take (min k n) (buf (shm s))
           in Some (s\<lparr>outp := outp s @ b, rat := if k < n then R_error else R_release\<rparr>))
      | R_release \<Rightarrow>
          (let (r, k) = releaseSem WRITE_SEM (sems s)
           in Some (if r = -1 then s\<lparr>rat := R_error\<rparr> else s\<lparr>sems := k, r_xfrs := wrap32 (r_xfrs s + 1), rat := R_reserve\<rparr>))
      | R_last \<Rightarrow> (let (r, k) = releaseSem WRITE_SEM (sems s) in Some (s\<lparr>sems := k, rat := if r = -1 then R_error else R_exit\<rparr>))
      | R_exit \<Rightarrow> None
      | R_error \<Rightarrow> None)"

inductive xfr_run :: "string option list \<Rightarrow> xfr \<Rightarrow> bool" for i where
  Xfr_start: "xfr_run i (xfr_start i)"
| Xfr_writer: "xfr_run i s \<Longrightarrow> writer s = Some s' \<Longrightarrow> xfr_run i s'"
| Xfr_reader: "xfr_run i s \<Longrightarrow> reader k s = Some s' \<Longrightarrow> xfr_run i s'"

section \<open>What the writer is given\<close>

text \<open>The bytes up to the end of the input or the first error, and the number of reads that deliver some.\<close>

fun stream :: "string option list \<Rightarrow> string" where
  "stream [] = []"
| "stream (None # i) = []"
| "stream (Some c # i) = (if c = [] then [] else c @ stream i)"

fun blocks :: "string option list \<Rightarrow> nat" where
  "blocks [] = 0"
| "blocks (None # i) = 0"
| "blocks (Some c # i) = (if c = [] then 0 else (length c + BUF_SIZE - 1) div BUF_SIZE + blocks i)"

lemma read_in_stream:
  assumes "read_in i = (Some c, i')"
  shows "stream i = c @ stream i'" "length c \<le> BUF_SIZE" "c = [] \<Longrightarrow> stream i = [] \<and> blocks i = 0 \<and> i' = i" "c \<noteq> [] \<Longrightarrow> blocks i = Suc (blocks i')"
proof -
  have "stream i = c @ stream i' \<and> length c \<le> BUF_SIZE \<and> (c = [] \<longrightarrow> stream i = [] \<and> blocks i = 0 \<and> i' = i) \<and> (c \<noteq> [] \<longrightarrow> blocks i = Suc (blocks i'))"
  proof (cases i rule: read_in.cases)
    case (3 d j)
    show ?thesis
    proof (cases "d = [] \<or> length d \<le> BUF_SIZE")
      case True
      have "(length d + BUF_SIZE - 1) div BUF_SIZE = 1" if "d \<noteq> []" "length d \<le> BUF_SIZE"
      proof -
        have "0 < length d" using that by simp
        then show ?thesis using that unfolding BUF_SIZE_def by linarith
      qed
      then show ?thesis using assms 3 True by (auto split: if_split_asm simp: BUF_SIZE_def)
    next
      case False
      define m where "m = length d - BUF_SIZE"
      have "length d = m + BUF_SIZE" using False by (simp add: m_def)
      then have "(length d + BUF_SIZE - 1) div BUF_SIZE = Suc ((m + BUF_SIZE - 1) div BUF_SIZE)"
        by (simp add: BUF_SIZE_def div_add_self2 [of 1024 "m + 1023", symmetric] add.commute add.left_commute)
      moreover have "drop BUF_SIZE d \<noteq> []" using False by simp
      ultimately show ?thesis using assms 3 False by (auto simp: m_def min_def)
    qed
  qed (use assms in auto)
  then show "stream i = c @ stream i'" "length c \<le> BUF_SIZE" "c = [] \<Longrightarrow> stream i = [] \<and> blocks i = 0 \<and> i' = i" "c \<noteq> [] \<Longrightarrow> blocks i = Suc (blocks i')"
    by blast+
qed

section \<open>The protocol\<close>

text \<open>The block in the segment, and whether the reader has still to write it.\<close>

definition block :: "xfr \<Rightarrow> string" where
  "block s = take (nat (cnt (shm s))) (buf (shm s))"

definition pending :: "xfr \<Rightarrow> bool" where
  "pending s \<longleftrightarrow> wat s = W_release \<or> (\<exists>v. sems s = Some v \<and> v READ_SEM = 1) \<or> rat s = R_test \<or> rat s = R_write"

text \<open>The blocks the reader has still to write.\<close>

definition to_come :: "xfr \<Rightarrow> nat" where
  "to_come s = blocks (inp s) + of_bool (pending s \<and> cnt (shm s) \<noteq> 0)"

definition w_in :: "wpc \<Rightarrow> bool" where "w_in w \<longleftrightarrow> w = W_read \<or> w = W_release \<or> w = W_rmsem"
definition r_in :: "rpc \<Rightarrow> bool" where "r_in r \<longleftrightarrow> r = R_test \<or> r = R_write \<or> r = R_release \<or> r = R_last"
definition w_end :: "wpc \<Rightarrow> bool" where "w_end w \<longleftrightarrow> w = W_last \<or> w = W_rmsem \<or> w = W_rmshm \<or> w = W_exit"
definition starting :: "wpc \<Rightarrow> bool" where "starting w \<longleftrightarrow> w = W_semget \<or> w = W_avail \<or> w = W_inuse \<or> w = W_shmget"

text \<open>Exactly one of: a semaphore that is available, the writer at work, the reader at work.\<close>

definition turns_ok :: "xfr \<Rightarrow> bool" where
  "turns_ok s \<longleftrightarrow>
     (if wat s = W_rmshm \<or> wat s = W_exit then sems s = None \<and> rat s = R_exit
      else \<exists>v. sems s = Some v \<and> 0 \<le> v WRITE_SEM \<and> 0 \<le> v READ_SEM \<and>
        v WRITE_SEM + v READ_SEM + of_bool (w_in (wat s)) + of_bool (r_in (rat s)) = 1 \<and>
        (wat s = W_reserve \<and> (v READ_SEM = 1 \<or> r_in (rat s)) \<longrightarrow> 0 < cnt (shm s)) \<and>
        (cnt (shm s) = 0 \<and> (wat s = W_test \<or> wat s = W_last) \<and> v WRITE_SEM = 1 \<longrightarrow> rat s = R_exit) \<and>
        (wat s = W_rmsem \<longrightarrow> rat s = R_exit) \<and> (rat s = R_exit \<longrightarrow> v READ_SEM = 0))"

definition data_ok :: "string option list \<Rightarrow> xfr \<Rightarrow> bool" where
  "data_ok i s \<longleftrightarrow> length (buf (shm s)) = BUF_SIZE \<and> 0 \<le> cnt (shm s) \<and> cnt (shm s) \<le> int BUF_SIZE \<and>
     outp s @ (if pending s then block s else []) @ stream (inp s) = stream i \<and>
     (cnt (shm s) = 0 \<and> (wat s = W_release \<or> wat s = W_test) \<longrightarrow> stream (inp s) = []) \<and>
     (w_end (wat s) \<longrightarrow> cnt (shm s) = 0 \<and> stream (inp s) = []) \<and>
     (rat s = R_write \<or> rat s = R_release \<longrightarrow> 0 < cnt (shm s)) \<and>
     (rat s = R_last \<or> rat s = R_exit \<longrightarrow> cnt (shm s) = 0 \<and> (wat s = W_test \<or> w_end (wat s)))"

definition counts_ok :: "string option list \<Rightarrow> xfr \<Rightarrow> bool" where
  "counts_ok i s \<longleftrightarrow>
     w_bytes s = wrap32 (int (length (stream i)) - int (length (stream (inp s))) - (if wat s = W_release \<or> wat s = W_test then cnt (shm s) else 0)) \<and>
     r_bytes s = wrap32 (int (length (outp s)) + (if rat s = R_write then cnt (shm s) else 0)) \<and>
     w_xfrs s = wrap32 (int (blocks i) - int (blocks (inp s)) - of_bool ((wat s = W_release \<or> wat s = W_test) \<and> cnt (shm s) \<noteq> 0)) \<and>
     r_xfrs s = wrap32 (int (blocks i) - int (blocks (inp s)) - of_bool (pending s \<and> cnt (shm s) \<noteq> 0) - of_bool (rat s = R_release))"

definition start_ok :: "string option list \<Rightarrow> xfr \<Rightarrow> bool" where
  "start_ok i s \<longleftrightarrow> shm s = \<lparr>cnt = 0, buf = replicate BUF_SIZE NUL\<rparr> \<and> \<not> shm_key s \<and> inp s = i \<and> outp s = [] \<and>
     w_bytes s = 0 \<and> w_xfrs s = 0 \<and> r_bytes s = 0 \<and> r_xfrs s = 0 \<and> (rat s = R_semget \<or> rat s = R_shmget) \<and>
     sems s = (case wat s of W_semget \<Rightarrow> None | W_avail \<Rightarrow> Some (\<lambda>_. 0) | _ \<Rightarrow> Some ((\<lambda>_. 0)(WRITE_SEM := 1)))"

text \<open>The invariant: the programs start, work, or one of them has ended with an error.\<close>

definition xfr_ok :: "string option list \<Rightarrow> xfr \<Rightarrow> bool" where
  "xfr_ok i s \<longleftrightarrow>
     (if rat s = R_error then prefix (outp s) (stream i)
      else if wat s = W_error then (\<exists>v. sems s = Some v \<and> v READ_SEM = 0) \<and> (rat s = R_semget \<or> rat s = R_shmget \<or> rat s = R_reserve) \<and> prefix (outp s) (stream i)
      else if starting (wat s) then start_ok i s
      else turns_ok s \<and> data_ok i s \<and> counts_ok i s)"

lemmas pc_defs = w_in_def r_in_def w_end_def starting_def

lemma wrap32_add [simp]: "wrap32 (wrap32 x + y) = wrap32 (x + y)"
  by (simp add: wrap32_def mod_simps algebra_simps)

lemma wrap32_add2 [simp]: "wrap32 (x + wrap32 y) = wrap32 (x + y)"
  using wrap32_add [of y x] by (simp add: add.commute)

lemma wrap32_0 [simp]: "wrap32 0 = 0"
  by (simp add: wrap32_def)

lemma writer_keeps: "writer s = Some s' \<Longrightarrow> outp s' = outp s \<and> rat s' = rat s \<and> wat s \<noteq> W_error"
  by (auto simp: writer_def split: wpc.split_asm option.split_asm prod.split_asm if_split_asm)

lemma sem_neq [simp]: "WRITE_SEM \<noteq> READ_SEM" "READ_SEM \<noteq> WRITE_SEM"
  by (simp_all add: WRITE_SEM_def READ_SEM_def)

lemma start_okD:
  assumes "start_ok i s"
  shows "shm s = \<lparr>cnt = 0, buf = replicate BUF_SIZE NUL\<rparr>" "\<not> shm_key s" "inp s = i" "outp s = []" "w_bytes s = 0" "w_xfrs s = 0" "r_bytes s = 0"
    "r_xfrs s = 0" "rat s = R_semget \<or> rat s = R_shmget"
    "sems s = (case wat s of W_semget \<Rightarrow> None | W_avail \<Rightarrow> Some (\<lambda>_. 0) | _ \<Rightarrow> Some ((\<lambda>_. 0)(WRITE_SEM := 1)))"
  using assms unfolding start_ok_def by blast+

lemma writer_starts:
  assumes "start_ok i s" "starting (wat s)" "writer s = Some s'"
  shows "wat s' \<noteq> W_error \<and> to_come s' = to_come s \<and> (if starting (wat s') then start_ok i s' else turns_ok s' \<and> data_ok i s' \<and> counts_ok i s')"
proof -
  note d = start_okD [OF assms(1)]
  from assms(2) consider "wat s = W_semget" | "wat s = W_avail" | "wat s = W_inuse" | "wat s = W_shmget" unfolding starting_def by blast
  then show ?thesis
  proof cases
    case 4
    have s': "s' = s\<lparr>shm_key := True, wat := W_reserve\<rparr>" using assms(3) 4 by (simp add: writer_def)
    have r: "rat s \<noteq> R_test" "rat s \<noteq> R_write" "rat s \<noteq> R_release" "rat s \<noteq> R_last" "rat s \<noteq> R_exit" using d(9) by auto
    have "turns_ok s'" using d(10) 4 r by (simp add: s' turns_ok_def pc_defs)
    moreover have p: "\<not> pending s'" using d(10) 4 r by (simp add: s' pending_def)
    moreover have "data_ok i s'" using d(1-4) r p by (simp add: s' data_ok_def pc_defs)
    moreover have "counts_ok i s'" using d(1-8) r p by (simp add: s' counts_ok_def)
    ultimately show ?thesis using d(1) by (simp add: s' starting_def to_come_def)
  next
    case 1
    then have "s' = s\<lparr>sems := Some (\<lambda>_. 0), wat := W_avail\<rparr>" using assms(3) d(10) by (simp add: writer_def)
    then show ?thesis using d by (simp add: start_ok_def starting_def to_come_def)
  next
    case 2
    then have "s' = s\<lparr>sems := Some ((\<lambda>_. 0)(WRITE_SEM := 1)), wat := W_inuse\<rparr>" using assms(3) d(10) by (simp add: writer_def initSemAvailable_def setval1_def)
    then show ?thesis using d by (simp add: start_ok_def starting_def to_come_def)
  next
    case 3
    have "((\<lambda>_. 0)(WRITE_SEM := 1, READ_SEM := 0)) = ((\<lambda>_. 0)(WRITE_SEM := 1 :: int))" by (auto simp: fun_eq_iff)
    then have "s' = s\<lparr>sems := Some ((\<lambda>_. 0)(WRITE_SEM := 1)), wat := W_shmget\<rparr>" using assms(3) d(10) 3 by (simp add: writer_def initSemInUse_def setval1_def)
    then show ?thesis using d by (simp add: start_ok_def starting_def to_come_def)
  qed
qed

lemma turns_okE:
  assumes "turns_ok s" "wat s \<noteq> W_rmshm" "wat s \<noteq> W_exit"
  obtains v where "sems s = Some v" "0 \<le> v WRITE_SEM" "0 \<le> v READ_SEM"
    "v WRITE_SEM + v READ_SEM + of_bool (w_in (wat s)) + of_bool (r_in (rat s)) = 1"
    "wat s = W_reserve \<Longrightarrow> v READ_SEM = 1 \<or> r_in (rat s) \<Longrightarrow> 0 < cnt (shm s)"
    "cnt (shm s) = 0 \<Longrightarrow> wat s = W_test \<or> wat s = W_last \<Longrightarrow> v WRITE_SEM = 1 \<Longrightarrow> rat s = R_exit" "wat s = W_rmsem \<Longrightarrow> rat s = R_exit"
    "rat s = R_exit \<Longrightarrow> v READ_SEM = 0"
proof -
  have "\<exists>v. sems s = Some v \<and> 0 \<le> v WRITE_SEM \<and> 0 \<le> v READ_SEM \<and>
        v WRITE_SEM + v READ_SEM + of_bool (w_in (wat s)) + of_bool (r_in (rat s)) = 1 \<and>
        (wat s = W_reserve \<and> (v READ_SEM = 1 \<or> r_in (rat s)) \<longrightarrow> 0 < cnt (shm s)) \<and>
        (cnt (shm s) = 0 \<and> (wat s = W_test \<or> wat s = W_last) \<and> v WRITE_SEM = 1 \<longrightarrow> rat s = R_exit) \<and>
        (wat s = W_rmsem \<longrightarrow> rat s = R_exit) \<and> (rat s = R_exit \<longrightarrow> v READ_SEM = 0)"
    using assms unfolding turns_ok_def by presburger
  then show ?thesis using that by blast
qed

lemma data_okD:
  assumes "data_ok i s"
  shows "length (buf (shm s)) = BUF_SIZE" "0 \<le> cnt (shm s)" "cnt (shm s) \<le> int BUF_SIZE"
    "outp s @ (if pending s then block s else []) @ stream (inp s) = stream i"
    "cnt (shm s) = 0 \<Longrightarrow> wat s = W_release \<or> wat s = W_test \<Longrightarrow> stream (inp s) = []"
    "w_end (wat s) \<Longrightarrow> cnt (shm s) = 0 \<and> stream (inp s) = []" "rat s = R_write \<or> rat s = R_release \<Longrightarrow> 0 < cnt (shm s)"
    "rat s = R_last \<or> rat s = R_exit \<Longrightarrow> cnt (shm s) = 0 \<and> (wat s = W_test \<or> w_end (wat s))"
  using assms unfolding data_ok_def by blast+

lemma data_ok_prefix: "data_ok i s \<Longrightarrow> prefix (outp s) (stream i)"
  using data_okD(4) [of i s] by (metis prefixI)

lemma reader_not_exited: "data_ok i s \<Longrightarrow> wat s \<noteq> W_test \<Longrightarrow> \<not> w_end (wat s) \<Longrightarrow> rat s \<noteq> R_exit"
  using data_okD(8) [of i s] by blast

text \<open>A step that leaves the data alone, and what is pending.\<close>

lemma data_ok_cong:
  assumes "data_ok i s" "shm s' = shm s" "inp s' = inp s" "outp s' = outp s" "pending s' = pending s"
    "cnt (shm s) = 0 \<Longrightarrow> wat s' = W_release \<or> wat s' = W_test \<Longrightarrow> stream (inp s) = []"
    "w_end (wat s') \<Longrightarrow> cnt (shm s) = 0 \<and> stream (inp s) = []" "rat s' = R_write \<or> rat s' = R_release \<Longrightarrow> 0 < cnt (shm s)"
    "rat s' = R_last \<or> rat s' = R_exit \<Longrightarrow> cnt (shm s) = 0 \<and> (wat s' = W_test \<or> w_end (wat s'))"
  shows "data_ok i s'"
  using data_okD(1-4) [OF assms(1)] assms(6-9) unfolding data_ok_def block_def assms(2-5) by blast

lemma writer_reserves:
  assumes "turns_ok s" "data_ok i s" "counts_ok i s" "writer s = Some s'" "wat s = W_reserve"
  shows "wat s' = W_read \<and> to_come s' = to_come s \<and> turns_ok s' \<and> data_ok i s' \<and> counts_ok i s'"
proof -
  obtain v where v: "sems s = Some v" "0 \<le> v WRITE_SEM" "0 \<le> v READ_SEM" "v WRITE_SEM + v READ_SEM + of_bool (w_in (wat s)) + of_bool (r_in (rat s)) = 1"
    using turns_okE [OF assms(1)] assms(5) by (metis wpc.distinct)
  have "1 \<le> v WRITE_SEM" using assms(4,5) v(1) by (simp add: writer_def reserve_iff split: if_split_asm)
  then have a: "v WRITE_SEM = 1" "v READ_SEM = 0" "\<not> r_in (rat s)" using v by (auto simp: of_bool_def split: if_split_asm)
  then have s': "s' = s\<lparr>sems := Some (v(WRITE_SEM := 0)), wat := W_read\<rparr>" using assms(4,5) v(1) by (simp add: writer_def reserve_iff)
  have p: "\<not> pending s" "\<not> pending s'" using a v(1) assms(5) by (simp_all add: s' pending_def r_in_def)
  have "turns_ok s'" using a by (simp add: s' turns_ok_def w_in_def)
  moreover have "data_ok i s'"
    by (rule data_ok_cong [OF assms(2)]) (use p data_okD(7,8) [OF assms(2)] assms(5) in \<open>simp_all add: s' w_end_def\<close>)
  moreover have "counts_ok i s'" using assms(3,5) p by (simp add: counts_ok_def s')
  moreover have "to_come s' = to_come s" using p by (simp add: to_come_def s')
  ultimately show ?thesis by (simp add: s')
qed

lemma writer_reads:
  assumes "turns_ok s" "data_ok i s" "counts_ok i s" "writer s = Some s'" "wat s = W_read" "rat s \<noteq> R_error"
  shows "if wat s' = W_error
    then (\<exists>v. sems s' = Some v \<and> v READ_SEM = 0) \<and> (rat s' = R_semget \<or> rat s' = R_shmget \<or> rat s' = R_reserve) \<and> prefix (outp s') (stream i)
    else wat s' = W_release \<and> to_come s' = to_come s \<and> turns_ok s' \<and> data_ok i s' \<and> counts_ok i s'"
proof -
  obtain v where v: "sems s = Some v" "0 \<le> v WRITE_SEM" "0 \<le> v READ_SEM" "v WRITE_SEM + v READ_SEM + of_bool (w_in (wat s)) + of_bool (r_in (rat s)) = 1"
    using turns_okE [OF assms(1)] assms(5) by (metis wpc.distinct)
  then have a: "v WRITE_SEM = 0" "v READ_SEM = 0" "\<not> r_in (rat s)" using assms(5) by (simp_all add: w_in_def of_bool_def split: if_split_asm)
  have x: "rat s \<noteq> R_exit" by (rule reader_not_exited [OF assms(2)]) (simp_all add: assms(5) w_end_def)
  have r: "rat s \<noteq> R_test" "rat s \<noteq> R_write" "rat s \<noteq> R_release" "rat s \<noteq> R_last" using a(3) by (auto simp: r_in_def)
  have p: "\<not> pending s" using a v(1) r assms(5) by (simp add: pending_def)
  have o: "outp s @ stream (inp s) = stream i" using data_okD(4) [OF assms(2)] p by simp
  show ?thesis
  proof (cases "fst (read_in (inp s))")
    case None
    then have "read_in (inp s) = (None, snd (read_in (inp s)))" by (simp add: prod_eq_iff)
    then have "s' = s\<lparr>inp := snd (read_in (inp s)), shm := (shm s)\<lparr>cnt := -1\<rparr>, wat := W_error\<rparr>"
      using assms(4,5) unfolding writer_def by (simp only: wpc.case split: prod.split_asm) (simp add: prod_eq_iff)
    then have "wat s' = W_error" "outp s' = outp s" "rat s' = rat s" "sems s' = sems s" by simp_all
    moreover have "rat s = R_semget \<or> rat s = R_shmget \<or> rat s = R_reserve" using r x assms(6) by (cases "rat s") simp_all
    moreover have "prefix (outp s) (stream i)" unfolding o [symmetric] by simp
    ultimately show ?thesis using a(2) v(1) by simp
  next
    case (Some c)
    define j where "j = snd (read_in (inp s))"
    have rd: "read_in (inp s) = (Some c, j)" using Some by (simp add: j_def prod_eq_iff)
    note f = read_in_stream [OF rd]
    have f3: "c = [] \<Longrightarrow> stream j = []" using f(3) by simp
    have s': "s' = s\<lparr>inp := j, shm := \<lparr>cnt = int (length c), buf = c @ drop (length c) (buf (shm s))\<rparr>, wat := W_release\<rparr>"
      using assms(4,5) rd by (simp add: writer_def)
    have p': "pending s'" "block s' = c" by (simp_all add: s' pending_def block_def)
    have "turns_ok s'" using a v(1) by (simp add: s' turns_ok_def w_in_def)
    moreover have "data_ok i s'" using o [unfolded f(1)] f(2) f3 data_okD(1) [OF assms(2)] r x p' unfolding data_ok_def s' w_end_def by simp
    moreover have "counts_ok i s'"
    proof (cases "c = []")
      case True
      then show ?thesis using assms(3,5) f(3) p p' r by (simp add: s' counts_ok_def)
    next
      case False
      then show ?thesis using assms(3,5) f(1,4) p p' r by (simp add: s' counts_ok_def algebra_simps)
    qed
    moreover have "to_come s' = to_come s"
    proof (cases "c = []")
      case True
      then show ?thesis using f(3) p by (simp add: to_come_def s')
    next
      case False
      then show ?thesis using f(4) p p' by (simp add: to_come_def s')
    qed
    ultimately show ?thesis by (simp add: s')
  qed
qed

lemma writer_releases:
  assumes "turns_ok s" "data_ok i s" "counts_ok i s" "writer s = Some s'" "wat s = W_release"
  shows "wat s' = W_test \<and> to_come s' = to_come s \<and> turns_ok s' \<and> data_ok i s' \<and> counts_ok i s'"
proof -
  obtain v where v: "sems s = Some v" "0 \<le> v WRITE_SEM" "0 \<le> v READ_SEM" "v WRITE_SEM + v READ_SEM + of_bool (w_in (wat s)) + of_bool (r_in (rat s)) = 1"
    using turns_okE [OF assms(1)] assms(5) by (metis wpc.distinct)
  then have a: "v WRITE_SEM = 0" "v READ_SEM = 0" "\<not> r_in (rat s)" using assms(5) by (simp_all add: w_in_def of_bool_def split: if_split_asm)
  then have s': "s' = s\<lparr>sems := Some (v(READ_SEM := 1)), wat := W_test\<rparr>" using assms(4,5) v(1) by (simp add: writer_def release_iff)
  have p: "pending s" "pending s'" using assms(5) by (simp_all add: s' pending_def)
  have x: "rat s \<noteq> R_exit" by (rule reader_not_exited [OF assms(2)]) (simp_all add: assms(5) w_end_def)
  have "turns_ok s'" using a x by (simp add: s' turns_ok_def w_in_def)
  moreover have "data_ok i s'"
    by (rule data_ok_cong [OF assms(2)]) (use p data_okD(5,7,8) [OF assms(2)] assms(5) in \<open>simp_all add: s' w_end_def\<close>)
  moreover have "counts_ok i s'" using assms(3,5) p by (simp add: counts_ok_def s')
  moreover have "to_come s' = to_come s" using p by (simp add: to_come_def s')
  ultimately show ?thesis by (simp add: s')
qed

lemma writer_tests:
  assumes "turns_ok s" "data_ok i s" "counts_ok i s" "writer s = Some s'" "wat s = W_test"
  shows "(wat s' = W_last \<or> wat s' = W_reserve) \<and> to_come s' = to_come s \<and> turns_ok s' \<and> data_ok i s' \<and> counts_ok i s'"
proof -
  obtain v where v: "sems s = Some v" "0 \<le> v WRITE_SEM" "0 \<le> v READ_SEM" "v WRITE_SEM + v READ_SEM + of_bool (w_in (wat s)) + of_bool (r_in (rat s)) = 1"
    "cnt (shm s) = 0 \<Longrightarrow> v WRITE_SEM = 1 \<Longrightarrow> rat s = R_exit" "rat s = R_exit \<Longrightarrow> v READ_SEM = 0"
    using turns_okE [OF assms(1)] assms(5) by (metis wpc.distinct)
  have t: "v WRITE_SEM + v READ_SEM + of_bool (r_in (rat s)) = 1" using v(4) assms(5) by (simp add: w_in_def)
  note d = data_okD [OF assms(2)]
  show ?thesis
  proof (cases "cnt (shm s) = 0")
    case True
    then have s': "s' = s\<lparr>wat := W_last\<rparr>" using assms(4,5) by (simp add: writer_def)
    have p: "pending s' = pending s" using assms(5) by (simp add: s' pending_def)
    have "turns_ok s'" using v(1-3,5,6) t True by (simp add: s' turns_ok_def w_in_def)
    moreover have "data_ok i s'" by (rule data_ok_cong [OF assms(2)]) (use p d(5,7,8) assms(5) True in \<open>simp_all add: s' w_end_def\<close>)
    moreover have "counts_ok i s'" using assms(3,5) p True by (simp add: counts_ok_def s')
    moreover have "to_come s' = to_come s" using p by (simp add: to_come_def s')
    ultimately show ?thesis by (simp add: s')
  next
    case False
    then have s': "s' = s\<lparr>w_xfrs := wrap32 (w_xfrs s + 1), w_bytes := wrap32 (w_bytes s + cnt (shm s)), wat := W_reserve\<rparr>"
      using assms(4,5) by (simp add: writer_def)
    have p: "pending s' = pending s" using assms(5) by (simp add: s' pending_def)
    have c: "0 < cnt (shm s)" using False d(2) by linarith
    have "turns_ok s'" using v(1-3,6) t c by (simp add: s' turns_ok_def w_in_def)
    moreover have "data_ok i s'" by (rule data_ok_cong [OF assms(2)]) (use p d(7,8) assms(5) c in \<open>simp_all add: s' w_end_def\<close>)
    moreover have "counts_ok i s'" using assms(3,5) p False by (simp add: counts_ok_def s' algebra_simps)
    moreover have "to_come s' = to_come s" using p by (simp add: to_come_def s')
    ultimately show ?thesis by (simp add: s')
  qed
qed

lemma writer_ends:
  assumes "turns_ok s" "data_ok i s" "counts_ok i s" "writer s = Some s'" "w_end (wat s)"
  shows "w_end (wat s') \<and> to_come s' = to_come s \<and> turns_ok s' \<and> data_ok i s' \<and> counts_ok i s'"
proof -
  note d = data_okD [OF assms(2)]
  have e: "cnt (shm s) = 0" "stream (inp s) = []" using d(6) [OF assms(5)] by simp_all
  have s': "\<exists>k b w. s' = s\<lparr>sems := k, shm_key := b, wat := w\<rparr> \<and> w_end w \<and> turns_ok s' \<and> (pending s' = pending s)"
  proof (cases "wat s = W_last")
    case True
    obtain v where v: "sems s = Some v" "0 \<le> v WRITE_SEM" "0 \<le> v READ_SEM" "v WRITE_SEM + v READ_SEM + of_bool (w_in (wat s)) + of_bool (r_in (rat s)) = 1"
      "v WRITE_SEM = 1 \<Longrightarrow> rat s = R_exit" using turns_okE [OF assms(1)] True e(1) by (metis wpc.distinct)
    have "1 \<le> v WRITE_SEM" using assms(4) True v(1) by (simp add: writer_def reserve_iff split: if_split_asm)
    then have a: "v WRITE_SEM = 1" "v READ_SEM = 0" "\<not> r_in (rat s)" using v(2-4) by (auto simp: of_bool_def split: if_split_asm)
    then have "s' = s\<lparr>sems := Some (v(WRITE_SEM := 0)), wat := W_rmsem\<rparr>" using assms(4) True v(1) by (simp add: writer_def reserve_iff)
    then show ?thesis using a v(1,5) True
      by (intro exI [of _ "Some (v(WRITE_SEM := 0))"] exI [of _ "shm_key s"] exI [of _ W_rmsem]) (simp add: turns_ok_def pending_def pc_defs)
  next
    case False
    then consider "wat s = W_rmsem" | "wat s = W_rmshm" | "wat s = W_exit" using assms(5) unfolding w_end_def by blast
    then show ?thesis
    proof cases
      case 1
      obtain v where v: "sems s = Some v" "0 \<le> v WRITE_SEM" "0 \<le> v READ_SEM" "v WRITE_SEM + v READ_SEM + of_bool (w_in (wat s)) + of_bool (r_in (rat s)) = 1"
        "rat s = R_exit" using turns_okE [OF assms(1)] 1 by (metis wpc.distinct)
      have a: "v READ_SEM = 0" using v 1 by (simp add: w_in_def r_in_def)
      have "s' = s\<lparr>sems := None, wat := W_rmshm\<rparr>" using assms(4) 1 v(1) by (simp add: writer_def)
      then show ?thesis using a v(1,5) 1
        by (intro exI [of _ None] exI [of _ "shm_key s"] exI [of _ W_rmshm]) (simp add: turns_ok_def pending_def pc_defs)
    next
      case 2
      have t: "sems s = None" "rat s = R_exit" using assms(1) 2 by (simp_all add: turns_ok_def)
      have "s' = s\<lparr>shm_key := False, wat := W_exit\<rparr>" using assms(4) 2 by (simp add: writer_def)
      then show ?thesis using t 2 by (intro exI [of _ None] exI [of _ False] exI [of _ W_exit]) (simp add: turns_ok_def pending_def pc_defs)
    qed (use assms(4) in \<open>simp add: writer_def\<close>)
  qed
  then obtain k b w where s': "s' = s\<lparr>sems := k, shm_key := b, wat := w\<rparr>" "w_end w" "turns_ok s'" "pending s' = pending s" by blast
  have "data_ok i s'" by (rule data_ok_cong [OF assms(2)]) (use s'(2,4) e d(7,8) in \<open>simp_all add: s'(1)\<close>)
  moreover have "counts_ok i s'" using assms(3) s'(4) e assms(5) s'(2) by (simp add: counts_ok_def s'(1))
  moreover have "to_come s' = to_come s" using s'(4) by (simp add: to_come_def s'(1))
  ultimately show ?thesis using s'(2,3) by (simp add: s'(1))
qed

lemma writer_ok:
  assumes "xfr_ok i s" "writer s = Some s'"
  shows "xfr_ok i s'"
proof -
  note k = writer_keeps [OF assms(2)]
  show ?thesis
  proof (cases "rat s = R_error")
    case True
    then show ?thesis using assms(1) k by (simp add: xfr_ok_def)
  next
    case r: False
    show ?thesis
    proof (cases "starting (wat s)")
      case True
      then have "start_ok i s" using assms(1) r k by (simp add: xfr_ok_def)
      from writer_starts [OF this True assms(2)] show ?thesis using r k by (simp add: xfr_ok_def split: if_split_asm)
    next
      case False
      then have o: "turns_ok s" "data_ok i s" "counts_ok i s" using assms(1) r k by (simp_all add: xfr_ok_def)
      from False k consider "wat s = W_reserve" | "wat s = W_read" | "wat s = W_release" | "wat s = W_test" | "w_end (wat s)"
        by (cases "wat s") (simp_all add: starting_def w_end_def)
      then show ?thesis
      proof cases
        case 1
        from writer_reserves [OF o assms(2) 1] show ?thesis using r k by (simp add: xfr_ok_def starting_def)
      next
        case 2
        from writer_reads [OF o assms(2) 2 r] show ?thesis using r k by (simp add: xfr_ok_def starting_def split: if_split_asm)
      next
        case 3
        from writer_releases [OF o assms(2) 3] show ?thesis using r k by (simp add: xfr_ok_def starting_def)
      next
        case 4
        from writer_tests [OF o assms(2) 4] have "wat s' \<noteq> W_error" "\<not> starting (wat s')" by (auto simp: starting_def)
        then show ?thesis using writer_tests [OF o assms(2) 4] r k by (simp add: xfr_ok_def)
      next
        case 5
        from writer_ends [OF o assms(2) 5] have "wat s' \<noteq> W_error" "\<not> starting (wat s')" by (auto simp: starting_def w_end_def)
        then show ?thesis using writer_ends [OF o assms(2) 5] r k by (simp add: xfr_ok_def)
      qed
    qed
  qed
qed

lemma reader_keeps: "reader k s = Some s' \<Longrightarrow> wat s' = wat s \<and> shm s' = shm s \<and> inp s' = inp s \<and> shm_key s' = shm_key s \<and>
    w_bytes s' = w_bytes s \<and> w_xfrs s' = w_xfrs s \<and> rat s \<noteq> R_error"
  by (cases "rat s") (auto simp: reader_def Let_def split: option.split_asm prod.split_asm if_split_asm)

lemma reader_gets:
  assumes "turns_ok s" "data_ok i s" "counts_ok i s" "reader k s = Some s'" "rat s = R_semget \<or> rat s = R_shmget" "rat s' \<noteq> R_error"
  shows "to_come s' = to_come s \<and> turns_ok s' \<and> data_ok i s' \<and> counts_ok i s'"
proof -
  obtain r where s': "s' = s\<lparr>rat := r\<rparr>" "r = R_shmget \<or> r = R_reserve"
    using assms(4-6) by (auto simp: reader_def split: if_split_asm)
  have n: "r \<noteq> R_test" "r \<noteq> R_write" "r \<noteq> R_release" "r \<noteq> R_last" "r \<noteq> R_exit" using s'(2) by auto
  have n': "rat s \<noteq> R_test" "rat s \<noteq> R_write" "rat s \<noteq> R_release" "rat s \<noteq> R_last" "rat s \<noteq> R_exit" using assms(5) by auto
  have w: "wat s \<noteq> W_rmshm" "wat s \<noteq> W_exit" using assms(1) n'(5) unfolding turns_ok_def by presburger+
  obtain v where v: "sems s = Some v" "0 \<le> v WRITE_SEM" "0 \<le> v READ_SEM" "v WRITE_SEM + v READ_SEM + of_bool (w_in (wat s)) + of_bool (r_in (rat s)) = 1"
    "wat s = W_reserve \<Longrightarrow> v READ_SEM = 1 \<Longrightarrow> 0 < cnt (shm s)" "cnt (shm s) = 0 \<Longrightarrow> wat s = W_test \<or> wat s = W_last \<Longrightarrow> v WRITE_SEM = 1 \<Longrightarrow> rat s = R_exit"
    "wat s = W_rmsem \<Longrightarrow> rat s = R_exit"
    by (rule turns_okE [OF assms(1) w]) blast
  have "r_in r = r_in (rat s)" "\<not> r_in r" using n n' by (simp_all add: r_in_def)
  then have "turns_ok s'" using v n(5) n'(5) w by (auto simp: turns_ok_def s'(1))
  moreover have p: "pending s' = pending s" using n n' by (simp add: pending_def s'(1))
  moreover have "data_ok i s'" by (rule data_ok_cong [OF assms(2)]) (use p n data_okD(5,6) [OF assms(2)] in \<open>simp_all add: s'(1)\<close>)
  moreover have "counts_ok i s'" using assms(3) n n' p by (simp add: counts_ok_def s'(1))
  moreover have "to_come s' = to_come s" using p by (simp add: to_come_def s'(1))
  ultimately show ?thesis by blast
qed

lemma reader_reserves:
  assumes "turns_ok s" "data_ok i s" "counts_ok i s" "reader k s = Some s'" "rat s = R_reserve"
  shows "rat s' = R_test \<and> to_come s' = to_come s \<and> turns_ok s' \<and> data_ok i s' \<and> counts_ok i s'"
proof -
  have w: "wat s \<noteq> W_rmshm" "wat s \<noteq> W_exit" using assms(1,5) by (auto simp: turns_ok_def)
  obtain v where v: "sems s = Some v" "0 \<le> v WRITE_SEM" "0 \<le> v READ_SEM" "v WRITE_SEM + v READ_SEM + of_bool (w_in (wat s)) + of_bool (r_in (rat s)) = 1"
    "wat s = W_reserve \<Longrightarrow> v READ_SEM = 1 \<Longrightarrow> 0 < cnt (shm s)" "wat s = W_rmsem \<Longrightarrow> rat s = R_exit"
    by (rule turns_okE [OF assms(1) w]) blast
  have "1 \<le> v READ_SEM" using assms(4,5) v(1) by (simp add: reader_def reserve_iff split: if_split_asm)
  then have a: "v READ_SEM = 1" "v WRITE_SEM = 0" "\<not> w_in (wat s)" using v(2-4) by (auto simp: of_bool_def split: if_split_asm)
  then have s': "s' = s\<lparr>sems := Some (v(READ_SEM := 0)), rat := R_test\<rparr>" using assms(4,5) v(1) by (simp add: reader_def reserve_iff)
  have p: "pending s" "pending s'" using a v(1) by (simp_all add: s' pending_def)
  have "wat s \<noteq> W_rmsem" using a(3) by (simp add: w_in_def)
  then have "turns_ok s'" using a v(5) w by (simp add: s' turns_ok_def r_in_def)
  moreover have "data_ok i s'" by (rule data_ok_cong [OF assms(2)]) (use p data_okD(5,6) [OF assms(2)] in \<open>simp_all add: s'\<close>)
  moreover have "counts_ok i s'" using assms(3,5) p by (simp add: counts_ok_def s')
  moreover have "to_come s' = to_come s" using p by (simp add: to_come_def s')
  ultimately show ?thesis by (simp add: s')
qed

text \<open>The reader at work: nothing is available and the writer waits or is behind its release.\<close>

lemma reader_at_work:
  assumes "turns_ok s" "r_in (rat s)"
  obtains v where "sems s = Some v" "v WRITE_SEM = 0" "v READ_SEM = 0" "\<not> w_in (wat s)" "wat s \<noteq> W_rmshm" "wat s \<noteq> W_exit" "wat s \<noteq> W_release" "wat s \<noteq> W_rmsem"
    "wat s = W_reserve \<Longrightarrow> 0 < cnt (shm s)"
proof -
  have w: "wat s \<noteq> W_rmshm" "wat s \<noteq> W_exit" using assms by (auto simp: turns_ok_def r_in_def)
  obtain v where v: "sems s = Some v" "0 \<le> v WRITE_SEM" "0 \<le> v READ_SEM" "v WRITE_SEM + v READ_SEM + of_bool (w_in (wat s)) + of_bool (r_in (rat s)) = 1"
    "wat s = W_reserve \<Longrightarrow> r_in (rat s) \<Longrightarrow> 0 < cnt (shm s)"
    by (rule turns_okE [OF assms(1) w]) blast
  then have "v WRITE_SEM = 0" "v READ_SEM = 0" "\<not> w_in (wat s)" using assms(2) by (simp_all add: of_bool_def split: if_split_asm)
  then show ?thesis using that [of v] v(1,5) w assms(2) by (simp add: w_in_def)
qed

lemma reader_tests:
  assumes "turns_ok s" "data_ok i s" "counts_ok i s" "reader k s = Some s'" "rat s = R_test" "\<not> starting (wat s)" "wat s \<noteq> W_error"
  shows "rat s' \<noteq> R_error \<and> to_come s' = to_come s \<and> turns_ok s' \<and> data_ok i s' \<and> counts_ok i s'"
proof -
  obtain v where v: "sems s = Some v" "v WRITE_SEM = 0" "v READ_SEM = 0" "\<not> w_in (wat s)" "wat s \<noteq> W_rmshm" "wat s \<noteq> W_exit" "wat s \<noteq> W_release" "wat s \<noteq> W_rmsem"
    "wat s = W_reserve \<Longrightarrow> 0 < cnt (shm s)" using reader_at_work [OF assms(1)] assms(5) by (auto simp: r_in_def)
  note d = data_okD [OF assms(2)]
  have p: "pending s" using assms(5) by (simp add: pending_def)
  show ?thesis
  proof (cases "cnt (shm s) = 0")
    case True
    then have s': "s' = s\<lparr>rat := R_last\<rparr>" using assms(4,5) by (simp add: reader_def)
    have w: "wat s = W_test \<or> wat s = W_last" using v(4-9) True assms(6,7) by (cases "wat s") (simp_all add: starting_def w_in_def)
    have e: "stream (inp s) = []" using w d(5) [OF True] d(6) by (auto simp: w_end_def)
    have p': "\<not> pending s'" using v by (simp add: pending_def s')
    have "block s = []" using True by (simp add: block_def)
    then have "outp s = stream i" using d(4) p e by simp
    then have "data_ok i s'" using d(1) True e w p' by (auto simp: data_ok_def s' w_end_def)
    moreover have "turns_ok s'" using v by (simp add: s' turns_ok_def r_in_def)
    moreover have "counts_ok i s'" using assms(3,5) p p' True by (simp add: counts_ok_def s')
    moreover have "to_come s' = to_come s" using p p' True by (simp add: to_come_def s')
    ultimately show ?thesis by (simp add: s')
  next
    case False
    then have s': "s' = s\<lparr>r_bytes := wrap32 (r_bytes s + cnt (shm s)), rat := R_write\<rparr>" using assms(4,5) by (simp add: reader_def)
    have p': "pending s'" by (simp add: pending_def s')
    have "turns_ok s'" using v by (simp add: s' turns_ok_def r_in_def)
    moreover have "data_ok i s'" by (rule data_ok_cong [OF assms(2)]) (use p p' d(2,5,6) False in \<open>simp_all add: s'\<close>)
    moreover have "counts_ok i s'" using assms(3,5) p p' by (simp add: counts_ok_def s')
    moreover have "to_come s' = to_come s" using p p' by (simp add: to_come_def s')
    ultimately show ?thesis by (simp add: s')
  qed
qed

lemma reader_writes:
  assumes "turns_ok s" "data_ok i s" "counts_ok i s" "reader k s = Some s'" "rat s = R_write"
  shows "if rat s' = R_error then prefix (outp s') (stream i) else to_come s = Suc (to_come s') \<and> turns_ok s' \<and> data_ok i s' \<and> counts_ok i s'"
proof -
  obtain v where v: "sems s = Some v" "v WRITE_SEM = 0" "v READ_SEM = 0" "\<not> w_in (wat s)" "wat s \<noteq> W_rmshm" "wat s \<noteq> W_exit" "wat s \<noteq> W_release" "wat s \<noteq> W_rmsem"
    "wat s = W_reserve \<Longrightarrow> 0 < cnt (shm s)" using reader_at_work [OF assms(1)] assms(5) by (auto simp: r_in_def)
  note d = data_okD [OF assms(2)]
  have p: "pending s" using assms(5) by (simp add: pending_def)
  have o: "outp s @ block s @ stream (inp s) = stream i" using d(4) p by simp
  have c: "0 < cnt (shm s)" using d(7) assms(5) by simp
  show ?thesis
  proof (cases "k < nat (cnt (shm s))")
    case True
    then have "s' = s\<lparr>outp := outp s @ take k (buf (shm s)), rat := R_error\<rparr>" using assms(4,5) by (simp add: reader_def Let_def min_def)
    moreover have "take k (buf (shm s)) = take k (block s)" using True by (simp add: block_def min_def)
    then have "outp s @ take k (buf (shm s)) @ drop k (block s) @ stream (inp s) = stream i" using o by (metis append_assoc append_take_drop_id)
    then have "prefix (outp s @ take k (buf (shm s))) (stream i)" by (metis append_assoc prefixI)
    ultimately show ?thesis by simp
  next
    case False
    then have "min k (nat (cnt (shm s))) = nat (cnt (shm s))" by simp
    with False have s': "s' = s\<lparr>outp := outp s @ block s, rat := R_release\<rparr>" using assms(4,5) by (simp add: reader_def Let_def block_def)
    have p': "\<not> pending s'" using v by (simp add: pending_def s')
    have l: "int (length (block s)) = cnt (shm s)" using d(1-3) by (simp add: block_def)
    have "turns_ok s'" using v by (simp add: s' turns_ok_def r_in_def)
    moreover have "\<not> w_end (wat s)" using d(6) c by auto
    then have "data_ok i s'" using d(1-3) o p' c unfolding data_ok_def by (simp add: s')
    moreover have "counts_ok i s'" using assms(3,5) p p' l c by (simp add: counts_ok_def s')
    moreover have "to_come s = Suc (to_come s')" using p p' c by (simp add: to_come_def s')
    ultimately show ?thesis by (simp add: s')
  qed
qed

lemma reader_releases:
  assumes "turns_ok s" "data_ok i s" "counts_ok i s" "reader k s = Some s'" "rat s = R_release \<or> rat s = R_last"
  shows "rat s' \<noteq> R_error \<and> to_come s' = to_come s \<and> turns_ok s' \<and> data_ok i s' \<and> counts_ok i s'"
proof -
  obtain v where v: "sems s = Some v" "v WRITE_SEM = 0" "v READ_SEM = 0" "\<not> w_in (wat s)" "wat s \<noteq> W_rmshm" "wat s \<noteq> W_exit" "wat s \<noteq> W_release" "wat s \<noteq> W_rmsem"
    "wat s = W_reserve \<Longrightarrow> 0 < cnt (shm s)" using reader_at_work [OF assms(1)] assms(5) by (auto simp: r_in_def)
  note d = data_okD [OF assms(2)]
  have p: "\<not> pending s" using assms(5) v by (auto simp: pending_def)
  from assms(5) show ?thesis
  proof
    assume r: "rat s = R_release"
    have s': "s' = s\<lparr>sems := Some (v(WRITE_SEM := 1)), r_xfrs := wrap32 (r_xfrs s + 1), rat := R_reserve\<rparr>"
      using assms(4) r v(1,2) by (simp add: reader_def release_iff)
    have c: "0 < cnt (shm s)" using d(7) r by simp
    have p': "\<not> pending s'" using v by (simp add: pending_def s')
    have "turns_ok s'" using v c by (simp add: s' turns_ok_def r_in_def)
    moreover have "data_ok i s'" by (rule data_ok_cong [OF assms(2)]) (use p p' d(5,6) in \<open>simp_all add: s'\<close>)
    moreover have "counts_ok i s'" using assms(3) r p p' by (simp add: counts_ok_def s')
    moreover have "to_come s' = to_come s" using p p' by (simp add: to_come_def s')
    ultimately show ?thesis by (simp add: s')
  next
    assume r: "rat s = R_last"
    have s': "s' = s\<lparr>sems := Some (v(WRITE_SEM := 1)), rat := R_exit\<rparr>" using assms(4) r v(1,2) by (simp add: reader_def release_iff)
    have p': "\<not> pending s'" using v by (simp add: pending_def s')
    have w: "wat s = W_test \<or> w_end (wat s)" "cnt (shm s) = 0" using d(8) r by simp_all
    have "turns_ok s'" using v w by (auto simp: s' turns_ok_def r_in_def w_end_def)
    moreover have "data_ok i s'" by (rule data_ok_cong [OF assms(2)]) (use p p' d(5,6) w in \<open>simp_all add: s'\<close>)
    moreover have "counts_ok i s'" using assms(3) r p p' by (simp add: counts_ok_def s')
    moreover have "to_come s' = to_come s" using p p' by (simp add: to_come_def s')
    ultimately show ?thesis by (simp add: s')
  qed
qed

lemma reader_ok:
  assumes "xfr_ok i s" "reader k s = Some s'"
  shows "xfr_ok i s'"
proof -
  note q = reader_keeps [OF assms(2)]
  then have r: "rat s \<noteq> R_error" by blast
  consider "wat s = W_error" | "wat s \<noteq> W_error" "starting (wat s)" | "wat s \<noteq> W_error" "\<not> starting (wat s)" by blast
  then show ?thesis
  proof cases
    case 1
    then obtain v where "sems s = Some v" "v READ_SEM = 0" "rat s = R_semget \<or> rat s = R_shmget \<or> rat s = R_reserve" "prefix (outp s) (stream i)"
      using assms(1) r by (auto simp: xfr_ok_def)
    then show ?thesis using assms(2) 1 by (auto simp: xfr_ok_def reader_def reserve_iff split: if_split_asm)
  next
    case 2
    then have "start_ok i s" using assms(1) r by (simp add: xfr_ok_def)
    note d = start_okD [OF this]
    have "sems s' = sems s \<and> outp s' = [] \<and> r_bytes s' = 0 \<and> r_xfrs s' = 0 \<and> (rat s' = R_error \<or> rat s' = R_shmget)"
      using d assms(2) by (auto simp: reader_def split: if_split_asm)
    then show ?thesis using d q 2 by (auto simp: xfr_ok_def start_ok_def)
  next
    case 3
    then have o: "turns_ok s" "data_ok i s" "counts_ok i s" using assms(1) r by (simp_all add: xfr_ok_def)
    have "if rat s' = R_error then prefix (outp s') (stream i) else turns_ok s' \<and> data_ok i s' \<and> counts_ok i s'"
    proof (cases "rat s")
      case R_reserve
      from reader_reserves [OF o assms(2) this] show ?thesis by simp
    next
      case R_test
      from reader_tests [OF o assms(2) this 3(2,1)] show ?thesis by simp
    next
      case R_write
      from reader_writes [OF o assms(2) this] show ?thesis by (simp split: if_split_asm)
    next
      case R_exit
      then show ?thesis using assms(2) by (simp add: reader_def)
    next
      case R_release
      with reader_releases [OF o assms(2)] show ?thesis by simp
    next
      case R_last
      with reader_releases [OF o assms(2)] show ?thesis by simp
    next
      case R_semget
      then have "rat s' = R_error \<Longrightarrow> outp s' = outp s" using assms(2) by (auto simp: reader_def)
      then show ?thesis using reader_gets [OF o assms(2)] R_semget data_ok_prefix [OF o(2)] by simp
    next
      case R_shmget
      then have "rat s' = R_error \<Longrightarrow> outp s' = outp s" using assms(2) by (auto simp: reader_def)
      then show ?thesis using reader_gets [OF o assms(2)] R_shmget data_ok_prefix [OF o(2)] by simp
    qed (use r in simp)
    then show ?thesis using 3 q by (simp add: xfr_ok_def split: if_split_asm)
  qed
qed

lemma xfr_invariant: "xfr_run i s \<Longrightarrow> xfr_ok i s"
proof (induction rule: xfr_run.induct)
  case Xfr_start
  show ?case by (simp add: xfr_ok_def start_ok_def starting_def xfr_start_def)
qed (auto intro: writer_ok reader_ok)

text \<open>
  C14. The transfer is exact: in every interleaving of the writer and the reader what the reader has written is a
  beginning of the writer's input, when the reader ends normally it is the whole input, and when the writer has
  removed the semaphores the reader has ended and both report the same numbers of bytes and of transfers.
\<close>

theorem xfr_copies:
  assumes "xfr_run i s"
  shows "prefix (outp s) (stream i) \<and> (rat s = R_exit \<longrightarrow> outp s = stream i) \<and>
    (wat s = W_exit \<and> rat s \<noteq> R_error \<longrightarrow> rat s = R_exit \<and> w_bytes s = r_bytes s \<and> w_xfrs s = r_xfrs s)"
proof -
  note ok = xfr_invariant [OF assms]
  consider "rat s = R_error" | "rat s \<noteq> R_error" "wat s = W_error" | "rat s \<noteq> R_error" "wat s \<noteq> W_error" "starting (wat s)"
    | "rat s \<noteq> R_error" "wat s \<noteq> W_error" "\<not> starting (wat s)" by blast
  then show ?thesis
  proof cases
    case 3
    then have "start_ok i s" using ok by (simp add: xfr_ok_def)
    note d = start_okD [OF this]
    then show ?thesis using 3(3) by (auto simp: starting_def)
  next
    case 4
    then have o: "turns_ok s" "data_ok i s" "counts_ok i s" using ok by (simp_all add: xfr_ok_def)
    note d = data_okD [OF o(2)]
    have e: "outp s = stream i \<and> \<not> pending s \<and> stream (inp s) = []" if x: "rat s = R_exit"
    proof -
      have c: "cnt (shm s) = 0" "stream (inp s) = []" using d(5,6,8) x by blast+
      have "\<not> pending s"
      proof (cases "wat s = W_rmshm \<or> wat s = W_exit")
        case True
        then show ?thesis using o(1) x by (auto simp: pending_def turns_ok_def)
      next
        case False
        then obtain v where "sems s = Some v" "v READ_SEM = 0" using turns_okE [OF o(1)] x by blast
        moreover have "wat s \<noteq> W_release" using d(8) x by (auto simp: w_end_def)
        ultimately show ?thesis using x by (simp add: pending_def)
      qed
      then show ?thesis using d(4) c by simp
    qed
    have "rat s = R_exit \<and> w_bytes s = r_bytes s \<and> w_xfrs s = r_xfrs s" if w: "wat s = W_exit"
    proof -
      have x: "rat s = R_exit" using o(1) w by (simp add: turns_ok_def)
      then show ?thesis using e [OF x] o(3) w by (simp add: counts_ok_def)
    qed
    then show ?thesis using e data_ok_prefix [OF o(2)] by blast
  qed (use ok in \<open>auto simp: xfr_ok_def\<close>)
qed

text \<open>A bound for the steps that are left.\<close>

definition w_work :: "xfr \<Rightarrow> nat" where
  "w_work s = (let n = 4 * blocks (inp s) in
     case wat s of
       W_semget \<Rightarrow> n + 14 | W_avail \<Rightarrow> n + 13 | W_inuse \<Rightarrow> n + 12 | W_shmget \<Rightarrow> n + 11 | W_reserve \<Rightarrow> n + 10 | W_read \<Rightarrow> n + 9
     | W_release \<Rightarrow> if cnt (shm s) = 0 then 8 else n + 12 | W_test \<Rightarrow> if cnt (shm s) = 0 then 7 else n + 11
     | W_last \<Rightarrow> 6 | W_rmsem \<Rightarrow> 5 | W_rmshm \<Rightarrow> 4 | W_exit \<Rightarrow> 0 | W_error \<Rightarrow> 0)"

definition r_work :: "xfr \<Rightarrow> nat" where
  "r_work s = (let n = 4 * to_come s in
     case rat s of
       R_semget \<Rightarrow> n + 12 | R_shmget \<Rightarrow> n + 11 | R_reserve \<Rightarrow> n + 10 | R_test \<Rightarrow> n + 9 | R_write \<Rightarrow> n + 8 | R_release \<Rightarrow> n + 11
     | R_last \<Rightarrow> 8 | R_exit \<Rightarrow> 0 | R_error \<Rightarrow> 0)"

lemma writer_works:
  assumes "xfr_ok i s" "writer s = Some s'" "wat s' \<noteq> W_error" "rat s \<noteq> R_error"
  shows "w_work s' < w_work s \<and> r_work s' = r_work s"
proof -
  note k = writer_keeps [OF assms(2)]
  have t: "to_come s' = to_come s"
  proof (cases "starting (wat s)")
    case True
    then have "start_ok i s" using assms(1,4) k by (simp add: xfr_ok_def)
    from writer_starts [OF this True assms(2)] show ?thesis by blast
  next
    case False
    then have o: "turns_ok s" "data_ok i s" "counts_ok i s" using assms(1,4) k by (simp_all add: xfr_ok_def)
    from False k consider "wat s = W_reserve" | "wat s = W_read" | "wat s = W_release" | "wat s = W_test" | "w_end (wat s)"
      by (cases "wat s") (simp_all add: starting_def w_end_def)
    then show ?thesis
      using writer_reserves [OF o assms(2)] writer_reads [OF o assms(2) _ assms(4)] writer_releases [OF o assms(2)] writer_tests [OF o assms(2)]
        writer_ends [OF o assms(2)] assms(3) by cases presburger+
  qed
  then have "r_work s' = r_work s" using k by (simp add: r_work_def)
  moreover have "w_work s' < w_work s"
  proof (cases "wat s")
    case W_read
    then obtain c j where rd: "read_in (inp s) = (Some c, j)" using assms(2,3)
      by (cases "read_in (inp s)"; cases "fst (read_in (inp s))") (auto simp: writer_def)
    then show ?thesis using assms(2) W_read read_in_stream(3,4) [OF rd] by (cases "c = []") (auto simp: writer_def w_work_def)
  qed (use assms(2,3) in \<open>auto simp: writer_def w_work_def Let_def split: option.split_asm prod.split_asm if_split_asm\<close>)
  ultimately show ?thesis by blast
qed

lemma reader_works:
  assumes "xfr_ok i s" "reader k s = Some s'" "rat s' \<noteq> R_error" "wat s \<noteq> W_error"
  shows "w_work s' = w_work s \<and> r_work s' < r_work s"
proof -
  note q = reader_keeps [OF assms(2)]
  have "to_come s = to_come s' + of_bool (rat s = R_write)"
  proof (cases "starting (wat s)")
    case True
    then have "start_ok i s" using assms(1,4) q by (simp add: xfr_ok_def)
    note d = start_okD [OF this]
    then show ?thesis using q by (auto simp: to_come_def)
  next
    case False
    then have o: "turns_ok s" "data_ok i s" "counts_ok i s" using assms(1,4) q by (simp_all add: xfr_ok_def)
    from q assms(2) consider "rat s = R_semget \<or> rat s = R_shmget" | "rat s = R_reserve" | "rat s = R_test" | "rat s = R_write" | "rat s = R_release \<or> rat s = R_last"
      by (cases "rat s") (simp_all add: reader_def)
    then show ?thesis
    proof cases
      case 1
      with reader_gets [OF o assms(2) _ assms(3)] show ?thesis by auto
    next
      case 4
      with reader_writes [OF o assms(2)] assms(3) show ?thesis by simp
    next
      case 5
      with reader_releases [OF o assms(2)] show ?thesis by auto
    next
      case 2
      with reader_reserves [OF o assms(2)] show ?thesis by simp
    next
      case 3
      with reader_tests [OF o assms(2) _ False assms(4)] show ?thesis by simp
    qed
  qed
  moreover have "wat s' = wat s" "shm s' = shm s" "inp s' = inp s" using q by blast+
  then have "w_work s' = w_work s" unfolding w_work_def by presburger
  ultimately show ?thesis using assms(2,3)
    by (cases "rat s") (auto simp: reader_def r_work_def Let_def split: option.split_asm prod.split_asm if_split_asm)
qed

text \<open>While neither program has ended with an error, one of them can go on, or both are done.\<close>

lemma xfr_progress:
  assumes "xfr_ok i s" "wat s \<noteq> W_error" "rat s \<noteq> R_error" "writer s = None" "reader k s = None"
  shows "wat s = W_exit \<and> rat s = R_exit"
proof -
  have r: "rat s = R_reserve \<or> rat s = R_exit" using assms(3,5) by (cases "rat s") (auto simp: reader_def Let_def split: prod.split_asm if_split_asm)
  have w: "wat s = W_reserve \<or> wat s = W_last \<or> wat s = W_exit"
    using assms(2,4) by (cases "wat s") (auto simp: writer_def Let_def split: prod.split_asm if_split_asm option.split_asm)
  then have "\<not> starting (wat s)" by (auto simp: starting_def)
  then have o: "turns_ok s" "data_ok i s" using assms(1-3) by (simp_all add: xfr_ok_def)
  show ?thesis
  proof (cases "wat s = W_exit")
    case True
    then show ?thesis using o(1) by (simp add: turns_ok_def)
  next
    case False
    then have x: "wat s \<noteq> W_rmshm" "wat s \<noteq> W_exit" using w by auto
    obtain v where v: "sems s = Some v" "v WRITE_SEM + v READ_SEM + of_bool (w_in (wat s)) + of_bool (r_in (rat s)) = 1" "rat s = R_exit \<Longrightarrow> v READ_SEM = 0"
      "0 \<le> v WRITE_SEM" "0 \<le> v READ_SEM"
      by (rule turns_okE [OF o(1) x]) blast
    have "v WRITE_SEM < 1" using assms(4) w x(2) v(1) by (auto simp: writer_def reserve_iff split: if_split_asm)
    moreover have "\<not> w_in (wat s)" "\<not> r_in (rat s)" using r w x by (auto simp: w_in_def r_in_def)
    ultimately have "v READ_SEM = 1" using v(2,4) by simp
    moreover then have "rat s = R_reserve" using r v(3) by auto
    ultimately show ?thesis using assms(5) v(1) by (simp add: reader_def reserve_iff)
  qed
qed

text \<open>
  C27. The transfer comes to an end: in a state of a run in which neither program has ended with an error, either
  both have ended, with the whole input written, or one of them can take a step; and every step that does not
  end a program with an error lowers a bound on the number of steps that are left.
\<close>

theorem xfr_finishes:
  assumes "xfr_run i s" "wat s \<noteq> W_error" "rat s \<noteq> R_error"
  shows "(writer s = None \<and> reader k s = None \<longrightarrow> wat s = W_exit \<and> rat s = R_exit \<and> outp s = stream i) \<and>
    (writer s = Some s' \<or> reader k s = Some s' \<longrightarrow> wat s' = W_error \<or> rat s' = R_error \<or> w_work s' + r_work s' < w_work s + r_work s)"
proof -
  note ok = xfr_invariant [OF assms(1)]
  have "outp s = stream i" if "rat s = R_exit"
  proof -
    have n: "\<not> starting (wat s)" using ok assms(2,3) that by (auto simp: xfr_ok_def start_ok_def)
    then have o: "turns_ok s" "data_ok i s" using ok assms(2,3) by (simp_all add: xfr_ok_def)
    have "cnt (shm s) = 0" "stream (inp s) = []" using data_okD(5,6,8) [OF o(2)] that by blast+
    then show ?thesis using data_okD(4) [OF o(2)] by (simp add: block_def split: if_split_asm)
  qed
  then show ?thesis using xfr_progress [OF ok assms(2,3)] writer_works [OF ok _ _ assms(3)] reader_works [OF ok _ _ assms(2)]
    by (metis add_less_cancel_left add_less_cancel_right)
qed

section \<open>An example\<close>

text \<open>A sequence of turns, true for the writer; the reader's \<open>write\<close> accepts everything.\<close>

fun xfr_schedule :: "bool list \<Rightarrow> xfr \<Rightarrow> xfr option" where
  "xfr_schedule [] s = Some s"
| "xfr_schedule (b # bs) s = (case if b then writer s else reader BUF_SIZE s of None \<Rightarrow> None | Some s \<Rightarrow> xfr_schedule bs s)"

lemma xfr_schedule_run: "xfr_run i s \<Longrightarrow> xfr_schedule bs s = Some s' \<Longrightarrow> xfr_run i s'"
  by (induction bs arbitrary: s) (auto split: option.split_asm if_split_asm intro: xfr_run.intros)

lemma xfr_hi:
  "\<exists>s. xfr_schedule (replicate 8 True @ replicate 6 False @ replicate 4 True @ replicate 3 False @ replicate 3 True) (xfr_start [Some ''hi'']) = Some s \<and>
    wat s = W_exit \<and> rat s = R_exit"
proof -
  have b: "Suc (Suc 0) \<le> BUF_SIZE" "\<not> BUF_SIZE < Suc (Suc 0)" "take BUF_SIZE ''hi'' = ''hi''" by (simp_all add: BUF_SIZE_def)
  show ?thesis by (simp add: numeral_eq_Suc xfr_start_def writer_def reader_def reserve_iff release_iff initSemAvailable_def initSemInUse_def setval1_def b)
qed

theorem xfr_copies_witness:
  "\<exists>s. xfr_run [Some ''hi''] s \<and> wat s = W_exit \<and> rat s = R_exit \<and> outp s = ''hi'' \<and> w_bytes s = r_bytes s"
proof -
  obtain s where s: "xfr_schedule (replicate 8 True @ replicate 6 False @ replicate 4 True @ replicate 3 False @ replicate 3 True) (xfr_start [Some ''hi'']) = Some s"
    "wat s = W_exit" "rat s = R_exit" using xfr_hi by blast
  note r = xfr_schedule_run [OF Xfr_start s(1)]
  from xfr_copies [OF r] show ?thesis using r s(2,3) by (intro exI [of _ s]) simp
qed

theorem xfr_finishes_witness:
  "\<exists>s. writer (xfr_start [Some ''hi'']) = Some s \<and> w_work s + r_work s < w_work (xfr_start [Some ''hi'']) + r_work (xfr_start [Some ''hi''])"
proof -
  obtain s where "writer (xfr_start [Some ''hi'']) = Some s" "wat s \<noteq> W_error" "rat s \<noteq> R_error" by (simp add: writer_def xfr_start_def)
  with xfr_finishes [OF Xfr_start, of "[Some ''hi'']" 0 s] show ?thesis by (simp add: xfr_start_def)
qed

end
