(* ===== verification/Environ.thy ===== *)
theory Environ
  imports C_Prelude
begin

text \<open>
  The environment of a process: \<open>setenv\<close> and \<open>unsetenv\<close> of \<open>proc/setenv.c\<close>, over \<open>getenv\<close> and \<open>putenv\<close> of the C
  library, and \<open>execlp\<close> of \<open>procexec/execlp.c\<close>, which searches the directories of the variable \<open>PATH\<close>. The
  environment is the list of its entries; \<open>execve\<close> is a parameter that answers with an error number when the
  program cannot be executed.
\<close>

section \<open>Variables\<close>

text \<open>The test of an entry: the name, followed by an equals sign.\<close>

definition entry_of :: "string \<Rightarrow> string \<Rightarrow> bool" where
  "entry_of name e \<longleftrightarrow> take (length name) e = name \<and> length name < length e \<and> e ! length name = CHR ''=''"

definition getenv :: "string \<Rightarrow> string list \<Rightarrow> string option" where
  "getenv name env = map_option (drop (length name + 1)) (find (entry_of name) env)"

text \<open>\<open>putenv\<close> replaces the first entry of the name, or appends.\<close>

fun putenv :: "string \<Rightarrow> string list \<Rightarrow> string list" where
  "putenv es [] = [es]"
| "putenv es (e # env) = (if entry_of (takeWhile (\<lambda>c. c \<noteq> CHR ''='') es) e then es # env else e # putenv es env)"

definition bad_name :: "string option \<Rightarrow> bool" where
  "bad_name name \<longleftrightarrow> (case name of None \<Rightarrow> True | Some n \<Rightarrow> n = [] \<or> CHR ''='' \<in> set n)"

text \<open>The loop over the entries from \<open>ep\<close>; a match is removed by moving the entries behind it.\<close>

function unset_loop :: "string \<Rightarrow> nat \<Rightarrow> string list \<Rightarrow> string list" where
  "unset_loop name ep env =
     (if length env \<le> ep then env
      else if entry_of name (env ! ep) then unset_loop name ep (take ep env @ drop (Suc ep) env)
      else unset_loop name (Suc ep) env)"
  by pat_completeness auto
termination
  by (relation "measure (\<lambda>(name, ep, env). length env - ep)") auto

declare unset_loop.simps [simp del]

definition unsetenv :: "string option \<Rightarrow> string list \<Rightarrow> int \<times> string list" where
  "unsetenv name env = (if bad_name name then (-1, env) else (0, unset_loop (the name) 0 env))"

text \<open>\<open>mem\<close> says whether \<open>malloc\<close> succeeds; \<open>putenv\<close> does.\<close>

definition setenv :: "bool \<Rightarrow> string option \<Rightarrow> string option \<Rightarrow> bool \<Rightarrow> string list \<Rightarrow> int \<times> string list" where
  "setenv mem name v ow env =
     (if bad_name name \<or> v = None then (-1, env)
      else if getenv (the name) env \<noteq> None \<and> \<not> ow then (0, env)
      else
        let env = snd (unsetenv name env)
        in if \<not> mem then (-1, env) else (0, putenv (the name @ CHR ''='' # the v) env))"

lemma unset_loop_filter: "unset_loop name ep env = take ep env @ filter (\<lambda>e. \<not> entry_of name e) (drop ep env)"
proof (induction name ep env rule: unset_loop.induct)
  case (1 name ep env)
  show ?case
  proof (cases "length env \<le> ep")
    case True
    then show ?thesis by (simp add: unset_loop.simps [of name ep env])
  next
    case False
    then have d: "drop ep env = env ! ep # drop (Suc ep) env" by (simp add: Cons_nth_drop_Suc)
    show ?thesis
    proof (cases "entry_of name (env ! ep)")
      case True
      then show ?thesis using 1(1) [OF False True] False by (simp add: unset_loop.simps [of name ep env] d min_def)
    next
      case n: False
      then show ?thesis using 1(2) [OF False n] False by (simp add: unset_loop.simps [of name ep env] d take_Suc_conv_app_nth)
    qed
  qed
qed

text \<open>An entry defines at most one name.\<close>

lemma entry_of_iff: "entry_of name e \<longleftrightarrow> (\<exists>v. e = name @ CHR ''='' # v)"
proof
  assume "entry_of name e"
  then have f: "take (length name) e = name" "length name < length e" "e ! length name = CHR ''=''" by (simp_all add: entry_of_def)
  then have "e = name @ CHR ''='' # drop (Suc (length name)) e" using id_take_nth_drop [OF f(2)] by simp
  then show "\<exists>v. e = name @ CHR ''='' # v" by blast
qed (auto simp: entry_of_def)

lemma entry_of_one:
  assumes "CHR ''='' \<notin> set m" "CHR ''='' \<notin> set n" "entry_of m e" "entry_of n e"
  shows "m = n"
proof -
  have "takeWhile (\<lambda>c. c \<noteq> CHR ''='') (k @ CHR ''='' # v) = k" if "CHR ''='' \<notin> set k" for k v
    using that by (subst takeWhile_append2) auto
  then show ?thesis using assms unfolding entry_of_iff by metis
qed

lemma find_filter_other: "(\<And>e. P e \<Longrightarrow> Q e) \<Longrightarrow> find P (filter Q xs) = find P xs"
  by (induction xs) auto

lemma find_filter_none: "find P (filter (\<lambda>x. \<not> P x) xs) = None"
  by (induction xs) auto

lemma getenv_putenv_same:
  assumes "CHR ''='' \<notin> set n"
  shows "getenv n (putenv (n @ CHR ''='' # v) env) = Some v"
proof -
  have t: "takeWhile (\<lambda>c. c \<noteq> CHR ''='') (n @ CHR ''='' # v) = n" using assms by (subst takeWhile_append2) auto
  have d: "entry_of n (n @ CHR ''='' # v)" by (auto simp: entry_of_iff)
  have "find (entry_of n) (putenv (n @ CHR ''='' # v) env) = Some (n @ CHR ''='' # v)" by (induction env) (auto simp: t d)
  then show ?thesis by (simp add: getenv_def)
qed

lemma getenv_putenv_other:
  assumes "CHR ''='' \<notin> set n" "CHR ''='' \<notin> set m" "m \<noteq> n"
  shows "getenv m (putenv (n @ CHR ''='' # v) env) = getenv m env"
proof -
  have t: "takeWhile (\<lambda>c. c \<noteq> CHR ''='') (n @ CHR ''='' # v) = n" using assms(1) by (subst takeWhile_append2) auto
  have d: "\<not> entry_of m e" if "entry_of n e" for e using that entry_of_one [OF assms(2,1)] assms(3) by blast
  have n: "entry_of n (n @ CHR ''='' # v)" by (auto simp: entry_of_iff)
  have "find (entry_of m) (putenv (n @ CHR ''='' # v) env) = find (entry_of m) env" by (induction env) (auto simp: t d n)
  then show ?thesis by (simp add: getenv_def)
qed

lemma getenv_unset:
  assumes "CHR ''='' \<notin> set n" "CHR ''='' \<notin> set m"
  shows "getenv m (unset_loop n 0 env) = (if m = n then None else getenv m env)"
proof -
  have "\<not> entry_of n e" if "entry_of m e" "m \<noteq> n" for e using that entry_of_one [OF assms(2,1)] by blast
  then show ?thesis using find_filter_none [of "entry_of n" env] find_filter_other [of "entry_of m" "\<lambda>e. \<not> entry_of n e" env]
    by (simp add: getenv_def unset_loop_filter)
qed

text \<open>
  C16. The environment behaves as a map from names to values: with a name that is not empty and has no equals
  sign \<open>setenv\<close> maps it to the value, or keeps the value it has when it must not ow, \<open>unsetenv\<close> makes it
  undefined even when there were several entries, and no other name changes. With a bad name both fail and
  change nothing.
\<close>

theorem environment_is_map:
  assumes "m \<noteq> []" "CHR ''='' \<notin> set m"
  shows "getenv m (snd (setenv True (Some n) (Some v) ow env)) =
      (if bad_name (Some n) \<or> m \<noteq> n then getenv m env else if getenv n env \<noteq> None \<and> \<not> ow then getenv n env else Some v) \<and>
    getenv m (snd (unsetenv (Some n) env)) = (if bad_name (Some n) \<or> m \<noteq> n then getenv m env else None) \<and>
    fst (setenv True (Some n) (Some v) ow env) = (if bad_name (Some n) then -1 else 0) \<and>
    fst (unsetenv (Some n) env) = (if bad_name (Some n) then -1 else 0) \<and>
    length (filter (entry_of m) (snd (setenv True (Some m) (Some v) True env))) = 1"
proof -
  have t: "takeWhile (\<lambda>c. c \<noteq> CHR ''='') (m @ CHR ''='' # v) = m" using assms(2) by (subst takeWhile_append2) auto
  have d: "entry_of m (m @ CHR ''='' # v)" by (auto simp: entry_of_iff)
  have p: "putenv (m @ CHR ''='' # v) env = env @ [m @ CHR ''='' # v]" if "filter (entry_of m) env = []" for env
    using that by (induction env) (auto simp: t split: if_split_asm)
  have f: "filter (entry_of m) (filter (\<lambda>e. \<not> entry_of m e) env) = []" by simp
  have "length (filter (entry_of m) (snd (setenv True (Some m) (Some v) True env))) = 1"
    using assms p [OF f] d by (simp add: setenv_def bad_name_def unsetenv_def unset_loop_filter)
  then show ?thesis using assms getenv_unset [of n m env] getenv_putenv_same [of n v] getenv_putenv_other [of n m v]
    by (auto simp: setenv_def unsetenv_def bad_name_def Let_def)
qed

theorem environment_is_map_witness:
  "getenv ''A'' (snd (setenv True (Some ''A'') (Some ''2'') True [''A=1'', ''B=3'', ''A=4''])) = Some ''2'' \<and>
    getenv ''A'' (snd (unsetenv (Some ''A'') [''A=1'', ''B=3'', ''A=4''])) = None"
  using environment_is_map [of "''A''" "''A''" "''2''" True "[''A=1'', ''B=3'', ''A=4'']"] by (simp add: bad_name_def)

section \<open>Executing a program\<close>

datatype errno = ENOENT | EACCES | ENOEXEC | Eother nat

text \<open>A program is executed with its arguments and environment, or the call returns with an error number.\<close>

datatype exec_result = Executed string "string option list" "string list" | Failed errno

type_synonym execve = "string \<Rightarrow> string option list \<Rightarrow> string list \<Rightarrow> errno option"

text \<open>
  The arguments are stored up to the null pointer behind the last one, in an array of 100 pointers. When it is
  full it is made one pointer large, so that the next argument is stored outside.
\<close>

fun argv_loop :: "nat \<Rightarrow> string option list \<Rightarrow> string option list \<Rightarrow> fault + string option list" where
  "argv_loop argvSize argv va =
     (if last argv = None then Inr argv
      else if argvSize \<le> length argv + 1 then Inl Overflow
      else case va of [] \<Rightarrow> Inl Segv | a # va \<Rightarrow> argv_loop argvSize (argv @ [a]) va)"

declare argv_loop.simps [simp del]

definition SHELL_PATH :: string where "SHELL_PATH = ''/bin/sh''"

text \<open>The arguments for the shell, in an array of \<open>argc + 1\<close> pointers; \<open>argc\<close> counts the null pointer too.\<close>

function sh_copy :: "nat \<Rightarrow> string option list \<Rightarrow> nat \<Rightarrow> string option list \<Rightarrow> fault + string option list" where
  "sh_copy argc argv j shArgv =
     (if argc < j then Inr shArgv
      else if length shArgv \<le> j + 1 then Inl Overflow
      else sh_copy argc argv (Suc j) (shArgv[j + 1 := (if j < length argv then argv ! j else None)]))"
  by pat_completeness auto
termination
  by (relation "measure (\<lambda>(argc, argv, j, sh). Suc argc - j)") auto

declare sh_copy.simps [simp del]

definition execShScript :: "execve \<Rightarrow> string option list \<Rightarrow> string list \<Rightarrow> fault + exec_result option" where
  "execShScript execve argv envp =
     bindR (sh_copy (length argv) argv 0 ((replicate (length argv + 1) None)[0 := Some SHELL_PATH])) (\<lambda>sh.
       Inr (case execve SHELL_PATH sh envp of None \<Rightarrow> Some (Executed SHELL_PATH sh envp) | Some _ \<Rightarrow> None))"

text \<open>One attempt: the program is executed, or the error number.\<close>

definition try_exec :: "execve \<Rightarrow> string \<Rightarrow> string option list \<Rightarrow> string list \<Rightarrow> fault + exec_result" where
  "try_exec execve pathname argv envp =
     (case execve pathname argv envp of
        None \<Rightarrow> Inr (Executed pathname argv envp)
      | Some e \<Rightarrow>
          if e = ENOEXEC
          then bindR (execShScript execve argv envp) (\<lambda>r. Inr (case r of Some x \<Rightarrow> x | None \<Rightarrow> Failed e))
          else Inr (Failed e))"

text \<open>The loop over the directories, from \<open>prStart\<close>. \<open>denied\<close> is the flag \<open>fndEACCES\<close>.\<close>

function path_loop ::
  "execve \<Rightarrow> string \<Rightarrow> string option list \<Rightarrow> string list \<Rightarrow> string \<Rightarrow> bool \<Rightarrow> fault + exec_result" where
  "path_loop execve filename argv envp prStart denied =
     (let dir = takeWhile (\<lambda>c. c \<noteq> CHR '':'') prStart;
          prEnd = dropWhile (\<lambda>c. c \<noteq> CHR '':'') prStart
      in case try_exec execve ((if dir = [] then ''.'' else dir) @ ''/'' @ filename) argv envp of
           Inl x \<Rightarrow> Inl x
         | Inr (Executed p a v) \<Rightarrow> Inr (Executed p a v)
         | Inr (Failed e) \<Rightarrow>
             if prEnd = [] then Inr (Failed (if denied \<or> e = EACCES then EACCES else e))
             else path_loop execve filename argv envp (tl prEnd) (denied \<or> e = EACCES))"
  by pat_completeness auto
termination
proof (relation "measure (\<lambda>(execve, filename, argv, envp, prStart, denied). length prStart)", goal_cases)
  case (2 execve filename argv envp prStart denied dir prEnd)
  have "length prEnd \<le> length prStart" unfolding 2(2) by (rule length_dropWhile_le)
  moreover have "0 < length prEnd" using 2 by simp
  ultimately have "length prEnd - 1 < length prStart" by linarith
  then show ?case by simp
qed simp

declare path_loop.simps [simp del]

text \<open>\<open>execlp\<close>; \<open>va\<close> are the arguments behind the first, with the null pointer.\<close>

definition execlp :: "execve \<Rightarrow> string list \<Rightarrow> string \<Rightarrow> string option \<Rightarrow> string option list \<Rightarrow> fault + exec_result" where
  "execlp execve env filename arg va =
     bindR (argv_loop 100 [arg] va) (\<lambda>argv.
       if CHR ''/'' \<in> set filename then try_exec execve filename argv env
       else path_loop execve filename argv env
              (case getenv ''PATH'' env of None \<Rightarrow> ''.'' | Some p \<Rightarrow> if p = [] then ''.'' else p) False)"

section \<open>The search\<close>

lemma argv_loop_small:
  "argv \<noteq> [] \<Longrightarrow> last argv \<noteq> None \<Longrightarrow> length argv + length as < n - 1 \<Longrightarrow> argv_loop n argv (map Some as @ [None]) = Inr (argv @ map Some as @ [None])"
proof (induction as arbitrary: argv)
  case (Cons a as)
  then show ?case using Cons.IH [of "argv @ [Some a]"] by (simp add: argv_loop.simps [of n argv])
qed (simp add: argv_loop.simps)

text \<open>Ninety-nine arguments are too many.\<close>

lemma many_arguments_overflow:
  "argv \<noteq> [] \<Longrightarrow> last argv \<noteq> None \<Longrightarrow> n \<le> length argv + length as + 1 \<Longrightarrow> length argv < n \<Longrightarrow> argv_loop n argv (map Some as @ va) = Inl Overflow"
proof (induction as arbitrary: argv)
  case (Cons a as)
  then show ?case by (cases "n \<le> length argv + 1") (simp_all add: argv_loop.simps [of n argv])
qed (simp add: argv_loop.simps)

lemma script_overflows: "execShScript execve argv envp = Inl Overflow"
proof -
  have "sh_copy argc argv j sh = Inl Overflow" if "length sh = argc + 1" "j \<le> argc" for argc j sh
    using that
  proof (induction argc argv j sh rule: sh_copy.induct)
    case (1 argc argv j sh)
    note E = sh_copy.simps [of argc argv j sh]
    show ?case
    proof (cases "length sh \<le> j + 1")
      case True
      then show ?thesis using 1(3) unfolding E by simp
    next
      case False
      then show ?thesis using 1 unfolding E by simp
    qed
  qed
  then show ?thesis by (simp add: execShScript_def)
qed

text \<open>The value of \<open>PATH\<close> for a list of directories, and the pathnames to be tried.\<close>

fun path_text :: "string list \<Rightarrow> string" where
  "path_text [] = []"
| "path_text [d] = d"
| "path_text (d # ds) = d @ CHR '':'' # path_text ds"

definition candidates :: "string list \<Rightarrow> string \<Rightarrow> string list" where
  "candidates ds f = map (\<lambda>d. (if d = [] then ''.'' else d) @ ''/'' @ f) ds"

text \<open>The first pathname that can be executed; otherwise a refusal, or the last error.\<close>

definition search_result :: "(string \<Rightarrow> errno option) \<Rightarrow> (string \<Rightarrow> exec_result) \<Rightarrow> string list \<Rightarrow> bool \<Rightarrow> exec_result" where
  "search_result ex done ps denied =
     (case find (\<lambda>p. ex p = None) ps of
        Some p \<Rightarrow> done p
      | None \<Rightarrow> Failed (if denied \<or> (\<exists>p \<in> set ps. ex p = Some EACCES) then EACCES else the (ex (last ps))))"

lemma colon_split:
  assumes "CHR '':'' \<notin> set d"
  shows "takeWhile (\<lambda>c. c \<noteq> CHR '':'') (d @ CHR '':'' # t) = d" "dropWhile (\<lambda>c. c \<noteq> CHR '':'') (d @ CHR '':'' # t) = CHR '':'' # t"
    "takeWhile (\<lambda>c. c \<noteq> CHR '':'') d = d" "dropWhile (\<lambda>c. c \<noteq> CHR '':'') d = []"
proof -
  have d: "\<And>c. c \<in> set d \<Longrightarrow> c \<noteq> CHR '':''" using assms by blast
  show "takeWhile (\<lambda>c. c \<noteq> CHR '':'') (d @ CHR '':'' # t) = d" using d by (subst takeWhile_append2) auto
  show "dropWhile (\<lambda>c. c \<noteq> CHR '':'') (d @ CHR '':'' # t) = CHR '':'' # t" using d by (subst dropWhile_append2) auto
  show "takeWhile (\<lambda>c. c \<noteq> CHR '':'') d = d" "dropWhile (\<lambda>c. c \<noteq> CHR '':'') d = []" using d by auto
qed

lemma path_loop_step:
  assumes "CHR '':'' \<notin> set d" "execve ((if d = [] then ''.'' else d) @ ''/'' @ f) argv envp \<noteq> Some ENOEXEC"
  shows "path_loop execve f argv envp d denied =
      (case execve ((if d = [] then ''.'' else d) @ ''/'' @ f) argv envp of
         None \<Rightarrow> Inr (Executed ((if d = [] then ''.'' else d) @ ''/'' @ f) argv envp)
       | Some e \<Rightarrow> Inr (Failed (if denied \<or> e = EACCES then EACCES else e)))"
    "path_loop execve f argv envp (d @ CHR '':'' # t) denied =
      (case execve ((if d = [] then ''.'' else d) @ ''/'' @ f) argv envp of
         None \<Rightarrow> Inr (Executed ((if d = [] then ''.'' else d) @ ''/'' @ f) argv envp)
       | Some e \<Rightarrow> path_loop execve f argv envp t (denied \<or> e = EACCES))"
proof -
  define p where "p = (if d = [] then ''.'' else d) @ ''/'' @ f"
  have t: "try_exec execve p argv envp = (case execve p argv envp of None \<Rightarrow> Inr (Executed p argv envp) | Some e \<Rightarrow> Inr (Failed e))"
    using assms(2) unfolding p_def [symmetric] by (cases "execve p argv envp") (simp_all add: try_exec_def)
  show "path_loop execve f argv envp d denied =
      (case execve ((if d = [] then ''.'' else d) @ ''/'' @ f) argv envp of
         None \<Rightarrow> Inr (Executed ((if d = [] then ''.'' else d) @ ''/'' @ f) argv envp)
       | Some e \<Rightarrow> Inr (Failed (if denied \<or> e = EACCES then EACCES else e)))"
    by (subst path_loop.simps, unfold colon_split(3,4) [OF assms(1)] Let_def p_def [symmetric] t) (cases "execve p argv envp", simp_all)
  show "path_loop execve f argv envp (d @ CHR '':'' # t) denied =
      (case execve ((if d = [] then ''.'' else d) @ ''/'' @ f) argv envp of
         None \<Rightarrow> Inr (Executed ((if d = [] then ''.'' else d) @ ''/'' @ f) argv envp)
       | Some e \<Rightarrow> path_loop execve f argv envp t (denied \<or> e = EACCES))"
    by (subst path_loop.simps, unfold colon_split(1,2) [OF assms(1)] Let_def p_def [symmetric] t) (cases "execve p argv envp", simp_all)
qed

lemma path_loop_searches:
  assumes "ds \<noteq> []" "\<forall>d \<in> set ds. CHR '':'' \<notin> set d" "\<forall>p \<in> set (candidates ds f). execve p argv envp \<noteq> Some ENOEXEC"
  shows "path_loop execve f argv envp (path_text ds) denied =
    Inr (search_result (\<lambda>p. execve p argv envp) (\<lambda>p. Executed p argv envp) (candidates ds f) denied)"
  using assms
proof (induction ds arbitrary: denied rule: path_text.induct)
  case (2 d)
  then have d: "CHR '':'' \<notin> set d" "execve ((if d = [] then ''.'' else d) @ ''/'' @ f) argv envp \<noteq> Some ENOEXEC"
    by (simp_all add: candidates_def)
  define p where "p = (if d = [] then ''.'' else d) @ ''/'' @ f"
  have c: "candidates [d] f = [p]" by (simp add: candidates_def p_def)
  show ?case unfolding path_text.simps path_loop_step(1) [where execve = execve and f = f and argv = argv and envp = envp, OF d] c p_def [symmetric]
    by (cases "execve p argv envp") (simp_all add: search_result_def)
next
  case (3 d v va)
  then have d: "CHR '':'' \<notin> set d" "execve ((if d = [] then ''.'' else d) @ ''/'' @ f) argv envp \<noteq> Some ENOEXEC"
    by (simp_all add: candidates_def)
  define p where "p = (if d = [] then ''.'' else d) @ ''/'' @ f"
  have c: "candidates (d # v # va) f = p # candidates (v # va) f" "candidates (v # va) f \<noteq> []" by (simp_all add: candidates_def p_def)
  have IH: "path_loop execve f argv envp (path_text (v # va)) b =
      Inr (search_result (\<lambda>p. execve p argv envp) (\<lambda>p. Executed p argv envp) (candidates (v # va) f) b)" for b
    using 3(1) 3(3,4) unfolding c(1) by simp
  show ?case
  proof (cases "execve p argv envp")
    case None
    then show ?thesis unfolding path_text.simps path_loop_step(2) [where execve = execve and f = f and argv = argv and envp = envp, OF d] c(1) p_def [symmetric] by (simp add: search_result_def)
  next
    case (Some e)
    have "search_result (\<lambda>p. execve p argv envp) (\<lambda>p. Executed p argv envp) (candidates (v # va) f) (denied \<or> e = EACCES) =
        search_result (\<lambda>p. execve p argv envp) (\<lambda>p. Executed p argv envp) (p # candidates (v # va) f) denied"
      unfolding search_result_def using Some c(2) by (auto split: option.split)
    then show ?thesis unfolding path_text.simps path_loop_step(2) [where execve = execve and f = f and argv = argv and envp = envp, OF d] c(1) p_def [symmetric] Some option.case IH by simp
  qed
qed simp

text \<open>
  C17. \<open>execlp\<close> executes the first program of the search path: for a name without a slash and a variable \<open>PATH\<close>
  that lists directories, with an empty one for the current directory, the program executed is the first
  \<open>directory/name\<close> that can be executed, with the arguments and the environment of the caller. When there is
  none the error is \<open>EACCES\<close> if one of them was refused, otherwise the error of the last one. There are at most 98
  arguments, and none of the files needs the shell.
\<close>

theorem execlp_searches_path:
  assumes "getenv ''PATH'' env = Some (path_text ds)" "path_text ds \<noteq> []" "\<forall>d \<in> set ds. CHR '':'' \<notin> set d" "CHR ''/'' \<notin> set f"
    "length args < 98" "argv = map Some (a # args) @ [None]" "\<forall>p \<in> set (candidates ds f). execve p argv env \<noteq> Some ENOEXEC"
  shows "execlp execve env f (Some a) (map Some args @ [None]) =
    Inr (search_result (\<lambda>p. execve p argv env) (\<lambda>p. Executed p argv env) (candidates ds f) False)"
proof -
  have "argv_loop 100 [Some a] (map Some args @ [None]) = Inr argv" using argv_loop_small [of "[Some a]" args 100] assms(5,6) by simp
  moreover have "ds \<noteq> []" using assms(2) by auto
  ultimately show ?thesis using assms(1,2,4) path_loop_searches [where execve = execve and argv = argv and envp = env, OF _ assms(3,7)] by (simp add: execlp_def)
qed

theorem execlp_searches_path_witness:
  "execlp (\<lambda>p a v. if p = ''/b/ls'' then None else Some ENOENT) [''PATH=/a:/b''] ''ls'' (Some ''ls'') [Some ''-l'', None] =
    Inr (Executed ''/b/ls'' [Some ''ls'', Some ''-l'', None] [''PATH=/a:/b''])"
proof -
  have "getenv ''PATH'' [''PATH=/a:/b''] = Some (path_text [''/a'', ''/b''])" by (simp add: getenv_def entry_of_def)
  from execlp_searches_path [OF this, of "''ls''" "[''-l'']" "[Some ''ls'', Some ''-l'', None]" "''ls''" "\<lambda>p a v. if p = ''/b/ls'' then None else Some ENOENT"]
  show ?thesis by (simp add: search_result_def candidates_def)
qed

end
