(* ===== verification/Sock_Lib.thy ===== *)
theory Sock_Lib
  imports C_Prelude
begin

text \<open>
  The library of the socket programs: \<open>readLine\<close> (\<open>sockets/read_line.c\<close>), its buffered variant (\<open>read_line_buf.c\<close>),
  \<open>readn\<close> and \<open>writen\<close> (\<open>rdwrn.c\<close>), and the server of sequence numbers with its client (\<open>is_seqnum_sv.c\<close>,
  \<open>is_seqnum_cl.c\<close>). What the calls \<open>read\<close> and \<open>write\<close> answer are lists.
\<close>

section \<open>Lines\<close>

text \<open>The answers of reading one byte; the end of the list is the end of the stream.\<close>

datatype byte_ans = Byte char | Intr | Err

text \<open>
  The loop of \<open>readLine\<close>, with the bytes stored so far. The result is the return value, the string in the buffer
  when it has been terminated, and the answers left.
\<close>

fun line_loop :: "nat \<Rightarrow> string \<Rightarrow> byte_ans list \<Rightarrow> int \<times> string option \<times> byte_ans list" where
  "line_loop n buf [] = (if buf = [] then (0, None, []) else (int (length buf), Some buf, []))"
| "line_loop n buf (Intr # as) = line_loop n buf as"
| "line_loop n buf (Err # as) = (-1, None, as)"
| "line_loop n buf (Byte ch # as) =
     (let buf = (if length buf < n - 1 then buf @ [ch] else buf)
      in if ch = NEWLINE then (int (length buf), Some buf, as) else line_loop n buf as)"

definition readLine :: "nat \<Rightarrow> byte_ans list \<Rightarrow> int \<times> string option \<times> byte_ans list" where
  "readLine n as = (if n \<le> 0 then (-1, None, as) else line_loop n [] as)"

text \<open>
  In the code the counter \<open>totRead\<close> is the length of the buffer. When the buffer has room for the null byte
  only, the end of the stream is reported even behind bytes that were discarded.
\<close>

section \<open>The buffered variant\<close>

definition RL_MAX_BUF :: nat where "RL_MAX_BUF = 10"

record ReadLineBuf =
  buf :: string
  nxt :: nat
  len :: int

definition readLineBufInit :: "string \<Rightarrow> ReadLineBuf" where
  "readLineBufInit mem = \<lparr>buf = mem, nxt = 0, len = 0\<rparr>"

text \<open>The answers of reading a block: \<open>None\<close> is an error, the end of the list the end of the stream.\<close>

fun read_block :: "string option list \<Rightarrow> string option \<times> string option list" where
  "read_block [] = (Some [], [])"
| "read_block (None # bs) = (None, bs)"
| "read_block (Some c # bs) =
     (if c = [] then (Some [], Some c # bs)
      else (Some (take RL_MAX_BUF c), if length c \<le> RL_MAX_BUF then bs else Some (drop RL_MAX_BUF c) # bs))"

text \<open>A read when the buffer has been used up; the first part says whether there is a byte, \<open>None\<close> an error.\<close>

definition refill :: "ReadLineBuf \<Rightarrow> string option list \<Rightarrow> bool option \<times> ReadLineBuf \<times> string option list" where
  "refill rl bs =
     (if len rl \<le> int (nxt rl)
      then (case read_block bs of
              (None, bs) \<Rightarrow> (None, rl\<lparr>len := -1\<rparr>, bs)
            | (Some c, bs) \<Rightarrow>
                if c = [] then (Some False, rl\<lparr>len := 0\<rparr>, bs)
                else (Some True, rl\<lparr>buf := c @ drop (length c) (buf rl), nxt := 0, len := int (length c)\<rparr>, bs))
      else (Some True, rl, bs))"

text \<open>What is still to be read: the bytes in the buffer and those behind it.\<close>

fun stream_bytes :: "string option list \<Rightarrow> string" where
  "stream_bytes [] = []"
| "stream_bytes (None # bs) = []"
| "stream_bytes (Some c # bs) = (if c = [] then [] else c @ stream_bytes bs)"

definition buffered :: "ReadLineBuf \<Rightarrow> string" where
  "buffered rl = drop (nxt rl) (take (nat (len rl)) (buf rl))"

lemma read_block_stream:
  "read_block bs = (Some c, bs') \<Longrightarrow> stream_bytes bs = c @ stream_bytes bs' \<and> (c = [] \<longrightarrow> stream_bytes bs = [])"
  by (cases bs rule: read_block.cases) (auto simp: RL_MAX_BUF_def split: if_split_asm)

lemma refill_stream:
  assumes "refill rl bs = (Some b, rl', bs')" "len rl \<le> int (length (buf rl))"
  shows "buffered rl' @ stream_bytes bs' = buffered rl @ stream_bytes bs" "len rl' \<le> int (length (buf rl'))"
    "b \<Longrightarrow> int (nxt rl') < len rl'" "\<not> b \<Longrightarrow> buffered rl' @ stream_bytes bs' = []"
proof -
  have "buffered rl' @ stream_bytes bs' = buffered rl @ stream_bytes bs \<and> len rl' \<le> int (length (buf rl')) \<and> (b \<longrightarrow> int (nxt rl') < len rl') \<and>
      (\<not> b \<longrightarrow> buffered rl' @ stream_bytes bs' = [])"
  proof (cases "len rl \<le> int (nxt rl)")
    case True
    then have e: "buffered rl = []" by (simp add: buffered_def)
    obtain c where c: "read_block bs = (Some c, bs')"
      "rl' = (if c = [] then rl\<lparr>len := 0\<rparr> else rl\<lparr>buf := c @ drop (length c) (buf rl), nxt := 0, len := int (length c)\<rparr>)" "b = (c \<noteq> [])"
      using assms(1) True by (auto simp: refill_def split: prod.split_asm option.split_asm if_split_asm)
    then show ?thesis using read_block_stream [OF c(1)] e by (auto simp: buffered_def)
  next
    case False
    then show ?thesis using assms by (simp add: refill_def)
  qed
  then show "buffered rl' @ stream_bytes bs' = buffered rl @ stream_bytes bs" "len rl' \<le> int (length (buf rl'))"
    "b \<Longrightarrow> int (nxt rl') < len rl'" "\<not> b \<Longrightarrow> buffered rl' @ stream_bytes bs' = []" by blast+
qed

lemma refill_shrinks:
  assumes "refill rl bs = (Some True, rl', bs')"
  shows "nat (len rl' - int (nxt rl')) + length (concat (map (case_option [] id) bs')) \<le> nat (len rl - int (nxt rl)) + length (concat (map (case_option [] id) bs))"
    "int (nxt rl') < len rl'"
proof -
  have "length (concat (map (case_option [] id) bs)) = length c + length (concat (map (case_option [] id) bs'))" if "read_block bs = (Some c, bs')" for c
    using that by (cases bs rule: read_block.cases) (auto split: if_split_asm)
  then show "nat (len rl' - int (nxt rl')) + length (concat (map (case_option [] id) bs')) \<le> nat (len rl - int (nxt rl)) + length (concat (map (case_option [] id) bs))"
    "int (nxt rl') < len rl'"
    using assms by (auto simp: refill_def split: if_split_asm prod.split_asm option.split_asm)
qed

function buf_loop :: "nat \<Rightarrow> string \<Rightarrow> ReadLineBuf \<Rightarrow> string option list \<Rightarrow> int \<times> string \<times> ReadLineBuf \<times> string option list" where
  "buf_loop n buffer rl bs =
     (case refill rl bs of
        (None, rl, bs) \<Rightarrow> (-1, buffer, rl, bs)
      | (Some False, rl, bs) \<Rightarrow> (int (length buffer), buffer, rl, bs)
      | (Some True, rl, bs) \<Rightarrow>
          let c = buf rl ! nxt rl; buffer = (if length buffer < n then buffer @ [c] else buffer)
          in if c = NEWLINE then (int (length buffer), buffer, rl\<lparr>nxt := Suc (nxt rl)\<rparr>, bs)
             else buf_loop n buffer (rl\<lparr>nxt := Suc (nxt rl)\<rparr>) bs)"
  by pat_completeness auto
termination
proof (relation "measure (\<lambda>(n, buffer, rl, bs). nat (len rl - int (nxt rl)) + length (concat (map (case_option [] id) bs)))", goal_cases)
  case (2 n buffer rl bs x y x2 xa ya xb xc)
  then have r: "refill rl bs = (Some True, xa, ya)" by simp
  from refill_shrinks [OF r] show ?case by simp
qed simp

declare buf_loop.simps [simp del]

definition readLineBuf :: "nat \<Rightarrow> ReadLineBuf \<Rightarrow> string option list \<Rightarrow> int \<times> string \<times> ReadLineBuf \<times> string option list" where
  "readLineBuf n rl bs = (if n \<le> 0 then (-1, [], rl, bs) else buf_loop n [] rl bs)"

text \<open>The first line of a text, with its newline, and what is behind it.\<close>

fun first_line :: "string \<Rightarrow> string \<times> string" where
  "first_line [] = ([], [])"
| "first_line (c # t) = (if c = NEWLINE then ([c], t) else (c # fst (first_line t), snd (first_line t)))"

lemma line_loop_line:
  assumes "n = Suc (length b + k)" "b \<noteq> [] \<or> 0 < k"
  shows "line_loop n b (map Byte t) =
    (let l = b @ take k (fst (first_line t)) in (int (length l), if l = [] then None else Some l, map Byte (snd (first_line t))))"
  using assms
proof (induction t arbitrary: b k)
  case (Cons c t)
  show ?case
  proof (cases k)
    case 0
    then show ?thesis using Cons.IH [of b 0] Cons.prems by (simp add: Let_def)
  next
    case (Suc j)
    then show ?thesis using Cons.IH [of "b @ [c]" j] Cons.prems by (simp add: Let_def)
  qed
qed simp

lemma buf_loop_line:
  assumes "len rl \<le> int (length (buf rl))" "None \<notin> set bs" "length b \<le> n" "t = buffered rl @ stream_bytes bs"
  shows "\<exists>rl' bs'. buf_loop n b rl bs = (int (length (b @ take (n - length b) (fst (first_line t)))), b @ take (n - length b) (fst (first_line t)), rl', bs') \<and>
    len rl' \<le> int (length (buf rl')) \<and> None \<notin> set bs' \<and> buffered rl' @ stream_bytes bs' = snd (first_line t)"
  using assms
proof (induction n b rl bs arbitrary: t rule: buf_loop.induct)
  case (1 n b rl bs)
  obtain st rl1 bs1 where r: "refill rl bs = (st, rl1, bs1)" by (cases "refill rl bs") auto
  have nn: "st \<noteq> None" "None \<notin> set bs1" using r 1(3)
    by (cases bs rule: read_block.cases; auto simp: refill_def split: if_split_asm)+
  then obtain h where h: "st = Some h" by blast
  note R = refill_stream [OF r [unfolded h] 1(2)]
  have t: "t = buffered rl1 @ stream_bytes bs1" using R(1) 1(5) by simp
  note U = buf_loop.simps [of n b rl bs]
  show ?case
  proof (cases h)
    case False
    then have "t = []" using R(4) t by simp
    then show ?thesis using U r h False R(2) nn(2) t by simp
  next
    case True
    have lt: "int (nxt rl1) < len rl1" using R(3) True by simp
    define c where "c = buf rl1 ! nxt rl1"
    define rl2 where "rl2 = rl1\<lparr>nxt := Suc (nxt rl1)\<rparr>"
    have bf: "buffered rl1 = c # buffered rl2"
    proof -
      have "nxt rl1 < length (take (nat (len rl1)) (buf rl1))" using lt R(2) by simp
      from Cons_nth_drop_Suc [OF this] show ?thesis using lt by (simp add: buffered_def c_def rl2_def)
    qed
    define b' where "b' = (if length b < n then b @ [c] else b)"
    have l2: "len rl2 \<le> int (length (buf rl2))" using R(2) by (simp add: rl2_def)
    have m: "b @ take (n - length b) (c # l) = b' @ take (n - length b') l" for l
    proof (cases "length b < n")
      case True
      then obtain k where "n = length b + Suc k" using less_iff_Suc_add by auto
      then show ?thesis by (simp add: b'_def)
    qed (use 1(4) in \<open>simp add: b'_def\<close>)
    show ?thesis
    proof (cases "c = NEWLINE")
      case nl: True
      have "buf_loop n b rl bs = (int (length b'), b', rl2, bs1)" using U r h True nl by (simp add: Let_def c_def [symmetric] b'_def rl2_def)
      moreover have "b @ take (n - length b) (fst (first_line t)) = b'" using m [of "[]"] nl by (simp add: t bf)
      ultimately show ?thesis using l2 nn(2) nl by (simp add: t bf)
    next
      case nl: False
      have e: "buf_loop n b rl bs = buf_loop n b' rl2 bs1" using U r h True nl by (simp add: Let_def c_def [symmetric] b'_def rl2_def)
      have "length b' \<le> n" using 1(4) by (simp add: b'_def)
      have IH: "\<exists>rl' bs'. buf_loop n b' rl2 bs1 = (int (length (b' @ take (n - length b') (fst (first_line (buffered rl2 @ stream_bytes bs1))))), b' @ take (n - length b') (fst (first_line (buffered rl2 @ stream_bytes bs1))), rl', bs') \<and>
        len rl' \<le> int (length (buf rl')) \<and> None \<notin> set bs' \<and> buffered rl' @ stream_bytes bs' = snd (first_line (buffered rl2 @ stream_bytes bs1))"
        unfolding rl2_def
        by (rule 1(1) [OF r [symmetric] h _ refl c_def b'_def nl _ nn(2) \<open>length b' \<le> n\<close> refl]) (use True l2 in \<open>simp_all add: rl2_def\<close>)
      show ?thesis unfolding e using IH nl m by (simp add: t bf)
    qed
  qed
qed

text \<open>
  C28. The buffered reader of lines agrees with the plain one: on a stream without errors, in blocks of any size,
  \<open>readLineBuf\<close> with room for \<open>n\<close> bytes returns the count, stores the bytes and leaves the rest of the stream exactly
  as \<open>readLine\<close> with room for \<open>n\<close> bytes and the null byte does when it reads byte by byte.
\<close>

theorem read_line_buf_agrees:
  assumes "0 < n" "None \<notin> set bs" "len rl \<le> int (length (buf rl))"
  shows "\<exists>k b rl' bs'. readLineBuf n rl bs = (k, b, rl', bs') \<and> len rl' \<le> int (length (buf rl')) \<and> None \<notin> set bs' \<and>
    readLine (n + 1) (map Byte (buffered rl @ stream_bytes bs)) = (k, if b = [] then None else Some b, map Byte (buffered rl' @ stream_bytes bs'))"
proof -
  let ?t = "buffered rl @ stream_bytes bs"
  obtain rl' bs' where b: "buf_loop n [] rl bs = (int (length (take n (fst (first_line ?t)))), take n (fst (first_line ?t)), rl', bs')"
    "len rl' \<le> int (length (buf rl'))" "None \<notin> set bs'" "buffered rl' @ stream_bytes bs' = snd (first_line ?t)"
    using buf_loop_line [OF assms(3,2), of "[]" n ?t] by auto
  have "line_loop (n + 1) [] (map Byte ?t) =
      (int (length (take n (fst (first_line ?t)))), if take n (fst (first_line ?t)) = [] then None else Some (take n (fst (first_line ?t))), map Byte (snd (first_line ?t)))"
    using line_loop_line [of "n + 1" "[]" n ?t] assms(1) by (simp add: Let_def del: map_append)
  then show ?thesis using b assms(1) by (simp add: readLineBuf_def readLine_def del: map_append)
qed

theorem read_line_buf_agrees_witness:
  "\<exists>k b rl' bs'. readLineBuf 5 (readLineBufInit (replicate 10 NUL)) [Some ''a'', Some [NEWLINE, CHR ''b'']] = (k, b, rl', bs') \<and>
    readLine 6 [Byte (CHR ''a''), Byte NEWLINE, Byte (CHR ''b'')] = (k, if b = [] then None else Some b, map Byte (buffered rl' @ stream_bytes bs'))"
proof -
  let ?rl = "readLineBufInit (replicate 10 NUL)" and ?bs = "[Some ''a'', Some [NEWLINE, CHR ''b'']]"
  have e: "map Byte (buffered ?rl @ stream_bytes ?bs) = [Byte (CHR ''a''), Byte NEWLINE, Byte (CHR ''b'')]"
    by (simp add: readLineBufInit_def buffered_def)
  have h: "0 < (5 :: nat)" "None \<notin> set ?bs" "len ?rl \<le> int (length (buf ?rl))" by (simp_all add: readLineBufInit_def)
  obtain k b rl' bs' where "readLineBuf 5 ?rl ?bs = (k, b, rl', bs')"
    "readLine (5 + 1) (map Byte (buffered ?rl @ stream_bytes ?bs)) = (k, if b = [] then None else Some b, map Byte (buffered rl' @ stream_bytes bs'))"
    using read_line_buf_agrees [OF h] by blast
  moreover have "5 + 1 = (6 :: nat)" by simp
  ultimately show ?thesis unfolding e by metis
qed

section \<open>Whole buffers\<close>

text \<open>The answers of \<open>read\<close> for a whole buffer and of \<open>write\<close>: bytes, a number, an interruption or an error.\<close>

datatype 'a io_ans = Done 'a | Interrupted | Failure

text \<open>
  \<open>readn\<close>: the return value and the bytes stored. A call delivers no more than it is asked for; the end of the
  list is the end of the stream.
\<close>

fun rd_readn :: "nat \<Rightarrow> string \<Rightarrow> string io_ans list \<Rightarrow> int \<times> string \<times> string io_ans list" where
  "rd_readn n got [] = (int (length got), got, [])"
| "rd_readn n got (a # as) =
     (if n \<le> length got then (int (length got), got, a # as)
      else case a of
             Interrupted \<Rightarrow> rd_readn n got as
           | Failure \<Rightarrow> (-1, got, as)
           | Done c \<Rightarrow>
               if c = [] then (int (length got), got, as)
               else if length got + length c \<le> n then rd_readn n (got @ c) as
               else (int n, got @ take (n - length got) c, Done (drop (n - length got) c) # as))"

text \<open>\<open>writen\<close>: the return value and the bytes written; \<open>write\<close> accepts everything when the list is used up.\<close>

fun rd_writen :: "string \<Rightarrow> string \<Rightarrow> nat io_ans list \<Rightarrow> int \<times> string" where
  "rd_writen got out as =
     (if got = [] then (int (length out), out)
      else case as of
             [] \<Rightarrow> (int (length (out @ got)), out @ got)
           | Interrupted # as \<Rightarrow> rd_writen got out as
           | Failure # as \<Rightarrow> (-1, out)
           | Done k # as \<Rightarrow> if k = 0 then (-1, out) else rd_writen (drop k got) (out @ take k got) as)"

declare rd_writen.simps [simp del]

lemma readn_bytes:
  "rd_readn n got as = (r, b, as') \<Longrightarrow> length got \<le> n \<Longrightarrow> r \<noteq> -1 \<Longrightarrow> r = int (length b) \<and> length b \<le> n"
  by (induction as arbitrary: got) (auto split: io_ans.split_asm if_split_asm)

lemma writen_all: "rd_writen got out as = (r, w) \<Longrightarrow> r \<noteq> -1 \<Longrightarrow> w = out @ got \<and> r = int (length w)"
proof (induction as arbitrary: got out)
  case Nil
  then show ?case by (auto simp: rd_writen.simps [of got out] split: if_split_asm)
next
  case (Cons a as)
  note U = rd_writen.simps [of got out "a # as"]
  show ?case
  proof (cases a)
    case (Done k)
    then show ?thesis using Cons.IH [of "drop k got" "out @ take k got"] Cons.prems U by (auto split: if_split_asm)
  next
    case Interrupted
    then show ?thesis using Cons.IH [of got out] Cons.prems U by (auto split: if_split_asm)
  next
    case Failure
    then show ?thesis using Cons.prems U by (auto split: if_split_asm)
  qed
qed

section \<open>Sequence numbers\<close>

definition INT_LEN :: nat where "INT_LEN = 30"

text \<open>
  One client of the server: what it sends, as answers of reading a byte. The result is the text of the answer,
  \<open>None\<close> when the request is skipped, and the next sequence number, an unsigned number of 32 bits. The number is
  printed as a signed one.
\<close>

definition serve_seq :: "byte_ans list \<Rightarrow> int \<Rightarrow> string option \<times> int" where
  "serve_seq req seqNum =
     (case readLine INT_LEN req of
        (n, reqLenStr, _) \<Rightarrow>
          if n \<le> 0 then (None, seqNum)
          else
            let reqLen = atoi (the reqLenStr)
            in if reqLen \<le> 0 then (None, seqNum)
               else (Some (take (INT_LEN - 1) (dec_int (wrap32 seqNum) @ [NEWLINE])), (seqNum + reqLen) mod 2 ^ 32))"

fun serve_all :: "byte_ans list list \<Rightarrow> int \<Rightarrow> string option list \<times> int" where
  "serve_all [] seqNum = ([], seqNum)"
| "serve_all (req # reqs) seqNum =
     (let (a, seqNum) = serve_seq req seqNum; (as, seqNum) = serve_all reqs seqNum in (a # as, seqNum))"

text \<open>The client's request and the answer it displays.\<close>

definition seq_request :: "string option \<Rightarrow> string" where
  "seq_request arg = (case arg of None \<Rightarrow> ''1'' | Some s \<Rightarrow> s) @ [NEWLINE]"

definition seq_answer :: "byte_ans list \<Rightarrow> string option" where
  "seq_answer as = (case readLine INT_LEN as of (n, s, _) \<Rightarrow> if n \<le> 0 then None else s)"

text \<open>The length a client asks for, zero when its request is skipped, and the number the server has reached.\<close>

definition asked :: "byte_ans list \<Rightarrow> int" where
  "asked req = (case readLine INT_LEN req of (n, s, _) \<Rightarrow> if n \<le> 0 then 0 else max 0 (atoi (the s)))"

definition reached :: "int \<Rightarrow> byte_ans list list \<Rightarrow> int" where
  "reached s reqs = (s + sum_list (map asked reqs)) mod 2 ^ 32"

lemma asked_nonneg [simp]: "0 \<le> asked req"
  by (simp add: asked_def split: prod.split)

lemma serve_seq_asked:
  "serve_seq req s = (if asked req = 0 then (None, s)
     else (Some (take (INT_LEN - 1) (dec_int (wrap32 s) @ [NEWLINE])), (s + asked req) mod 2 ^ 32))"
  by (auto simp: serve_seq_def asked_def Let_def max_def split: prod.split)

lemma serve_all_nth:
  assumes "i < length reqs" "0 \<le> s" "s < 2 ^ 32"
  shows "fst (serve_all reqs s) ! i = (if asked (reqs ! i) = 0 then None
    else Some (take (INT_LEN - 1) (dec_int (wrap32 (reached s (take i reqs))) @ [NEWLINE])))"
  using assms
proof (induction reqs arbitrary: i s)
  case (Cons req reqs)
  show ?case
  proof (cases i)
    case 0
    then show ?thesis using Cons.prems by (simp add: serve_seq_asked reached_def split: prod.split)
  next
    case (Suc k)
    define s' where "s' = (if asked req = 0 then s else (s + asked req) mod 2 ^ 32)"
    have s': "0 \<le> s'" "s' < 2 ^ 32" using Cons.prems(2,3) by (auto simp: s'_def)
    have "reached s' (take k reqs) = reached s (take i (req # reqs))" by (simp add: reached_def s'_def Suc mod_simps add.assoc)
    moreover have "fst (serve_all (req # reqs) s) ! i = fst (serve_all reqs s') ! k"
      by (simp add: Suc serve_seq_asked s'_def split: prod.split)
    ultimately show ?thesis using Cons.IH [OF _ s', of k] Cons.prems(1) Suc by simp
  qed
qed simp

lemma seq_text_fits: "take (INT_LEN - 1) (dec_int (wrap32 s) @ [NEWLINE]) = dec_int (wrap32 s) @ [NEWLINE]"
proof -
  have "\<bar>wrap32 s\<bar> < 10 ^ 10" using wrap32_bounds [of s] by simp
  from length_dec_int [OF this] show ?thesis by (simp add: INT_LEN_def)
qed

lemma dec_int_no_newline: "NEWLINE \<notin> set (dec_int i)"
proof -
  have "NEWLINE \<notin> set (dec n)" for n using set_dec_digits [of NEWLINE n] by (auto simp: isdigit_def NEWLINE_def)
  then show ?thesis by (auto simp: dec_int_def NEWLINE_def)
qed

lemma first_line_text: "NEWLINE \<notin> set l \<Longrightarrow> first_line (l @ [NEWLINE]) = (l @ [NEWLINE], [])"
  by (induction l) auto

lemma seq_answer_text: "seq_answer (map Byte (dec_int (wrap32 s) @ [NEWLINE])) = Some (dec_int (wrap32 s) @ [NEWLINE])"
proof -
  let ?t = "dec_int (wrap32 s) @ [NEWLINE]"
  have "line_loop INT_LEN [] (map Byte ?t) = (let l = [] @ take 29 (fst (first_line ?t)) in (int (length l), if l = [] then None else Some l, map Byte (snd (first_line ?t))))"
    by (rule line_loop_line) (simp_all add: INT_LEN_def)
  moreover have "take 29 (fst (first_line ?t)) = ?t" using seq_text_fits [of s] first_line_text [OF dec_int_no_newline] by (simp add: INT_LEN_def)
  ultimately show ?thesis by (simp add: seq_answer_def readLine_def INT_LEN_def Let_def del: map_append)
qed

text \<open>
  C29. Sequence numbers are unique: whatever the clients send, a client whose request is accepted gets the number
  the server has reached, on a line of its own that the client reads back whole, and no number of its sequence is
  in the sequence of a later client, as long as all the sequences together have at most 2^32 numbers.
\<close>

theorem seq_numbers_unique:
  assumes "0 \<le> s" "s < 2 ^ 32" "sum_list (map asked reqs) \<le> 2 ^ 32" "i < j" "j < length reqs"
    "0 \<le> a" "a < asked (reqs ! i)" "0 \<le> b" "b < asked (reqs ! j)"
  shows "fst (serve_all reqs s) ! i = Some (dec_int (wrap32 (reached s (take i reqs))) @ [NEWLINE]) \<and>
    seq_answer (map Byte (the (fst (serve_all reqs s) ! i))) = fst (serve_all reqs s) ! i \<and>
    (reached s (take i reqs) + a) mod 2 ^ 32 \<noteq> (reached s (take j reqs) + b) mod 2 ^ 32"
proof -
  have i: "fst (serve_all reqs s) ! i = Some (dec_int (wrap32 (reached s (take i reqs))) @ [NEWLINE])"
    using serve_all_nth [of i reqs s, unfolded seq_text_fits] assms by auto
  define x where "x = sum_list (map asked (take i reqs)) + a"
  define y where "y = sum_list (map asked (take j reqs)) + b"
  have nn: "0 \<le> sum_list (map asked l)" for l by (induction l) simp_all
  have split: "reqs = take j reqs @ reqs ! j # drop (Suc j) reqs" using assms(5) by (rule id_take_nth_drop)
  have "sum_list (map asked reqs) = sum_list (map asked (take j reqs)) + asked (reqs ! j) + sum_list (map asked (drop (Suc j) reqs))"
    by (subst split) simp
  then have y: "y < 2 ^ 32" using assms(3,9) nn [of "drop (Suc j) reqs"] by (simp add: y_def)
  have "take j reqs = take i reqs @ reqs ! i # drop (Suc i) (take j reqs)" using id_take_nth_drop [of i "take j reqs"] assms(4,5) by (simp add: min_def)
  then have "sum_list (map asked (take j reqs)) = sum_list (map asked (take i reqs)) + asked (reqs ! i) + sum_list (map asked (drop (Suc i) (take j reqs)))"
    by (metis (no_types, lifting) add.assoc list.simps(9) map_append sum_list.Cons sum_list.append)
  then have x: "x < y" using assms(7,8) nn [of "drop (Suc i) (take j reqs)"] by (simp add: x_def y_def)
  have "0 \<le> x" using nn [of "take i reqs"] assms(6) by (simp add: x_def)
  then have "\<not> 2 ^ 32 dvd y - x" using x y by (auto dest: zdvd_imp_le)
  then have "(s + x) mod 2 ^ 32 \<noteq> (s + y) mod 2 ^ 32" by (metis add_diff_cancel_left mod_eq_dvd_iff)
  then have "(reached s (take i reqs) + a) mod 2 ^ 32 \<noteq> (reached s (take j reqs) + b) mod 2 ^ 32"
    by (simp add: reached_def x_def y_def mod_simps add.assoc)
  then show ?thesis using i seq_answer_text by simp
qed

theorem seq_numbers_unique_witness:
  "(reached 5 (take 0 [map Byte (seq_request None), map Byte (seq_request (Some ''2''))]) + 0) mod 2 ^ 32 \<noteq>
    (reached 5 (take 1 [map Byte (seq_request None), map Byte (seq_request (Some ''2''))]) + 1) mod 2 ^ 32"
proof -
  have l: "NEWLINE \<noteq> CHR ''1''" "NEWLINE \<noteq> CHR ''2''" by (simp_all add: NEWLINE_def)
  have "atoi (''1'' @ [NEWLINE]) = 1" "atoi (''2'' @ [NEWLINE]) = 2"
    by (simp_all add: atoi_def atol_def digits_val_def isspace_def isdigit_def NEWLINE_def wrap32_def)
  then have a: "asked (map Byte (seq_request None)) = 1" "asked (map Byte (seq_request (Some ''2''))) = 2"
    using l by (simp_all add: asked_def seq_request_def readLine_def INT_LEN_def Let_def)
  show ?thesis
    using seq_numbers_unique [of 5 "[map Byte (seq_request None), map Byte (seq_request (Some ''2''))]" 0 1 0 1] a by simp
qed

end
