(* ===== verification/Prod_Threads.thy ===== *)
theory Prod_Threads
  imports C_Prelude
begin

text \<open>
  Producers and a consumer over a mutex and a condition variable (\<open>threads/prod_condvar.c\<close>) and over a mutex
  with polling (\<open>threads/prod_no_condvar.c\<close>). Each program is a set of step functions, one for the main thread,
  which creates the others and consumes, and one for a producer; a step is one call of the thread library or
  the work between two calls. The sum of the arguments fits into an integer.
\<close>

section \<open>The state\<close>

text \<open>\<open>P_none\<close>: not yet created.\<close>

datatype ppc = P_none | P_lock | P_inc | P_unlock | P_signal | P_end
datatype cpc = C_create nat | C_lock | C_test | C_sleep | C_woken | C_unlock | C_exit

text \<open>\<open>mtx\<close> is the owner of the mutex: zero for the main thread, one more than the index for a producer.\<close>

record prod =
  mtx :: "nat option"
  avail :: int
  pat :: "nat \<Rightarrow> ppc"
  j :: "nat \<Rightarrow> int"
  cat :: cpc
  totRequired :: int
  numConsumed :: int
  finished :: bool

definition prod_start :: prod where
  "prod_start = \<lparr>mtx = None, avail = 0, pat = (\<lambda>_. P_none), j = (\<lambda>_. 0), cat = C_create 0, totRequired = 0, numConsumed = 0, finished = False\<rparr>"

section \<open>The threads\<close>

text \<open>A producer that makes \<open>cnt\<close> units; \<open>None\<close> when it waits or has ended. The end of the main thread ends it too.\<close>

definition next_unit :: "int \<Rightarrow> int \<Rightarrow> ppc" where
  "next_unit cnt i = (if i < cnt then P_lock else P_end)"

definition producer :: "(nat \<Rightarrow> int) \<Rightarrow> nat \<Rightarrow> prod \<Rightarrow> prod option" where
  "producer cnt t s =
     (if cat s = C_exit then None
      else case pat s t of
        P_none \<Rightarrow> None
      | P_lock \<Rightarrow> if mtx s = None then Some (s\<lparr>mtx := Some (Suc t), pat := (pat s)(t := P_inc)\<rparr>) else None
      | P_inc \<Rightarrow> Some (s\<lparr>avail := avail s + 1, pat := (pat s)(t := P_unlock)\<rparr>)
      | P_unlock \<Rightarrow> Some (s\<lparr>mtx := None, pat := (pat s)(t := P_signal)\<rparr>)
      | P_signal \<Rightarrow>
          Some (s\<lparr>cat := (if cat s = C_sleep then C_woken else cat s), j := (j s)(t := j s t + 1),
                  pat := (pat s)(t := next_unit (cnt t) (j s t + 1))\<rparr>)
      | P_end \<Rightarrow> None)"

text \<open>The inner loop: every unit that is available is consumed.\<close>

function consume :: "int \<Rightarrow> int \<Rightarrow> int \<Rightarrow> bool \<Rightarrow> int \<times> int \<times> bool" where
  "consume tot av num fin = (if 0 < av then consume tot (av - 1) (num + 1) (tot \<le> num + 1) else (av, num, fin))"
  by pat_completeness auto
termination
  by (relation "measure (\<lambda>(tot, av, num, fin). nat av)") auto

declare consume.simps [simp del]

definition consume_all :: "prod \<Rightarrow> prod" where
  "consume_all s =
     (let (av, num, fin) = consume (totRequired s) (avail s) (numConsumed s) (finished s)
      in s\<lparr>avail := av, numConsumed := num, finished := fin, cat := C_unlock\<rparr>)"

text \<open>The main thread for \<open>n\<close> arguments; \<open>None\<close> while it waits, or when it has ended.\<close>

definition main_thread :: "(nat \<Rightarrow> int) \<Rightarrow> nat \<Rightarrow> prod \<Rightarrow> prod option" where
  "main_thread cnt n s =
     (case cat s of
        C_create k \<Rightarrow>
          if k < n then Some (s\<lparr>totRequired := totRequired s + cnt k, pat := (pat s)(k := next_unit (cnt k) 0), cat := C_create (Suc k)\<rparr>)
          else Some (s\<lparr>cat := C_lock\<rparr>)
      | C_lock \<Rightarrow> if mtx s = None then Some (s\<lparr>mtx := Some 0, cat := C_test\<rparr>) else None
      | C_test \<Rightarrow> if avail s = 0 then Some (s\<lparr>mtx := None, cat := C_sleep\<rparr>) else Some (consume_all s)
      | C_sleep \<Rightarrow> None
      | C_woken \<Rightarrow> if mtx s = None then Some (s\<lparr>mtx := Some 0, cat := C_test\<rparr>) else None
      | C_unlock \<Rightarrow> Some (s\<lparr>mtx := None, cat := if finished s then C_exit else C_lock\<rparr>)
      | C_exit \<Rightarrow> None)"

text \<open>Runs. The library may wake a waiting thread without a signal.\<close>

inductive prod_run :: "(nat \<Rightarrow> int) \<Rightarrow> nat \<Rightarrow> prod \<Rightarrow> bool" for cnt n where
  Prod_start: "prod_run cnt n prod_start"
| Prod_producer: "prod_run cnt n s \<Longrightarrow> producer cnt t s = Some s' \<Longrightarrow> prod_run cnt n s'"
| Prod_main: "prod_run cnt n s \<Longrightarrow> main_thread cnt n s = Some s' \<Longrightarrow> prod_run cnt n s'"
| Prod_spurious: "prod_run cnt n s \<Longrightarrow> cat s = C_sleep \<Longrightarrow> prod_run cnt n (s\<lparr>cat := C_woken\<rparr>)"

section \<open>The polling variant\<close>

text \<open>The producer sends no signal, and the main thread does not wait for one.\<close>

definition poll_producer :: "(nat \<Rightarrow> int) \<Rightarrow> nat \<Rightarrow> prod \<Rightarrow> prod option" where
  "poll_producer cnt t s =
     (if cat s = C_exit then None
      else case pat s t of
        P_lock \<Rightarrow> if mtx s = None then Some (s\<lparr>mtx := Some (Suc t), pat := (pat s)(t := P_inc)\<rparr>) else None
      | P_inc \<Rightarrow> Some (s\<lparr>avail := avail s + 1, pat := (pat s)(t := P_unlock)\<rparr>)
      | P_unlock \<Rightarrow> Some (s\<lparr>mtx := None, j := (j s)(t := j s t + 1), pat := (pat s)(t := next_unit (cnt t) (j s t + 1))\<rparr>)
      | _ \<Rightarrow> None)"

definition poll_main :: "(nat \<Rightarrow> int) \<Rightarrow> nat \<Rightarrow> prod \<Rightarrow> prod option" where
  "poll_main cnt n s =
     (case cat s of
        C_create k \<Rightarrow>
          if k < n then Some (s\<lparr>totRequired := totRequired s + cnt k, pat := (pat s)(k := next_unit (cnt k) 0), cat := C_create (Suc k)\<rparr>)
          else Some (s\<lparr>cat := C_lock\<rparr>)
      | C_lock \<Rightarrow> if mtx s = None then Some (s\<lparr>mtx := Some 0, cat := C_test\<rparr>) else None
      | C_test \<Rightarrow> Some (consume_all s)
      | C_unlock \<Rightarrow> Some (s\<lparr>mtx := None, cat := if finished s then C_exit else C_lock\<rparr>)
      | _ \<Rightarrow> None)"

inductive spin_run :: "(nat \<Rightarrow> int) \<Rightarrow> nat \<Rightarrow> prod \<Rightarrow> bool" for cnt n where
  Poll_start: "spin_run cnt n prod_start"
| Poll_producer: "spin_run cnt n s \<Longrightarrow> poll_producer cnt t s = Some s' \<Longrightarrow> spin_run cnt n s'"
| Poll_main: "spin_run cnt n s \<Longrightarrow> poll_main cnt n s = Some s' \<Longrightarrow> spin_run cnt n s'"

lemma consume_result: "0 \<le> av \<Longrightarrow> consume tot av num fin = (0, num + av, if av = 0 then fin else tot \<le> num + av)"
  by (induction tot av num fin rule: consume.induct) (auto simp: consume.simps)

section \<open>The invariant\<close>

text \<open>The units a thread has made available.\<close>

definition made :: "prod \<Rightarrow> nat \<Rightarrow> int" where
  "made s t = j s t + of_bool (pat s t = P_unlock \<or> pat s t = P_signal)"

definition created :: "nat \<Rightarrow> cpc \<Rightarrow> nat" where
  "created n c = (case c of C_create k \<Rightarrow> k | _ \<Rightarrow> n)"

definition mutex_ok :: "prod \<Rightarrow> bool" where
  "mutex_ok s \<longleftrightarrow> (\<forall>t. mtx s = Some (Suc t) \<longleftrightarrow> pat s t = P_inc \<or> pat s t = P_unlock) \<and> (mtx s = Some 0 \<longleftrightarrow> cat s = C_test \<or> cat s = C_unlock)"

definition made_ok :: "(nat \<Rightarrow> int) \<Rightarrow> prod \<Rightarrow> bool" where
  "made_ok cnt s \<longleftrightarrow> (\<forall>t. 0 \<le> j s t \<and> (pat s t = P_none \<longrightarrow> j s t = 0) \<and> (pat s t = P_end \<longrightarrow> j s t = max 0 (cnt t)) \<and>
     (pat s t \<noteq> P_none \<and> pat s t \<noteq> P_end \<longrightarrow> j s t < cnt t))"

definition created_ok :: "(nat \<Rightarrow> int) \<Rightarrow> nat \<Rightarrow> prod \<Rightarrow> bool" where
  "created_ok cnt n s \<longleftrightarrow> created n (cat s) \<le> n \<and> (\<forall>t. pat s t = P_none \<longleftrightarrow> created n (cat s) \<le> t) \<and> totRequired s = sum cnt {..<created n (cat s)}"

definition units_ok :: "nat \<Rightarrow> prod \<Rightarrow> bool" where
  "units_ok n s \<longleftrightarrow> 0 \<le> avail s \<and> 0 \<le> numConsumed s \<and> avail s + numConsumed s = sum (made s) {..<n}"

definition finish_ok :: "prod \<Rightarrow> bool" where
  "finish_ok s \<longleftrightarrow> (if finished s then (cat s = C_unlock \<or> cat s = C_exit) \<and> totRequired s \<le> numConsumed s
     else cat s \<noteq> C_exit \<and> (numConsumed s = 0 \<or> numConsumed s < totRequired s)) \<and> ((\<exists>k. cat s = C_create k) \<longrightarrow> numConsumed s = 0)"

definition prod_ok :: "(nat \<Rightarrow> int) \<Rightarrow> nat \<Rightarrow> prod \<Rightarrow> bool" where
  "prod_ok cnt n s \<longleftrightarrow> mutex_ok s \<and> made_ok cnt s \<and> created_ok cnt n s \<and> units_ok n s \<and> finish_ok s"

definition sleep_ok :: "prod \<Rightarrow> bool" where
  "sleep_ok s \<longleftrightarrow> (cat s = C_sleep \<and> 0 < avail s \<longrightarrow> (\<exists>t. pat s t = P_unlock \<or> pat s t = P_signal))"

lemma sum_upd: "t < (n :: nat) \<Longrightarrow> sum (f(t := v)) {..<n} = sum f {..<n} - f t + (v :: int)"
  by (subst (1 2) sum.remove [of _ t]) (auto intro!: sum.cong)

lemma made_upd: "(\<And>u. u \<noteq> t \<Longrightarrow> made s' u = made s u) \<Longrightarrow> t < n \<Longrightarrow> sum (made s') {..<n} = sum (made s) {..<n} - made s t + made s' t"
proof -
  assume a: "\<And>u. u \<noteq> t \<Longrightarrow> made s' u = made s u" "t < n"
  have "made s' = (made s)(t := made s' t)" using a(1) by (auto simp: fun_eq_iff)
  then show "sum (made s') {..<n} = sum (made s) {..<n} - made s t + made s' t" using sum_upd [OF a(2), of "made s" "made s' t"] by simp
qed

lemma prod_start_ok: "prod_ok cnt n prod_start" "sleep_ok prod_start"
  by (simp_all add: prod_ok_def prod_start_def mutex_ok_def made_ok_def created_ok_def units_ok_def finish_ok_def made_def created_def sleep_ok_def)

text \<open>Producers.\<close>

lemma prod_okD:
  assumes "prod_ok cnt n s"
  shows "mtx s = Some (Suc t) \<longleftrightarrow> pat s t = P_inc \<or> pat s t = P_unlock" "mtx s = Some 0 \<longleftrightarrow> cat s = C_test \<or> cat s = C_unlock"
    "0 \<le> j s t" "pat s t = P_none \<Longrightarrow> j s t = 0" "pat s t = P_end \<Longrightarrow> j s t = max 0 (cnt t)" "pat s t \<noteq> P_none \<Longrightarrow> pat s t \<noteq> P_end \<Longrightarrow> j s t < cnt t"
    "created n (cat s) \<le> n" "pat s t = P_none \<longleftrightarrow> created n (cat s) \<le> t" "totRequired s = sum cnt {..<created n (cat s)}"
    "0 \<le> avail s" "0 \<le> numConsumed s" "avail s + numConsumed s = sum (made s) {..<n}" "finish_ok s"
  using assms unfolding prod_ok_def mutex_ok_def made_ok_def created_ok_def units_ok_def by blast+

lemma created_thread: "prod_ok cnt n s \<Longrightarrow> pat s t \<noteq> P_none \<Longrightarrow> t < n"
  using prod_okD(7) [of cnt n s] prod_okD(8) [of cnt n s t] by linarith

text \<open>A step of a producer changes its own place, and moves the mutex, the units and the counter along.\<close>

lemma producer_moves:
  assumes ok: "prod_ok cnt n s" and t: "pat s t \<noteq> P_none" "q \<noteq> P_none"
    and s': "s' = s\<lparr>mtx := m, avail := avail s + d, pat := (pat s)(t := q), j := (j s)(t := k), cat := c\<rparr>"
    and m: "m = Some (Suc t) \<longleftrightarrow> q = P_inc \<or> q = P_unlock" "\<And>x. x \<noteq> Suc t \<Longrightarrow> m = Some x \<longleftrightarrow> mtx s = Some x"
    and k: "0 \<le> k" "q = P_end \<Longrightarrow> k = max 0 (cnt t)" "q \<noteq> P_end \<Longrightarrow> k < cnt t"
    and d: "0 \<le> d" "k + of_bool (q = P_unlock \<or> q = P_signal) = made s t + d" and c: "c = cat s \<or> cat s = C_sleep \<and> c = C_woken"
  shows "prod_ok cnt n s'"
proof -
  note D = prod_okD [OF ok]
  have tn: "t < n" by (rule created_thread [OF ok t(1)])
  have c': "created n c = created n (cat s)" "c = C_test \<or> c = C_unlock \<longleftrightarrow> cat s = C_test \<or> cat s = C_unlock" "c = C_unlock \<or> c = C_exit \<longleftrightarrow> cat s = C_unlock \<or> cat s = C_exit"
    "c = C_exit \<longleftrightarrow> cat s = C_exit" "(\<exists>i. c = C_create i) \<longleftrightarrow> (\<exists>i. cat s = C_create i)"
    using c by (auto simp: created_def)
  have "mutex_ok s'" unfolding mutex_ok_def
  proof (intro conjI allI)
    fix u
    show "mtx s' = Some (Suc u) \<longleftrightarrow> pat s' u = P_inc \<or> pat s' u = P_unlock"
    proof (cases "u = t")
      case False
      then show ?thesis using D(1) [of u] m(2) [of "Suc u"] by (simp add: s')
    qed (use m(1) in \<open>simp add: s'\<close>)
    show "mtx s' = Some 0 \<longleftrightarrow> cat s' = C_test \<or> cat s' = C_unlock" using D(2) m(2) [of 0] c'(2) by (simp add: s')
  qed
  moreover have "made_ok cnt s'" unfolding made_ok_def
  proof
    fix u
    show "0 \<le> j s' u \<and> (pat s' u = P_none \<longrightarrow> j s' u = 0) \<and> (pat s' u = P_end \<longrightarrow> j s' u = max 0 (cnt u)) \<and>
      (pat s' u \<noteq> P_none \<and> pat s' u \<noteq> P_end \<longrightarrow> j s' u < cnt u)"
      by (cases "u = t") (use k t D(3-6) [of u] in \<open>simp_all add: s'\<close>)
  qed
  moreover have "created_ok cnt n s'" unfolding created_ok_def
  proof (intro conjI allI)
    show "created n (cat s') \<le> n" "totRequired s' = sum cnt {..<created n (cat s')}" using D(7,9) c'(1) by (simp_all add: s')
    fix u
    show "pat s' u = P_none \<longleftrightarrow> created n (cat s') \<le> u" by (cases "u = t") (use t D(8) [of u] c'(1) in \<open>simp_all add: s'\<close>)
  qed
  moreover have "units_ok n s'"
  proof -
    have "sum (made s') {..<n} = sum (made s) {..<n} - made s t + made s' t" by (rule made_upd) (use tn in \<open>simp_all add: s' made_def\<close>)
    moreover have "made s' t = made s t + d" using d(2) by (simp add: s' made_def)
    ultimately show ?thesis using D(10-12) d(1) by (simp add: units_ok_def s')
  qed
  moreover have "finish_ok s'" using D(13) c'(3-5) by (simp add: finish_ok_def s')
  ultimately show ?thesis by (simp add: prod_ok_def)
qed

lemma producer_ok:
  assumes "prod_ok cnt n s" "producer cnt t s = Some s'"
  shows "prod_ok cnt n s'"
proof -
  note D = prod_okD [OF assms(1)]
  show ?thesis
  proof (cases "pat s t")
    case P_lock
    then have m: "mtx s = None" and e: "s' = s\<lparr>mtx := Some (Suc t), avail := avail s + 0, pat := (pat s)(t := P_inc), j := (j s)(t := j s t), cat := cat s\<rparr>"
      using assms(2) by (auto simp: producer_def split: if_split_asm)
    show ?thesis by (rule producer_moves [OF assms(1) _ _ e]) (use D(3,6) [of t] P_lock m in \<open>simp_all add: made_def\<close>)
  next
    case P_inc
    then have "s' = s\<lparr>mtx := mtx s, avail := avail s + 1, pat := (pat s)(t := P_unlock), j := (j s)(t := j s t), cat := cat s\<rparr>"
      using assms(2) by (auto simp: producer_def split: if_split_asm)
    note e = this
    show ?thesis by (rule producer_moves [OF assms(1) _ _ e]) (use D(1,3,6) [of t] P_inc in \<open>auto simp: made_def\<close>)
  next
    case P_unlock
    then have "s' = s\<lparr>mtx := None, avail := avail s + 0, pat := (pat s)(t := P_signal), j := (j s)(t := j s t), cat := cat s\<rparr>"
      using assms(2) by (auto simp: producer_def split: if_split_asm)
    note e = this
    show ?thesis by (rule producer_moves [OF assms(1) _ _ e]) (use D(1,3,6) [of t] P_unlock in \<open>auto simp: made_def\<close>)
  next
    case P_signal
    then have s': "s' = s\<lparr>cat := (if cat s = C_sleep then C_woken else cat s), j := (j s)(t := j s t + 1), pat := (pat s)(t := next_unit (cnt t) (j s t + 1))\<rparr>"
      using assms(2) by (simp add: producer_def split: if_split_asm)
    define q where "q = next_unit (cnt t) (j s t + 1)"
    have q: "q \<noteq> P_none" "q \<noteq> P_inc" "q \<noteq> P_unlock" "q \<noteq> P_signal" "q = P_end \<longleftrightarrow> cnt t \<le> j s t + 1" by (auto simp: q_def next_unit_def)
    have l: "j s t < cnt t" "0 \<le> j s t" using D(3,6) [of t] P_signal by simp_all
    have m: "mtx s \<noteq> Some (Suc t)" using D(1) [of t] P_signal by simp
    have e: "s' = s\<lparr>mtx := mtx s, avail := avail s + 0, pat := (pat s)(t := q), j := (j s)(t := j s t + 1), cat := if cat s = C_sleep then C_woken else cat s\<rparr>"
      by (simp add: s' q_def)
    show ?thesis by (rule producer_moves [OF assms(1) _ _ e]) (use P_signal q l m in \<open>simp_all add: made_def max_def\<close>)
  qed (use assms(2) in \<open>auto simp: producer_def split: if_split_asm\<close>)
qed

text \<open>The main thread.\<close>

lemma main_moves:
  assumes ok: "prod_ok cnt n s" and s': "s' = s\<lparr>mtx := m, cat := c\<rparr>" and c: "created n c = created n (cat s)" "\<And>k. c \<noteq> C_create k"
    and m: "\<And>t. m = Some (Suc t) \<longleftrightarrow> mtx s = Some (Suc t)" "m = Some 0 \<longleftrightarrow> c = C_test \<or> c = C_unlock"
    and f: "if finished s then c = C_unlock \<or> c = C_exit else c \<noteq> C_exit"
  shows "prod_ok cnt n s'"
proof -
  note D = prod_okD [OF ok]
  have "made s' = made s" by (simp add: s' made_def fun_eq_iff)
  moreover have "mutex_ok s'" unfolding mutex_ok_def using D(1) m by (simp add: s')
  moreover have "finish_ok s'" using D(13) f c(2) by (simp add: finish_ok_def s' split: if_split_asm)
  ultimately show ?thesis using ok c(1) by (simp add: prod_ok_def made_ok_def created_ok_def units_ok_def s')
qed

lemma main_creates:
  assumes ok: "prod_ok cnt n s" and k: "cat s = C_create k" "k < n"
    and s': "s' = s\<lparr>totRequired := totRequired s + cnt k, pat := (pat s)(k := next_unit (cnt k) 0), cat := C_create (Suc k)\<rparr>"
  shows "prod_ok cnt n s'"
proof -
  note D = prod_okD [OF ok]
  have c: "created n (cat s) = k" "created n (cat s') = Suc k" using k by (simp_all add: created_def s')
  have pk: "pat s k = P_none" using D(8) [of k] c by simp
  define q where "q = next_unit (cnt k) 0"
  have q: "q \<noteq> P_none" "q \<noteq> P_inc" "q \<noteq> P_unlock" "q \<noteq> P_signal" "q = P_end \<longleftrightarrow> cnt k \<le> 0" by (auto simp: q_def next_unit_def)
  have s'': "s' = s\<lparr>totRequired := totRequired s + cnt k, pat := (pat s)(k := q), cat := C_create (Suc k)\<rparr>" by (simp add: s' q_def)
  have "made s' = made s" using pk q by (auto simp: s'' made_def fun_eq_iff)
  moreover have "mutex_ok s'" unfolding mutex_ok_def
  proof (intro conjI allI)
    fix u
    show "mtx s' = Some (Suc u) \<longleftrightarrow> pat s' u = P_inc \<or> pat s' u = P_unlock"
      by (cases "u = k") (use D(1) [of u] pk q in \<open>simp_all add: s''\<close>)
  qed (use D(2) k in \<open>simp add: s''\<close>)
  moreover have "made_ok cnt s'" unfolding made_ok_def
  proof
    fix u
    show "0 \<le> j s' u \<and> (pat s' u = P_none \<longrightarrow> j s' u = 0) \<and> (pat s' u = P_end \<longrightarrow> j s' u = max 0 (cnt u)) \<and>
      (pat s' u \<noteq> P_none \<and> pat s' u \<noteq> P_end \<longrightarrow> j s' u < cnt u)"
      by (cases "u = k") (use D(4) [OF pk] q D(3-6) [of u] in \<open>simp_all add: s''\<close>)
  qed
  moreover have "created_ok cnt n s'" unfolding created_ok_def c(2)
  proof (intro conjI allI)
    show "Suc k \<le> n" "totRequired s' = sum cnt {..<Suc k}" using k D(9) c(1) by (simp_all add: s'')
    fix u
    show "pat s' u = P_none \<longleftrightarrow> Suc k \<le> u"
    proof (cases "u = k")
      case False
      then show ?thesis using D(8) [of u] c(1) by (simp add: s'') linarith
    qed (use q in \<open>simp add: s''\<close>)
  qed
  moreover have "finish_ok s'" using D(13) k by (simp add: finish_ok_def s'' split: if_split_asm)
  ultimately show ?thesis using D(10-12) by (simp add: prod_ok_def units_ok_def s'')
qed

lemma main_consumes:
  assumes ok: "prod_ok cnt n s" and "cat s = C_test"
  shows "prod_ok cnt n (consume_all s)"
proof -
  note D = prod_okD [OF ok]
  let ?s = "consume_all s"
  have nf: "\<not> finished s" "numConsumed s = 0 \<or> numConsumed s < totRequired s" using D(13) assms(2) by (simp_all add: finish_ok_def split: if_split_asm)
  have s': "?s = s\<lparr>avail := 0, numConsumed := numConsumed s + avail s, finished := if avail s = 0 then False else totRequired s \<le> numConsumed s + avail s, cat := C_unlock\<rparr>"
    using nf(1) by (simp add: consume_all_def consume_result [OF D(10)])
  have "made ?s = made s" by (simp add: s' made_def fun_eq_iff)
  moreover have "mutex_ok ?s" using D(1,2) assms(2) by (simp add: mutex_ok_def s')
  moreover have "finish_ok ?s" using nf D(10) by (auto simp: finish_ok_def s')
  ultimately show ?thesis using ok D(10-12) assms(2) by (simp add: prod_ok_def made_ok_def created_ok_def units_ok_def created_def s')
qed

lemma main_ok:
  assumes "prod_ok cnt n s" "main_thread cnt n s = Some s'"
  shows "prod_ok cnt n s'"
proof -
  note D = prod_okD [OF assms(1)]
  have f: "finished s \<Longrightarrow> cat s = C_unlock \<or> cat s = C_exit" using D(13) by (simp add: finish_ok_def)
  show ?thesis
  proof (cases "cat s")
    case (C_create k)
    then have "k \<le> n" using D(7) by (simp add: created_def)
    show ?thesis
    proof (cases "k < n")
      case True
      show ?thesis by (rule main_creates [OF assms(1) C_create True]) (use assms(2) C_create True in \<open>auto simp: main_thread_def\<close>)
    next
      case False
      then have "s' = s\<lparr>mtx := mtx s, cat := C_lock\<rparr>" using assms(2) C_create by (simp add: main_thread_def)
      then show ?thesis by (rule main_moves [OF assms(1)]) (use C_create False \<open>k \<le> n\<close> f D(2) in \<open>auto simp: created_def\<close>)
    qed
  next
    case C_lock
    then have "mtx s = None" "s' = s\<lparr>mtx := Some 0, cat := C_test\<rparr>" using assms(2) by (simp_all add: main_thread_def split: if_split_asm)
    then show ?thesis by (intro main_moves [OF assms(1)]) (use C_lock f in \<open>auto simp: created_def\<close>)
  next
    case C_woken
    then have "mtx s = None" "s' = s\<lparr>mtx := Some 0, cat := C_test\<rparr>" using assms(2) by (simp_all add: main_thread_def split: if_split_asm)
    then show ?thesis by (intro main_moves [OF assms(1)]) (use C_woken f in \<open>auto simp: created_def\<close>)
  next
    case C_test
    show ?thesis
    proof (cases "avail s = 0")
      case True
      then have "s' = s\<lparr>mtx := None, cat := C_sleep\<rparr>" using assms(2) C_test by (simp add: main_thread_def)
      moreover have "mtx s = Some 0" using D(2) C_test by simp
      ultimately show ?thesis by (intro main_moves [OF assms(1)]) (use C_test f in \<open>auto simp: created_def\<close>)
    next
      case False
      then show ?thesis using assms(2) C_test main_consumes [OF assms(1) C_test] by (simp add: main_thread_def)
    qed
  next
    case C_unlock
    then have "s' = s\<lparr>mtx := None, cat := if finished s then C_exit else C_lock\<rparr>" using assms(2) by (simp add: main_thread_def)
    moreover have "mtx s = Some 0" using D(2) C_unlock by simp
    ultimately show ?thesis by (intro main_moves [OF assms(1)]) (use C_unlock in \<open>auto simp: created_def split: if_split_asm\<close>)
  qed (use assms(2) in \<open>simp_all add: main_thread_def\<close>)
qed

lemma producer_sleep:
  assumes "sleep_ok s" "producer cnt t s = Some s'"
  shows "sleep_ok s'"
proof (cases "pat s t")
  case P_lock
  then have "s' = s\<lparr>mtx := Some (Suc t), pat := (pat s)(t := P_inc)\<rparr>" using assms(2) by (simp add: producer_def split: if_split_asm)
  note e = this
  show ?thesis unfolding sleep_ok_def
  proof
    assume "cat s' = C_sleep \<and> 0 < avail s'"
    then obtain u where u: "pat s u = P_unlock \<or> pat s u = P_signal" using assms(1) by (auto simp: sleep_ok_def e)
    then have "u \<noteq> t" using P_lock by auto
    then show "\<exists>t. pat s' t = P_unlock \<or> pat s' t = P_signal" using u by (auto simp: e)
  qed
next
  case P_inc
  then have "pat s' t = P_unlock" using assms(2) by (auto simp: producer_def split: if_split_asm)
  then show ?thesis by (auto simp: sleep_ok_def)
next
  case P_unlock
  then have "pat s' t = P_signal" using assms(2) by (auto simp: producer_def split: if_split_asm)
  then show ?thesis by (auto simp: sleep_ok_def)
next
  case P_signal
  then have "cat s' \<noteq> C_sleep" using assms(2) by (auto simp: producer_def split: if_split_asm)
  then show ?thesis by (simp add: sleep_ok_def)
qed (use assms(2) in \<open>simp_all add: producer_def split: if_split_asm\<close>)

lemma main_sleep:
  assumes "sleep_ok s" "main_thread cnt n s = Some s'"
  shows "sleep_ok s'"
  using assms by (cases "cat s") (auto simp: main_thread_def sleep_ok_def consume_all_def Let_def split: if_split_asm prod.split_asm)

lemma prod_invariant: "prod_run cnt n s \<Longrightarrow> prod_ok cnt n s \<and> sleep_ok s"
proof (induction rule: prod_run.induct)
  case (Prod_spurious s)
  then have ok: "prod_ok cnt n s" and c: "cat s = C_sleep" by simp_all
  have "\<not> finished s" "mtx s \<noteq> Some 0" using prod_okD(2,13) [OF ok] c by (simp_all add: finish_ok_def split: if_split_asm)
  then have "prod_ok cnt n (s\<lparr>mtx := mtx s, cat := C_woken\<rparr>)" by (intro main_moves [OF ok refl]) (simp_all add: created_def c)
  then show ?case by (simp add: sleep_ok_def)
qed (auto intro: prod_start_ok producer_ok producer_sleep main_ok main_sleep)

lemma poll_invariant: "spin_run cnt n s \<Longrightarrow> prod_ok cnt n s"
proof (induction rule: spin_run.induct)
  case (Poll_producer s t s')
  note ok = Poll_producer.IH
  show ?case
  proof (cases "pat s t = P_unlock")
    case True
    note D = prod_okD [OF ok]
    define q where "q = next_unit (cnt t) (j s t + 1)"
    have q: "q \<noteq> P_none" "q \<noteq> P_inc" "q \<noteq> P_unlock" "q \<noteq> P_signal" "q = P_end \<longleftrightarrow> cnt t \<le> j s t + 1" by (auto simp: q_def next_unit_def)
    have e: "s' = s\<lparr>mtx := None, avail := avail s + 0, pat := (pat s)(t := q), j := (j s)(t := j s t + 1), cat := cat s\<rparr>"
      using Poll_producer.hyps(2) True by (auto simp: poll_producer_def q_def split: if_split_asm)
    show ?thesis by (rule producer_moves [OF ok _ _ e]) (use D(1,3,6) [of t] True q in \<open>auto simp: made_def max_def\<close>)
  next
    case False
    then have "producer cnt t s = Some s'" using Poll_producer.hyps(2) by (cases "pat s t") (simp_all add: poll_producer_def producer_def split: if_split_asm)
    then show ?thesis by (rule producer_ok [OF ok])
  qed
next
  case (Poll_main s s')
  note ok = Poll_main.IH
  show ?case
  proof (cases "cat s = C_test")
    case True
    then show ?thesis using Poll_main.hyps(2) main_consumes [OF ok True] by (simp add: poll_main_def)
  next
    case False
    then have "main_thread cnt n s = Some s'" using Poll_main.hyps(2) by (cases "cat s") (simp_all add: poll_main_def main_thread_def)
    then show ?thesis by (rule main_ok [OF ok])
  qed
qed (rule prod_start_ok)

section \<open>What the programs achieve\<close>

lemma made_le: "prod_ok cnt n s \<Longrightarrow> 0 \<le> cnt t \<Longrightarrow> made s t \<le> cnt t"
  using prod_okD(3-6) [of cnt n s t] by (cases "pat s t") (auto simp: made_def)

lemma prod_totals:
  assumes ok: "prod_ok cnt n s" and c: "\<forall>t < n. 0 \<le> cnt t"
  shows "numConsumed s + avail s \<le> sum cnt {..<n}"
    "cat s = C_exit \<Longrightarrow> numConsumed s = sum cnt {..<n} \<and> avail s = 0 \<and> (\<forall>t < n. made s t = cnt t)"
proof -
  note D = prod_okD [OF ok]
  have l: "\<And>t. t \<in> {..<n} \<Longrightarrow> made s t \<le> cnt t" using made_le [OF ok] c by simp
  have m: "sum (made s) {..<n} \<le> sum cnt {..<n}" by (rule sum_mono) (rule l)
  then show "numConsumed s + avail s \<le> sum cnt {..<n}" using D(12) by linarith
  assume x: "cat s = C_exit"
  have r: "totRequired s = sum cnt {..<n}" using D(9) by (simp only: x created_def cpc.case)
  have "finished s" "totRequired s \<le> numConsumed s" using D(13) x unfolding finish_ok_def by meson+
  then have e: "numConsumed s = sum cnt {..<n}" "avail s = 0" "sum (made s) {..<n} = sum cnt {..<n}" using D(10,12) m r by linarith+
  have "sum (\<lambda>t. cnt t - made s t) {..<n} = 0" by (simp only: sum_subtractf e(3) diff_self)
  moreover have "\<And>t. t \<in> {..<n} \<Longrightarrow> 0 \<le> cnt t - made s t" using l by (simp only: diff_ge_0_iff_ge)
  ultimately have "cnt t - made s t = 0" if "t < n" for t using that sum_nonneg_eq_0_iff [of "{..<n}" "\<lambda>t. cnt t - made s t"] by (metis finite_lessThan lessThan_iff)
  then have "made s t = cnt t" if "t < n" for t using that by fastforce
  then show "numConsumed s = sum cnt {..<n} \<and> avail s = 0 \<and> (\<forall>t < n. made s t = cnt t)" using e(1,2) by blast
qed

lemma prod_not_stuck:
  assumes ok: "prod_ok cnt n s" "sleep_ok s" and c: "\<forall>t < n. 0 \<le> cnt t" "0 < sum cnt {..<n}" and x: "cat s \<noteq> C_exit"
    and st: "\<And>t. producer cnt t s = None" "main_thread cnt n s = None"
  shows False
proof -
  note D = prod_okD [OF ok(1)]
  have p: "pat s t = P_none \<or> pat s t = P_end \<or> pat s t = P_lock \<and> mtx s \<noteq> None" for t
    using st(1) [of t] x by (cases "pat s t") (auto simp: producer_def split: if_split_asm)
  have "mtx s \<noteq> Some (Suc t)" for t using p [of t] D(1) [of t] by auto
  then have m: "mtx s = None \<or> mtx s = Some 0" by (metis not0_implies_Suc not_None_eq)
  have "cat s = C_sleep" using st(2) x m D(2) by (cases "cat s") (auto simp: main_thread_def split: if_split_asm)
  note sl = this
  then have "mtx s = None" using m D(2) by simp
  then have e: "pat s t = P_end" if "t < n" for t using p [of t] D(8) [of t] that sl by (auto simp: created_def)
  have "sum (made s) {..<n} = sum cnt {..<n}" by (rule sum.cong) (use e c(1) D(5) in \<open>auto simp: made_def\<close>)
  moreover have "\<not> (pat s t = P_unlock \<or> pat s t = P_signal)" for t using p [of t] by auto
  then have "avail s = 0" using ok(2) sl D(10) unfolding sleep_ok_def by (metis order_le_less)
  moreover have "\<not> finished s" "numConsumed s = 0 \<or> numConsumed s < totRequired s" using D(13) sl by (simp_all add: finish_ok_def split: if_split_asm)
  moreover have "totRequired s = sum cnt {..<n}" using D(9) sl by (simp add: created_def)
  ultimately show False using D(12) c(2) by simp
qed



end
