(* ===== verification/Spec2Isabelle.thy ===== *)
theory Spec2Isabelle
  imports Db_Spec Foo Rwlock Print_Client Dm9000 Semaph Dtree_Mirror Acl_Spec Open_Spec Calld_Runs Dial_Spec Call_Spec Shm_Xfr Environ Sock_Lib Prod_Threads
begin

text \<open>
  A verification development for the C programs of this repository. The repository is a collection: each
  part below is a program or library of its own. Paths are relative to \<open>src/\<close>; \<open>apue\<close> stands for
  \<open>refer_code/apue.2e\<close> and \<open>tlpi\<close> for \<open>refer_code/tlpi-dist\<close>.

  \<^bold>\<open>Conventions.\<close> A C function is a HOL function of the same name that takes the state it changes and
  returns it. An abnormal end (a dereference of a null pointer, an access outside a buffer, an exit through a
  logging function, a loop that does not end) is the left side of a sum, composed by \<open>bindR\<close>. What the
  kernel, a device or a foreign library answers is an argument of the function that asks for it. Integers are
  unbounded where the code cannot leave their range, and reduced to their width (\<open>wrap32\<close>, words) where it can.
  Threads and processes are inductive step relations: a theorem about their runs holds for every interleaving.

  \<^bold>\<open>Shared theories.\<close> \<open>C_Prelude\<close> (results, C strings, decimal conversions, byte regions), \<open>C_File\<close> (open
  files with an offset), \<open>C_Net\<close> (network byte order), \<open>C_Io\<close> (the whole-buffer loops of \<open>apue/lib/readn.c\<close>,
  \<open>writen.c\<close>, \<open>apue/ipp/util.c\<close>), \<open>C_Array\<close> (linear searches in arrays), \<open>C_Getopt\<close> (\<open>getopt\<close>
  as POSIX describes it), \<open>Fd_Pass\<close> (\<open>sendfd.c\<close>, \<open>senderr.c\<close>, \<open>recvfd.c\<close> and \<open>bufargs.c\<close> of \<open>apue/lib\<close>),
  \<open>Client_Table\<close> (the table of clients both servers have in \<open>client.c\<close>), \<open>Dll\<close> (doubly linked lists in a heap,
  with the interfaces of a job queue), \<open>Kv\<close> (the interface of a key/value store).

  \<^bold>\<open>Database library\<close> (\<open>apue/db/db.c\<close>). \<open>Db\<close> has the operations on the bytes of the index and the data file.
  \<open>Db_Layout\<close> says what the bytes mean, \<open>Db_Chain\<close> treats the hash chains and the free list above the bytes,
  \<open>Db_Correct\<close> and \<open>Db_Store\<close> relate each operation to a finite map, \<open>Db_Scan\<close> has opening and the sequential
  interface. \<open>Db_Spec\<close>: every sequence of calls answers as the map does and keeps the files consistent; the
  scan returns each record once; the contents survive reopening; long keys overflow a buffer.

  \<^bold>\<open>Thread examples\<close> (\<open>apue/threads\<close>). \<open>Rwlock\<close> is the job queue of \<open>rwlock.c\<close>, \<open>Foo\<close> the counted objects of
  \<open>mutex1.c\<close>, \<open>mutex2.c\<close>, \<open>mutex3.c\<close> and the queue of \<open>condvar.c\<close>.

  \<^bold>\<open>Print spooler\<close> (\<open>apue/ipp\<close>). \<open>Spool_Jobs\<close> and \<open>Spool_Workers\<close> are the two lists of \<open>printd.c\<close>, \<open>Ipp\<close> and
  \<open>Ipp_Status\<close> the requests to the printer and its answers, \<open>Spool\<close> the threads, \<open>Spool_Steps\<close> their
  interleavings, \<open>Print_Client\<close> the command \<open>print.c\<close> and the configuration file. \<open>Spool_Spec\<close> and
  \<open>Print_Client\<close>: an accepted job is stored as submitted and accounted for until it is printed, a restart
  finds what was complete, and the cases in which the job numbers, the list of workers and the parser of the
  answers fail.

  \<^bold>\<open>Semaphores\<close> (\<open>apue/lib/semaph.c\<close>). \<open>Semaph\<close>: each routine as its sequence of system calls, and what
  holds for processes that use it together and end at any moment.

  \<^bold>\<open>Open server\<close> (\<open>apue/open\<close>, \<open>apue/opend\<close>, \<open>apue/opend.fe/cliargs.c\<close>). \<open>Open_Server\<close> has the requests and
  both main loops; \<open>Open_Spec\<close> shows that a request opens the file the client named and brings back the
  descriptor or the message, and that neither loop loses a client.

  \<^bold>\<open>Call server\<close> (\<open>apue/calld\<close>, \<open>apue/call\<close>). \<open>Calld\<close> has the locks, the three configuration files, the options,
  the search for a device and the main loop. \<open>Calld_Spec\<close>: in every run a lock belongs to the child of a
  connected client. \<open>Calld_Request\<close>: a request gets the first device that is free. \<open>Calld_Runs\<close>: runs after which
  the tables are wrong. \<open>Calld_Dial\<close> is the child that dials, with the expect/send dialogue, and \<open>Dial_Spec\<close> shows
  that an answer is found at its first occurrence, that the timeout has no effect and that a modem is
  dialled. \<open>Call\<close> is the program of the user; \<open>Call_Spec\<close>: the server gets the options that were typed, the
  connection is transparent, and a remote text is copied as it is.

  \<^bold>\<open>Directory watcher\<close> (\<open>tlpi/inotify/inotify_dtree.c\<close>). \<open>Wl_Cache\<close> is the watch list and its interface as a
  map, \<open>Dtree\<close> the program, \<open>Dtree_Inv\<close> the effect of its operations. \<open>Dtree_Spec\<close>: the invariant of every run,
  the end of the loop over the events, the rebuilt list. \<open>Dtree_Mirror\<close>: the list follows the directories.

  \<^bold>\<open>Access control lists\<close> (\<open>tlpi/acl/acl_update.c\<close>, \<open>tlpi/users_groups/ugid_functions.c\<close>). \<open>Acl\<close> is the
  program, \<open>Acl_Spec\<close> shows what it parses and what it does to the list of a file.

  \<^bold>\<open>Shared memory transfer\<close> (\<open>tlpi/svshm\<close>, \<open>tlpi/svsem\<close>). \<open>Shm_Xfr\<close>: the binary semaphores and event flags, the writer
  and the reader as sequences of system calls. In every interleaving the reader writes what the writer reads, and
  the two neither block each other nor run for ever.

  \<^bold>\<open>Environment and execution\<close> (\<open>tlpi/proc/setenv.c\<close>, \<open>tlpi/procexec/execlp.c\<close>). \<open>Environ\<close>: the environment is a map
  for its operations, and the first program found in the directories of \<open>PATH\<close> is executed; the cases in which
  the arguments overflow their array.

  \<^bold>\<open>Socket library\<close> (\<open>tlpi/sockets\<close>). \<open>Sock_Lib\<close>: the two functions that read a line agree however the bytes
  arrive, and the server of sequence numbers never gives a number twice before they wrap around.

  \<^bold>\<open>Producers and consumer\<close> (\<open>tlpi/threads/prod_condvar.c\<close>, \<open>prod_no_condvar.c\<close>). \<open>Prod_Threads\<close>: no unit is lost, and
  with the condition variable no wakeup is.

  \<^bold>\<open>Raw memory and the network driver\<close> (\<open>io.c\<close>, \<open>uboot_analyze/dm9000x.c\<close>). \<open>Mem_Io\<close>: the accesses stay in
  the mapping, and a write is read back. \<open>Dm9000\<close>: packets are sent and received byte for byte.

  \<^bold>\<open>Bounds.\<close> The loops over the chains of the index file get the length of the file as fuel; a consistent
  chain has fewer records than that, so the theorems of \<open>Db_Spec\<close> show that the fuel is never used up. The
  loops of \<open>Ipp_Status\<close>, \<open>Mem_Io\<close> and \<open>Dm9000\<close> that wait for data or a device have their fuel as an argument, and
  the theorems that they end state how much is enough; \<open>printer_status_hangs\<close> holds for every fuel. The fuel of
  \<open>send_str\<close> bounds the nesting of its calls for the phone number, which is one unless the number refers to
  itself. All other
  loops are structural or have a termination proof.

  \<^bold>\<open>Not modelled.\<close> The accept loop of \<open>printd.c\<close>, the main programs of the open server and the call
  server, their debugging output, and the table of function pointers that \<open>dm9000x.c\<close> registers. The other example
  programs of both books demonstrate one system call each: what they show is the behaviour of the kernel,
  which is not part of the repository; of the sequence number server the set-up of its sockets is left out. The boot code is assembler and a sequence of calls to drivers that
  are not here; the hardware proxy does not compile; the scripts, pages and Lua files are exercises.
  Allocation always succeeds, and text written to the terminal or a log is left out unless a theorem is
  about it.
\<close>

end
